(* ===== verification/Prelude.thy ===== *)
theory Prelude
  imports Main "HOL-Library.Word" "HOL-Library.Multiset"
begin

section \<open>Shared vocabulary of the model\<close>

text \<open>
  What every component shares: pointers, the three awaiter addresses the library gives a
  meaning to, the exceptions of \<open>exceptions.h\<close>, linked lists over a \<open>_next\<close> field, and
  a few facts on lists and options.

  A pointer is a natural number; \<open>nullptr\<close> is 0. \<open>awaiter::instance\<close> and
  \<open>awaiter::disabled\<close> (the static objects of \<open>awaiter.h\<close>) have the addresses 1 and 2,
  and every other awaiter lives above them. A coroutine handle is its frame's address.
  Undefined behaviour (a null or freed pointer that is followed, an access out of the
  bounds of an array, a violated \<open>assert\<close>) and a loop that does not end are the value
  \<open>None\<close>: a theorem that an operation yields \<open>Some\<close> says that neither happens.
\<close>

unbundle bit_operations_syntax

named_theorems cocls_store \<open>definitions that evaluate the accesses to a concrete store\<close>

type_synonym ptr = nat
type_synonym handle = nat

abbreviation (input) nullptr :: ptr where
  "nullptr \<equiv> 0"

definition awaiter_instance :: ptr where
  "awaiter_instance = 1"

definition awaiter_disabled :: ptr where
  "awaiter_disabled = 2"

definition proper :: "ptr \<Rightarrow> bool" where
  "proper a \<longleftrightarrow> 2 < a"

lemma proper_simps [simp]:
  "\<not> proper 0" "\<not> proper awaiter_instance" "\<not> proper awaiter_disabled"
  "awaiter_instance \<noteq> 0" "awaiter_disabled \<noteq> 0"
  "awaiter_instance \<noteq> awaiter_disabled" "awaiter_disabled \<noteq> awaiter_instance"
  by (simp_all add: proper_def awaiter_instance_def awaiter_disabled_def)

lemma proper_neq [simp]:
  assumes "proper a"
  shows "a \<noteq> 0" "0 < a" "a \<noteq> awaiter_instance" "a \<noteq> awaiter_disabled"
    "awaiter_instance \<noteq> a" "awaiter_disabled \<noteq> a"
  using assms by (auto simp: proper_def awaiter_instance_def awaiter_disabled_def)

text \<open>The exceptions of the library, and those of the client.\<close>

datatype 'e exc =
    Await_canceled
  | Value_not_ready
  | No_more_values
  | No_longer_available
  | Runtime_error
  | User 'e

section \<open>Linked lists over a next field\<close>

text \<open>
  \<open>linked nx p xs q\<close>: following \<open>nx\<close> from \<open>p\<close> one meets the proper objects \<open>xs\<close>, in
  this order, and then the pointer \<open>q\<close> (null, or the marker a list ends with).
\<close>

fun linked :: "(ptr \<Rightarrow> ptr) \<Rightarrow> ptr \<Rightarrow> ptr list \<Rightarrow> ptr \<Rightarrow> bool" where
  "linked nx p [] q \<longleftrightarrow> p = q"
| "linked nx p (a # as) q \<longleftrightarrow> p = a \<and> proper a \<and> linked nx (nx a) as q"

lemma linked_proper: "linked nx p xs q \<Longrightarrow> a \<in> set xs \<Longrightarrow> proper a"
  by (induction xs arbitrary: p) auto

lemma linked_upd [simp]: "u \<notin> set xs \<Longrightarrow> linked (nx(u := v)) p xs q \<longleftrightarrow> linked nx p xs q"
  by (induction xs arbitrary: p) auto

lemma linked_cong:
  "(\<And>a. a \<in> set xs \<Longrightarrow> nx a = nx' a) \<Longrightarrow> linked nx p xs q = linked nx' p xs q"
  by (induction xs arbitrary: p) auto

lemma linked_append:
  "linked nx p (xs @ ys) q \<longleftrightarrow> (\<exists>r. linked nx p xs r \<and> linked nx r ys q)"
  by (induction xs arbitrary: p) auto

lemma linked_end: "\<not> proper q \<Longrightarrow> linked nx q xs q \<Longrightarrow> xs = []"
  by (cases xs) auto

lemma linked_unique:
  "\<not> proper q \<Longrightarrow> linked nx p xs q \<Longrightarrow> linked nx p ys q \<Longrightarrow> xs = ys"
proof (induction xs arbitrary: p ys)
  case Nil
  then show ?case using linked_end by fastforce
next
  case (Cons a as)
  then show ?case by (cases ys) auto
qed

lemma linked_tail_notin: "\<not> proper q \<Longrightarrow> linked nx (nx a) as q \<Longrightarrow> a \<notin> set as"
proof
  assume q: "\<not> proper q" and l: "linked nx (nx a) as q" and a: "a \<in> set as"
  from a obtain us vs where as: "as = us @ a # vs" by (auto simp: in_set_conv_decomp)
  with l have "linked nx (nx a) vs q" by (auto simp: linked_append)
  with q l have "vs = as" using linked_unique by blast
  with as show False by simp
qed

lemma linked_distinct: "\<not> proper q \<Longrightarrow> linked nx p xs q \<Longrightarrow> distinct xs"
  by (induction xs arbitrary: p) (auto dest: linked_tail_notin)

lemma linked_not_proper: "\<not> proper p \<Longrightarrow> linked nx p xs q \<longleftrightarrow> xs = [] \<and> p = q"
  by (cases xs) auto

lemma linked_hd: "linked nx p xs q \<Longrightarrow> p \<noteq> q \<Longrightarrow> \<exists>ys. xs = p # ys \<and> proper p \<and> linked nx (nx p) ys q"
  by (cases xs) auto

section \<open>Lists and options\<close>

lemma bind_Some_iff: "Option.bind x f = Some y \<longleftrightarrow> (\<exists>z. x = Some z \<and> f z = Some y)"
  by (cases x) auto

lemma take_Suc_nth: "n < length xs \<Longrightarrow> take (Suc n) xs = take n xs @ [xs ! n]"
  by (rule take_Suc_conv_app_nth)

lemma take_update_last: "n < length xs \<Longrightarrow> take (Suc n) (xs[n := x]) = take n xs @ [x]"
  by (simp add: take_Suc_conv_app_nth)

lemma butlast_take_nth: "xs \<noteq> [] \<Longrightarrow> take (length xs - 1) xs = butlast xs"
  by (simp add: butlast_conv_take)

lemma in_diff_neq: "y \<in># M \<Longrightarrow> y \<noteq> x \<Longrightarrow> y \<in># M - {#x#}"
  by (simp add: in_diff_count)


text \<open>A list without its element at an index.\<close>

definition remove_nth :: "nat \<Rightarrow> 'a list \<Rightarrow> 'a list" where
  "remove_nth i xs = take i xs @ drop (Suc i) xs"

lemma remove_nth_map: "map f (remove_nth i xs) = remove_nth i (map f xs)"
  by (simp add: remove_nth_def take_map drop_map)

lemma length_remove_nth [simp]: "i < length xs \<Longrightarrow> length (remove_nth i xs) = length xs - 1"
  by (simp add: remove_nth_def)

lemma set_remove_nth_subset: "set (remove_nth i xs) \<subseteq> set xs"
  by (auto simp: remove_nth_def dest: in_set_takeD in_set_dropD)

lemma set_remove_nth:
  assumes "distinct (map f xs)" and "i < length xs"
  shows "set (remove_nth i xs) = {x \<in> set xs. f x \<noteq> f (xs ! i)}" and "distinct (map f (remove_nth i xs))"
proof -
  have xs: "xs = take i xs @ xs ! i # drop (Suc i) xs" using assms(2) by (rule id_take_nth_drop)
  then have d: "distinct (map f (take i xs @ xs ! i # drop (Suc i) xs))" using assms(1) by simp
  have "set xs = set (take i xs @ xs ! i # drop (Suc i) xs)" using xs by simp
  then show "set (remove_nth i xs) = {x \<in> set xs. f x \<noteq> f (xs ! i)}" using d
    by (auto simp: remove_nth_def) (metis imageI)+
  show "distinct (map f (remove_nth i xs))" using d by (simp add: remove_nth_def)
qed

end
