(* ===== verification/Coro_Queue.thy ===== *)
theory Coro_Queue
  imports Prelude
begin

section \<open>coro_queue: the queue of ready coroutines of a thread\<close>

text \<open>
  The thread-local state of \<open>coro_queue.h\<close>. \<open>coro_queue::instance\<close> is null or points to
  the one \<open>queue_impl::instance\<close> of the thread, so a boolean says which; the deque is the
  list \<open>cq\<close>, front first. \<open>world\<close> is everything else the coroutines of the thread touch.

  What \<open>h.resume()\<close> executes is the client's coroutine body, a parameter of the model:
  a \<open>body\<close> runs one coroutine up to its next suspension and yields the
  handle that \<open>await_suspend\<close> returned for symmetric transfer, or \<open>None\<close> for
  \<open>noop_coroutine\<close>. A body that does not come back makes the call \<open>None\<close>.
\<close>

record 'w tls =
  active :: bool
  cq :: "handle list"
  world :: 'w

type_synonym 'w runner = "handle \<Rightarrow> 'w tls \<Rightarrow> 'w tls option"
type_synonym 'w body = "handle \<Rightarrow> 'w tls \<Rightarrow> ('w tls \<times> handle option) option"

subsection \<open>Operations\<close>

text \<open>The language's \<open>coroutine_handle::resume\<close> with symmetric transfer.\<close>

partial_function (option) coro_resume :: "'w body \<Rightarrow> handle \<Rightarrow> 'w tls \<Rightarrow> 'w tls option" where
  "coro_resume body h s =
     Option.bind (body h s) (\<lambda>(s', next).
       case next of None \<Rightarrow> Some s' | Some h' \<Rightarrow> coro_resume body h' s')"

partial_function (option) flush_queue :: "'w runner \<Rightarrow> 'w tls \<Rightarrow> 'w tls option" where
  "flush_queue run s =
     (case cq s of
        [] \<Rightarrow> Some s
      | h # q \<Rightarrow> Option.bind (run h (s\<lparr>cq := q\<rparr>)) (\<lambda>s'. flush_queue run s'))"

definition queue_push :: "handle \<Rightarrow> 'w tls \<Rightarrow> 'w tls" where
  "queue_push h s = s\<lparr>cq := cq s @ [h]\<rparr>"

definition is_active :: "'w tls \<Rightarrow> bool" where
  "is_active s \<longleftrightarrow> active s"

text \<open>The trailer runs when the function is left: it flushes, then restores \<open>instance\<close>.\<close>

definition install_queue_and_call ::
    "'w runner \<Rightarrow> ('w tls \<Rightarrow> ('r \<times> 'w tls) option) \<Rightarrow> 'w tls \<Rightarrow> ('r \<times> 'w tls) option" where
  "install_queue_and_call run fn s =
     (let prev = active s in
      Option.bind (fn (s\<lparr>active := True\<rparr>)) (\<lambda>(r, s1).
      Option.bind (flush_queue run s1) (\<lambda>s2. Some (r, s2\<lparr>active := prev\<rparr>))))"

definition install_queue_and_resume :: "'w runner \<Rightarrow> handle \<Rightarrow> 'w tls \<Rightarrow> 'w tls option" where
  "install_queue_and_resume run h s =
     map_option snd
       (install_queue_and_call run (\<lambda>t. map_option (\<lambda>t'. ((), t')) (run h t)) s)"

definition queue_resume :: "'w runner \<Rightarrow> handle \<Rightarrow> 'w tls \<Rightarrow> 'w tls option" where
  "queue_resume run h s =
     (if active s then Some (queue_push h s) else install_queue_and_resume run h s)"

text \<open>\<open>push_back(h)\<close>, then \<open>front\<close> and \<open>pop_front\<close> of a queue that is not empty.\<close>

definition queue_rotate :: "handle \<Rightarrow> 'w tls \<Rightarrow> handle \<times> 'w tls" where
  "queue_rotate h s = (hd (cq s @ [h]), s\<lparr>cq := tl (cq s @ [h])\<rparr>)"

definition swap_coroutine :: "handle \<Rightarrow> 'w tls \<Rightarrow> handle \<times> 'w tls" where
  "swap_coroutine h s = (if active s then queue_rotate h s else (h, s))"

definition initial_awaiter_ready :: "'w tls \<Rightarrow> bool" where
  "initial_awaiter_ready s = is_active s"

definition initial_awaiter_suspend :: "'w runner \<Rightarrow> handle \<Rightarrow> 'w tls \<Rightarrow> 'w tls option" where
  "initial_awaiter_suspend run h s = install_queue_and_resume run h s"

definition resume_handle_next :: "'w tls \<Rightarrow> handle option \<times> 'w tls" where
  "resume_handle_next s =
     (if active s \<and> cq s \<noteq> [] then (Some (hd (cq s)), s\<lparr>cq := tl (cq s)\<rparr>) else (None, s))"

definition can_block :: "'w tls \<Rightarrow> bool" where
  "can_block s \<longleftrightarrow> \<not> active s \<or> cq s = []"

text \<open>\<open>pause\<close> follows \<open>instance\<close> without a check: no active queue is undefined behaviour.\<close>

definition pause_suspend :: "handle \<Rightarrow> 'w tls \<Rightarrow> (handle \<times> 'w tls) option" where
  "pause_suspend h s = (if active s then Some (queue_rotate h s) else None)"

text \<open>
  \<open>create_suspend_point\<close>: what \<open>fn\<close> enqueued beyond the old size is taken back from the
  end of the queue into the suspend point, one by one.
\<close>

function take_back :: "nat \<Rightarrow> handle list \<Rightarrow> handle list \<Rightarrow> handle list \<times> handle list" where
  "take_back sz q ss = (if sz < length q then take_back sz (butlast q) (ss @ [last q]) else (q, ss))"
  by pat_completeness auto
termination by (relation "measure (\<lambda>(sz, q, ss). length q)") auto

declare take_back.simps [simp del]

definition create_suspend_point_active ::
    "('w tls \<Rightarrow> ('r \<times> 'w tls) option) \<Rightarrow> 'w tls \<Rightarrow> ((handle list \<times> 'r) \<times> 'w tls) option" where
  "create_suspend_point_active fn s =
     (let sz = length (cq s) in
      Option.bind (fn s) (\<lambda>(v, s1).
        let (q, ss) = take_back sz (cq s1) [] in Some ((ss, v), s1\<lparr>cq := q\<rparr>)))"

definition create_suspend_point ::
    "'w runner \<Rightarrow> ('w tls \<Rightarrow> ('r \<times> 'w tls) option) \<Rightarrow> 'w tls \<Rightarrow> ((handle list \<times> 'r) \<times> 'w tls) option" where
  "create_suspend_point run fn s =
     (if active s then create_suspend_point_active fn s
      else install_queue_and_call run (create_suspend_point_active fn) s)"

subsection \<open>The flush loop\<close>

lemma flush_queue_Nil [simp]: "cq s = [] \<Longrightarrow> flush_queue run s = Some s"
  by (simp add: flush_queue.simps)

lemma flush_queue_Cons:
  "cq s = h # q \<Longrightarrow> flush_queue run s = Option.bind (run h (s\<lparr>cq := q\<rparr>)) (flush_queue run)"
  by (subst flush_queue.simps) simp

lemma flush_queue_drains: "flush_queue run s = Some s' \<Longrightarrow> cq s' = []"
proof (rule flush_queue.raw_induct [where P = "\<lambda>run s s'. cq s' = []"])
  fix flush run and s s' :: "'w tls"
  assume IH: "\<And>run s s'. flush run s = Some s' \<Longrightarrow> cq s' = []"
    and eq: "(case cq s of [] \<Rightarrow> Some s
      | h # q \<Rightarrow> Option.bind (run h (s\<lparr>cq := q\<rparr>)) (flush run)) = Some s'"
  show "cq s' = []"
    using eq IH by (auto split: list.splits simp: bind_Some_iff)
qed

text \<open>A given number of rounds of the loop; when they leave the queue empty, the loop ends.\<close>

fun flush_rounds :: "nat \<Rightarrow> 'w runner \<Rightarrow> 'w tls \<Rightarrow> 'w tls option" where
  "flush_rounds 0 run s = Some s"
| "flush_rounds (Suc n) run s =
     (case cq s of
        [] \<Rightarrow> None
      | h # q \<Rightarrow> Option.bind (run h (s\<lparr>cq := q\<rparr>)) (flush_rounds n run))"

lemma flush_rounds_flush: "flush_rounds n run s = Some s' \<Longrightarrow> cq s' = [] \<Longrightarrow> flush_queue run s = Some s'"
  by (induction n run s rule: flush_rounds.induct) (auto simp: flush_queue_Cons bind_Some_iff split: list.splits)

text \<open>
  A symmetric transfer to \<open>h'\<close> has the effect of \<open>h'\<close> standing at the front of the
  queue: the loop and the transfer together run one line of coroutines.
\<close>

lemma coro_resume_unfold:
  "coro_resume body h s =
     Option.bind (body h s) (\<lambda>(s', next).
       case next of None \<Rightarrow> Some s' | Some h' \<Rightarrow> coro_resume body h' s')"
  by (rule coro_resume.simps)

lemma flush_transfer:
  assumes "cq s = h # q" and "body h (s\<lparr>cq := q\<rparr>) = Some (s', Some h')"
  shows "flush_queue (coro_resume body) s = flush_queue (coro_resume body) (s'\<lparr>cq := h' # cq s'\<rparr>)"
proof -
  have "flush_queue (coro_resume body) s
      = Option.bind (coro_resume body h (s\<lparr>cq := q\<rparr>)) (flush_queue (coro_resume body))"
    using assms(1) by (rule flush_queue_Cons)
  also have "coro_resume body h (s\<lparr>cq := q\<rparr>) = coro_resume body h' s'"
    using assms(2) by (subst coro_resume_unfold) simp
  also have "s' = s'\<lparr>cq := h' # cq s'\<rparr>\<lparr>cq := cq s'\<rparr>" by simp
  finally show ?thesis by (simp add: flush_queue_Cons)
qed

lemma flush_return:
  assumes "cq s = h # q" and "body h (s\<lparr>cq := q\<rparr>) = Some (s', None)"
  shows "flush_queue (coro_resume body) s = flush_queue (coro_resume body) s'"
proof -
  have "coro_resume body h (s\<lparr>cq := q\<rparr>) = Some s'"
    using assms(2) by (subst coro_resume_unfold) simp
  with assms(1) show ?thesis by (simp add: flush_queue_Cons)
qed

text \<open>The loop ends when every body, whether it returns or transfers, decreases a measure.\<close>

lemma flush_body_total:
  fixes \<mu> :: "'w tls \<Rightarrow> nat"
  assumes step: "\<And>h q t. P t \<Longrightarrow> cq t = h # q \<Longrightarrow> \<exists>t' nxt. body h (t\<lparr>cq := q\<rparr>) = Some (t', nxt) \<and>
      P (t'\<lparr>cq := case_option [] (\<lambda>h'. [h']) nxt @ cq t'\<rparr>) \<and> \<mu> (t'\<lparr>cq := case_option [] (\<lambda>h'. [h']) nxt @ cq t'\<rparr>) < \<mu> t"
    and P: "P s"
  shows "\<exists>s'. flush_queue (coro_resume body) s = Some s' \<and> P s' \<and> cq s' = []"
  using P
proof (induction "\<mu> s" arbitrary: s rule: less_induct)
  case less
  show ?case
  proof (cases "cq s")
    case Nil
    with less.prems show ?thesis by auto
  next
    case (Cons h q)
    obtain t' nxt where t': "body h (s\<lparr>cq := q\<rparr>) = Some (t', nxt)"
      "P (t'\<lparr>cq := case_option [] (\<lambda>h'. [h']) nxt @ cq t'\<rparr>)" "\<mu> (t'\<lparr>cq := case_option [] (\<lambda>h'. [h']) nxt @ cq t'\<rparr>) < \<mu> s"
      using step [OF less.prems Cons] by blast
    have "flush_queue (coro_resume body) s = flush_queue (coro_resume body) (t'\<lparr>cq := case_option [] (\<lambda>h'. [h']) nxt @ cq t'\<rparr>)"
      using flush_return [of s h q body t'] flush_transfer [of s h q body t'] Cons t'(1) by (cases nxt) simp_all
    with less.hyps [OF t'(3,2)] show ?thesis by simp
  qed
qed

lemma take_back_append: "take_back (length q) (q @ xs) ss = (q, ss @ rev xs)"
  by (induction xs arbitrary: ss rule: rev_induct)
    (subst take_back.simps, simp add: append_assoc [symmetric] del: append_assoc)+

subsection \<open>Installing a queue\<close>

text \<open>
  Whatever the nesting, leaving an installed queue leaves the one queue of the thread
  empty: the nested call also runs what the outer level had scheduled.
\<close>

lemma install_queue_drains:
  assumes "install_queue_and_call run fn s = Some (r, s')"
  shows "cq s' = [] \<and> active s' = active s"
  using assms by (auto simp: install_queue_and_call_def Let_def bind_Some_iff dest: flush_queue_drains)

lemma queue_resume_active:
  assumes "active s"
  shows "queue_resume run h s = Some (s\<lparr>cq := cq s @ [h]\<rparr>)"
  using assms by (simp add: queue_resume_def queue_push_def)

lemma queue_resume_inactive:
  assumes "\<not> active s" and "queue_resume run h s = Some s'"
  shows "cq s' = [] \<and> \<not> active s'"
  using assms install_queue_drains
  by (fastforce simp: queue_resume_def install_queue_and_resume_def)

text \<open>
  The suspend point that \<open>create_suspend_point\<close> returns holds exactly what the function
  enqueued, the last one first, and the queue of the caller is as before.
\<close>

lemma create_suspend_point_active_result:
  assumes "fn s = Some (v, s1)" and "cq s1 = cq s @ xs"
  shows "create_suspend_point_active fn s = Some ((rev xs, v), s1\<lparr>cq := cq s\<rparr>)"
  using assms by (simp add: create_suspend_point_active_def Let_def take_back_append)

lemma create_suspend_point_result:
  assumes fn: "fn (s\<lparr>active := True\<rparr>) = Some (v, s1)" and q: "cq s1 = cq s @ xs"
    and a: "active s1" and idle: "active s \<or> cq s = []"
  shows "create_suspend_point run fn s = Some ((rev xs, v), s1\<lparr>cq := cq s, active := active s\<rparr>)"
proof (cases "active s")
  case True
  then have "s\<lparr>active := True\<rparr> = s" "s1\<lparr>cq := cq s, active := True\<rparr> = s1\<lparr>cq := cq s\<rparr>"
    using a by simp_all
  with fn q True show ?thesis
    by (simp add: create_suspend_point_def create_suspend_point_active_result)
next
  case False
  with idle fn q show ?thesis
    by (simp add: create_suspend_point_def install_queue_and_call_def Let_def
        create_suspend_point_active_result [of fn "s\<lparr>active := True\<rparr>" v s1 xs])
qed

subsection \<open>Cooperative multitasking\<close>

text \<open>
  The coroutine of \<open>tests/cooperative_multitasking.cpp\<close>: five times it checks the next
  value and pauses. \<open>out\<close> are the values it reached, in order; \<open>loop_j\<close> is the local
  variable \<open>j\<close> of every instance. The task with number \<open>me\<close> has the handle \<open>me\<close>.
\<close>

record coop =
  out :: "nat list"
  loop_j :: "handle \<Rightarrow> nat"

definition test_task :: "coop body" where
  "test_task me s =
     (let w = world s; j = loop_j w me in
      if j < 5 then
        map_option (\<lambda>(h, s'). (s', Some h))
          (pause_suspend me (s\<lparr>world := w\<lparr>out := out w @ [me * 10 + j], loop_j := (loop_j w)(me := Suc j)\<rparr>\<rparr>))
      else Some (s, None))"

definition test_cooperative :: "handle list \<Rightarrow> coop tls \<Rightarrow> (unit \<times> coop tls) option" where
  "test_cooperative ids s =
     install_queue_and_call (coro_resume test_task) (\<lambda>t. Some ((), fold queue_push ids t)) s"

definition coop_state :: "handle list \<Rightarrow> nat list \<Rightarrow> (handle \<Rightarrow> nat) \<Rightarrow> coop tls" where
  "coop_state q xs f = \<lparr>active = True, cq = q, world = \<lparr>out = xs, loop_j = f\<rparr>\<rparr>"

abbreviation coop_flush :: "handle list \<Rightarrow> nat list \<Rightarrow> (handle \<Rightarrow> nat) \<Rightarrow> coop tls option" where
  "coop_flush q xs f \<equiv> flush_queue (coro_resume test_task) (coop_state q xs f)"

lemma coop_pause:
  assumes "f h < 5"
  shows "coop_flush (h # q) xs f = coop_flush (q @ [h]) (xs @ [h * 10 + f h]) (f(h := Suc (f h)))"
proof -
  let ?s' = "(coop_state q (xs @ [h * 10 + f h]) (f(h := Suc (f h))))\<lparr>cq := tl (q @ [h])\<rparr>"
  have "test_task h ((coop_state (h # q) xs f)\<lparr>cq := q\<rparr>) = Some (?s', Some (hd (q @ [h])))"
    using assms by (simp add: coop_state_def test_task_def Let_def pause_suspend_def queue_rotate_def)
  then have "coop_flush (h # q) xs f
      = flush_queue (coro_resume test_task) (?s'\<lparr>cq := hd (q @ [h]) # cq ?s'\<rparr>)"
    by (intro flush_transfer [where q = q]) (simp add: coop_state_def)
  then show ?thesis by (simp add: coop_state_def)
qed

lemma coop_finish:
  assumes "f h \<ge> 5"
  shows "coop_flush (h # q) xs f = coop_flush q xs f"
proof -
  have "test_task h ((coop_state (h # q) xs f)\<lparr>cq := q\<rparr>) = Some (coop_state q xs f, None)"
    using assms by (simp add: coop_state_def test_task_def Let_def)
  then show ?thesis by (intro flush_return [where q = q]) (simp add: coop_state_def)
qed

lemma coop_round:
  assumes "distinct hs" and "\<forall>h \<in> set hs. f h = j" and "j < 5"
  shows "coop_flush (hs @ q) xs f =
    coop_flush (q @ hs) (xs @ map (\<lambda>i. i * 10 + j) hs) (\<lambda>h. if h \<in> set hs then Suc j else f h)"
  using assms
proof (induction hs arbitrary: q xs f)
  case (Cons h hs)
  let ?f = "f(h := Suc j)"
  have "coop_flush ((h # hs) @ q) xs f = coop_flush (hs @ q @ [h]) (xs @ [h * 10 + j]) ?f"
    using Cons.prems coop_pause [of f h "hs @ q" xs] by simp
  also have "\<dots> = coop_flush ((q @ [h]) @ hs) ((xs @ [h * 10 + j]) @ map (\<lambda>i. i * 10 + j) hs)
      (\<lambda>k. if k \<in> set hs then Suc j else ?f k)"
    by (rule Cons.IH) (use Cons.prems in auto)
  also have "(\<lambda>k. if k \<in> set hs then Suc j else ?f k) = (\<lambda>k. if k \<in> set (h # hs) then Suc j else f k)"
    by (rule ext) simp
  finally show ?case by simp
qed simp

lemma coop_rounds:
  assumes "distinct hs" and "\<forall>h \<in> set hs. f h = 5 - k" and "k \<le> 5"
  shows "\<exists>f'. coop_flush hs xs f =
    Some (coop_state [] (xs @ concat (map (\<lambda>j. map (\<lambda>i. i * 10 + j) hs) [5 - k..<5])) f')"
  using assms
proof (induction k arbitrary: xs f)
  case 0
  have "\<forall>h \<in> set hs. f h \<ge> 5 \<Longrightarrow> coop_flush hs xs f = Some (coop_state [] xs f)"
    by (induction hs) (auto simp: coop_finish, simp add: coop_state_def)
  with 0 show ?case by auto
next
  case (Suc k)
  let ?j = "5 - Suc k"
  have j: "Suc ?j = 5 - k" using Suc.prems by simp
  have "[?j..<5] = ?j # [5 - k..<5]"
    by (metis j upt_conv_Cons diff_less zero_less_Suc zero_less_numeral)
  moreover have "coop_flush hs xs f = coop_flush hs (xs @ map (\<lambda>i. i * 10 + ?j) hs)
      (\<lambda>h. if h \<in> set hs then Suc ?j else f h)"
    using coop_round [of hs f ?j "[]" xs] Suc.prems by simp
  ultimately show ?case
    using j Suc.IH [of "\<lambda>h. if h \<in> set hs then Suc ?j else f h" "xs @ map (\<lambda>i. i * 10 + ?j) hs"] Suc.prems
    by simp
qed

lemma fold_queue_push: "fold queue_push hs s = s\<lparr>cq := cq s @ hs\<rparr>"
  by (induction hs arbitrary: s) (auto simp: queue_push_def)

subsection \<open>Properties\<close>

text \<open>
  C35. Cooperative multitasking is fair: tasks that were enqueued together and pause after
  every value run in rounds, each task once per round and in the order they were enqueued,
  until all have finished; the thread is then without a queue again. The program of
  \<open>tests/cooperative_multitasking.cpp\<close> is the case \<open>ids = [0..<5]\<close>.
\<close>

theorem cooperative_round_robin:
  assumes "distinct ids" and "\<not> active s" and "cq s = []" and "loop_j (world s) = (\<lambda>_. 0)"
  shows "\<exists>s'. test_cooperative ids s = Some ((), s') \<and> cq s' = [] \<and> \<not> active s' \<and>
    out (world s') = out (world s) @ concat (map (\<lambda>j. map (\<lambda>i. i * 10 + j) ids) [0..<5])"
proof -
  have s: "s\<lparr>active := True, cq := ids\<rparr> = coop_state ids (out (world s)) (\<lambda>_. 0)"
    using assms(4) by (simp add: coop_state_def)
  obtain f' where "coop_flush ids (out (world s)) (\<lambda>_. 0) = Some (coop_state []
      (out (world s) @ concat (map (\<lambda>j. map (\<lambda>i. i * 10 + j) ids) [0..<5])) f')"
    using coop_rounds [of ids "\<lambda>_. 0" 5 "out (world s)"] assms(1) by auto
  then have "test_cooperative ids s = Some ((), (coop_state []
      (out (world s) @ concat (map (\<lambda>j. map (\<lambda>i. i * 10 + j) ids) [0..<5])) f')\<lparr>active := False\<rparr>)"
    using assms(2,3) s by (simp add: test_cooperative_def install_queue_and_call_def Let_def fold_queue_push)
  then show ?thesis by (simp add: coop_state_def)
qed

theorem cooperative_round_robin_witness:
  "\<exists>s'. test_cooperative [0, 1, 2, 3, 4] \<lparr>active = False, cq = [], world = \<lparr>out = [], loop_j = \<lambda>_. 0\<rparr>\<rparr>
      = Some ((), s') \<and> cq s' = [] \<and> \<not> active s' \<and>
    out (world s') = [0, 10, 20, 30, 40, 1, 11, 21, 31, 41, 2, 12, 22, 32, 42,
                      3, 13, 23, 33, 43, 4, 14, 24, 34, 44]"
proof -
  have u: "[0..<5] = [0, 1, 2, 3, 4 :: nat]" by (simp add: upt_rec)
  show ?thesis
    using cooperative_round_robin
      [of "[0, 1, 2, 3, 4]" "\<lparr>active = False, cq = [], world = \<lparr>out = [], loop_j = \<lambda>_. 0\<rparr>\<rparr>"]
    by (simp add: u)
qed

text \<open>
  An installed queue, nested or not, is empty when \<open>install_queue_and_call\<close> returns,
  and \<open>instance\<close> is what it was. Since there is one queue object per thread, the handles
  an outer level had scheduled are resumed by the inner call too.
\<close>

theorem install_queue_runs_all:
  assumes "install_queue_and_call run fn s = Some (r, s')"
  shows "cq s' = [] \<and> active s' = active s"
  using assms by (rule install_queue_drains)

theorem install_queue_runs_all_witness:
  "cq \<lparr>active = True, cq = [], world = [7 :: nat]\<rparr> = [] \<and>
   active \<lparr>active = True, cq = [], world = [7 :: nat]\<rparr> = active \<lparr>active = True, cq = [7], world = [] :: nat list\<rparr>"
proof -
  have "install_queue_and_call (\<lambda>h t. Some (t\<lparr>world := world t @ [h]\<rparr>)) (\<lambda>t. Some ((), t))
      \<lparr>active = True, cq = [7], world = []\<rparr> = Some ((), \<lparr>active = True, cq = [], world = [7]\<rparr>)"
    by (simp add: install_queue_and_call_def flush_queue_Cons)
  then show ?thesis by (rule install_queue_runs_all)
qed

text \<open>
  \<open>create_suspend_point\<close> hands out exactly the coroutines its function made ready, the
  last one first, and leaves the caller's own queue as it was, with or without an active
  queue.
\<close>

theorem create_suspend_point_collects:
  assumes "fn (s\<lparr>active := True\<rparr>) = Some (v, s1)" and "cq s1 = cq s @ xs"
    and "active s1" and "active s \<or> cq s = []"
  shows "create_suspend_point run fn s = Some ((rev xs, v), s1\<lparr>cq := cq s, active := active s\<rparr>)"
  using assms by (rule create_suspend_point_result)

theorem create_suspend_point_collects_witness:
  "create_suspend_point (\<lambda>h t. None) (\<lambda>t. Some ((), queue_push 9 (queue_push 8 t)))
     \<lparr>active = True, cq = [5], world = ()\<rparr>
   = Some (([9, 8], ()), \<lparr>active = True, cq = [5], world = ()\<rparr>)"
  using create_suspend_point_collects
    [of "\<lambda>t. Some ((), queue_push 9 (queue_push 8 t))" "\<lparr>active = True, cq = [5], world = ()\<rparr>"
      "()" "\<lparr>active = True, cq = [5, 8, 9], world = ()\<rparr>" "[8, 9]" "\<lambda>h t. None"]
  by (simp add: queue_push_def)

end
