(* ===== verification/Suspend_Point.thy ===== *)
theory Suspend_Point
  imports Coro_Queue
begin

section \<open>suspend_point: the container of ready coroutines\<close>

text \<open>
  \<open>suspend_point<void>\<close> of \<open>suspend_point.h\<close>: up to three handles are kept in the object,
  more of them in an array on the heap. \<open>_count_flag\<close> is a 32-bit word: bit 0 says which
  member of the union is live, the count sits above it. The arrays that \<open>new Ptr[n]\<close>
  returns are kept in an explicit store, so that a use after \<open>delete[]\<close>, a double
  \<open>delete[]\<close> and a write past the end of an array are \<open>None\<close>.
\<close>

subsection \<open>State\<close>

record bufmem =
  bufs :: "ptr \<Rightarrow> handle list option"
  nextbuf :: ptr

datatype sp_storage =
    Local "handle list"
  | Ext ptr nat

record sp =
  count_flag :: "32 word"
  storage :: sp_storage

definition inline_count :: nat where
  "inline_count = 3"

definition new_array :: "nat \<Rightarrow> bufmem \<Rightarrow> ptr \<times> bufmem" where
  "new_array n m =
     (nextbuf m, m\<lparr>bufs := (bufs m)(nextbuf m \<mapsto> replicate n nullptr), nextbuf := Suc (nextbuf m)\<rparr>)"

definition delete_array :: "ptr \<Rightarrow> bufmem \<Rightarrow> bufmem option" where
  "delete_array p m = (if bufs m p = None then None else Some (m\<lparr>bufs := (bufs m)(p := None)\<rparr>))"

definition sp_flag :: "sp \<Rightarrow> bool" where
  "sp_flag s \<longleftrightarrow> bit (count_flag s) 0"

definition sp_size :: "sp \<Rightarrow> 32 word" where
  "sp_size s = drop_bit 1 (count_flag s)"

definition sp_empty :: "sp \<Rightarrow> bool" where
  "sp_empty s \<longleftrightarrow> sp_size s = 0"

subsection \<open>Operations\<close>

definition sp_default :: sp where
  "sp_default = \<lparr>count_flag = 0, storage = Local [nullptr, nullptr, nullptr]\<rparr>"

definition sp_of_handle :: "handle \<Rightarrow> sp" where
  "sp_of_handle h = \<lparr>count_flag = 2, storage = Local [h, nullptr, nullptr]\<rparr>"

text \<open>The array the handles are in; \<open>None\<close> when the flag selects the member that is not live.\<close>

definition sp_array :: "sp \<Rightarrow> bufmem \<Rightarrow> handle list option" where
  "sp_array s m =
     (case storage s of
        Local xs \<Rightarrow> if sp_flag s then None else Some xs
      | Ext p cap \<Rightarrow> if sp_flag s then bufs m p else None)"

text \<open>
  A write to \<open>_local._handles[i]\<close> makes the inline array the live member of the union; a
  write to \<open>_ext._handles[i]\<close> goes through the pointer.
\<close>

definition sp_write_local :: "sp \<Rightarrow> nat \<Rightarrow> handle \<Rightarrow> sp option" where
  "sp_write_local s i h =
     (let xs = (case storage s of Local xs \<Rightarrow> xs | Ext _ _ \<Rightarrow> [nullptr, nullptr, nullptr]) in
      if i < length xs then Some (s\<lparr>storage := Local (xs[i := h])\<rparr>) else None)"

definition sp_write_ext :: "sp \<Rightarrow> nat \<Rightarrow> handle \<Rightarrow> bufmem \<Rightarrow> bufmem option" where
  "sp_write_ext s i h m =
     (case storage s of
        Local _ \<Rightarrow> None
      | Ext p cap \<Rightarrow>
          (case bufs m p of
             None \<Rightarrow> None
           | Some b \<Rightarrow> if i < length b then Some (m\<lparr>bufs := (bufs m)(p \<mapsto> b[i := h])\<rparr>) else None))"

text \<open>Grow: a new array of \<open>count * 2\<close> entries that holds a copy of the old ones.\<close>

definition sp_copy_to_new :: "handle list \<Rightarrow> 32 word \<Rightarrow> bufmem \<Rightarrow> ptr \<times> bufmem" where
  "sp_copy_to_new old cnt m =
     (let (nh, m1) = new_array (unat (cnt * 2)) m in
      (nh, m1\<lparr>bufs := (bufs m1)(nh \<mapsto> old @ drop (length old) (replicate (unat (cnt * 2)) nullptr))\<rparr>))"

definition sp_add_to_ext :: "handle \<Rightarrow> nat \<Rightarrow> 32 word \<Rightarrow> sp \<Rightarrow> bufmem \<Rightarrow> (sp \<times> bufmem) option" where
  "sp_add_to_ext h i inc s m =
     map_option (\<lambda>m'. (s\<lparr>count_flag := count_flag s + inc\<rparr>, m')) (sp_write_ext s i h m)"

definition sp_add :: "handle \<Rightarrow> sp \<Rightarrow> bufmem \<Rightarrow> (sp \<times> bufmem) option" where
  "sp_add h s m =
     (let cnt = sp_size s in
      if sp_flag s then
        (case storage s of
           Local _ \<Rightarrow> None
         | Ext p cap \<Rightarrow>
             (if unat cnt = cap then
                (case bufs m p of
                   None \<Rightarrow> None
                 | Some old \<Rightarrow>
                     (let (nh, m1) = sp_copy_to_new (take (unat cnt) old) cnt m in
                      Option.bind (delete_array p m1) (\<lambda>m2.
                        sp_add_to_ext h (unat cnt) 2 (s\<lparr>storage := Ext nh (unat (cnt * 2))\<rparr>) m2)))
              else sp_add_to_ext h (unat cnt) 2 s m))
      else if unat cnt < inline_count then
        map_option (\<lambda>s'. (s'\<lparr>count_flag := count_flag s' + 2\<rparr>, m)) (sp_write_local s (unat cnt) h)
      else
        (case storage s of
           Ext _ _ \<Rightarrow> None
         | Local xs \<Rightarrow>
             (let (nh, m1) = sp_copy_to_new xs cnt m in
              sp_add_to_ext h (unat cnt) 3 (s\<lparr>storage := Ext nh (unat (cnt * 2))\<rparr>) m1)))"

text \<open>The moved-from object keeps its storage bytes; only its count is reset.\<close>

definition sp_move :: "sp \<Rightarrow> sp \<times> sp" where
  "sp_move other = (other, other\<lparr>count_flag := 0\<rparr>)"

fun sp_add_all :: "handle list \<Rightarrow> sp \<Rightarrow> bufmem \<Rightarrow> (sp \<times> bufmem) option" where
  "sp_add_all [] s m = Some (s, m)"
| "sp_add_all (h # hs) s m = Option.bind (sp_add h s m) (\<lambda>(s', m'). sp_add_all hs s' m')"

definition sp_clear_internal :: "sp \<Rightarrow> bufmem \<Rightarrow> (sp \<times> bufmem) option" where
  "sp_clear_internal s m =
     (if sp_flag s then
        (case storage s of
           Local _ \<Rightarrow> None
         | Ext p _ \<Rightarrow> Option.bind (delete_array p m) (\<lambda>m'. Some (s\<lparr>count_flag := 0\<rparr>, m')))
      else Some (s\<lparr>count_flag := 0\<rparr>, m))"

text \<open>The handles a loop over \<open>begin()\<close> to \<open>end()\<close> reads.\<close>

definition sp_items :: "sp \<Rightarrow> bufmem \<Rightarrow> handle list option" where
  "sp_items s m =
     (let n = unat (sp_size s) in
      if n = 0 then Some []
      else Option.bind (sp_array s m) (\<lambda>xs. if length xs < n then None else Some (take n xs)))"

definition sp_merge :: "sp \<Rightarrow> sp \<Rightarrow> bufmem \<Rightarrow> (sp \<times> sp \<times> bufmem) option" where
  "sp_merge s other m =
     Option.bind (sp_items other m) (\<lambda>hs.
     Option.bind (sp_add_all hs s m) (\<lambda>(s', m').
     Option.bind (sp_clear_internal other m') (\<lambda>(o', m''). Some (s', o', m''))))"

definition sp_pop :: "sp \<Rightarrow> bufmem \<Rightarrow> (handle option \<times> sp) option" where
  "sp_pop s m =
     (let idx = unat (sp_size s) in
      if idx = 0 then Some (None, s)
      else Option.bind (sp_array s m) (\<lambda>xs.
             if idx - 1 < length xs then Some (Some (xs ! (idx - 1)), s\<lparr>count_flag := count_flag s - 2\<rparr>)
             else None))"


text \<open>
  \<open>suspend_now\<close>, which the destructor and \<open>clear\<close> call too: with an active queue the
  handles are enqueued, otherwise they are resumed one after the other under a queue
  installed for them.
\<close>

fun resume_all :: "'w runner \<Rightarrow> handle list \<Rightarrow> 'w tls \<Rightarrow> (unit \<times> 'w tls) option" where
  "resume_all run [] s = Some ((), s)"
| "resume_all run (h # hs) s = Option.bind (run h s) (\<lambda>s'. resume_all run hs s')"

definition sp_suspend_now ::
    "'w runner \<Rightarrow> sp \<Rightarrow> bufmem \<Rightarrow> 'w tls \<Rightarrow> (sp \<times> bufmem \<times> 'w tls) option" where
  "sp_suspend_now run s m t =
     Option.bind
       (if sp_empty s then Some t
        else Option.bind (sp_items s m) (\<lambda>hs.
          if is_active t then Some (fold queue_push hs t)
          else map_option snd (install_queue_and_call run (resume_all run hs) t)))
       (\<lambda>t'. map_option (\<lambda>(s', m'). (s', m', t')) (sp_clear_internal s m))"

definition sp_destroy ::
    "'w runner \<Rightarrow> sp \<Rightarrow> bufmem \<Rightarrow> 'w tls \<Rightarrow> (bufmem \<times> 'w tls) option" where
  "sp_destroy run s m t =
     (if count_flag s \<noteq> 0 then map_option snd (sp_suspend_now run s m t) else Some (m, t))"

definition sp_await_ready :: "sp \<Rightarrow> bool" where
  "sp_await_ready s = sp_empty s"

text \<open>\<open>await_suspend\<close> under an active queue; the handle to transfer to is the result.\<close>

definition sp_await_suspend_active ::
    "handle \<Rightarrow> sp \<Rightarrow> bufmem \<Rightarrow> 'w tls \<Rightarrow> (handle option \<times> sp \<times> bufmem \<times> 'w tls) option" where
  "sp_await_suspend_active h s m t =
     Option.bind (sp_pop s m) (\<lambda>(res, s1).
     Option.bind (sp_items s1 m) (\<lambda>hs.
       let me_included = h \<in> set hs;
           t1 = fold queue_push hs t;
           t2 = (if me_included then t1 else queue_push h t1)
       in map_option (\<lambda>(s2, m'). (res, s2, m', t2)) (sp_clear_internal s1 m)))"

definition sp_await_suspend ::
    "'w runner \<Rightarrow> handle \<Rightarrow> sp \<Rightarrow> bufmem \<Rightarrow> 'w tls \<Rightarrow> (handle option \<times> sp \<times> bufmem \<times> 'w tls) option" where
  "sp_await_suspend run h s m t =
     (if is_active t then sp_await_suspend_active h s m t
      else map_option (\<lambda>((s', m'), t'). (None, s', m', t'))
        (install_queue_and_call run (\<lambda>u.
           Option.bind (sp_await_suspend_active h s m u) (\<lambda>(res, s', m', u').
             map_option (\<lambda>v. ((s', m'), v))
               (case res of None \<Rightarrow> Some u' | Some h' \<Rightarrow> run h' u'))) t))"

subsection \<open>Representation\<close>

text \<open>
  \<open>sp_rep s m hs\<close>: the object \<open>s\<close> with the arrays of \<open>m\<close> holds the handles \<open>hs\<close>, the flag
  agrees with the live member and the count stays within the capacity. An object that was
  cleared or moved from may still hold the bytes of an \<open>ExtData\<close>, with a count of zero.
\<close>

fun sp_rep :: "sp \<Rightarrow> bufmem \<Rightarrow> handle list \<Rightarrow> bool" where
  "sp_rep \<lparr>count_flag = w, storage = Local xs\<rparr> m hs \<longleftrightarrow>
     unat w = 2 * length hs \<and> length xs = inline_count \<and> length hs \<le> inline_count \<and>
     hs = take (length hs) xs"
| "sp_rep \<lparr>count_flag = w, storage = Ext p cap\<rparr> m hs \<longleftrightarrow>
     w = 0 \<and> hs = [] \<or>
     unat w = 2 * length hs + 1 \<and> p < nextbuf m \<and> inline_count \<le> cap \<and>
     (\<exists>b. bufs m p = Some b \<and> length b = cap \<and> length hs \<le> cap \<and> hs = take (length hs) b)"

definition mem_ok :: "bufmem \<Rightarrow> bool" where
  "mem_ok m \<longleftrightarrow> (\<forall>p. nextbuf m \<le> p \<longrightarrow> bufs m p = None)"

text \<open>The array an object owns, if any.\<close>

definition sp_owned :: "sp \<Rightarrow> ptr set" where
  "sp_owned s = (case storage s of Local _ \<Rightarrow> {} | Ext p _ \<Rightarrow> if sp_flag s then {p} else {})"

definition max_handles :: nat where
  "max_handles = 2 ^ 31 - 1"

lemma sp_flag_unat: "sp_flag s \<longleftrightarrow> odd (unat (count_flag s))"
proof -
  have "bit (unat (count_flag s)) 0 \<longleftrightarrow> bit (count_flag s) 0"
    by (simp add: bit_unsigned_iff del: bit_0)
  then show ?thesis by (simp only: sp_flag_def bit_0)
qed

lemma sp_size_unat: "unat (sp_size s) = unat (count_flag s) div 2"
  unfolding sp_size_def unat_drop_bit_eq by (simp add: drop_bit_eq_div)

lemma sp_repE:
  assumes "sp_rep s m hs"
  obtains (loc) w xs where "s = \<lparr>count_flag = w, storage = Local xs\<rparr>" "\<not> sp_flag s"
      "unat (sp_size s) = length hs" "length xs = inline_count" "length hs \<le> inline_count"
      "hs = take (length hs) xs" "unat w = 2 * length hs"
  | (ext) w p cap b where "s = \<lparr>count_flag = w, storage = Ext p cap\<rparr>" "sp_flag s"
      "unat (sp_size s) = length hs" "bufs m p = Some b" "length b = cap" "length hs \<le> cap"
      "hs = take (length hs) b" "p < nextbuf m" "inline_count \<le> cap"
      "unat w = 2 * length hs + 1"
  | (dead) p cap where "s = \<lparr>count_flag = 0, storage = Ext p cap\<rparr>" "\<not> sp_flag s"
      "unat (sp_size s) = 0" "hs = []"
proof (cases s)
  case (fields w st)
  show thesis
  proof (cases st)
    case (Local xs)
    with assms fields show thesis
      by (intro loc[of w xs]) (auto simp: sp_flag_unat sp_size_unat)
  next
    case (Ext p cap)
    with assms fields show thesis
      by (auto simp: sp_flag_unat sp_size_unat intro: ext dead)
  qed
qed

lemma sp_rep_size: "sp_rep s m hs \<Longrightarrow> unat (sp_size s) = length hs"
  by (erule sp_repE) auto

lemma sp_rep_array:
  assumes "sp_rep s m hs" and "hs \<noteq> []"
  obtains xs where "sp_array s m = Some xs" "length hs \<le> length xs" "take (length hs) xs = hs"
  using assms by (elim sp_repE) (auto simp: sp_array_def)

lemma unat_add_small:
  fixes w :: "32 word"
  assumes "unat w + k < 2 ^ 32"
  shows "unat (w + of_nat k) = unat w + k"
  using assms by (simp add: unat_word_ariths unat_of_nat)

lemma sp_size_double: "unat (sp_size s * 2) = 2 * unat (sp_size s)"
proof -
  have "unat (count_flag s) < 2 ^ LENGTH(32)" by (rule unsigned_less)
  then have "2 * unat (sp_size s) < 2 ^ 32" by (simp add: sp_size_unat)
  then show ?thesis by (simp add: unat_word_ariths mult.commute)
qed


subsection \<open>Appending\<close>

text \<open>
  What an operation on \<open>s\<close> may do to the store: it touches only the array \<open>s\<close> owns and
  new ones, and the live arrays that \<open>s\<close> does not own stay the same, so none is lost.
\<close>

definition sp_frame :: "sp \<Rightarrow> bufmem \<Rightarrow> sp \<Rightarrow> bufmem \<Rightarrow> bool" where
  "sp_frame s m s' m' \<longleftrightarrow>
     sp_owned s' \<subseteq> sp_owned s \<union> {p. nextbuf m \<le> p} \<and> nextbuf m \<le> nextbuf m' \<and>
     (\<forall>p. p < nextbuf m \<and> p \<notin> sp_owned s \<longrightarrow> bufs m' p = bufs m p) \<and>
     dom (bufs m') - sp_owned s' = dom (bufs m) - sp_owned s"

lemma sp_frame_refl: "sp_frame s m s m"
  by (auto simp: sp_frame_def)

lemma sp_frame_trans:
  assumes "sp_frame s m s1 m1" and "sp_frame s1 m1 s2 m2"
  shows "sp_frame s m s2 m2"
proof -
  have "sp_owned s2 \<subseteq> sp_owned s \<union> {p. nextbuf m \<le> p}" "nextbuf m \<le> nextbuf m2"
    using assms unfolding sp_frame_def by fastforce+
  moreover have "bufs m2 p = bufs m p" if "p < nextbuf m" "p \<notin> sp_owned s" for p
  proof -
    have "p \<notin> sp_owned s1" "p < nextbuf m1" using assms(1) that unfolding sp_frame_def by fastforce+
    with assms that show ?thesis unfolding sp_frame_def by metis
  qed
  ultimately show ?thesis using assms unfolding sp_frame_def by simp
qed

lemma sp_rep_owned: "sp_rep s m hs \<Longrightarrow> p \<in> sp_owned s \<Longrightarrow> p < nextbuf m \<and> p \<in> dom (bufs m)"
  by (erule sp_repE) (auto simp: sp_owned_def)

text \<open>
  \<open>add\<close> appends, in each of its four branches: into the object, at the move from the
  object to the heap, into the array, and at the growth of the array.
\<close>

lemma sp_add_local:
  assumes rep: "sp_rep s m hs" and flag: "\<not> sp_flag s" and less: "length hs < inline_count"
  shows "\<exists>s'. sp_add h s m = Some (s', m) \<and> sp_rep s' m (hs @ [h]) \<and> sp_frame s m s' m"
proof -
  obtain w xs where w: "count_flag s = w" "unat w = 2 * length hs"
    and xs: "(case storage s of Local xs \<Rightarrow> xs | Ext _ _ \<Rightarrow> [0, 0, 0]) = xs" "length xs = inline_count"
      "hs = take (length hs) xs"
    using rep flag by (elim sp_repE) (auto simp: inline_count_def)
  define s' where "s' = \<lparr>count_flag = w + 2, storage = Local (xs[length hs := h])\<rparr>"
  have n: "unat (sp_size s) = length hs" using rep by (rule sp_rep_size)
  have "unat (w + of_nat 2) = unat w + 2"
    using w less by (intro unat_add_small) (simp add: inline_count_def)
  then have w2: "unat (w + 2) = unat w + 2" by simp
  have "hs @ [h] = take (Suc (length hs)) (xs[length hs := h])"
    using xs less take_update_last [of "length hs" xs h] by simp
  then have "sp_rep s' m (hs @ [h])" using xs w less w2 by (simp add: s'_def)
  moreover have "sp_add h s m = Some (s', m)"
    using xs w less flag n by (cases s) (simp add: sp_add_def Let_def sp_write_local_def s'_def)
  moreover have "sp_frame s m s' m"
    using flag by (simp add: sp_frame_def sp_owned_def s'_def split: sp_storage.splits)
  ultimately show ?thesis by blast
qed

lemma sp_add_spill:
  assumes rep: "sp_rep s m hs" and ok: "mem_ok m" and flag: "\<not> sp_flag s"
    and full: "length hs = inline_count"
  shows "\<exists>s' m'. sp_add h s m = Some (s', m') \<and> sp_rep s' m' (hs @ [h]) \<and> mem_ok m' \<and>
    sp_frame s m s' m'"
  using rep
proof (cases rule: sp_repE)
  case (loc w xs)
  define b where "b = (xs @ replicate 3 0)[length hs := h]"
  define s' where "s' = \<lparr>count_flag = w + 3, storage = Ext (nextbuf m) 6\<rparr>"
  define m' where "m' = m\<lparr>bufs := (bufs m)(nextbuf m \<mapsto> b), nextbuf := Suc (nextbuf m)\<rparr>"
  have xs: "xs = hs" "length hs = 3" using loc full by (auto simp: inline_count_def)
  have "unat (w + of_nat 3) = unat w + 3" using loc xs by (intro unat_add_small) (simp add: inline_count_def)
  then have w: "unat (w + 3) = 9" using loc xs by simp
  have cap: "unat (sp_size s * 2) = 6" using loc xs by (simp add: sp_size_double)
  have "sp_add h s m = Some (s', m')"
    using loc xs cap
    by (simp add: sp_add_def Let_def sp_copy_to_new_def new_array_def sp_add_to_ext_def sp_write_ext_def s'_def m'_def
        b_def inline_count_def)
  moreover have "sp_rep s' m' (hs @ [h])"
    using loc xs w by (simp add: s'_def m'_def b_def list_update_append inline_count_def numeral_3_eq_3)
  moreover have "mem_ok m'" using ok by (auto simp: mem_ok_def m'_def)
  moreover have "sp_owned s' = {nextbuf m}" "sp_owned s = {}"
    using w loc by (simp_all add: sp_owned_def s'_def sp_flag_unat)
  then have "sp_frame s m s' m'" using ok by (auto simp: sp_frame_def m'_def mem_ok_def)
  ultimately show ?thesis by blast
qed (use flag full in \<open>auto simp: inline_count_def\<close>)

lemma sp_add_ext:
  assumes rep: "sp_rep s m hs" and ok: "mem_ok m" and flag: "sp_flag s"
    and max: "length hs < max_handles"
  shows "\<exists>s' m'. sp_add h s m = Some (s', m') \<and> sp_rep s' m' (hs @ [h]) \<and> mem_ok m' \<and>
    sp_frame s m s' m'"
  using rep
proof (cases rule: sp_repE)
  case (ext w p cap b)
  have "unat (w + of_nat 2) = unat w + 2"
    using ext max by (intro unat_add_small) (simp add: max_handles_def)
  then have w: "unat (w + 2) = 2 * length (hs @ [h]) + 1" using ext by simp
  have own: "sp_owned s = {p}" using ext by (simp add: sp_owned_def)
  show ?thesis
  proof (cases "length hs = cap")
    case True
    define s' where "s' = \<lparr>count_flag = w + 2, storage = Ext (nextbuf m) (2 * cap)\<rparr>"
    define nb where "nb = (hs @ drop cap (replicate (2 * cap) 0))[cap := h]"
    define m' where "m' = m\<lparr>bufs := ((bufs m)(nextbuf m \<mapsto> nb))(p := None), nextbuf := Suc (nextbuf m)\<rparr>"
    have pos: "length (hs @ drop cap (replicate (2 * cap) 0)) = 2 * cap" using True by simp
    have len: "cap < length (hs @ drop cap (replicate (2 * cap) 0))"
      using pos ext by (simp add: inline_count_def)
    have nb: "hs @ [h] = take (Suc cap) nb"
      using take_update_last [OF len, of h] True by (simp add: nb_def)
    have "p \<noteq> nextbuf m" "bufs m (nextbuf m) = None" using ext ok by (auto simp: mem_ok_def)
    moreover have "unat (sp_size s * 2) = 2 * cap" using ext True by (simp add: sp_size_double)
    ultimately have "sp_add h s m = Some (s', m')"
      using ext True len
      by (simp add: sp_add_def Let_def sp_copy_to_new_def new_array_def delete_array_def
          sp_add_to_ext_def sp_write_ext_def s'_def m'_def nb_def fun_upd_twist)
    moreover have "length nb = 2 * cap" "length (hs @ [h]) = Suc cap" using True pos by (simp_all add: nb_def)
    moreover have "sp_rep s' m' (hs @ [h])"
      using ext True w nb \<open>length nb = 2 * cap\<close> \<open>length (hs @ [h]) = Suc cap\<close> \<open>p \<noteq> nextbuf m\<close>
      by (simp add: s'_def m'_def inline_count_def del: length_append)
    moreover have "mem_ok m'" using ok by (auto simp: mem_ok_def m'_def)
    moreover have "sp_owned s' = {nextbuf m}" using w by (simp add: sp_owned_def s'_def sp_flag_unat)
    then have "sp_frame s m s' m'"
      unfolding sp_frame_def own using ok ext(4,8) by (auto simp: m'_def mem_ok_def)
    ultimately show ?thesis by blast
  next
    case False
    define s' where "s' = \<lparr>count_flag = w + 2, storage = Ext p cap\<rparr>"
    define m' where "m' = m\<lparr>bufs := (bufs m)(p \<mapsto> b[length hs := h])\<rparr>"
    have less: "length hs < length b" using ext False by simp
    have "sp_add h s m = Some (s', m')"
      using ext False by (simp add: sp_add_def Let_def sp_add_to_ext_def sp_write_ext_def s'_def m'_def)
    moreover have "sp_rep s' m' (hs @ [h])"
      using ext less w take_update_last [OF less, of h] by (simp add: s'_def m'_def)
    moreover have "mem_ok m'" using ok ext by (auto simp: mem_ok_def m'_def)
    moreover have "sp_owned s' = {p}" using w by (simp add: sp_owned_def s'_def sp_flag_unat)
    then have "sp_frame s m s' m'" unfolding sp_frame_def own using ext(4) by (auto simp: m'_def)
    ultimately show ?thesis by blast
  qed
qed (use flag in auto)

lemma sp_add_rep:
  assumes rep: "sp_rep s m hs" and ok: "mem_ok m" and max: "length hs < max_handles"
  shows "\<exists>s' m'. sp_add h s m = Some (s', m') \<and> sp_rep s' m' (hs @ [h]) \<and> mem_ok m' \<and>
    sp_frame s m s' m'"
proof (cases "sp_flag s")
  case True
  from sp_add_ext [OF rep ok this max] show ?thesis .
next
  case flag: False
  have le: "length hs \<le> inline_count" using rep flag by (auto elim: sp_repE)
  show ?thesis
  proof (cases "length hs = inline_count")
    case True
    from sp_add_spill [OF rep ok flag this] show ?thesis .
  next
    case False
    with sp_add_local [OF rep flag] le ok show ?thesis by fastforce
  qed
qed

lemma sp_add_all_rep:
  assumes "sp_rep s m hs" and "mem_ok m" and "length hs + length xs \<le> max_handles"
  shows "\<exists>s' m'. sp_add_all xs s m = Some (s', m') \<and> sp_rep s' m' (hs @ xs) \<and> mem_ok m' \<and>
    sp_frame s m s' m'"
  using assms
proof (induction xs arbitrary: s m hs)
  case Nil
  then show ?case by (auto simp: sp_frame_refl)
next
  case (Cons x xs)
  then obtain s1 m1 where 1: "sp_add x s m = Some (s1, m1)" "sp_rep s1 m1 (hs @ [x])" "mem_ok m1"
      "sp_frame s m s1 m1"
    using sp_add_rep [of s m hs x] by auto
  with Cons.IH [of s1 m1 "hs @ [x]"] Cons.prems obtain s2 m2 where
    "sp_add_all xs s1 m1 = Some (s2, m2)" "sp_rep s2 m2 ((hs @ [x]) @ xs)" "mem_ok m2" "sp_frame s1 m1 s2 m2"
    by auto
  with 1 show ?case using sp_frame_trans by fastforce
qed

text \<open>Another object keeps its handles while \<open>s\<close> grows.\<close>

lemma sp_rep_framed:
  assumes fr: "sp_frame s m s' m'" and rep: "sp_rep other m os" and dis: "sp_owned s \<inter> sp_owned other = {}"
  shows "sp_rep other m' os \<and> sp_owned s' \<inter> sp_owned other = {}"
  using rep
proof (cases rule: sp_repE)
  case (loc w xs)
  then show ?thesis using rep by (auto simp: sp_owned_def)
next
  case (dead p cap)
  then show ?thesis by (auto simp: sp_owned_def)
next
  case (ext w p cap b)
  then have p: "p \<in> sp_owned other" by (simp add: sp_owned_def)
  with dis ext fr have "bufs m' p = bufs m p" "nextbuf m \<le> nextbuf m'"
    by (auto simp: sp_frame_def)
  then have "sp_rep other m' os" using ext rep by auto
  moreover have "sp_owned s' \<inter> sp_owned other = {}"
    using fr dis ext by (fastforce simp: sp_frame_def sp_owned_def)
  ultimately show ?thesis by simp
qed

subsection \<open>The other operations\<close>

lemma sp_clear_internal_rep:
  assumes "sp_rep s m hs" and "mem_ok m"
  shows "\<exists>s' m'. sp_clear_internal s m = Some (s', m') \<and> count_flag s' = 0 \<and> mem_ok m' \<and>
    sp_owned s' = {} \<and> dom (bufs m') = dom (bufs m) - sp_owned s \<and> nextbuf m' = nextbuf m \<and>
    (\<forall>p. p \<notin> sp_owned s \<longrightarrow> bufs m' p = bufs m p) \<and> storage s' = storage s"
  using assms(1)
proof (cases rule: sp_repE)
  case (loc w xs)
  then show ?thesis using assms(2)
    by (auto simp: sp_clear_internal_def sp_owned_def split: sp_storage.splits)
next
  case (dead p cap)
  then show ?thesis using assms(2) by (auto simp: sp_clear_internal_def sp_owned_def)
next
  case (ext w p cap b)
  then show ?thesis using assms(2)
    by (auto simp: sp_clear_internal_def sp_owned_def delete_array_def mem_ok_def sp_flag_unat)
qed

lemma sp_items_rep:
  assumes "sp_rep s m hs"
  shows "sp_items s m = Some hs"
proof (cases "hs = []")
  case True
  with sp_rep_size [OF assms] show ?thesis by (simp add: sp_items_def)
next
  case False
  with assms obtain xs where "sp_array s m = Some xs" "length hs \<le> length xs" "take (length hs) xs = hs"
    by (rule sp_rep_array)
  with sp_rep_size [OF assms] False show ?thesis by (simp add: sp_items_def)
qed

lemma sp_empty_rep: "sp_rep s m hs \<Longrightarrow> sp_empty s \<longleftrightarrow> hs = []"
  by (auto simp: sp_empty_def dest!: sp_rep_size simp flip: unat_eq_zero)

lemma unat_sub2:
  fixes w :: "32 word"
  assumes "2 \<le> unat w"
  shows "unat (w - 2) = unat w - 2"
  using assms by (simp add: unat_sub word_le_nat_alt)

lemma sp_pop_rep:
  assumes "sp_rep s m hs" and "hs \<noteq> []"
  shows "\<exists>s'. sp_pop s m = Some (Some (last hs), s') \<and> sp_rep s' m (butlast hs) \<and>
    sp_owned s' = sp_owned s"
proof -
  obtain xs where xs: "sp_array s m = Some xs" "length hs \<le> length xs" "take (length hs) xs = hs"
    using assms by (rule sp_rep_array)
  have n: "unat (sp_size s) = length hs" using assms(1) by (rule sp_rep_size)
  have last: "xs ! (length hs - 1) = last hs"
    using xs assms(2) by (metis diff_less last_conv_nth length_greater_0_conv nth_take zero_less_one)
  let ?s' = "s\<lparr>count_flag := count_flag s - 2\<rparr>"
  have "sp_pop s m = Some (Some (last hs), ?s')"
    using n xs last assms(2) by (simp add: sp_pop_def Let_def) (metis Suc_pred length_greater_0_conv less_eq_Suc_le)
  moreover have "sp_rep ?s' m (butlast hs) \<and> sp_owned ?s' = sp_owned s"
    using assms(1)
  proof (cases rule: sp_repE)
    case (loc w ys)
    then show ?thesis using assms(2)
      by (cases hs rule: rev_cases) (auto simp: unat_sub2 sp_owned_def take_Suc_nth)
  next
    case (ext w p cap b)
    then show ?thesis using assms(2)
      by (cases hs rule: rev_cases) (auto simp: unat_sub2 sp_owned_def sp_flag_unat take_Suc_nth)
  qed (use assms(2) in auto)
  ultimately show ?thesis by blast
qed

lemma sp_move_rep:
  assumes "sp_rep s m hs"
  shows "sp_rep (fst (sp_move s)) m hs \<and> sp_rep (snd (sp_move s)) m [] \<and> sp_owned (snd (sp_move s)) = {}"
  using assms by (cases rule: sp_repE)
    (auto simp: sp_move_def sp_owned_def sp_flag_unat split: sp_storage.splits)

lemma sp_clear_internal_empty:
  assumes "sp_rep s m hs" and "mem_ok m"
  shows "\<exists>s' m'. sp_clear_internal s m = Some (s', m') \<and> sp_rep s' m' [] \<and> mem_ok m' \<and>
    sp_frame s m s' m' \<and> sp_owned s' = {}"
proof -
  obtain s' m' where c: "sp_clear_internal s m = Some (s', m')" "count_flag s' = 0" "mem_ok m'"
      "sp_owned s' = {}" "dom (bufs m') = dom (bufs m) - sp_owned s" "nextbuf m' = nextbuf m"
      "\<forall>p. p \<notin> sp_owned s \<longrightarrow> bufs m' p = bufs m p" "storage s' = storage s"
    using sp_clear_internal_rep [OF assms] by blast
  have "sp_rep s' m' []"
    using assms(1) c(2,8) by (cases rule: sp_repE) (cases s', auto)+
  with c show ?thesis by (auto simp: sp_frame_def)
qed

lemma sp_merge_rep:
  assumes s: "sp_rep s m hs" and other: "sp_rep other m os" and ok: "mem_ok m"
    and dis: "sp_owned s \<inter> sp_owned other = {}" and max: "length hs + length os \<le> max_handles"
  shows "\<exists>s' o' m'. sp_merge s other m = Some (s', o', m') \<and> sp_rep s' m' (hs @ os) \<and>
    sp_rep o' m' [] \<and> mem_ok m' \<and>
    dom (bufs m') - sp_owned s' = dom (bufs m) - sp_owned s - sp_owned other"
proof -
  obtain s1 m1 where 1: "sp_add_all os s m = Some (s1, m1)" "sp_rep s1 m1 (hs @ os)" "mem_ok m1"
      "sp_frame s m s1 m1"
    using sp_add_all_rep [OF s ok max] by blast
  then have o1: "sp_rep other m1 os" "sp_owned s1 \<inter> sp_owned other = {}"
    using sp_rep_framed [OF _ other dis] by blast+
  obtain o2 m2 where 2: "sp_clear_internal other m1 = Some (o2, m2)" "sp_rep o2 m2 []" "mem_ok m2"
      "sp_frame other m1 o2 m2" "sp_owned o2 = {}"
    using sp_clear_internal_empty [OF o1(1) 1(3)] by blast
  have "sp_rep s1 m2 (hs @ os)"
    using sp_rep_framed [OF 2(4) 1(2)] o1(2) by blast
  moreover have "sp_merge s other m = Some (s1, o2, m2)"
    using 1(1) 2(1) by (simp add: sp_merge_def sp_items_rep [OF other])
  moreover have "dom (bufs m2) - sp_owned s1 = dom (bufs m) - sp_owned s - sp_owned other"
    using 1(4) 2(4,5) unfolding sp_frame_def by blast
  ultimately show ?thesis using 2 by blast
qed

lemma sp_await_suspend_active_rep:
  assumes rep: "sp_rep s m hs" and ok: "mem_ok m" and ne: "hs \<noteq> []"
  shows "\<exists>s' m'. sp_await_suspend_active h s m t =
      Some (Some (last hs), s', m',
        t\<lparr>cq := cq t @ butlast hs @ (if h \<in> set (butlast hs) then [] else [h])\<rparr>) \<and>
    sp_rep s' m' [] \<and> dom (bufs m') = dom (bufs m) - sp_owned s"
proof -
  obtain s1 where 1: "sp_pop s m = Some (Some (last hs), s1)" "sp_rep s1 m (butlast hs)"
      "sp_owned s1 = sp_owned s"
    using sp_pop_rep [OF rep ne] by blast
  obtain s2 m2 where 2: "sp_clear_internal s1 m = Some (s2, m2)" "sp_rep s2 m2 []"
      "sp_frame s1 m s2 m2" "sp_owned s2 = {}"
    using sp_clear_internal_empty [OF 1(2) ok] by blast
  have "dom (bufs m2) = dom (bufs m) - sp_owned s" using 1(3) 2(3,4) by (simp add: sp_frame_def)
  with 1 2 show ?thesis
    by (simp add: sp_await_suspend_active_def sp_items_rep [OF 1(2)] fold_queue_push queue_push_def)
qed

lemma sp_suspend_now_rep:
  assumes rep: "sp_rep s m hs" and ok: "mem_ok m"
  shows "\<exists>s' m'. sp_suspend_now run s m t = map_option (\<lambda>t'. (s', m', t'))
      (if hs = [] then Some t
       else if active t then Some (t\<lparr>cq := cq t @ hs\<rparr>)
       else map_option snd (install_queue_and_call run (resume_all run hs) t)) \<and>
    sp_rep s' m' [] \<and> dom (bufs m') = dom (bufs m) - sp_owned s"
proof -
  obtain s' m' where c: "sp_clear_internal s m = Some (s', m')" "sp_rep s' m' []"
      "sp_frame s m s' m'" "sp_owned s' = {}"
    using sp_clear_internal_empty [OF rep ok] by blast
  then have "dom (bufs m') = dom (bufs m) - sp_owned s" by (simp add: sp_frame_def)
  with c show ?thesis
    by (auto simp: sp_suspend_now_def sp_items_rep [OF rep] is_active_def fold_queue_push
        sp_empty_rep [OF rep] map_option_case split: option.splits)
qed

lemma sp_unused_owns_nothing: "sp_rep s m hs \<Longrightarrow> count_flag s = 0 \<Longrightarrow> hs = [] \<and> sp_owned s = {}"
  by (erule sp_repE) (auto simp: sp_owned_def sp_flag_unat)

subsection \<open>Properties\<close>

text \<open>
  C33. \<open>add\<close> appends one handle to the suspend point, whether the handles fit in the object,
  move to the heap or need a larger array. It never writes out of the bounds of an array,
  never follows a freed one, and frees the array it replaces: the live arrays that the
  suspend point does not own are the same before and after.
\<close>

theorem suspend_point_add:
  assumes "sp_rep s m hs" and "mem_ok m" and "length hs < max_handles"
  shows "\<exists>s' m'. sp_add h s m = Some (s', m') \<and> sp_rep s' m' (hs @ [h]) \<and> mem_ok m' \<and>
    dom (bufs m') - sp_owned s' = dom (bufs m) - sp_owned s"
  using sp_add_rep [OF assms, of h] by (auto simp: sp_frame_def)

theorem suspend_point_add_witness:
  "\<exists>s' m'. sp_add 7 sp_default \<lparr>bufs = \<lambda>_. None, nextbuf = 1\<rparr> = Some (s', m') \<and> sp_rep s' m' [7] \<and>
    mem_ok m' \<and> dom (bufs m') - sp_owned s' = {}"
  using suspend_point_add [of sp_default "\<lparr>bufs = \<lambda>_. None, nextbuf = 1\<rparr>" "[]" 7]
  by (simp add: sp_default_def mem_ok_def max_handles_def inline_count_def)

text \<open>
  Merging moves every handle of the other suspend point behind the own ones, in order,
  leaves the other one empty and reusable, and releases its array: afterwards the only live
  array beyond those of third parties is the one the target owns.
\<close>

theorem suspend_point_merge:
  assumes "sp_rep s m hs" and "sp_rep other m os" and "mem_ok m"
    and "sp_owned s \<inter> sp_owned other = {}" and "length hs + length os \<le> max_handles"
  shows "\<exists>s' o' m'. sp_merge s other m = Some (s', o', m') \<and> sp_rep s' m' (hs @ os) \<and>
    sp_rep o' m' [] \<and> mem_ok m' \<and>
    dom (bufs m') - sp_owned s' = dom (bufs m) - sp_owned s - sp_owned other"
  using assms by (rule sp_merge_rep)

theorem suspend_point_merge_witness:
  "\<exists>s' o' m'. sp_merge (sp_of_handle 5) (sp_of_handle 6) \<lparr>bufs = \<lambda>_. None, nextbuf = 1\<rparr> = Some (s', o', m') \<and>
    sp_rep s' m' [5, 6] \<and> sp_rep o' m' [] \<and> mem_ok m' \<and> dom (bufs m') - sp_owned s' = {}"
  using suspend_point_merge [of "sp_of_handle 5" "\<lparr>bufs = \<lambda>_. None, nextbuf = 1\<rparr>" "[5]" "sp_of_handle 6" "[6]"]
  by (simp add: sp_of_handle_def mem_ok_def max_handles_def inline_count_def sp_owned_def)

text \<open>
  Awaiting a suspend point under an active queue transfers to the last handle, enqueues
  the others in order and the awaiting coroutine behind them (unless it is one of them),
  and releases the array.
\<close>

theorem suspend_point_await:
  assumes "sp_rep s m hs" and "mem_ok m" and "hs \<noteq> []" and "active t"
  shows "\<exists>s' m'. sp_await_suspend run h s m t =
      Some (Some (last hs), s', m',
        t\<lparr>cq := cq t @ butlast hs @ (if h \<in> set (butlast hs) then [] else [h])\<rparr>) \<and>
    sp_rep s' m' [] \<and> dom (bufs m') = dom (bufs m) - sp_owned s"
  using sp_await_suspend_active_rep [OF assms(1-3), of h t] assms(4)
  by (simp add: sp_await_suspend_def is_active_def)

theorem suspend_point_await_witness:
  "\<exists>s' m'. sp_await_suspend (\<lambda>h t. Some t) 9 (sp_of_handle 5) \<lparr>bufs = \<lambda>_. None, nextbuf = 1\<rparr>
      \<lparr>active = True, cq = [4], world = ()\<rparr>
    = Some (Some 5, s', m', \<lparr>active = True, cq = [4, 9], world = ()\<rparr>) \<and> sp_rep s' m' [] \<and>
    dom (bufs m') = {}"
  using suspend_point_await [of "sp_of_handle 5" "\<lparr>bufs = \<lambda>_. None, nextbuf = 1\<rparr>" "[5]"
      "\<lparr>active = True, cq = [4], world = ()\<rparr>" "\<lambda>h t. Some t" 9]
  by (simp add: sp_of_handle_def mem_ok_def inline_count_def)

text \<open>
  The test that keeps the awaiting coroutine from being enqueued twice misses the handle
  that \<open>pop\<close> has already taken: a coroutine that awaits a suspend point whose last handle is
  its own is transferred to and enqueued, so it is resumed twice.
\<close>

theorem suspend_point_await_self_twice:
  assumes "sp_rep s m (hs @ [h])" and "mem_ok m" and "h \<notin> set hs" and "active t"
  shows "\<exists>s' m' t'. sp_await_suspend run h s m t = Some (Some h, s', m', t') \<and> h \<in> set (cq t')"
  using sp_await_suspend_active_rep [OF assms(1,2), of h t] assms(3,4)
  by (fastforce simp: sp_await_suspend_def is_active_def)

theorem suspend_point_await_self_twice_witness:
  "\<exists>s' m' t'. sp_await_suspend (\<lambda>h t. Some t) 5 (sp_of_handle 5) \<lparr>bufs = \<lambda>_. None, nextbuf = 1\<rparr>
      \<lparr>active = True, cq = [], world = ()\<rparr> = Some (Some 5, s', m', t') \<and> 5 \<in> set (cq t')"
  by (rule suspend_point_await_self_twice [where hs = "[]"])
    (simp_all add: sp_of_handle_def mem_ok_def inline_count_def)

text \<open>
  The destructor loses no coroutine and no memory: with an active queue the handles are
  enqueued in order, without one they are resumed in order under a queue installed for
  them, and the array of the suspend point is released either way.
\<close>

theorem suspend_point_destroy:
  assumes "sp_rep s m hs" and "mem_ok m"
  shows "\<exists>m'. sp_destroy run s m t = map_option (\<lambda>t'. (m', t'))
      (if hs = [] then Some t
       else if active t then Some (t\<lparr>cq := cq t @ hs\<rparr>)
       else map_option snd (install_queue_and_call run (resume_all run hs) t)) \<and>
    dom (bufs m') = dom (bufs m) - sp_owned s"
proof (cases "count_flag s = 0")
  case True
  with sp_unused_owns_nothing [OF assms(1)] show ?thesis by (simp add: sp_destroy_def)
next
  case False
  obtain s' m' where "sp_suspend_now run s m t = map_option (\<lambda>t'. (s', m', t'))
      (if hs = [] then Some t
       else if active t then Some (t\<lparr>cq := cq t @ hs\<rparr>)
       else map_option snd (install_queue_and_call run (resume_all run hs) t))"
    and "dom (bufs m') = dom (bufs m) - sp_owned s"
    using sp_suspend_now_rep [OF assms, of run t] by blast
  with False show ?thesis by (intro exI [of _ m']) (simp add: sp_destroy_def option.map_comp comp_def)
qed

theorem suspend_point_destroy_witness:
  "\<exists>m'. sp_destroy (\<lambda>h t. Some (t\<lparr>world := world t @ [h]\<rparr>)) (sp_of_handle 5) \<lparr>bufs = \<lambda>_. None, nextbuf = 1\<rparr>
      \<lparr>active = False, cq = [], world = []\<rparr> = Some (m', \<lparr>active = False, cq = [], world = [5]\<rparr>) \<and>
    dom (bufs m') = {}"
  using suspend_point_destroy [of "sp_of_handle 5" "\<lparr>bufs = \<lambda>_. None, nextbuf = 1\<rparr>" "[5]"
      "\<lambda>h t. Some (t\<lparr>world := world t @ [h]\<rparr>)" "\<lparr>active = False, cq = [], world = []\<rparr>"]
  by (simp add: sp_of_handle_def mem_ok_def inline_count_def install_queue_and_call_def)

end
