(* ===== verification/Awaiter.thy ===== *)
theory Awaiter
  imports Prelude
begin

section \<open>awaiter: what waits, and the lock-free chain it waits in\<close>

text \<open>
  The objects of \<open>awaiter.h\<close> live in a store that maps an address to the members of the
  object: \<open>_next\<close>, \<open>_handle_addr\<close>, \<open>_resume_fn\<close> and the flag of a \<open>sync_awaiter\<close>. A
  collector (\<open>awaiter_collector\<close>, an atomic pointer) is a member of the object that owns
  it, so the operations take its value and return the new one.

  \<open>_resume_fn\<close> is null for a coroutine; otherwise it is \<open>null_fn\<close>, \<open>sync_awaiter::wakeup\<close>
  or a function of another component or of the client, which is a parameter of the model
  (\<open>client_fn\<close>). What \<open>resume\<close> returns as a suspend point is the list of its handles
  (theory \<open>Suspend_Point\<close> shows that the suspend point implements such a list).
\<close>

subsection \<open>State\<close>

datatype resume_fn =
    Fn_coro
  | Fn_null
  | Fn_wakeup
  | Fn_client nat

record 'w aworld =
  a_next :: "ptr \<Rightarrow> ptr"
  a_fn :: "ptr \<Rightarrow> resume_fn"
  a_haddr :: "ptr \<Rightarrow> ptr"
  a_flag :: "ptr \<Rightarrow> bool"
  client :: 'w

type_synonym 'w client_fn = "nat \<Rightarrow> ptr \<Rightarrow> ptr \<Rightarrow> 'w aworld \<Rightarrow> handle list \<times> 'w aworld"

definition set_next :: "ptr \<Rightarrow> ptr \<Rightarrow> 'w aworld \<Rightarrow> 'w aworld" where
  "set_next a p w = w\<lparr>a_next := (a_next w)(a := p)\<rparr>"

lemma set_next_simps [simp]:
  "a_next (set_next a p w) = (a_next w)(a := p)" "a_fn (set_next a p w) = a_fn w"
  "a_haddr (set_next a p w) = a_haddr w" "a_flag (set_next a p w) = a_flag w"
  "client (set_next a p w) = client w"
  by (simp_all add: set_next_def)

lemma set_next_twice [simp]: "set_next a p (set_next a q w) = set_next a p w"
  by (simp add: set_next_def)

lemma set_next_same [simp]: "a_next w a = p \<Longrightarrow> set_next a p w = w"
  by (simp add: set_next_def fun_upd_idem)

subsection \<open>Operations\<close>

definition set_handle :: "ptr \<Rightarrow> handle \<Rightarrow> 'w aworld \<Rightarrow> 'w aworld" where
  "set_handle a h w = w\<lparr>a_fn := (a_fn w)(a := Fn_coro), a_haddr := (a_haddr w)(a := h)\<rparr>"

definition set_resume_fn :: "ptr \<Rightarrow> resume_fn \<Rightarrow> ptr \<Rightarrow> 'w aworld \<Rightarrow> 'w aworld" where
  "set_resume_fn a fn ctx w = w\<lparr>a_fn := (a_fn w)(a := fn), a_haddr := (a_haddr w)(a := ctx)\<rparr>"

text \<open>\<open>sync_awaiter::wakeup\<close> stores the flag; \<open>notify_all\<close> has no state of its own.\<close>

definition wakeup :: "ptr \<Rightarrow> 'w aworld \<Rightarrow> handle list \<times> 'w aworld" where
  "wakeup a w = ([], w\<lparr>a_flag := (a_flag w)(a := True)\<rparr>)"

definition resume_awaiter :: "'w client_fn \<Rightarrow> ptr \<Rightarrow> 'w aworld \<Rightarrow> handle list \<times> 'w aworld" where
  "resume_awaiter cl a w =
     (case a_fn w a of
        Fn_coro \<Rightarrow> ([a_haddr w a], w)
      | Fn_null \<Rightarrow> ([], w)
      | Fn_wakeup \<Rightarrow> wakeup a w
      | Fn_client k \<Rightarrow> cl k a (a_haddr w a) w)"

text \<open>
  The two subscription loops. \<open>compare_exchange_weak\<close> may fail although the values agree:
  the list \<open>sf\<close> says at which of the next tries it does.
\<close>

definition spurious :: "bool list \<Rightarrow> bool" where
  "spurious sf \<longleftrightarrow> sf \<noteq> [] \<and> hd sf"

function subscribe_loop :: "bool list \<Rightarrow> ptr \<Rightarrow> ptr \<Rightarrow> 'w aworld \<Rightarrow> ptr \<times> 'w aworld" where
  "subscribe_loop sf this chain w =
     (if chain = a_next w this \<and> \<not> spurious sf then (this, w)
      else subscribe_loop (tl sf) this chain (set_next this chain w))"
  by pat_completeness auto
termination
  by (relation "measure (\<lambda>(sf, this, chain, w). length sf + (if chain = a_next w this then 0 else 1))")
    (auto simp: spurious_def neq_Nil_conv)

definition subscribe :: "bool list \<Rightarrow> ptr \<Rightarrow> ptr \<Rightarrow> 'w aworld \<Rightarrow> (ptr \<times> 'w aworld) option" where
  "subscribe sf this chain w =
     (if this = chain then None
      else
        (let (chain', w') = subscribe_loop sf this chain w in
         if a_next w' this = this then None else Some (chain', w')))"

function subscribe_check_loop ::
    "bool list \<Rightarrow> ptr \<Rightarrow> ptr \<Rightarrow> ptr \<Rightarrow> 'w aworld \<Rightarrow> bool \<times> ptr \<times> 'w aworld" where
  "subscribe_check_loop sf this ready_state chain w =
     (if chain = a_next w this \<and> \<not> spurious sf then (True, this, w)
      else
        (let w1 = set_next this chain w in
         if a_next w1 this = ready_state then (False, chain, set_next this nullptr w1)
         else subscribe_check_loop (tl sf) this ready_state chain w1))"
  by pat_completeness auto
termination
  by (relation "measure (\<lambda>(sf, this, rs, chain, w). length sf + (if chain = a_next w this then 0 else 1))")
    (auto simp: spurious_def neq_Nil_conv)

definition subscribe_check_ready ::
    "bool list \<Rightarrow> ptr \<Rightarrow> ptr \<Rightarrow> ptr \<Rightarrow> 'w aworld \<Rightarrow> (bool \<times> ptr \<times> 'w aworld) option" where
  "subscribe_check_ready sf this ready_state chain w =
     (if a_next w this = nullptr then Some (subscribe_check_loop sf this ready_state chain w) else None)"

text \<open>The loop of \<open>resume_chain_lk\<close>, with the suspend point it fills as an accumulator.\<close>

partial_function (option) resume_chain_loop ::
    "'w client_fn \<Rightarrow> ptr \<Rightarrow> handle list \<Rightarrow> 'w aworld \<Rightarrow> (handle list \<times> 'w aworld) option" where
  "resume_chain_loop cl chain ret w =
     (if chain = nullptr then Some (ret, w)
      else
        (let y = chain;
             chain' = a_next w y;
             (hs, w') = resume_awaiter cl y (set_next y nullptr w)
         in resume_chain_loop cl chain' (ret @ hs) w'))"

definition resume_chain_lk :: "'w client_fn \<Rightarrow> ptr \<Rightarrow> 'w aworld \<Rightarrow> (handle list \<times> 'w aworld) option" where
  "resume_chain_lk cl chain w = resume_chain_loop cl chain [] w"

text \<open>The first component of the result is the new value of the collector.\<close>

definition resume_chain :: "'w client_fn \<Rightarrow> ptr \<Rightarrow> 'w aworld \<Rightarrow> (ptr \<times> handle list \<times> 'w aworld) option" where
  "resume_chain cl chain w = map_option (Pair nullptr) (resume_chain_lk cl chain w)"

definition resume_chain_set_ready ::
    "'w client_fn \<Rightarrow> ptr \<Rightarrow> ptr \<Rightarrow> 'w aworld \<Rightarrow> (ptr \<times> handle list \<times> 'w aworld) option" where
  "resume_chain_set_ready cl chain ready_state w =
     map_option (Pair ready_state) (resume_chain_lk cl chain w)"

declare subscribe_loop.simps [simp del] subscribe_check_loop.simps [simp del]

subsection \<open>Subscription\<close>

lemma subscribe_loop_result: "subscribe_loop sf this chain w = (this, set_next this chain w)"
proof (induction sf this chain w rule: subscribe_loop.induct)
  case (1 sf this chain w)
  then show ?case by (subst subscribe_loop.simps) auto
qed

lemma subscribe_result:
  "this \<noteq> chain \<Longrightarrow> subscribe sf this chain w = Some (this, set_next this chain w)"
  by (simp add: subscribe_def subscribe_loop_result)

lemma subscribe_check_loop_result:
  assumes "a_next w this = 0 \<or> a_next w this = chain" and "chain = ready_state \<longrightarrow> a_next w this = 0"
    and "ready_state \<noteq> 0"
  shows "subscribe_check_loop sf this ready_state chain w =
    (if chain = ready_state then (False, chain, w) else (True, this, set_next this chain w))"
  using assms
proof (induction sf this ready_state chain w rule: subscribe_check_loop.induct)
  case (1 sf this ready_state chain w)
  then show ?case by (subst subscribe_check_loop.simps) (auto simp: Let_def)
qed

lemma subscribe_check_ready_result:
  assumes "a_next w this = 0" and "ready_state \<noteq> 0"
  shows "subscribe_check_ready sf this ready_state chain w = Some
    (if chain = ready_state then (False, chain, w) else (True, this, set_next this chain w))"
  using assms by (simp add: subscribe_check_ready_def subscribe_check_loop_result)

lemma linked_push:
  "linked (a_next w) chain xs q \<Longrightarrow> proper a \<Longrightarrow> a \<notin> set xs \<Longrightarrow>
    linked (a_next (set_next a chain w)) a (a # xs) q"
  by simp

subsection \<open>Resumption of a chain\<close>

text \<open>
  \<open>resume_seq\<close> resumes the awaiters of a list in order, each with its \<open>_next\<close> cleared
  first. It is what the loop does on a chain that holds this list, as long as the client's
  functions leave the links of the awaiters in the chain alone.
\<close>

fun resume_seq :: "'w client_fn \<Rightarrow> ptr list \<Rightarrow> 'w aworld \<Rightarrow> handle list \<times> 'w aworld" where
  "resume_seq cl [] w = ([], w)"
| "resume_seq cl (a # as) w =
     (let (hs, w1) = resume_awaiter cl a (set_next a nullptr w);
          (hs', w2) = resume_seq cl as w1
      in (hs @ hs', w2))"

lemma resume_seq_append:
  "resume_seq cl (xs @ ys) w =
     (fst (resume_seq cl xs w) @ fst (resume_seq cl ys (snd (resume_seq cl xs w))), snd (resume_seq cl ys (snd (resume_seq cl xs w))))"
  by (induction xs arbitrary: w) (simp_all add: Let_def split_def)

definition client_keeps :: "'w client_fn \<Rightarrow> ptr set \<Rightarrow> bool" where
  "client_keeps cl S \<longleftrightarrow>
     (\<forall>k a ctx w. \<forall>b \<in> S. b \<noteq> a \<longrightarrow> a_next (snd (cl k a ctx w)) b = a_next w b)"

lemma resume_awaiter_next:
  assumes "client_keeps cl S" and "b \<in> S" and "b \<noteq> a"
  shows "a_next (snd (resume_awaiter cl a w)) b = a_next w b"
  using assms by (auto simp: resume_awaiter_def wakeup_def client_keeps_def split: resume_fn.split)

lemma resume_chain_loop_seq:
  assumes "linked (a_next w) p xs 0" and "client_keeps cl (set xs)"
  shows "resume_chain_loop cl p ret w = Some (ret @ fst (resume_seq cl xs w), snd (resume_seq cl xs w))"
  using assms
proof (induction xs arbitrary: p ret w)
  case Nil
  then show ?case by (subst resume_chain_loop.simps) simp
next
  case (Cons a as)
  let ?r = "resume_awaiter cl a (set_next a 0 w)"
  have a: "p = a" "proper a" "linked (a_next w) (a_next w a) as 0" "a \<notin> set as"
    using Cons.prems(1) linked_tail_notin [of 0 "a_next w" a as] by auto
  have "a_next (snd ?r) b = a_next w b" if "b \<in> set as" for b
    using resume_awaiter_next [OF Cons.prems(2), of b a "set_next a 0 w"] that a(4) by auto
  then have "linked (a_next (snd ?r)) (a_next w a) as 0"
    using a(3) linked_cong [of as "a_next (snd ?r)" "a_next w"] by blast
  moreover have "client_keeps cl (set as)" using Cons.prems(2) by (auto simp: client_keeps_def)
  ultimately have "resume_chain_loop cl (a_next w a) (ret @ fst ?r) (snd ?r) =
      Some ((ret @ fst ?r) @ fst (resume_seq cl as (snd ?r)), snd (resume_seq cl as (snd ?r)))"
    by (rule Cons.IH)
  with a show ?case by (subst resume_chain_loop.simps) (simp add: Let_def split_def)
qed

text \<open>With no client functions in the chain the result is explicit.\<close>

definition handles_of :: "'w aworld \<Rightarrow> ptr list \<Rightarrow> handle list" where
  "handles_of w xs = map (a_haddr w) (filter (\<lambda>a. a_fn w a = Fn_coro) xs)"

definition plain :: "'w aworld \<Rightarrow> ptr list \<Rightarrow> bool" where
  "plain w xs \<longleftrightarrow> (\<forall>a \<in> set xs. \<forall>k. a_fn w a \<noteq> Fn_client k)"

definition resumed :: "ptr list \<Rightarrow> 'w aworld \<Rightarrow> 'w aworld" where
  "resumed xs w = w\<lparr>a_next := (\<lambda>a. if a \<in> set xs then nullptr else a_next w a),
     a_flag := (\<lambda>a. a_flag w a \<or> a \<in> set xs \<and> a_fn w a = Fn_wakeup)\<rparr>"

lemma resumed_simps [simp]:
  "a_next (resumed xs w) = (\<lambda>a. if a \<in> set xs then 0 else a_next w a)"
  "a_flag (resumed xs w) = (\<lambda>a. a_flag w a \<or> a \<in> set xs \<and> a_fn w a = Fn_wakeup)"
  "a_fn (resumed xs w) = a_fn w" "a_haddr (resumed xs w) = a_haddr w"
  "client (resumed xs w) = client w"
  by (simp_all add: resumed_def)

lemma resumed_Cons: "resumed as (resumed [a] w) = resumed (a # as) w"
  by (rule aworld.equality) auto

lemma handles_of_resumed [simp]: "handles_of (resumed xs w) ys = handles_of w ys"
  by (simp add: handles_of_def)

lemma resume_awaiter_plain:
  assumes "\<forall>k. a_fn w a \<noteq> Fn_client k"
  shows "resume_awaiter cl a (set_next a 0 w) = (handles_of w [a], resumed [a] w)"
  using assms by (cases "a_fn w a")
    (auto simp: resume_awaiter_def handles_of_def wakeup_def fun_eq_iff intro!: aworld.equality)

lemma resume_seq_plain:
  assumes "plain w xs"
  shows "resume_seq cl xs w = (handles_of w xs, resumed xs w)"
  using assms
proof (induction xs arbitrary: w)
  case Nil
  then show ?case by (auto simp: handles_of_def intro!: aworld.equality)
next
  case (Cons a as)
  have "plain (resumed [a] w) as" using Cons.prems by (simp add: plain_def)
  from Cons.IH [OF this] have "resume_seq cl as (resumed [a] w) = (handles_of w as, resumed (a # as) w)"
    by (simp add: resumed_Cons)
  moreover have "resume_awaiter cl a (set_next a 0 w) = (handles_of w [a], resumed [a] w)"
    using Cons.prems by (intro resume_awaiter_plain) (simp add: plain_def)
  ultimately show ?case by (simp add: handles_of_def)
qed

text \<open>Without a client function in the chain no hypothesis on the client is left.\<close>

lemma resume_chain_loop_plain:
  assumes "linked (a_next w) p xs 0" and "plain w xs"
  shows "resume_chain_loop cl p ret w = Some (ret @ handles_of w xs, resumed xs w)"
  using assms
proof (induction xs arbitrary: p ret w)
  case Nil
  then show ?case
    by (subst resume_chain_loop.simps) (auto simp: handles_of_def intro!: aworld.equality)
next
  case (Cons a as)
  have a: "p = a" "proper a" "linked (a_next w) (a_next w a) as 0" "a \<notin> set as"
    using Cons.prems(1) linked_tail_notin [of 0 "a_next w" a as] by auto
  have "linked (a_next (resumed [a] w)) (a_next w a) as 0"
    using a(3,4) by (subst linked_cong [where nx' = "a_next w"]) auto
  moreover have "plain (resumed [a] w) as" using Cons.prems(2) by (simp add: plain_def)
  ultimately have "resume_chain_loop cl (a_next w a) (ret @ handles_of w [a]) (resumed [a] w)
      = Some ((ret @ handles_of w [a]) @ handles_of w as, resumed (a # as) w)"
    using Cons.IH by (simp add: resumed_Cons)
  moreover have "resume_awaiter cl a (set_next a 0 w) = (handles_of w [a], resumed [a] w)"
    using Cons.prems(2) by (intro resume_awaiter_plain) (simp add: plain_def)
  moreover have "handles_of w [a] @ handles_of w as = handles_of w (a # as)"
    by (simp add: handles_of_def)
  ultimately show ?case using a by (subst resume_chain_loop.simps) (simp add: Let_def)
qed

lemmas resume_chain_defs = resume_chain_def resume_chain_set_ready_def resume_chain_lk_def

section \<open>co_awaiter: the interface between an awaiting coroutine and what it awaits\<close>

text \<open>
  \<open>co_awaiter<P>\<close> calls three functions of its owner: \<open>ready\<close>, \<open>subscribe\<close> and \<open>value\<close>.
  The operations below take them as parameters, the record \<open>owner_ops\<close>; the state of the
  owner has the type \<open>'o\<close>. A result \<open>True\<close> of \<open>co_await\<close> means that the coroutine is
  suspended, a result \<open>True\<close> of \<open>sync_wait\<close> that the thread blocks on its flag.
\<close>

record ('o, 'w) owner_ops =
  op_ready :: "'o \<Rightarrow> bool \<times> 'o"
  op_subscribe :: "ptr \<Rightarrow> 'o \<Rightarrow> 'w aworld \<Rightarrow> (bool \<times> 'o \<times> 'w aworld) option"

definition await_ready :: "('o, 'w) owner_ops \<Rightarrow> 'o \<Rightarrow> bool \<times> 'o" where
  "await_ready ops o1 = op_ready ops o1"

definition await_suspend ::
    "('o, 'w) owner_ops \<Rightarrow> ptr \<Rightarrow> handle \<Rightarrow> 'o \<Rightarrow> 'w aworld \<Rightarrow> (bool \<times> 'o \<times> 'w aworld) option" where
  "await_suspend ops this h o1 w = op_subscribe ops this o1 (set_handle this h w)"

definition await_suspend_fn ::
    "('o, 'w) owner_ops \<Rightarrow> ptr \<Rightarrow> resume_fn \<Rightarrow> ptr \<Rightarrow> 'o \<Rightarrow> 'w aworld \<Rightarrow> (bool \<times> 'o \<times> 'w aworld) option" where
  "await_suspend_fn ops this fn ctx o1 w = op_subscribe ops this o1 (set_resume_fn this fn ctx w)"

text \<open>The language's \<open>co_await\<close>: suspend unless \<open>await_ready\<close> or \<open>await_suspend\<close> say no.\<close>

definition co_await ::
    "('o, 'w) owner_ops \<Rightarrow> ptr \<Rightarrow> handle \<Rightarrow> 'o \<Rightarrow> 'w aworld \<Rightarrow> (bool \<times> 'o \<times> 'w aworld) option" where
  "co_await ops this h o1 w =
     (case await_ready ops o1 of
        (True, o2) \<Rightarrow> Some (False, o2, w)
      | (False, o2) \<Rightarrow> await_suspend ops this h o2 w)"

text \<open>\<open>force_sync\<close>, with the stack object \<open>sync_awaiter awt\<close> at the address \<open>awt\<close>.\<close>

definition sync_awaiter_init :: "ptr \<Rightarrow> 'w aworld \<Rightarrow> 'w aworld" where
  "sync_awaiter_init awt w =
     set_resume_fn awt Fn_wakeup nullptr
       (set_next awt nullptr (w\<lparr>a_flag := (a_flag w)(awt := False)\<rparr>))"

definition force_sync ::
    "('o, 'w) owner_ops \<Rightarrow> ptr \<Rightarrow> 'o \<Rightarrow> 'w aworld \<Rightarrow> (bool \<times> 'o \<times> 'w aworld) option" where
  "force_sync ops awt o1 w =
     (case await_ready ops o1 of
        (True, o2) \<Rightarrow> Some (False, o2, w)
      | (False, o2) \<Rightarrow>
          map_option (\<lambda>(sub, o3, w'). (sub \<and> \<not> a_flag w' awt, o3, w'))
            (op_subscribe ops awt o2 (sync_awaiter_init awt w)))"

text \<open>\<open>sync\<close> asserts in addition that no coroutine queue is active in the thread.\<close>

definition sync_wait ::
    "('o, 'w) owner_ops \<Rightarrow> bool \<Rightarrow> ptr \<Rightarrow> 'o \<Rightarrow> 'w aworld \<Rightarrow> (bool \<times> 'o \<times> 'w aworld) option" where
  "sync_wait ops queue_active awt o1 w =
     (case await_ready ops o1 of
        (True, o2) \<Rightarrow> Some (False, o2, w)
      | (False, o2) \<Rightarrow>
          if queue_active then None
          else map_option (\<lambda>(sub, o3, w'). (sub \<and> \<not> a_flag w' awt, o3, w'))
            (op_subscribe ops awt o2 (sync_awaiter_init awt w)))"

text \<open>
  What an owner promises. \<open>rep\<close> relates its state and the store to an abstract state:
  \<open>available\<close> says whether an awaiter is served at once, \<open>serve\<close> what that does, and
  \<open>enlist a\<close> that the awaiter \<open>a\<close> waits. The members an awaiter does not use as a link may
  change at any time.
\<close>

locale awaitable =
  fixes ops :: "('o, 'w) owner_ops"
    and rep :: "'o \<Rightarrow> 'w aworld \<Rightarrow> 'a \<Rightarrow> bool"
    and available :: "'a \<Rightarrow> bool"
    and serve :: "'a \<Rightarrow> 'a"
    and enlist :: "ptr \<Rightarrow> 'a \<Rightarrow> 'a"
    and enlisted :: "'a \<Rightarrow> ptr set"
  assumes ready_yes: "rep o1 w x \<Longrightarrow> available x \<Longrightarrow>
      \<exists>o2. op_ready ops o1 = (True, o2) \<and> rep o2 w (serve x)"
    and ready_no: "rep o1 w x \<Longrightarrow> \<not> available x \<Longrightarrow> op_ready ops o1 = (False, o1)"
    and subscribe_yes: "rep o1 w x \<Longrightarrow> available x \<Longrightarrow> proper a \<Longrightarrow> a \<notin> enlisted x \<Longrightarrow>
      a_next w a = 0 \<Longrightarrow> \<exists>o2 w'. op_subscribe ops a o1 w = Some (False, o2, w') \<and> rep o2 w' (serve x)"
    and subscribe_no: "rep o1 w x \<Longrightarrow> \<not> available x \<Longrightarrow> proper a \<Longrightarrow> a \<notin> enlisted x \<Longrightarrow>
      a_next w a = 0 \<Longrightarrow> \<exists>o2 w'. op_subscribe ops a o1 w = Some (True, o2, w') \<and>
        rep o2 w' (enlist a x) \<and> a_flag w' = a_flag w"
    and enlisted_enlist: "\<not> available x \<Longrightarrow> enlisted (enlist a x) = insert a (enlisted x)"
    and rep_links: "rep o1 w x \<Longrightarrow> (\<And>b. b \<in> enlisted x \<Longrightarrow> a_next w b = a_next w' b) \<Longrightarrow> rep o1 w' x"
begin

text \<open>A coroutine is suspended exactly when it has to wait, and is then enlisted.\<close>

lemma co_await_served:
  assumes "rep o1 w x" and "available x"
  shows "\<exists>o2. co_await ops a h o1 w = Some (False, o2, w) \<and> rep o2 w (serve x)"
  using ready_yes [OF assms] by (auto simp: co_await_def await_ready_def)

lemma co_await_waits:
  assumes rep: "rep o1 w x" and "\<not> available x" and "proper a" and "a \<notin> enlisted x" and "a_next w a = 0"
  shows "\<exists>o2 w'. co_await ops a h o1 w = Some (True, o2, w') \<and> rep o2 w' (enlist a x)"
proof -
  have "rep o1 (set_handle a h w) x" using rep by (rule rep_links) (simp add: set_handle_def)
  moreover have "a_next (set_handle a h w) a = 0" using assms(5) by (simp add: set_handle_def)
  ultimately show ?thesis
    using subscribe_no [of o1 "set_handle a h w" x a] ready_no [OF assms(1,2)] assms
    by (auto simp: co_await_def await_ready_def await_suspend_def)
qed

text \<open>
  The owner may become available between the two calls, when another thread moves: the
  subscription then notices it and the coroutine goes on.
\<close>

lemma await_suspend_late:
  assumes rep: "rep o1 w x" and "available x" and "proper a" and "a \<notin> enlisted x" and "a_next w a = 0"
  shows "\<exists>o2 w'. await_suspend ops a h o1 w = Some (False, o2, w') \<and> rep o2 w' (serve x)"
proof -
  have "rep o1 (set_handle a h w) x" using rep by (rule rep_links) (simp add: set_handle_def)
  moreover have "a_next (set_handle a h w) a = 0" using assms(5) by (simp add: set_handle_def)
  ultimately show ?thesis
    using subscribe_yes [of o1 "set_handle a h w" x a] assms by (simp add: await_suspend_def)
qed

lemma sync_blocks:
  assumes rep: "rep o1 w x" and "proper a" and "a \<notin> enlisted x"
  shows "\<exists>o2 w'. force_sync ops a o1 w = Some (\<not> available x, o2, w') \<and>
    rep o2 w' (if available x then serve x else enlist a x)"
proof (cases "available x")
  case True
  with ready_yes [OF rep] show ?thesis by (auto simp: force_sync_def await_ready_def)
next
  case False
  let ?w = "sync_awaiter_init a w"
  have "rep o1 ?w x"
    using rep by (rule rep_links) (use assms(3) in \<open>auto simp: sync_awaiter_init_def set_resume_fn_def\<close>)
  moreover have "a_next ?w a = 0" "\<not> a_flag ?w a"
    by (simp_all add: sync_awaiter_init_def set_resume_fn_def)
  ultimately obtain o2 w' where "op_subscribe ops a o1 ?w = Some (True, o2, w')"
    "rep o2 w' (enlist a x)" "\<not> a_flag w' a"
    using subscribe_no [of o1 ?w x a] assms(2,3) False by auto
  then show ?thesis
    using ready_no [OF rep False] False by (simp add: force_sync_def await_ready_def)
qed

end

section \<open>Properties\<close>

text \<open>
  Subscription pushes the awaiter on top of the lock-free chain and changes no other
  link, however often the weak exchange fails spuriously; the loop ends.
\<close>

theorem subscribe_pushes:
  assumes "linked (a_next w) chain xs q" and "\<not> proper q" and "proper a" and "a \<notin> set xs"
  shows "\<exists>w'. subscribe sf a chain w = Some (a, w') \<and> linked (a_next w') a (a # xs) q \<and>
    w' = set_next a chain w"
proof -
  have "a \<noteq> chain" using assms by (cases xs) auto
  then show ?thesis using assms by (simp add: subscribe_result)
qed

theorem subscribe_pushes_witness:
  "\<exists>w'. subscribe [True, True] 5 1 \<lparr>a_next = \<lambda>_. 0, a_fn = \<lambda>_. Fn_coro, a_haddr = \<lambda>_. 50,
      a_flag = \<lambda>_. False, client = ()\<rparr> = Some (5, w') \<and> linked (a_next w') 5 [5] 1 \<and>
    w' = set_next 5 1 \<lparr>a_next = \<lambda>_. 0, a_fn = \<lambda>_. Fn_coro, a_haddr = \<lambda>_. 50,
      a_flag = \<lambda>_. False, client = ()\<rparr>"
  by (rule subscribe_pushes [where xs = "[]"]) (simp_all add: proper_def)

text \<open>
  \<open>subscribe_check_ready\<close> refuses the awaiter exactly when the chain carries the ready
  mark, and then leaves the awaiter unlinked and the chain as it is; otherwise the awaiter
  is on top of the chain. Spurious failures make no difference.
\<close>

theorem subscribe_check_ready_decides:
  assumes "linked (a_next w) chain xs q" and "q = 0 \<or> q = awaiter_disabled"
    and "proper a" and "a \<notin> set xs" and "a_next w a = 0"
  shows "if chain = awaiter_disabled
    then subscribe_check_ready sf a awaiter_disabled chain w = Some (False, chain, w)
    else \<exists>w'. subscribe_check_ready sf a awaiter_disabled chain w = Some (True, a, w') \<and>
      linked (a_next w') a (a # xs) q"
  using assms by (auto simp: subscribe_check_ready_result)

theorem subscribe_check_ready_decides_witness:
  "\<exists>w'. subscribe_check_ready [True] 5 awaiter_disabled 6
      \<lparr>a_next = \<lambda>_. 0, a_fn = \<lambda>_. Fn_coro, a_haddr = \<lambda>_. 50, a_flag = \<lambda>_. False, client = ()\<rparr>
     = Some (True, 5, w') \<and> linked (a_next w') 5 [5, 6] 0"
  using subscribe_check_ready_decides
    [of "\<lparr>a_next = \<lambda>_. 0, a_fn = \<lambda>_. Fn_coro, a_haddr = \<lambda>_. 50, a_flag = \<lambda>_. False, client = ()\<rparr>"
        6 "[6]" 0 5 "[True]"]
  by (simp add: proper_def awaiter_disabled_def)

text \<open>
  \<open>resume_chain_set_ready\<close> ends, resumes every awaiter of the chain exactly once, in
  the order of the chain (the latest subscriber first), clears all links and leaves the
  chain marked ready. For coroutines this yields their handles in the suspend point, for
  synchronous waiters it raises their flags.
\<close>

theorem resume_chain_set_ready_resumes_all:
  assumes "linked (a_next w) chain xs 0" and "plain w xs"
  shows "resume_chain_set_ready cl chain r w =
      Some (r, map (a_haddr w) (filter (\<lambda>a. a_fn w a = Fn_coro) xs), resumed xs w) \<and>
    (\<forall>a \<in> set xs. a_next (resumed xs w) a = 0 \<and>
      (a_fn w a = Fn_wakeup \<longrightarrow> a_flag (resumed xs w) a))"
  using resume_chain_loop_plain [OF assms, of cl "[]"]
  by (simp add: resume_chain_defs handles_of_def)

theorem resume_chain_set_ready_resumes_all_witness:
  "\<exists>w'. resume_chain_set_ready (\<lambda>_ _ _ w. ([], w)) 7 awaiter_disabled
      \<lparr>a_next = (\<lambda>_. 0)(7 := 5), a_fn = (\<lambda>_. Fn_coro), a_haddr = \<lambda>a. 10 * a,
        a_flag = \<lambda>_. False, client = ()\<rparr> = Some (awaiter_disabled, [70, 50], w')"
  using resume_chain_set_ready_resumes_all
    [of "\<lparr>a_next = (\<lambda>_. 0)(7 := 5), a_fn = (\<lambda>_. Fn_coro), a_haddr = \<lambda>a. 10 * a,
        a_flag = \<lambda>_. False, client = ()\<rparr>" 7 "[7, 5]" "\<lambda>_ _ _ w. ([], w)" awaiter_disabled]
  by (simp add: proper_def plain_def)

text \<open>
  The resumption loop also ends with client functions in the chain, which may do
  anything but rewrite the links of the awaiters still to be resumed (in particular an
  awaiter may subscribe itself again while it is resumed): each awaiter is resumed once.
\<close>

theorem resume_chain_with_clients:
  assumes "linked (a_next w) chain xs 0" and "client_keeps cl (set xs)"
  shows "resume_chain cl chain w = Some (0, resume_seq cl xs w)"
  using resume_chain_loop_seq [OF assms, of "[]"] by (simp add: resume_chain_defs)

theorem resume_chain_with_clients_witness:
  "resume_chain (\<lambda>k a ctx w. ([], w\<lparr>client := client w @ [a]\<rparr>)) 7
      \<lparr>a_next = (\<lambda>_. 0)(7 := 5), a_fn = (\<lambda>_. Fn_client 0), a_haddr = \<lambda>_. 0,
        a_flag = \<lambda>_. False, client = []\<rparr>
   = Some (0, [], \<lparr>a_next = (\<lambda>_. 0)(7 := 0, 5 := 0), a_fn = (\<lambda>_. Fn_client 0), a_haddr = \<lambda>_. 0,
        a_flag = \<lambda>_. False, client = [7, 5]\<rparr>)"
  using resume_chain_with_clients
    [of "\<lparr>a_next = (\<lambda>_. 0)(7 := 5), a_fn = (\<lambda>_. Fn_client 0), a_haddr = \<lambda>_. 0,
        a_flag = \<lambda>_. False, client = []\<rparr>" 7 "[7, 5]" "\<lambda>k a ctx w. ([], w\<lparr>client := client w @ [a]\<rparr>)"]
  by (simp add: proper_def client_keeps_def resume_awaiter_def set_next_def)

end
