(* ===== verification/Mutex.thy ===== *)
theory Mutex
  imports Awaiter
begin

section \<open>mutex: the coroutine lock\<close>

text \<open>
  \<open>mutex.h\<close>: \<open>_requests\<close> is the lock-free LIFO chain of requests, with the doorman (the
  static \<open>awaiter::instance\<close>) at its end while the mutex is held; \<open>_queue\<close> is the list of
  waiting awaiters in the order of their requests, which only the owner touches. This theory
  runs each operation to its end; theory \<open>Mutex_Threads\<close> interleaves the atomic accesses of
  several threads.
\<close>

subsection \<open>State and operations\<close>

record mutex =
  requests :: ptr
  mqueue :: ptr

definition doorman :: ptr where
  "doorman = awaiter_instance"

definition mutex_init :: mutex where
  "mutex_init = \<lparr>requests = nullptr, mqueue = nullptr\<rparr>"

text \<open>The destructor asserts that there is neither an owner nor a request.\<close>

definition mutex_destroy :: "mutex \<Rightarrow> unit option" where
  "mutex_destroy m = (if mqueue m \<noteq> nullptr \<or> requests m \<noteq> nullptr then None else Some ())"

definition mutex_ready :: "mutex \<Rightarrow> bool \<times> mutex" where
  "mutex_ready m = (if requests m = nullptr then (True, m\<lparr>requests := doorman\<rparr>) else (False, m))"

partial_function (option) build_loop :: "ptr \<Rightarrow> ptr \<Rightarrow> ptr \<Rightarrow> 'w aworld \<Rightarrow> (ptr \<times> 'w aworld) option" where
  "build_loop stop req q w =
     (if req \<noteq> nullptr \<and> req \<noteq> stop then
        (let x = req; req' = a_next w x in build_loop stop req' x (set_next x q w))
      else Some (q, w))"

definition build_queue :: "ptr \<Rightarrow> mutex \<Rightarrow> 'w aworld \<Rightarrow> (mutex \<times> 'w aworld) option" where
  "build_queue stop m w =
     (if mqueue m \<noteq> nullptr then None
      else
        (let req = requests m; m1 = m\<lparr>requests := doorman\<rparr> in
         map_option (\<lambda>(q, w'). (m1\<lparr>mqueue := q\<rparr>, w')) (build_loop stop req (mqueue m1) w)))"

definition mutex_subscribe ::
    "bool list \<Rightarrow> ptr \<Rightarrow> mutex \<Rightarrow> 'w aworld \<Rightarrow> (bool \<times> mutex \<times> 'w aworld) option" where
  "mutex_subscribe sf aw m w =
     Option.bind (subscribe sf aw (requests m) w) (\<lambda>(r, w1).
       let m1 = m\<lparr>requests := r\<rparr> in
       if a_next w1 aw = nullptr then
         map_option (\<lambda>(m2, w2). (False, m2, w2)) (build_queue aw m1 w1)
       else Some (True, m1, w1))"

text \<open>
  \<open>unlock\<close>: the last component is the awaiter that \<open>fn\<close> is called with, if any; the
  function follows \<open>_queue\<close>, which must not be null then.
\<close>

definition mutex_unlock :: "mutex \<Rightarrow> 'w aworld \<Rightarrow> (mutex \<times> 'w aworld \<times> ptr option) option" where
  "mutex_unlock m w =
     (if requests m = nullptr then None
      else if mqueue m = nullptr \<and> requests m = doorman then Some (m\<lparr>requests := nullptr\<rparr>, w, None)
      else
        Option.bind (if mqueue m = nullptr then build_queue doorman m w else Some (m, w)) (\<lambda>(m1, w1).
          let first = mqueue m1 in
          if first = nullptr then None
          else Some (m1\<lparr>mqueue := a_next w1 first\<rparr>, set_next first nullptr w1, Some first)))"

text \<open>
  An \<open>ownership\<close> is a unique pointer to the mutex: true while it is held. \<open>release\<close> gives
  the ready handles of the awaiter that becomes the owner; the deleter (\<open>ownership\<close> going
  out of scope) does the same and drops the suspend point.
\<close>

definition ownership_release ::
    "'w client_fn \<Rightarrow> bool \<Rightarrow> mutex \<Rightarrow> 'w aworld \<Rightarrow> (handle list \<times> bool \<times> mutex \<times> 'w aworld) option" where
  "ownership_release cl own m w =
     (if \<not> own then Some ([], False, m, w)
      else
        map_option (\<lambda>(m', w', next).
          case next of
            None \<Rightarrow> ([], False, m', w')
          | Some awt \<Rightarrow> (let (hs, w'') = resume_awaiter cl awt w' in (hs, False, m', w'')))
          (mutex_unlock m w))"

definition try_lock :: "mutex \<Rightarrow> bool \<times> mutex" where
  "try_lock m = mutex_ready m"

definition mutex_ops :: "bool list \<Rightarrow> (mutex, 'w) owner_ops" where
  "mutex_ops sf = \<lparr>op_ready = mutex_ready, op_subscribe = mutex_subscribe sf\<rparr>"

subsection \<open>The abstract lock\<close>

text \<open>A lock is free, or held with the awaiters that wait for it, first come first.\<close>

record lock_spec =
  held :: bool
  waiters :: "ptr list"

definition mutex_rep :: "mutex \<Rightarrow> 'w aworld \<Rightarrow> lock_spec \<Rightarrow> bool" where
  "mutex_rep m w x \<longleftrightarrow>
     (if held x then
        \<exists>rs qs. linked (a_next w) (requests m) rs doorman \<and> linked (a_next w) (mqueue m) qs nullptr \<and>
          distinct (rs @ qs) \<and> waiters x = qs @ rev rs
      else requests m = nullptr \<and> mqueue m = nullptr \<and> waiters x = [])"

lemma doorman_simps [simp]: "\<not> proper doorman" "doorman \<noteq> 0"
  by (simp_all add: doorman_def)

lemma linked_doorman_neq: "linked nx p rs doorman \<Longrightarrow> p \<noteq> 0"
  by (cases rs) auto

lemma build_loop_reverses:
  assumes "linked (a_next w) req rs stop" and "linked (a_next w) q qs 0"
    and "distinct (rs @ qs)" and "\<not> proper stop"
  shows "\<exists>q' w'. build_loop stop req q w = Some (q', w') \<and> linked (a_next w') q' (rev rs @ qs) 0 \<and>
    w' = w\<lparr>a_next := a_next w'\<rparr> \<and> (\<forall>b. b \<notin> set rs \<longrightarrow> a_next w' b = a_next w b)"
  using assms
proof (induction rs arbitrary: req q qs w)
  case Nil
  then show ?case by (subst build_loop.simps) auto
next
  case (Cons a rs)
  let ?w = "set_next a q w"
  have a: "req = a" "proper a" "linked (a_next w) (a_next w a) rs stop" "a \<notin> set rs" "a \<notin> set qs"
    using Cons.prems by auto
  have l1: "linked (a_next ?w) (a_next w a) rs stop" using a by simp
  have l2: "linked (a_next ?w) a (a # qs) 0" using a Cons.prems(2) by simp
  have d: "distinct (rs @ a # qs)" using Cons.prems(3) by simp
  obtain q' w' where IH: "build_loop stop (a_next w a) a ?w = Some (q', w')"
    "linked (a_next w') q' (rev rs @ a # qs) 0" "w' = ?w\<lparr>a_next := a_next w'\<rparr>"
    "\<forall>b. b \<notin> set rs \<longrightarrow> a_next w' b = a_next ?w b"
    using Cons.IH [OF l1 l2 d Cons.prems(4)] by blast
  have "build_loop stop req q w = Some (q', w')"
    using a IH(1) Cons.prems(2,4) by (subst build_loop.simps) (auto simp: Let_def)
  moreover have "w' = w\<lparr>a_next := a_next w'\<rparr>" using IH(3) by (simp add: set_next_def)
  moreover have "\<forall>b. b \<notin> set (a # rs) \<longrightarrow> a_next w' b = a_next w b" using IH(4) by simp
  ultimately show ?case using IH(2) by auto
qed

lemma mutex_rep_heldI:
  "held x \<Longrightarrow> linked (a_next w) (requests m) rs doorman \<Longrightarrow> linked (a_next w) (mqueue m) qs 0 \<Longrightarrow>
    distinct (rs @ qs) \<Longrightarrow> waiters x = qs @ rev rs \<Longrightarrow> mutex_rep m w x"
  by (auto simp: mutex_rep_def)

lemma mutex_rep_heldE:
  assumes "mutex_rep m w x" and "held x"
  obtains rs qs where "linked (a_next w) (requests m) rs doorman" "linked (a_next w) (mqueue m) qs 0"
    "distinct (rs @ qs)" "waiters x = qs @ rev rs"
  using assms by (auto simp: mutex_rep_def)

lemma mutex_rep_links:
  assumes "mutex_rep m w x" and "\<And>b. b \<in> set (waiters x) \<Longrightarrow> a_next w b = a_next w' b"
  shows "mutex_rep m w' x"
proof (cases "held x")
  case True
  with assms(1) obtain rs qs where *: "linked (a_next w) (requests m) rs doorman"
    "linked (a_next w) (mqueue m) qs 0" "distinct (rs @ qs)" "waiters x = qs @ rev rs"
    by (auto simp: mutex_rep_def)
  then have "linked (a_next w') (requests m) rs doorman" "linked (a_next w') (mqueue m) qs 0"
    using assms(2) linked_cong [of rs "a_next w" "a_next w'"] linked_cong [of qs "a_next w" "a_next w'"]
    by auto
  with * True show ?thesis unfolding mutex_rep_def by auto
qed (use assms in \<open>simp add: mutex_rep_def\<close>)

lemma mutex_rep_requests: "mutex_rep m w x \<Longrightarrow> requests m = 0 \<longleftrightarrow> \<not> held x"
  by (auto simp: mutex_rep_def dest: linked_doorman_neq)

lemma mutex_rep_proper: "mutex_rep m w x \<Longrightarrow> a \<in> set (waiters x) \<Longrightarrow> proper a"
  by (auto simp: mutex_rep_def split: if_splits dest: linked_proper)

lemma mutex_rep_held_init: "mutex_rep \<lparr>requests = doorman, mqueue = 0\<rparr> w \<lparr>held = True, waiters = []\<rparr>"
  by (auto simp: mutex_rep_def intro!: exI [of _ "[]"])

lemma mutex_subscribe_free:
  assumes rep: "mutex_rep m w x" and free: "\<not> held x" and a: "proper a" "a_next w a = 0"
  shows "mutex_subscribe sf a m w = Some (False, \<lparr>requests = doorman, mqueue = 0\<rparr>, w) \<and>
    mutex_rep \<lparr>requests = doorman, mqueue = 0\<rparr> w (x\<lparr>held := True\<rparr>)"
proof -
  have m: "requests m = 0" "mqueue m = 0" "waiters x = []"
    using rep free by (simp_all add: mutex_rep_def)
  have "build_loop a a 0 w = Some (0, w)" by (subst build_loop.simps) simp
  with m a have "mutex_subscribe sf a m w = Some (False, \<lparr>requests = doorman, mqueue = 0\<rparr>, w)"
    by (cases m) (simp add: mutex_subscribe_def subscribe_result build_queue_def)
  moreover have "x\<lparr>held := True\<rparr> = \<lparr>held = True, waiters = []\<rparr>" using m by (cases x) simp
  ultimately show ?thesis by (simp add: mutex_rep_held_init)
qed

lemma mutex_subscribe_held:
  assumes rep: "mutex_rep m w x" and held: "held x" and a: "proper a" "a \<notin> set (waiters x)" "a_next w a = 0"
  shows "mutex_subscribe sf a m w = Some (True, m\<lparr>requests := a\<rparr>, set_next a (requests m) w) \<and>
    mutex_rep (m\<lparr>requests := a\<rparr>) (set_next a (requests m) w) (x\<lparr>waiters := waiters x @ [a]\<rparr>)"
proof -
  obtain rs qs where *: "linked (a_next w) (requests m) rs doorman" "linked (a_next w) (mqueue m) qs 0"
      "distinct (rs @ qs)" "waiters x = qs @ rev rs"
    using rep held by (auto simp: mutex_rep_def)
  have "a \<noteq> requests m" using * a by (cases rs) auto
  moreover have "requests m \<noteq> 0" using *(1) by (rule linked_doorman_neq)
  ultimately have "mutex_subscribe sf a m w = Some (True, m\<lparr>requests := a\<rparr>, set_next a (requests m) w)"
    by (simp add: mutex_subscribe_def subscribe_result)
  moreover have "linked (a_next (set_next a (requests m) w)) a (a # rs) doorman"
    "linked (a_next (set_next a (requests m) w)) (mqueue m) qs 0"
    using * a by auto
  then have "mutex_rep (m\<lparr>requests := a\<rparr>) (set_next a (requests m) w) (x\<lparr>waiters := waiters x @ [a]\<rparr>)"
    using * a held by (intro mutex_rep_heldI [of _ _ _ "a # rs" qs]) simp_all
  ultimately show ?thesis by simp
qed

lemma mutex_unlock_free:
  assumes "mutex_rep m w x" and "held x" and "waiters x = []"
  shows "\<exists>m'. mutex_unlock m w = Some (m', w, None) \<and> mutex_rep m' w (x\<lparr>held := False\<rparr>)"
proof -
  have "requests m = doorman" "mqueue m = 0" using assms by (auto simp: mutex_rep_def)
  with assms(3) show ?thesis by (simp add: mutex_unlock_def mutex_rep_def)
qed

text \<open>The head of the private queue is handed out.\<close>

lemma mutex_pop_first:
  assumes "linked (a_next w) (requests m) rs doorman" and "linked (a_next w) f (f # qs) 0"
    and "distinct (rs @ f # qs)"
  shows "mutex_rep (m\<lparr>mqueue := a_next w f\<rparr>) (set_next f 0 w) \<lparr>held = True, waiters = qs @ rev rs\<rparr>"
  using assms by (intro mutex_rep_heldI [of _ _ _ rs qs]) simp_all

lemma mutex_unlock_queue:
  assumes "linked (a_next w) (requests m) rs doorman" and "linked (a_next w) (mqueue m) (f # qs) 0"
    and "distinct (rs @ f # qs)"
  shows "mutex_unlock m w = Some (m\<lparr>mqueue := a_next w f\<rparr>, set_next f 0 w, Some f)"
    and "mutex_rep (m\<lparr>mqueue := a_next w f\<rparr>) (set_next f 0 w) \<lparr>held = True, waiters = qs @ rev rs\<rparr>"
proof -
  have "requests m \<noteq> 0" using assms(1) by (rule linked_doorman_neq)
  then show "mutex_unlock m w = Some (m\<lparr>mqueue := a_next w f\<rparr>, set_next f 0 w, Some f)"
    using assms(2) by (auto simp: mutex_unlock_def)
  show "mutex_rep (m\<lparr>mqueue := a_next w f\<rparr>) (set_next f 0 w) \<lparr>held = True, waiters = qs @ rev rs\<rparr>"
    using assms mutex_pop_first [of w m rs f qs] by simp
qed

lemma mutex_unlock_rebuild:
  assumes l: "linked (a_next w) (requests m) rs doorman" and q: "mqueue m = 0" and rs: "rev rs = f # ws"
  shows "\<exists>m' w'. mutex_unlock m w = Some (m', w', Some f) \<and>
    mutex_rep m' w' \<lparr>held = True, waiters = ws\<rparr> \<and> w' = w\<lparr>a_next := a_next w'\<rparr>"
proof -
  have d: "distinct rs" using l by (intro linked_distinct) simp_all
  then have d': "distinct (f # ws)" by (metis distinct_rev rs)
  obtain q' w' where b: "build_loop doorman (requests m) 0 w = Some (q', w')"
    "linked (a_next w') q' (f # ws) 0" "w' = w\<lparr>a_next := a_next w'\<rparr>"
    using build_loop_reverses [OF l, of 0 "[]"] d rs by auto
  then have q': "q' = f" "linked (a_next w') f (f # ws) 0" "proper f" by auto
  let ?m = "\<lparr>requests = doorman, mqueue = f\<rparr>"
  have "rs \<noteq> []" using rs by auto
  then have "requests m \<noteq> doorman" "requests m \<noteq> 0" using l by (cases rs, auto)+
  then have "mutex_unlock m w = Some (?m\<lparr>mqueue := a_next w' f\<rparr>, set_next f 0 w', Some f)"
    using q b(1) q' by (simp add: mutex_unlock_def build_queue_def)
  moreover have "mutex_rep (?m\<lparr>mqueue := a_next w' f\<rparr>) (set_next f 0 w') \<lparr>held = True, waiters = ws\<rparr>"
    using mutex_pop_first [of w' ?m "[]" f ws] q' d' by simp
  moreover have "set_next f 0 w' = w\<lparr>a_next := a_next (set_next f 0 w')\<rparr>"
    by (subst b(3)) (simp add: set_next_def)
  ultimately show ?thesis by blast
qed

lemma mutex_unlock_pass:
  assumes rep: "mutex_rep m w x" and "held x" and f: "waiters x = f # ws"
  shows "\<exists>m' w'. mutex_unlock m w = Some (m', w', Some f) \<and> mutex_rep m' w' (x\<lparr>waiters := ws\<rparr>) \<and>
    w' = w\<lparr>a_next := a_next w'\<rparr>"
proof -
  obtain rs qs where *: "linked (a_next w) (requests m) rs doorman" "linked (a_next w) (mqueue m) qs 0"
      "distinct (rs @ qs)" "waiters x = qs @ rev rs"
    using rep assms(2) by (rule mutex_rep_heldE)
  have x: "x\<lparr>waiters := ws\<rparr> = \<lparr>held = True, waiters = ws\<rparr>" using assms(2) by (cases x) simp
  show ?thesis
  proof (cases qs)
    case (Cons g qs')
    then have g: "g = f" "ws = qs' @ rev rs" using f *(4) by simp_all
    have "linked (a_next w) (mqueue m) (f # qs') 0" "distinct (rs @ f # qs')" using * Cons g by simp_all
    from mutex_unlock_queue [OF *(1) this] x g(2) show ?thesis by (simp add: set_next_def)
  next
    case Nil
    then have "mqueue m = 0" "rev rs = f # ws" using f * by simp_all
    from mutex_unlock_rebuild [OF *(1) this] x show ?thesis by simp
  qed
qed

subsection \<open>The mutex keeps the contract of an awaitable object\<close>

interpretation mx: awaitable "mutex_ops sf" mutex_rep "\<lambda>x. \<not> held x" "\<lambda>x. x\<lparr>held := True\<rparr>"
  "\<lambda>a x. x\<lparr>waiters := waiters x @ [a]\<rparr>" "\<lambda>x. set (waiters x)"
  for sf
proof (unfold_locales, goal_cases)
  case (1 m w x)
  then have "mutex_ready m = (True, \<lparr>requests = doorman, mqueue = 0\<rparr>)"
    "x\<lparr>held := True\<rparr> = \<lparr>held = True, waiters = []\<rparr>"
    by (cases m, cases x, auto simp: mutex_ready_def mutex_rep_def)+
  then show ?case by (simp add: mutex_ops_def mutex_rep_held_init)
next
  case (2 m w x)
  then show ?case by (auto simp: mutex_ops_def mutex_ready_def dest: mutex_rep_requests)
next
  case (3 m w x a)
  then show ?case using mutex_subscribe_free [of m w x a sf] by (auto simp: mutex_ops_def)
next
  case (4 m w x a)
  then show ?case using mutex_subscribe_held [of m w x a sf] by (auto simp: mutex_ops_def)
next
  case (5 a x)
  then show ?case by simp
next
  case (6 m w x w')
  then show ?case by (rule mutex_rep_links)
qed

subsection \<open>Runs of a mutex\<close>

text \<open>
  Any number of coroutines and threads use one mutex: each command is \<open>lock()\<close> awaited by
  a coroutine (\<open>Do_lock\<close>) or by a thread (\<open>Do_sync\<close>), \<open>try_lock()\<close> or the release of the
  ownership. The awaiter of a lock request is a fresh object, so its \<open>_next\<close> is null.
  \<open>owns\<close> counts the ownerships that exist; \<open>asked\<close> and \<open>granted\<close> are the awaiters that
  had to wait and those that got the lock from a release, in the order of the events.
\<close>

datatype lock_cmd =
    Do_lock ptr handle
  | Do_sync ptr
  | Do_try
  | Do_release

record 'w mutex_sys =
  mtx :: mutex
  heap :: "'w aworld"
  owns :: nat
  asked :: "ptr list"
  granted :: "ptr list"

definition mutex_start :: "'w aworld \<Rightarrow> 'w mutex_sys" where
  "mutex_start w = \<lparr>mtx = mutex_init, heap = w, owns = 0, asked = [], granted = []\<rparr>"

definition waiting :: "'w mutex_sys \<Rightarrow> ptr list" where
  "waiting s = drop (length (granted s)) (asked s)"

fun cmd_ok :: "lock_cmd \<Rightarrow> 'w mutex_sys \<Rightarrow> bool" where
  "cmd_ok (Do_lock a h) s \<longleftrightarrow> proper a \<and> a \<notin> set (waiting s)"
| "cmd_ok (Do_sync a) s \<longleftrightarrow> proper a \<and> a \<notin> set (waiting s)"
| "cmd_ok Do_try s \<longleftrightarrow> True"
| "cmd_ok Do_release s \<longleftrightarrow> 0 < owns s"

definition after_lock ::
    "ptr \<Rightarrow> 'w mutex_sys \<Rightarrow> (bool \<times> mutex \<times> 'w aworld) option \<Rightarrow> 'w mutex_sys option" where
  "after_lock a s = map_option (\<lambda>(suspended, m, w).
     if suspended then s\<lparr>mtx := m, heap := w, asked := asked s @ [a]\<rparr>
     else s\<lparr>mtx := m, heap := w, owns := Suc (owns s)\<rparr>)"

fun mutex_exec :: "bool list \<Rightarrow> 'w client_fn \<Rightarrow> lock_cmd \<Rightarrow> 'w mutex_sys \<Rightarrow> 'w mutex_sys option" where
  "mutex_exec sf cl (Do_lock a h) s =
     after_lock a s (co_await (mutex_ops sf) a h (mtx s) (set_next a nullptr (heap s)))"
| "mutex_exec sf cl (Do_sync a) s =
     after_lock a s (force_sync (mutex_ops sf) a (mtx s) (heap s))"
| "mutex_exec sf cl Do_try s =
     (let (ok, m) = try_lock (mtx s) in
      Some (s\<lparr>mtx := m, owns := (if ok then Suc (owns s) else owns s)\<rparr>))"
| "mutex_exec sf cl Do_release s =
     map_option (\<lambda>(m, w, next).
       (case next of
          None \<Rightarrow> s\<lparr>mtx := m, heap := w, owns := owns s - 1\<rparr>
        | Some a \<Rightarrow> s\<lparr>mtx := m, heap := snd (resume_awaiter cl a w), granted := granted s @ [a]\<rparr>))
     (mutex_unlock (mtx s) (heap s))"

inductive mutex_reach :: "'w client_fn \<Rightarrow> 'w mutex_sys \<Rightarrow> bool" for cl where
  reach_start: "mutex_reach cl (mutex_start w)"
| reach_step: "mutex_reach cl s \<Longrightarrow> cmd_ok c s \<Longrightarrow> mutex_exec sf cl c s = Some s' \<Longrightarrow> mutex_reach cl s'"

definition spec_of :: "'w mutex_sys \<Rightarrow> lock_spec" where
  "spec_of s = \<lparr>held = 0 < owns s, waiters = waiting s\<rparr>"

definition mutex_inv :: "'w mutex_sys \<Rightarrow> bool" where
  "mutex_inv s \<longleftrightarrow> mutex_rep (mtx s) (heap s) (spec_of s) \<and> owns s \<le> 1 \<and>
     asked s = granted s @ waiting s"

lemma spec_of_simps [simp]: "held (spec_of s) = (0 < owns s)" "waiters (spec_of s) = waiting s"
  by (simp_all add: spec_of_def)

lemma after_lock_ok:
  assumes inv: "mutex_inv s"
    and r: "\<exists>m w. r = Some (0 < owns s, m, w) \<and> mutex_rep m w
      (if 0 < owns s then (spec_of s)\<lparr>waiters := waiting s @ [a]\<rparr> else (spec_of s)\<lparr>held := True\<rparr>)"
  shows "\<exists>s'. after_lock a s r = Some s' \<and> mutex_inv s'"
proof -
  obtain m w where r: "r = Some (0 < owns s, m, w)" and rep: "mutex_rep m w
      (if 0 < owns s then (spec_of s)\<lparr>waiters := waiting s @ [a]\<rparr> else (spec_of s)\<lparr>held := True\<rparr>)"
    using r by blast
  let ?g = "granted s" let ?ws = "waiting s"
  have g: "asked s = ?g @ ?ws" using inv by (simp add: mutex_inv_def)
  show ?thesis
  proof (cases "0 < owns s")
    case True
    let ?s = "s\<lparr>mtx := m, heap := w, asked := asked s @ [a]\<rparr>"
    have "waiting ?s = ?ws @ [a]" unfolding waiting_def [of ?s] using g by simp
    then have "mutex_inv ?s" using rep inv g True by (simp add: mutex_inv_def spec_of_def)
    with True r show ?thesis by (simp add: after_lock_def)
  next
    case False
    let ?s = "s\<lparr>mtx := m, heap := w, owns := Suc (owns s)\<rparr>"
    have "waiting ?s = ?ws" by (simp add: waiting_def)
    then have "mutex_inv ?s" using rep g False by (simp add: mutex_inv_def spec_of_def)
    with False r show ?thesis by (simp add: after_lock_def)
  qed
qed

lemma exec_lock_ok:
  assumes inv: "mutex_inv s" and ok: "proper a" "a \<notin> set (waiting s)"
  shows "\<exists>s'. mutex_exec sf cl (Do_lock a h) s = Some s' \<and> mutex_inv s'"
proof -
  let ?w = "set_next a 0 (heap s)"
  have "mutex_rep (mtx s) (heap s) (spec_of s)" using inv by (simp add: mutex_inv_def)
  then have rep: "mutex_rep (mtx s) ?w (spec_of s)"
    by (rule mutex_rep_links) (use ok in auto)
  have "\<exists>m w. co_await (mutex_ops sf) a h (mtx s) ?w = Some (0 < owns s, m, w) \<and> mutex_rep m w
      (if 0 < owns s then (spec_of s)\<lparr>waiters := waiting s @ [a]\<rparr> else (spec_of s)\<lparr>held := True\<rparr>)"
    using mx.co_await_served [OF rep, of sf a h] mx.co_await_waits [OF rep, of a sf h] ok
    by (cases "0 < owns s") auto
  from after_lock_ok [OF inv this] show ?thesis by simp
qed

lemma exec_sync_ok:
  assumes inv: "mutex_inv s" and ok: "proper a" "a \<notin> set (waiting s)"
  shows "\<exists>s'. mutex_exec sf cl (Do_sync a) s = Some s' \<and> mutex_inv s'"
proof -
  have rep: "mutex_rep (mtx s) (heap s) (spec_of s)" using inv by (simp add: mutex_inv_def)
  have "\<exists>m w. force_sync (mutex_ops sf) a (mtx s) (heap s) = Some (0 < owns s, m, w) \<and> mutex_rep m w
      (if 0 < owns s then (spec_of s)\<lparr>waiters := waiting s @ [a]\<rparr> else (spec_of s)\<lparr>held := True\<rparr>)"
    using mx.sync_blocks [OF rep, of a sf] ok by (cases "0 < owns s") auto
  from after_lock_ok [OF inv this] show ?thesis by simp
qed

lemma try_lock_result:
  assumes "mutex_rep m w x"
  shows "\<exists>m'. try_lock m = (\<not> held x, m') \<and> mutex_rep m' w (x\<lparr>held := True\<rparr>)"
  using mx.ready_yes [OF assms] mx.ready_no [OF assms] assms
  by (cases "held x"; cases x) (auto simp: try_lock_def mutex_ops_def)

lemma exec_try_ok:
  assumes inv: "mutex_inv s"
  shows "\<exists>s'. mutex_exec sf cl Do_try s = Some s' \<and> mutex_inv s'"
proof -
  obtain m' where m': "try_lock (mtx s) = (\<not> 0 < owns s, m')"
    "mutex_rep m' (heap s) ((spec_of s)\<lparr>held := True\<rparr>)"
    using try_lock_result [of "mtx s" "heap s" "spec_of s"] inv by (auto simp: mutex_inv_def)
  let ?s = "s\<lparr>mtx := m', owns := (if \<not> 0 < owns s then Suc (owns s) else owns s)\<rparr>"
  have "waiting ?s = waiting s" by (simp add: waiting_def)
  then have "mutex_inv ?s" using m'(2) inv by (auto simp: mutex_inv_def spec_of_def)
  with m'(1) show ?thesis by simp
qed

lemma exec_release_ok:
  assumes inv: "mutex_inv s" and owns: "0 < owns s" and cl: "client_keeps cl UNIV"
  shows "\<exists>s'. mutex_exec sf cl Do_release s = Some s' \<and> mutex_inv s'"
proof -
  have rep: "mutex_rep (mtx s) (heap s) (spec_of s)" and g: "asked s = granted s @ waiting s"
    and one: "owns s = 1"
    using inv owns by (simp_all add: mutex_inv_def)
  show ?thesis
  proof (cases "waiting s")
    case Nil
    then obtain m' where u: "mutex_unlock (mtx s) (heap s) = Some (m', heap s, None)"
      "mutex_rep m' (heap s) ((spec_of s)\<lparr>held := False\<rparr>)"
      using mutex_unlock_free [OF rep] owns by auto
    let ?s = "s\<lparr>mtx := m', heap := heap s, owns := owns s - 1\<rparr>"
    have "waiting ?s = waiting s" by (simp add: waiting_def)
    then have "mutex_inv ?s" using u(2) g one by (simp add: mutex_inv_def spec_of_def)
    with u(1) show ?thesis by simp
  next
    case (Cons a as)
    then obtain m' w' where u: "mutex_unlock (mtx s) (heap s) = Some (m', w', Some a)"
      "mutex_rep m' w' ((spec_of s)\<lparr>waiters := as\<rparr>)"
      using mutex_unlock_pass [OF rep] owns by auto
    let ?w = "snd (resume_awaiter cl a w')"
    let ?s = "s\<lparr>mtx := m', heap := ?w, granted := granted s @ [a]\<rparr>"
    have "distinct (a # as)"
      using mutex_rep_heldE [OF rep] owns Cons by (metis spec_of_simps(1) distinct_append distinct_rev
        inf_commute set_rev spec_of_simps(2))
    then have "a_next w' b = a_next ?w b" if "b \<in> set as" for b
      using that by (intro resume_awaiter_next [OF cl UNIV_I, symmetric]) auto
    then have "mutex_rep m' ?w ((spec_of s)\<lparr>waiters := as\<rparr>)"
      by (intro mutex_rep_links [OF u(2)]) simp
    moreover have "waiting ?s = as" using g Cons by (simp add: waiting_def [of ?s])
    ultimately have "mutex_inv ?s" using g Cons one by (simp add: mutex_inv_def spec_of_def)
    with u(1) show ?thesis by simp
  qed
qed

lemma mutex_exec_ok:
  assumes "mutex_inv s" and "cmd_ok c s" and "client_keeps cl UNIV"
  shows "\<exists>s'. mutex_exec sf cl c s = Some s' \<and> mutex_inv s'"
proof (cases c)
  case (Do_lock a h)
  with assms show ?thesis using exec_lock_ok [of s a sf cl h] by (simp del: mutex_exec.simps)
next
  case (Do_sync a)
  with assms show ?thesis using exec_sync_ok [of s a sf cl] by (simp del: mutex_exec.simps)
next
  case Do_try
  with assms show ?thesis using exec_try_ok [of s sf cl] by (simp del: mutex_exec.simps)
next
  case Do_release
  with assms show ?thesis using exec_release_ok [of s cl sf] by (simp del: mutex_exec.simps)
qed

lemma mutex_start_inv: "mutex_inv (mutex_start w)"
  by (simp add: mutex_inv_def mutex_start_def spec_of_def waiting_def mutex_rep_def mutex_init_def)

lemma mutex_reach_inv:
  assumes "mutex_reach cl s" and "client_keeps cl UNIV"
  shows "mutex_inv s"
  using assms
proof induction
  case (reach_step s c sf s')
  from mutex_exec_ok [OF reach_step.IH [OF reach_step.prems] reach_step.hyps(2) reach_step.prems, of sf]
  show ?case using reach_step.hyps(3) by simp
qed (rule mutex_start_inv)

lemma release_result:
  assumes rep: "mutex_rep m w x" and "held x" and plain: "plain w (waiters x)"
  shows "\<exists>m' w'. ownership_release cl True m w = Some (handles_of w (take 1 (waiters x)), False, m', w') \<and>
    mutex_rep m' w' (if waiters x = [] then x\<lparr>held := False\<rparr> else x\<lparr>waiters := tl (waiters x)\<rparr>)"
proof (cases "waiters x")
  case Nil
  with mutex_unlock_free [OF rep assms(2)] show ?thesis
    by (auto simp: ownership_release_def handles_of_def)
next
  case (Cons f ws)
  then obtain m' w' where u: "mutex_unlock m w = Some (m', w', Some f)"
    "mutex_rep m' w' (x\<lparr>waiters := ws\<rparr>)" "w' = w\<lparr>a_next := a_next w'\<rparr>"
    using mutex_unlock_pass [OF rep assms(2)] by blast
  have same: "a_fn w' = a_fn w" "a_haddr w' = a_haddr w" by (subst u(3), simp)+
  have "\<forall>k. a_fn w f \<noteq> Fn_client k" using plain Cons by (simp add: plain_def)
  then have r: "fst (resume_awaiter cl f w') = handles_of w [f]"
    "a_next (snd (resume_awaiter cl f w')) = a_next w'"
    using same by (auto simp: resume_awaiter_def handles_of_def wakeup_def split: resume_fn.split)
  have "mutex_rep m' (snd (resume_awaiter cl f w')) (x\<lparr>waiters := ws\<rparr>)"
    using u(2) by (rule mutex_rep_links) (simp add: r)
  then show ?thesis
    using u(1) r Cons by (auto simp: ownership_release_def Let_def split_def)
qed

subsection \<open>Properties\<close>

text \<open>
  Locking refines the abstract lock: a coroutine that awaits \<open>lock()\<close> owns the mutex at
  once when it is free, and otherwise is suspended as the last of the waiters; spurious
  failures of the exchange change nothing and no assertion fails.
\<close>

theorem mutex_lock_refines:
  assumes "mutex_rep m w x" and "proper a" and "a \<notin> set (waiters x)" and "a_next w a = 0"
  shows "\<exists>m' w'. co_await (mutex_ops sf) a h m w = Some (held x, m', w') \<and>
    mutex_rep m' w' (if held x then x\<lparr>waiters := waiters x @ [a]\<rparr> else x\<lparr>held := True\<rparr>)"
  using mx.co_await_served [OF assms(1), of sf a h] mx.co_await_waits [OF assms(1), of a sf h] assms
  by (cases "held x") auto

theorem mutex_lock_refines_witness:
  "\<exists>m' w'. co_await (mutex_ops [True]) 7 70 \<lparr>requests = 1, mqueue = 5\<rparr>
     \<lparr>a_next = \<lambda>_. 0, a_fn = \<lambda>_. Fn_coro, a_haddr = \<lambda>_. 50, a_flag = \<lambda>_. False, client = ()\<rparr>
     = Some (True, m', w') \<and> mutex_rep m' w' \<lparr>held = True, waiters = [5, 7]\<rparr>"
  using mutex_lock_refines [of "\<lparr>requests = 1, mqueue = 5\<rparr>"
      "\<lparr>a_next = \<lambda>_. 0, a_fn = \<lambda>_. Fn_coro, a_haddr = \<lambda>_. 50, a_flag = \<lambda>_. False, client = ()\<rparr>"
      "\<lparr>held = True, waiters = [5]\<rparr>" 7 "[True]" 70]
    mutex_rep_heldI [of "\<lparr>held = True, waiters = [5]\<rparr>"
      "\<lparr>a_next = \<lambda>_. 0, a_fn = \<lambda>_. Fn_coro, a_haddr = \<lambda>_. 50, a_flag = \<lambda>_. False, client = ()\<rparr>"
      "\<lparr>requests = 1, mqueue = 5\<rparr>" "[]" "[5]"]
  by (simp add: proper_def doorman_def awaiter_instance_def)

text \<open>
  Releasing the ownership refines the abstract lock: the suspend point holds exactly the
  coroutine that waited longest, which owns the mutex from then on; with no waiter the mutex
  becomes free.
\<close>

theorem ownership_release_refines:
  assumes "mutex_rep m w x" and "held x" and "plain w (waiters x)"
  shows "\<exists>m' w'. ownership_release cl True m w = Some (handles_of w (take 1 (waiters x)), False, m', w') \<and>
    mutex_rep m' w' (if waiters x = [] then x\<lparr>held := False\<rparr> else x\<lparr>waiters := tl (waiters x)\<rparr>)"
  using assms by (rule release_result)

theorem ownership_release_refines_witness:
  "\<exists>m' w'. ownership_release (\<lambda>_ _ _ w. ([], w)) True \<lparr>requests = 7, mqueue = 0\<rparr>
     \<lparr>a_next = (\<lambda>_. 0)(7 := 5, 5 := 1), a_fn = \<lambda>_. Fn_coro, a_haddr = \<lambda>a. 10 * a, a_flag = \<lambda>_. False,
       client = ()\<rparr> = Some ([50], False, m', w') \<and> mutex_rep m' w' \<lparr>held = True, waiters = [7]\<rparr>"
  using ownership_release_refines [of "\<lparr>requests = 7, mqueue = 0\<rparr>"
      "\<lparr>a_next = (\<lambda>_. 0)(7 := 5, 5 := 1), a_fn = \<lambda>_. Fn_coro, a_haddr = \<lambda>a. 10 * a,
        a_flag = \<lambda>_. False, client = ()\<rparr>"
      "\<lparr>held = True, waiters = [5, 7]\<rparr>" "\<lambda>_ _ _ w. ([], w)"]
    mutex_rep_heldI [of "\<lparr>held = True, waiters = [5, 7]\<rparr>"
      "\<lparr>a_next = (\<lambda>_. 0)(7 := 5, 5 := 1), a_fn = \<lambda>_. Fn_coro, a_haddr = \<lambda>a. 10 * a,
        a_flag = \<lambda>_. False, client = ()\<rparr>" "\<lparr>requests = 7, mqueue = 0\<rparr>" "[7, 5]" "[]"]
  by (simp add: proper_def doorman_def awaiter_instance_def plain_def handles_of_def)

text \<open>
  Mutual exclusion: however the coroutines and threads mix awaited locks, \<open>try_lock\<close> and
  releases, at most one ownership exists, and the mutex is marked as held exactly then.
\<close>

theorem mutex_mutual_exclusion:
  assumes "mutex_reach cl s" and "client_keeps cl UNIV"
  shows "owns s \<le> 1 \<and> (owns s = 1 \<longleftrightarrow> requests (mtx s) \<noteq> nullptr)"
  using mutex_reach_inv [OF assms] mutex_rep_requests [of "mtx s" "heap s" "spec_of s"]
  by (auto simp: mutex_inv_def)

text \<open>A mutex may be destroyed exactly when nobody owns it; then nobody waits either.\<close>

lemma mutex_destroyed_idle:
  assumes "mutex_reach cl s" and "client_keeps cl UNIV"
  shows "mutex_destroy (mtx s) = (if owns s = 0 then Some () else None)" and "owns s = 0 \<Longrightarrow> waiting s = []"
proof -
  have rep: "mutex_rep (mtx s) (heap s) (spec_of s)" using mutex_reach_inv [OF assms] by (simp add: mutex_inv_def)
  from mutex_rep_requests [OF this] show "mutex_destroy (mtx s) = (if owns s = 0 then Some () else None)"
    using rep by (auto simp: mutex_destroy_def mutex_rep_def split: if_splits)
  show "waiting s = []" if "owns s = 0" using rep that by (simp add: mutex_rep_def)
qed

text \<open>A run for the witnesses: two owners compete, the second waits.\<close>

definition idle_world :: "unit aworld" where
  "idle_world = \<lparr>a_next = \<lambda>_. 0, a_fn = \<lambda>_. Fn_coro, a_haddr = \<lambda>_. 0, a_flag = \<lambda>_. False, client = ()\<rparr>"

definition no_client :: "unit client_fn" where
  "no_client = (\<lambda>_ _ _ w. ([], w))"

lemma no_client_keeps: "client_keeps no_client S"
  by (simp add: no_client_def client_keeps_def)

definition contended :: "unit mutex_sys" where
  "contended = \<lparr>mtx = \<lparr>requests = 7, mqueue = 0\<rparr>, heap = set_next 7 1 (set_handle 7 70 idle_world),
     owns = 1, asked = [7], granted = []\<rparr>"

lemma contended_reach: "mutex_reach no_client contended"
proof -
  let ?s0 = "mutex_start idle_world"
  let ?s1 = "\<lparr>mtx = \<lparr>requests = 1, mqueue = 0\<rparr>, heap = idle_world, owns = 1, asked = [], granted = []\<rparr>"
  have "mutex_exec [] no_client Do_try ?s0 = Some ?s1"
    by (simp add: mutex_start_def mutex_init_def try_lock_def mutex_ready_def doorman_def awaiter_instance_def)
  from reach_step [OF reach_start _ this] have 1: "mutex_reach no_client ?s1" by simp
  have "mutex_exec [] no_client (Do_lock 7 70) ?s1 = Some contended"
    by (simp add: co_await_def await_ready_def await_suspend_def mutex_ops_def mutex_ready_def
        mutex_subscribe_def subscribe_result after_lock_def contended_def idle_world_def set_handle_def set_next_def
        fun_upd_idem)
  from reach_step [OF 1 _ this] show ?thesis by (simp add: proper_def waiting_def)
qed

theorem mutex_mutual_exclusion_witness:
  "owns contended \<le> 1 \<and> (owns contended = 1 \<longleftrightarrow> requests (mtx contended) \<noteq> nullptr)"
  by (rule mutex_mutual_exclusion [OF contended_reach no_client_keeps])

text \<open>
  C3. No request is lost or overtaken: the awaiters that had to wait are, in their order,
  those that were granted the mutex followed by those still linked into it, each of them
  once; when the mutex is free all of them were served.
\<close>

theorem mutex_serves_in_order:
  assumes "mutex_reach cl s" and "client_keeps cl UNIV"
  shows "\<exists>ws. asked s = granted s @ ws \<and> distinct ws \<and>
    mutex_rep (mtx s) (heap s) \<lparr>held = 0 < owns s, waiters = ws\<rparr> \<and> (owns s = 0 \<longrightarrow> ws = [])"
proof -
  have inv: "mutex_rep (mtx s) (heap s) (spec_of s)" "asked s = granted s @ waiting s"
    using mutex_reach_inv [OF assms] by (simp_all add: mutex_inv_def)
  then have "distinct (waiting s)" "owns s = 0 \<longrightarrow> waiting s = []"
    by (auto simp: mutex_rep_def split: if_splits)
  with inv show ?thesis by (auto simp: spec_of_def)
qed

theorem mutex_serves_in_order_witness:
  "\<exists>ws. asked contended = granted contended @ ws \<and> distinct ws \<and>
    mutex_rep (mtx contended) (heap contended) \<lparr>held = 0 < owns contended, waiters = ws\<rparr> \<and>
    (owns contended = 0 \<longrightarrow> ws = [])"
  by (rule mutex_serves_in_order [OF contended_reach no_client_keeps])

text \<open>
  No use of the mutex fails: in every reachable state each legal command runs to its end
  with no assertion violated and no null pointer followed (\<open>unlock\<close> relies on
  \<open>build_queue\<close> having filled the queue).
\<close>

theorem mutex_never_fails:
  assumes "mutex_reach cl s" and "client_keeps cl UNIV" and "cmd_ok c s"
  shows "\<exists>s'. mutex_exec sf cl c s = Some s' \<and> mutex_reach cl s'"
  using mutex_exec_ok [OF mutex_reach_inv [OF assms(1,2)] assms(3,2), of sf] reach_step [OF assms(1,3), of sf]
  by blast

theorem mutex_never_fails_witness:
  "\<exists>s'. mutex_exec [] no_client Do_release contended = Some s' \<and> mutex_reach no_client s'"
  by (rule mutex_never_fails [OF contended_reach no_client_keeps]) (simp add: contended_def)

end
