(* ===== verification/Threads.thy ===== *)
theory Threads
  imports Awaiter
begin

section \<open>Threads and their awaiters\<close>

text \<open>
  What the models at the grain of atomic accesses share: a thread is a number, and the awaiter
  of its current operation lives at an address that tells the thread.
\<close>

definition awt_of :: "nat \<Rightarrow> ptr" where
  "awt_of t = t + 3"

definition thread_of :: "ptr \<Rightarrow> nat" where
  "thread_of a = a - 3"

abbreviation awaiters :: "nat list \<Rightarrow> ptr list" where
  "awaiters ts \<equiv> map awt_of ts"

lemma awt_simps [simp]:
  "proper (awt_of t)" "awt_of t = awt_of u \<longleftrightarrow> t = u" "thread_of (awt_of t) = t"
  "awt_of t \<noteq> 0" "0 < awt_of t" "awt_of t \<in> awt_of ` T \<longleftrightarrow> t \<in> T"
  by (auto simp: awt_of_def thread_of_def proper_def)

lemma linked_awt_upd [simp]: "t \<notin> set ts \<Longrightarrow> linked (nx(awt_of t := v)) p (awaiters ts) q \<longleftrightarrow> linked nx p (awaiters ts) q"
  by (rule linked_upd) auto

lemma linked_next_proper:
  "linked nx p xs q \<Longrightarrow> distinct xs \<Longrightarrow> q \<notin> set xs \<Longrightarrow> q \<noteq> 0 \<Longrightarrow> a \<in> set xs \<Longrightarrow> nx a \<noteq> 0 \<and> nx a \<noteq> a"
proof (induction xs arbitrary: p)
  case (Cons x xs)
  then have "nx x \<noteq> 0 \<and> nx x \<noteq> x" by (cases xs) auto
  with Cons show ?case by auto
qed simp

end
