(* ===== verification/Mutex_Threads.thy ===== *)
theory Mutex_Threads
  imports Mutex Threads
begin

section \<open>mutex: threads between the atomic accesses\<close>

text \<open>
  The mutex of \<open>mutex.h\<close> at the grain of its accesses to shared memory: every step of a thread
  is one atomic operation on \<open>_requests\<close> or one access to a \<open>_next\<close> that another thread can
  see, and the threads take their steps in any order. \<open>_queue\<close> belongs to the owner, so
  reading it is no step of its own. Memory orders are not modelled: accesses are sequentially
  consistent.

  A thread stands for one coroutine that locks the mutex again and again; its awaiter is a
  new object for every \<open>lock()\<close>, at the same address. The coroutine that \<open>unlock\<close> resumes is
  suspended (\<open>Waiting\<close>) and goes on as the owner; when its \<open>await_suspend\<close> has not returned
  yet, it runs twice from then on, and \<open>mt_early\<close> records that second activation.
\<close>

subsection \<open>State\<close>

datatype build_for =
    For_lock
  | For_unlock

text \<open>
  Where a thread is: in \<open>ready\<close>, in \<open>awaiter::subscribe\<close> (the first assertion, the
  exchange, the last assertion), at the test of \<open>_next\<close> in \<open>mutex::subscribe\<close>, in
  \<open>build_queue\<close> (the exchange, the loop with its \<open>req\<close>) or in \<open>unlock\<close>.
\<close>

datatype mpc =
    Idle
  | At_ready
  | At_assert
  | At_cas
  | Published
  | Checking
  | Waiting
  | Taking build_for
  | Building build_for ptr
  | Owning
  | Unlocking
  | Popping

record mt_state =
  mt_m :: mutex
  mt_next :: "ptr \<Rightarrow> ptr"
  mt_pc :: "nat \<Rightarrow> mpc"
  mt_early :: "nat list"
  mt_asked :: "nat list"
  mt_granted :: "nat list"

definition mt_init :: mt_state where
  "mt_init = \<lparr>mt_m = mutex_init, mt_next = \<lambda>_. nullptr, mt_pc = \<lambda>_. Idle, mt_early = [],
     mt_asked = [], mt_granted = []\<rparr>"

definition goto :: "nat \<Rightarrow> mpc \<Rightarrow> mt_state \<Rightarrow> mt_state" where
  "goto t p s = s\<lparr>mt_pc := (mt_pc s)(t := p)\<rparr>"

definition put_next :: "ptr \<Rightarrow> ptr \<Rightarrow> mt_state \<Rightarrow> mt_state" where
  "put_next a p s = s\<lparr>mt_next := (mt_next s)(a := p)\<rparr>"

definition put_requests :: "ptr \<Rightarrow> mt_state \<Rightarrow> mt_state" where
  "put_requests p s = s\<lparr>mt_m := (mt_m s)\<lparr>requests := p\<rparr>\<rparr>"

definition put_queue :: "ptr \<Rightarrow> mt_state \<Rightarrow> mt_state" where
  "put_queue p s = s\<lparr>mt_m := (mt_m s)\<lparr>mqueue := p\<rparr>\<rparr>"

subsection \<open>The steps of a thread\<close>

definition mt_ready :: "nat \<Rightarrow> mpc \<Rightarrow> mt_state \<Rightarrow> mt_state" where
  "mt_ready t other s = (let (ok, m) = mutex_ready (mt_m s) in goto t (if ok then Owning else other) (s\<lparr>mt_m := m\<rparr>))"

text \<open>
  \<open>compare_exchange_weak(_next, this)\<close>: it may fail although the values agree. A thread that
  finds another value than null is entered in \<open>mt_asked\<close>: it has to wait.
\<close>

definition mt_cas :: "bool \<Rightarrow> nat \<Rightarrow> mt_state \<Rightarrow> mt_state" where
  "mt_cas fail t s =
     (let a = awt_of t; r = requests (mt_m s) in
      if r = mt_next s a \<and> \<not> fail then
        goto t Published (put_requests a (s\<lparr>mt_asked := (if r = nullptr then mt_asked s else mt_asked s @ [t])\<rparr>))
      else put_next a r s)"

definition stop_of :: "build_for \<Rightarrow> nat \<Rightarrow> ptr" where
  "stop_of f t = (case f of For_lock \<Rightarrow> awt_of t | For_unlock \<Rightarrow> doorman)"

definition after_build :: "build_for \<Rightarrow> mpc" where
  "after_build f = (case f of For_lock \<Rightarrow> Owning | For_unlock \<Rightarrow> Popping)"

definition mt_take :: "build_for \<Rightarrow> nat \<Rightarrow> mt_state \<Rightarrow> mt_state option" where
  "mt_take f t s =
     (if mqueue (mt_m s) \<noteq> nullptr then None
      else Some (goto t (Building f (requests (mt_m s))) (put_requests doorman s)))"

definition mt_build :: "build_for \<Rightarrow> ptr \<Rightarrow> nat \<Rightarrow> mt_state \<Rightarrow> mt_state" where
  "mt_build f req t s =
     (if req \<noteq> nullptr \<and> req \<noteq> stop_of f t then
        goto t (Building f (mt_next s req)) (put_queue req (put_next req (mqueue (mt_m s)) s))
      else goto t (after_build f) s)"

definition mt_unlock :: "nat \<Rightarrow> mt_state \<Rightarrow> mt_state option" where
  "mt_unlock t s =
     (let m = mt_m s in
      if mqueue m \<noteq> nullptr then Some (goto t Popping s)
      else if requests m = doorman then Some (goto t Idle (put_requests nullptr s))
      else if requests m = nullptr then None
      else Some (goto t (Taking For_unlock) s))"

definition mt_wake :: "ptr \<Rightarrow> mt_state \<Rightarrow> mt_state" where
  "mt_wake a s =
     (let u = thread_of a; s1 = s\<lparr>mt_granted := mt_granted s @ [u]\<rparr> in
      if mt_pc s u = Waiting then goto u Owning s1 else s1\<lparr>mt_early := u # mt_early s\<rparr>)"

definition mt_pop :: "nat \<Rightarrow> mt_state \<Rightarrow> mt_state option" where
  "mt_pop t s =
     (let first = mqueue (mt_m s) in
      if first = nullptr then None
      else Some (mt_wake first (goto t Idle (put_next first nullptr (put_queue (mt_next s first) s)))))"

text \<open>What the client of a thread does, or the next access of the operation it is in.\<close>

datatype mact =
    Lock
  | Try
  | Unlock
  | Go bool

fun mt_can :: "mact \<Rightarrow> mpc \<Rightarrow> bool" where
  "mt_can Lock p \<longleftrightarrow> p = Idle"
| "mt_can Try p \<longleftrightarrow> p = Idle"
| "mt_can Unlock p \<longleftrightarrow> p = Owning"
| "mt_can (Go _) p \<longleftrightarrow> p \<notin> {Idle, Waiting, Owning}"

fun mt_go :: "bool \<Rightarrow> mpc \<Rightarrow> nat \<Rightarrow> mt_state \<Rightarrow> mt_state option" where
  "mt_go fail At_ready t s = Some (mt_ready t At_assert s)"
| "mt_go fail At_assert t s = (if requests (mt_m s) = awt_of t then None else Some (goto t At_cas s))"
| "mt_go fail At_cas t s = Some (mt_cas fail t s)"
| "mt_go fail Published t s = (if mt_next s (awt_of t) = awt_of t then None else Some (goto t Checking s))"
| "mt_go fail Checking t s =
     Some (goto t (if mt_next s (awt_of t) = nullptr then Taking For_lock else Waiting) s)"
| "mt_go fail (Taking f) t s = mt_take f t s"
| "mt_go fail (Building f req) t s = Some (mt_build f req t s)"
| "mt_go fail Unlocking t s = mt_unlock t s"
| "mt_go fail Popping t s = mt_pop t s"
| "mt_go fail p t s = Some s"

fun mt_exec :: "mact \<Rightarrow> nat \<Rightarrow> mt_state \<Rightarrow> mt_state option" where
  "mt_exec Lock t s = Some (goto t At_ready (put_next (awt_of t) nullptr s))"
| "mt_exec Try t s = Some (mt_ready t Idle s)"
| "mt_exec Unlock t s =
     (if requests (mt_m s) = nullptr then None else Some (goto t Unlocking s))"
| "mt_exec (Go fail) t s = mt_go fail (mt_pc s t) t s"

text \<open>
  A thread hurries when the loop of its \<open>build_queue\<close> is about to write the \<open>_next\<close> of an
  awaiter whose own thread has published it and has not tested it yet.
\<close>

definition hurries :: "nat \<Rightarrow> mt_state \<Rightarrow> bool" where
  "hurries t s \<longleftrightarrow>
     (case mt_pc s t of
        Building f req \<Rightarrow> req \<noteq> nullptr \<and> req \<noteq> stop_of f t \<and> mt_pc s (thread_of req) \<in> {Published, Checking}
      | _ \<Rightarrow> False)"

inductive mt_reach :: "bool \<Rightarrow> mt_state \<Rightarrow> bool" for patient where
  mt_start: "mt_reach patient mt_init"
| mt_step: "mt_reach patient s \<Longrightarrow> mt_can act (mt_pc s t) \<Longrightarrow> (patient \<Longrightarrow> \<not> hurries t s) \<Longrightarrow>
    mt_exec act t s = Some s' \<Longrightarrow> mt_reach patient s'"

text \<open>Who has the mutex: the threads that own it, and the coroutines that run twice.\<close>

fun owning :: "mpc \<Rightarrow> bool" where
  "owning (Taking f) \<longleftrightarrow> True"
| "owning (Building f req) \<longleftrightarrow> True"
| "owning Owning \<longleftrightarrow> True"
| "owning Unlocking \<longleftrightarrow> True"
| "owning Popping \<longleftrightarrow> True"
| "owning _ \<longleftrightarrow> False"

definition mt_exclusive :: "mt_state \<Rightarrow> bool" where
  "mt_exclusive s \<longleftrightarrow> mt_early s = [] \<and> (\<forall>t u. owning (mt_pc s t) \<longrightarrow> owning (mt_pc s u) \<longrightarrow> t = u)"


text \<open>
  Who will release it: also the thread that has exchanged null for its awaiter and has not
  read that yet. It owns the mutex from its exchange on.
\<close>

definition has_lock :: "mt_state \<Rightarrow> nat \<Rightarrow> bool" where
  "has_lock s t \<longleftrightarrow> owning (mt_pc s t) \<or> mt_pc s t \<in> {Published, Checking} \<and> mt_next s (awt_of t) = nullptr"

subsection \<open>The lists of the awaiters\<close>

lemma mt_simps [simp]:
  "mt_m (goto t p s) = mt_m s" "mt_next (goto t p s) = mt_next s" "mt_pc (goto t p s) = (mt_pc s)(t := p)"
  "mt_early (goto t p s) = mt_early s" "mt_asked (goto t p s) = mt_asked s" "mt_granted (goto t p s) = mt_granted s"
  "mt_m (put_next a q s) = mt_m s" "mt_next (put_next a q s) = (mt_next s)(a := q)" "mt_pc (put_next a q s) = mt_pc s"
  "mt_early (put_next a q s) = mt_early s" "mt_asked (put_next a q s) = mt_asked s"
  "mt_granted (put_next a q s) = mt_granted s"
  "mt_m (put_requests q s) = (mt_m s)\<lparr>requests := q\<rparr>" "mt_next (put_requests q s) = mt_next s"
  "mt_pc (put_requests q s) = mt_pc s" "mt_early (put_requests q s) = mt_early s"
  "mt_asked (put_requests q s) = mt_asked s" "mt_granted (put_requests q s) = mt_granted s"
  "mt_m (put_queue q s) = (mt_m s)\<lparr>mqueue := q\<rparr>" "mt_next (put_queue q s) = mt_next s"
  "mt_pc (put_queue q s) = mt_pc s" "mt_early (put_queue q s) = mt_early s"
  "mt_asked (put_queue q s) = mt_asked s" "mt_granted (put_queue q s) = mt_granted s"
  by (simp_all add: goto_def put_next_def put_requests_def put_queue_def)

lemma awt_doorman [simp]: "awt_of t \<noteq> doorman" "doorman \<noteq> awt_of t" "0 < doorman"
  by (auto simp: awt_of_def doorman_def awaiter_instance_def)

text \<open>The end of the chain that starts at \<open>_requests\<close>, and what the owner holds besides.\<close>

fun bottom :: "mpc \<Rightarrow> nat \<Rightarrow> ptr" where
  "bottom Published t = awt_of t"
| "bottom Checking t = awt_of t"
| "bottom (Taking For_lock) t = awt_of t"
| "bottom _ t = doorman"

fun inner :: "mpc \<Rightarrow> nat \<Rightarrow> (ptr \<Rightarrow> ptr) \<Rightarrow> ptr \<Rightarrow> nat list \<Rightarrow> nat list \<Rightarrow> bool" where
  "inner Published t nx q B Q \<longleftrightarrow> nx (awt_of t) = 0 \<and> q = 0 \<and> B = [] \<and> Q = []"
| "inner Checking t nx q B Q \<longleftrightarrow> nx (awt_of t) = 0 \<and> q = 0 \<and> B = [] \<and> Q = []"
| "inner (Taking f) t nx q B Q \<longleftrightarrow> q = 0 \<and> B = [] \<and> Q = []"
| "inner (Building f req) t nx q B Q \<longleftrightarrow>
     linked nx req (awaiters B) (stop_of f t) \<and> linked nx q (awaiters Q) 0 \<and> (f = For_unlock \<longrightarrow> B \<noteq> [] \<or> Q \<noteq> [])"
| "inner Owning t nx q B Q \<longleftrightarrow> linked nx q (awaiters Q) 0 \<and> B = []"
| "inner Unlocking t nx q B Q \<longleftrightarrow> linked nx q (awaiters Q) 0 \<and> B = []"
| "inner Popping t nx q B Q \<longleftrightarrow> linked nx q (awaiters Q) 0 \<and> B = [] \<and> Q \<noteq> []"
| "inner _ t nx q B Q \<longleftrightarrow> False"

definition lined :: "mpc \<Rightarrow> bool" where
  "lined p \<longleftrightarrow> p \<in> {Published, Checking, Waiting}"

definition mt_holds :: "mt_state \<Rightarrow> nat \<Rightarrow> nat list \<Rightarrow> nat list \<Rightarrow> nat list \<Rightarrow> bool" where
  "mt_holds s c A B Q \<longleftrightarrow>
     linked (mt_next s) (requests (mt_m s)) (awaiters A) (bottom (mt_pc s c) c) \<and>
     inner (mt_pc s c) c (mt_next s) (mqueue (mt_m s)) B Q \<and> (mt_pc s c = Taking For_unlock \<longrightarrow> A \<noteq> [])"

definition mt_queued :: "mt_state \<Rightarrow> nat option \<Rightarrow> nat list \<Rightarrow> nat list \<Rightarrow> nat list \<Rightarrow> bool" where
  "mt_queued s c A B Q \<longleftrightarrow>
     mt_early s = [] \<and> distinct (A @ B @ Q) \<and>
     (\<forall>t. t \<in> set (A @ B @ Q) \<longleftrightarrow> lined (mt_pc s t) \<and> c \<noteq> Some t) \<and>
     (\<forall>t\<in>set Q. mt_pc s t = Waiting) \<and> (\<forall>t. owning (mt_pc s t) \<longrightarrow> c = Some t) \<and>
     mt_asked s = mt_granted s @ rev B @ Q @ rev A"

definition mt_inv :: "mt_state \<Rightarrow> bool" where
  "mt_inv s \<longleftrightarrow>
     requests (mt_m s) = 0 \<and> mqueue (mt_m s) = 0 \<and> mt_queued s None [] [] [] \<or>
     (\<exists>c A B Q. mt_holds s c A B Q \<and> mt_queued s (Some c) A B Q)"

lemma mt_inv_free: "requests (mt_m s) = 0 \<Longrightarrow> mqueue (mt_m s) = 0 \<Longrightarrow> mt_queued s None [] [] [] \<Longrightarrow> mt_inv s"
  by (simp add: mt_inv_def)

lemma mt_inv_held: "mt_holds s c A B Q \<Longrightarrow> mt_queued s (Some c) A B Q \<Longrightarrow> mt_inv s"
  by (auto simp: mt_inv_def)

lemma inner_upd: "inner p c nx q B Q \<Longrightarrow> t \<noteq> c \<Longrightarrow> t \<notin> set B \<Longrightarrow> t \<notin> set Q \<Longrightarrow> inner p c (nx(awt_of t := v)) q B Q"
  by (cases p) auto

lemma mt_holds_other:
  assumes "mt_holds s c A B Q" and "t \<noteq> c" and "t \<notin> set (A @ B @ Q)"
    and "mt_m s' = mt_m s" and "mt_pc s' c = mt_pc s c" and "mt_next s' = (mt_next s)(awt_of t := v)"
  shows "mt_holds s' c A B Q"
  using assms by (simp add: mt_holds_def inner_upd)

lemma bottom_neq [simp]: "bottom p c \<noteq> 0" "t \<noteq> c \<Longrightarrow> bottom p c \<noteq> awt_of t"
  by (induction p c rule: bottom.induct) auto

text \<open>The top of the chain is null only for a free mutex.\<close>

lemma mt_holds_requests:
  assumes "mt_holds s c A B Q"
  shows "requests (mt_m s) \<noteq> 0" and "t \<noteq> c \<Longrightarrow> t \<notin> set A \<Longrightarrow> requests (mt_m s) \<noteq> awt_of t"
  using assms by (cases A; auto simp: mt_holds_def)+

lemma owner_of_holds: "mt_holds s c A B Q \<Longrightarrow> owning (mt_pc s c) \<or> mt_pc s c \<in> {Published, Checking}"
  by (cases "mt_pc s c") (auto simp: mt_holds_def)

lemma queued_idle: "mt_queued s c A B Q \<Longrightarrow> \<not> lined (mt_pc s t) \<Longrightarrow> t \<notin> set (A @ B @ Q)"
  by (auto simp: mt_queued_def)

lemma queued_outside:
  assumes "mt_queued s (Some c) A B Q" and "t \<noteq> c" and "\<not> lined (mt_pc s t)" and "\<not> lined p" and "\<not> owning p"
    and "mt_pc s' = (mt_pc s)(t := p)" and "mt_early s' = mt_early s" and "mt_asked s' = mt_asked s"
    and "mt_granted s' = mt_granted s"
  shows "mt_queued s' (Some c) A B Q"
  using assms by (auto simp: mt_queued_def)

lemma lined_simps [simp]: "lined Published" "lined Checking" "lined Waiting" "\<not> lined Idle" "\<not> lined At_ready"
  "\<not> lined At_assert" "\<not> lined At_cas" "\<not> lined Owning" "\<not> lined (Taking f)" "\<not> lined (Building f r)"
  "\<not> lined Unlocking" "\<not> lined Popping"
  by (simp_all add: lined_def)

lemma inner_next:
  assumes "inner p c nx q B Q" and "t \<in> set B" and "distinct B" and "c \<notin> set B"
  shows "nx (awt_of t) \<noteq> 0 \<and> nx (awt_of t) \<noteq> awt_of t"
proof (cases p)
  case (Building f req)
  then have "linked nx req (awaiters B) (stop_of f c)" using assms(1) by simp
  then show ?thesis
    by (rule linked_next_proper)
      (use assms in \<open>auto simp: distinct_map inj_on_def stop_of_def split: build_for.splits\<close>)
qed (use assms in auto)

lemma mt_waiting_next:
  assumes "mt_holds s c A B Q" and "t \<in> set A \<or> t \<in> set B" and "distinct A" "distinct B" "c \<notin> set A" "c \<notin> set B"
  shows "mt_next s (awt_of t) \<noteq> 0 \<and> mt_next s (awt_of t) \<noteq> awt_of t"
  using assms(2)
proof
  assume t: "t \<in> set A"
  have "bottom (mt_pc s c) c \<notin> set (awaiters A)"
    using assms(5) by (metis (no_types, lifting) bottom_neq(2) imageE set_map)
  from linked_next_proper [OF _ _ this, of "mt_next s" "requests (mt_m s)" "awt_of t"] show ?thesis
    using assms(1,3) t by (simp add: mt_holds_def distinct_map inj_on_def)
qed (use assms inner_next in \<open>auto simp: mt_holds_def\<close>)

lemma mt_cas_pushes:
  assumes h: "mt_holds s c A B Q" and q: "mt_queued s (Some c) A B Q" and t: "t \<noteq> c" "mt_pc s t = At_cas"
  shows "mt_inv (mt_cas fail t s)"
proof -
  have out: "t \<notin> set (A @ B @ Q)" using queued_idle [OF q, of t] t(2) by simp
  have r: "requests (mt_m s) \<noteq> 0" using mt_holds_requests(1) [OF h] .
  show ?thesis
  proof (cases "requests (mt_m s) = mt_next s (awt_of t) \<and> \<not> fail")
    case True
    then have "mt_cas fail t s = goto t Published (put_requests (awt_of t) (s\<lparr>mt_asked := mt_asked s @ [t]\<rparr>))"
      (is "_ = ?s") using r by (simp add: mt_cas_def Let_def)
    moreover have "mt_holds ?s c (t # A) B Q" using h t True by (simp add: mt_holds_def)
    moreover have "mt_queued ?s (Some c) (t # A) B Q" using q t out by (auto simp: mt_queued_def)
    ultimately show ?thesis using mt_inv_held by metis
  next
    case False
    then have "mt_cas fail t s = put_next (awt_of t) (requests (mt_m s)) s" (is "_ = ?s") by (auto simp: mt_cas_def Let_def)
    moreover have "mt_holds ?s c A B Q" using mt_holds_other [OF h t(1) out] by simp
    moreover have "mt_queued ?s (Some c) A B Q" using q by (simp add: mt_queued_def)
    ultimately show ?thesis using mt_inv_held by metis
  qed
qed

lemma mt_step_other:
  assumes h: "mt_holds s c A B Q" and q: "mt_queued s (Some c) A B Q" and t: "t \<noteq> c"
    and can: "mt_can act (mt_pc s t)" and s': "mt_exec act t s = Some s'"
  shows "mt_inv s'"
proof -
  have no: "\<not> owning (mt_pc s t)" using q t by (auto simp: mt_queued_def)
  have r: "requests (mt_m s) \<noteq> 0" using mt_holds_requests(1) [OF h] .
  have keep: "mt_inv s'" if "s' = goto t p s" "lined (mt_pc s t) = lined p" "\<not> owning p" "p = Waiting \<or> mt_pc s t \<noteq> Waiting" for p
  proof -
    have "mt_holds s' c A B Q" using h t that(1) by (simp add: mt_holds_def)
    moreover have "mt_queued s' (Some c) A B Q" using q t that by (auto simp: mt_queued_def)
    ultimately show ?thesis by (rule mt_inv_held)
  qed
  have full: "mt_ready t p s = goto t p s" for p using r by (simp add: mt_ready_def mutex_ready_def)
  show ?thesis
  proof (cases act)
    case Lock
    then have i: "mt_pc s t = Idle" and s'e: "s' = goto t At_ready (put_next (awt_of t) 0 s)" using can s' by simp_all
    have out: "t \<notin> set (A @ B @ Q)" using queued_idle [OF q, of t] i by simp
    have "mt_holds s' c A B Q" using mt_holds_other [OF h t out] s'e t by simp
    moreover have "mt_queued s' (Some c) A B Q" using queued_outside [OF q t, of At_ready s'] i s'e by simp
    ultimately show ?thesis by (rule mt_inv_held)
  next
    case Try
    then show ?thesis using can s' keep [of Idle] full by simp
  next
    case Unlock
    then show ?thesis using can no by simp
  next
    case (Go fail)
    show ?thesis
    proof (cases "mt_pc s t")
      case At_ready
      then show ?thesis using Go s' keep [of At_assert] full by simp
    next
      case At_assert
      then show ?thesis using Go s' keep [of At_cas] by (simp split: if_splits)
    next
      case At_cas
      then show ?thesis using Go s' mt_cas_pushes [OF h q t At_cas, of fail] by simp
    next
      case Published
      then show ?thesis using Go s' keep [of Checking] by (simp split: if_splits)
    next
      case Checking
      then have "t \<in> set (A @ B @ Q)" using q t by (auto simp: mt_queued_def)
      moreover have "t \<notin> set Q" using q Checking by (auto simp: mt_queued_def)
      ultimately have "t \<in> set A \<or> t \<in> set B" by auto
      moreover have "distinct A" "distinct B" "c \<notin> set A" "c \<notin> set B" using q by (auto simp: mt_queued_def)
      ultimately have "mt_next s (awt_of t) \<noteq> 0" using mt_waiting_next h t by blast
      then show ?thesis using Checking Go s' keep [of Waiting] by simp
    qed (use Go can no in auto)
  qed
qed

text \<open>The owner goes on.\<close>

lemma mt_inv_owner:
  assumes q: "mt_queued s (Some c) A B Q" and "mt_holds s' c A' B' Q'" and "mt_pc s' = (mt_pc s)(c := p)"
    and "mt_early s' = mt_early s" "mt_asked s' = mt_asked s" "mt_granted s' = mt_granted s"
    and l: "rev B' @ Q' @ rev A' = rev B @ Q @ rev A" and "\<forall>t\<in>set Q'. mt_pc s t = Waiting"
  shows "mt_inv s'"
proof -
  have "set (rev B' @ Q' @ rev A') = set (rev B @ Q @ rev A)" "distinct (rev B' @ Q' @ rev A') = distinct (rev B @ Q @ rev A)"
    using l by simp_all
  then have e: "set (A' @ B' @ Q') = set (A @ B @ Q)" "distinct (A' @ B' @ Q') = distinct (A @ B @ Q)"
    by (simp only: set_append set_rev Un_ac, simp only: distinct_append distinct_rev set_append set_rev) blast
  have c: "c \<notin> set (A' @ B' @ Q')" using q e(1) by (auto simp: mt_queued_def)
  have "mt_queued s' (Some c) A' B' Q'" unfolding mt_queued_def
  proof (intro conjI allI)
    fix t show "(t \<in> set (A' @ B' @ Q')) = (lined (mt_pc s' t) \<and> Some c \<noteq> Some t)"
      using c q assms(3) unfolding e(1) mt_queued_def by (cases "t = c") auto
  qed (use assms c e in \<open>auto simp: mt_queued_def\<close>)
  with assms(2) show ?thesis by (rule mt_inv_held)
qed

lemma can_go: "mt_can act p \<Longrightarrow> p \<noteq> Idle \<Longrightarrow> p \<noteq> Owning \<Longrightarrow> \<exists>b. act = Go b"
  by (cases act) auto

lemma mt_step_take:
  assumes h: "mt_holds s c A B Q" and q: "mt_queued s (Some c) A B Q" and c: "mt_pc s c = Taking f"
    and s': "mt_take f c s = Some s'"
  shows "mt_inv s'"
proof -
  have s'e: "s' = goto c (Building f (requests (mt_m s))) (put_requests doorman s)"
    using s' by (simp add: mt_take_def split: if_splits)
  have e: "B = []" "Q = []" "mqueue (mt_m s) = 0" "f = For_unlock \<longrightarrow> A \<noteq> []" using h c by (auto simp: mt_holds_def)
  have "linked (mt_next s) (requests (mt_m s)) (awaiters A) (stop_of f c)"
    using h c by (cases f) (auto simp: mt_holds_def stop_of_def)
  then have "mt_holds s' c [] A []" using e s'e by (auto simp: mt_holds_def)
  from mt_inv_owner [OF q this] show ?thesis using e s'e by simp
qed

lemma mt_step_build:
  assumes h: "mt_holds s c A B Q" and q: "mt_queued s (Some c) A B Q" and c: "mt_pc s c = Building f req"
    and calm: "\<not> hurries c s"
  shows "mt_inv (mt_build f req c s)"
proof (cases B)
  case Nil
  then have "req = stop_of f c" using h c by (simp add: mt_holds_def)
  then have s'e: "mt_build f req c s = goto c (after_build f) s" by (simp add: mt_build_def)
  have "mt_holds (goto c (after_build f) s) c A [] Q"
    using h c Nil by (cases f) (auto simp: mt_holds_def after_build_def)
  from mt_inv_owner [OF q this] show ?thesis using Nil q s'e by (simp add: mt_queued_def)
next
  case (Cons t B')
  have d: "distinct (A @ B @ Q)" "c \<notin> set (A @ B @ Q)" using q by (auto simp: mt_queued_def)
  have l: "req = awt_of t" "linked (mt_next s) (mt_next s req) (awaiters B') (stop_of f c)"
    "linked (mt_next s) (mqueue (mt_m s)) (awaiters Q) 0" "linked (mt_next s) (requests (mt_m s)) (awaiters A) doorman"
    using h c Cons by (simp_all add: mt_holds_def)
  have ns: "awt_of t \<noteq> stop_of f c" using d Cons by (auto simp: stop_of_def split: build_for.splits)
  have s'e: "mt_build f req c s = goto c (Building f (mt_next s req)) (put_queue req (put_next req (mqueue (mt_m s)) s))"
    using ns l(1) by (simp add: mt_build_def)
  have "mt_pc s t \<notin> {Published, Checking}" using calm c ns l(1) by (simp add: hurries_def)
  moreover have "t \<in> set (A @ B @ Q)" using Cons by simp
  then have "lined (mt_pc s t)" using q by (simp only: mt_queued_def)
  ultimately have w: "mt_pc s t = Waiting" by (simp add: lined_def)
  have "mt_holds (mt_build f req c s) c A B' (t # Q)"
    using l d Cons unfolding s'e by (simp add: mt_holds_def)
  from mt_inv_owner [OF q this] show ?thesis using Cons q s'e w by (simp add: mt_queued_def)
qed

lemma mt_step_unlock:
  assumes h: "mt_holds s c A B Q" and q: "mt_queued s (Some c) A B Q" and c: "mt_pc s c = Unlocking"
    and s': "mt_unlock c s = Some s'"
  shows "mt_inv s'"
proof -
  have l: "B = []" "linked (mt_next s) (mqueue (mt_m s)) (awaiters Q) 0"
    "linked (mt_next s) (requests (mt_m s)) (awaiters A) doorman" using h c by (simp_all add: mt_holds_def)
  consider "mqueue (mt_m s) \<noteq> 0" | "mqueue (mt_m s) = 0" "requests (mt_m s) = doorman"
    | "mqueue (mt_m s) = 0" "requests (mt_m s) \<noteq> doorman" by blast
  then show ?thesis
  proof cases
    case 1
    then have "s' = goto c Popping s" using s' by (simp add: mt_unlock_def)
    moreover from this have "mt_holds s' c A B Q" using l 1 h c by (auto simp: mt_holds_def)
    ultimately show ?thesis using mt_inv_owner [OF q] q by (simp add: mt_queued_def)
  next
    case 2
    then have "s' = goto c Idle (put_requests 0 s)" using s' by (simp add: mt_unlock_def)
    moreover have "A = []" "Q = []" using l 2 by (cases A, auto, cases Q, auto)
    ultimately show ?thesis using 2 q l(1) by (intro mt_inv_free) (auto simp: mt_queued_def)
  next
    case 3
    then have "s' = goto c (Taking For_unlock) s" using s' by (simp add: mt_unlock_def split: if_splits)
    moreover from this have "mt_holds s' c A [] []" using l 3 by (auto simp: mt_holds_def)
    moreover have "Q = []" using l(2) 3 by (cases Q) auto
    ultimately show ?thesis using mt_inv_owner [OF q, of s' A "[]" "[]"] l(1) by simp
  qed
qed

lemma mt_step_pop:
  assumes h: "mt_holds s c A B Q" and q: "mt_queued s (Some c) A B Q" and c: "mt_pc s c = Popping"
    and s': "mt_pop c s = Some s'"
  shows "mt_inv s'"
proof -
  obtain u Q' where Q: "Q = u # Q'" using h c by (cases Q) (simp_all add: mt_holds_def)
  have d: "distinct (A @ B @ Q)" "c \<notin> set (A @ B @ Q)" "mt_pc s u = Waiting" using q Q by (auto simp: mt_queued_def)
  have l: "B = []" "mqueue (mt_m s) = awt_of u" "linked (mt_next s) (mt_next s (awt_of u)) (awaiters Q') 0"
    "linked (mt_next s) (requests (mt_m s)) (awaiters A) doorman" using h c Q by (simp_all add: mt_holds_def)
  have s'e: "s' = goto u Owning ((goto c Idle (put_next (awt_of u) 0 (put_queue (mt_next s (awt_of u)) s)))
      \<lparr>mt_granted := mt_granted s @ [u]\<rparr>)"
    using s' l(2) d(2,3) Q by (auto simp: mt_pop_def mt_wake_def Let_def)
  have "mt_holds s' u A [] Q'" using l d Q unfolding s'e by (simp add: mt_holds_def)
  moreover have "mt_queued s' (Some u) A [] Q'"
  proof -
    have "(t \<in> set (A @ [] @ Q')) = (lined (mt_pc s' t) \<and> Some u \<noteq> Some t)" for t
    proof -
      have m: "(t \<in> set (A @ B @ Q)) = (lined (mt_pc s t) \<and> Some c \<noteq> Some t)"
        using q [unfolded mt_queued_def] by blast
      have pc: "mt_pc s' t = (if t = u then Owning else if t = c then Idle else mt_pc s t)" by (simp add: s'e)
      have "u \<notin> set (A @ Q')" "c \<notin> set (A @ Q')" using d(1,2) l(1) Q by auto
      moreover have "(t \<in> set (A @ Q')) = lined (mt_pc s t)" if "t \<noteq> u" "t \<noteq> c"
        using m that unfolding l(1) Q by simp
      ultimately show ?thesis unfolding pc by (cases "t = u"; cases "t = c") simp_all
    qed
    moreover have "owning (mt_pc s' t) \<Longrightarrow> Some u = Some t" for t
    proof -
      have "t \<noteq> c \<Longrightarrow> \<not> owning (mt_pc s t)" using q by (auto simp: mt_queued_def)
      then show "owning (mt_pc s' t) \<Longrightarrow> Some u = Some t" unfolding s'e by (cases "t = c"; cases "t = u") simp_all
    qed
    moreover have "mt_early s' = []" "distinct (A @ [] @ Q')"
      using q [unfolded mt_queued_def] d(1) Q by (auto simp: s'e)
    moreover have "\<forall>t\<in>set Q'. mt_pc s' t = Waiting"
    proof
      fix t assume t: "t \<in> set Q'"
      then have "mt_pc s t = Waiting" "t \<noteq> c" "t \<noteq> u" using q d(1,2) Q by (auto simp: mt_queued_def)
      then show "mt_pc s' t = Waiting" by (simp add: s'e)
    qed
    moreover have "mt_asked s' = mt_granted s' @ rev [] @ Q' @ rev A" using q l(1) Q by (simp add: s'e mt_queued_def)
    ultimately show ?thesis unfolding mt_queued_def by blast
  qed
  ultimately show ?thesis by (rule mt_inv_held)
qed

lemma mt_step_owner:
  assumes h: "mt_holds s c A B Q" and q: "mt_queued s (Some c) A B Q"
    and can: "mt_can act (mt_pc s c)" and calm: "\<not> hurries c s" and s': "mt_exec act c s = Some s'"
  shows "mt_inv s'"
proof -
  have w: "\<forall>t\<in>set Q. mt_pc s t = Waiting" using q by (simp add: mt_queued_def)
  show ?thesis
  proof (cases "mt_pc s c")
    case Published
    then have s'e: "s' = goto c Checking s" using s' can_go [OF can] by (auto split: if_splits)
    then have "mt_holds s' c A B Q" using h Published by (auto simp: mt_holds_def)
    from mt_inv_owner [OF q this] show ?thesis using s'e w by simp
  next
    case Checking
    then have s'e: "s' = goto c (Taking For_lock) s" using s' can_go [OF can] h by (auto simp: mt_holds_def)
    then have "mt_holds s' c A B Q" using h Checking by (auto simp: mt_holds_def)
    from mt_inv_owner [OF q this] show ?thesis using s'e w by simp
  next
    case (Taking f)
    then show ?thesis using mt_step_take [OF h q Taking] s' can_go [OF can] by auto
  next
    case (Building f req)
    then show ?thesis using mt_step_build [OF h q Building calm] s' can_go [OF can] by auto
  next
    case Owning
    then have s'e: "s' = goto c Unlocking s" using s' can by (cases act) (auto split: if_splits)
    then have "mt_holds s' c A B Q" using h Owning by (auto simp: mt_holds_def)
    from mt_inv_owner [OF q this] show ?thesis using s'e w by simp
  next
    case Unlocking
    then show ?thesis using mt_step_unlock [OF h q Unlocking] s' can_go [OF can] by auto
  next
    case Popping
    then show ?thesis using mt_step_pop [OF h q Popping] s' can_go [OF can] by auto
  qed (use owner_of_holds [OF h] in auto)
qed

text \<open>A free mutex: the first to exchange \<open>_requests\<close> becomes the owner.\<close>

lemma mt_step_free:
  assumes r: "requests (mt_m s) = 0" "mqueue (mt_m s) = 0" and q: "mt_queued s None [] [] []"
    and can: "mt_can act (mt_pc s t)" and s': "mt_exec act t s = Some s'"
  shows "mt_inv s'"
proof -
  have e: "mt_early s = []" "mt_asked s = mt_granted s" "\<not> lined (mt_pc s u)" "\<not> owning (mt_pc s u)" for u
    using q by (auto simp: mt_queued_def)
  have still: "mt_inv s'" if "mt_m s' = mt_m s" "mt_pc s' = (mt_pc s)(t := p)" "\<not> lined p" "\<not> owning p"
    "mt_early s' = []" "mt_asked s' = mt_granted s'" for p
    using that r e by (intro mt_inv_free) (auto simp: mt_queued_def)
  have got: "mt_inv (mt_ready t p s)" for p
  proof -
    have s: "mt_ready t p s = goto t Owning (put_requests doorman s)"
      using r by (simp add: mt_ready_def mutex_ready_def put_requests_def)
    have "mt_holds (mt_ready t p s) t [] [] []" using r by (simp add: s mt_holds_def)
    moreover have "mt_queued (mt_ready t p s) (Some t) [] [] []" using e by (simp add: s mt_queued_def)
    ultimately show ?thesis by (rule mt_inv_held)
  qed
  have cas: "mt_inv (mt_cas fail t s)" if c: "mt_pc s t = At_cas" for fail
  proof (cases "mt_next s (awt_of t) = 0 \<and> \<not> fail")
    case True
    then have s: "mt_cas fail t s = goto t Published (put_requests (awt_of t) (s\<lparr>mt_asked := mt_asked s\<rparr>))"
      using r by (simp add: mt_cas_def)
    have "mt_holds (mt_cas fail t s) t [] [] []" using r True unfolding s by (simp add: mt_holds_def)
    moreover have "mt_queued (mt_cas fail t s) (Some t) [] [] []" using e unfolding s by (simp add: mt_queued_def)
    ultimately show ?thesis by (rule mt_inv_held)
  next
    case False
    then have "mt_cas fail t s = put_next (awt_of t) 0 s" using r by (auto simp: mt_cas_def)
    with r q show ?thesis by (intro mt_inv_free) (simp_all add: mt_queued_def)
  qed
  show ?thesis
  proof (cases act)
    case Lock
    then have s'e: "s' = goto t At_ready (put_next (awt_of t) 0 s)" using s' by simp
    show ?thesis by (rule still [of At_ready]) (simp_all add: s'e e)
  next
    case Try
    then show ?thesis using s' got by auto
  next
    case Unlock
    then show ?thesis using can e(4) [of t] by simp
  next
    case (Go fail)
    show ?thesis
    proof (cases "mt_pc s t")
      case At_ready
      then show ?thesis using Go s' got by auto
    next
      case At_assert
      then have s'e: "s' = goto t At_cas s" using Go s' r by simp
      show ?thesis by (rule still [of At_cas]) (simp_all add: s'e e)
    next
      case At_cas
      then show ?thesis using Go s' cas by auto
    qed (use Go can e(3,4) [of t] in auto)
  qed
qed

lemma mt_step_inv:
  assumes "mt_inv s" and "mt_can act (mt_pc s t)" and "\<not> hurries t s" and "mt_exec act t s = Some s'"
  shows "mt_inv s'"
  using assms mt_step_free mt_step_other mt_step_owner unfolding mt_inv_def [of s] by metis

lemma mt_reach_inv: "mt_reach True s \<Longrightarrow> mt_inv s"
proof (induction rule: mt_reach.induct)
  case mt_start
  show ?case by (rule mt_inv_free) (simp_all add: mt_init_def mutex_init_def mt_queued_def)
qed (blast intro: mt_step_inv)

lemma owner_has_lock: "mt_holds s c A B Q \<Longrightarrow> has_lock s c"
  by (cases "mt_pc s c") (auto simp: mt_holds_def has_lock_def)

lemma queued_waiting: "mt_queued s c A B Q \<Longrightarrow> mt_pc s t = Waiting \<Longrightarrow> c \<noteq> Some t \<Longrightarrow> t \<in> set (rev B @ Q @ rev A)"
  unfolding mt_queued_def by fastforce

lemma mt_inv_exclusive: "mt_inv s \<Longrightarrow> mt_exclusive s"
proof -
  have *: "mt_queued s c A B Q \<Longrightarrow> mt_exclusive s" for c A B Q
    unfolding mt_exclusive_def mt_queued_def by (metis option.inject)
  show "mt_inv s \<Longrightarrow> mt_exclusive s" unfolding mt_inv_def using * by blast
qed

lemma mt_inv_served:
  assumes "mt_inv s"
  shows "\<exists>ws. mt_asked s = mt_granted s @ ws \<and> (\<forall>t. mt_pc s t = Waiting \<longrightarrow> t \<in> set ws) \<and> (ws \<noteq> [] \<longrightarrow> (\<exists>u. has_lock s u))"
  using assms unfolding mt_inv_def
proof (elim disjE conjE exE)
  assume q: "mt_queued s None [] [] []"
  then have "mt_asked s = mt_granted s @ []" by (simp add: mt_queued_def)
  with queued_waiting [OF q] show ?thesis by fastforce
next
  fix c A B Q assume h: "mt_holds s c A B Q" and q: "mt_queued s (Some c) A B Q"
  have "mt_pc s c \<noteq> Waiting" using owner_of_holds [OF h] by auto
  then have "\<forall>t. mt_pc s t = Waiting \<longrightarrow> t \<in> set (rev B @ Q @ rev A)" using queued_waiting [OF q] by blast
  moreover have "mt_asked s = mt_granted s @ rev B @ Q @ rev A" using q by (simp add: mt_queued_def)
  ultimately show ?thesis using owner_has_lock [OF h] by blast
qed

lemma mt_inv_enabled:
  assumes inv: "mt_inv s" and can: "mt_can act (mt_pc s t)"
  shows "\<exists>s'. mt_exec act t s = Some s'"
  using inv unfolding mt_inv_def
proof (elim disjE conjE exE)
  assume r: "requests (mt_m s) = 0" "mqueue (mt_m s) = 0" and q: "mt_queued s None [] [] []"
  then have "\<not> lined (mt_pc s t)" "\<not> owning (mt_pc s t)" by (auto simp: mt_queued_def)
  then show ?thesis using can r by (cases act; cases "mt_pc s t") auto
next
  fix c A B Q assume h: "mt_holds s c A B Q" and q: "mt_queued s (Some c) A B Q"
  note H = h [unfolded mt_holds_def]
  have c: "t = c" if "owning (mt_pc s t)" using q that by (auto simp: mt_queued_def)
  have r: "requests (mt_m s) \<noteq> 0" using mt_holds_requests(1) [OF h] .
  have out: "requests (mt_m s) \<noteq> awt_of t" if p: "mt_pc s t = At_assert"
  proof (rule mt_holds_requests(2) [OF h])
    show "t \<noteq> c" using p owner_of_holds [OF h] by auto
    show "t \<notin> set A" using queued_idle [OF q, of t] p by simp
  qed
  have nx: "mt_next s (awt_of t) \<noteq> awt_of t" if p: "mt_pc s t = Published"
  proof (cases "t = c")
    case True
    then show ?thesis using H p by simp
  next
    case False
    have "t \<in> set (A @ B @ Q)" using q p False unfolding mt_queued_def by fastforce
    moreover have "t \<notin> set Q" "distinct A" "distinct B" "c \<notin> set A" "c \<notin> set B"
      using q p unfolding mt_queued_def by fastforce+
    ultimately show ?thesis using mt_waiting_next [OF h, of t] by simp
  qed
  show ?thesis
  proof (cases act)
    case (Go fail)
    show ?thesis
    proof (cases "mt_pc s t")
      case (Taking f)
      then show ?thesis using Go c H by (simp add: mt_take_def)
    next
      case Unlocking
      then show ?thesis using Go r by (auto simp: mt_unlock_def Let_def)
    next
      case Popping
      then have "mqueue (mt_m s) \<noteq> 0" using c H by (cases Q) auto
      then show ?thesis using Go Popping by (simp add: mt_pop_def Let_def)
    qed (use Go out nx in auto)
  qed (use r in auto)
qed

subsection \<open>Properties\<close>

text \<open>
  C1. Mutual exclusion and order under every interleaving of any number of threads in which
  nobody hurries: one thread at most is in the critical section or in the steps that
  hand it over, no coroutine runs twice, the waiting threads are served in the order of their
  successful exchanges, and while one waits there is a thread that has the lock.
\<close>

theorem mutex_threads_exclude:
  assumes "mt_reach True s"
  shows "mt_exclusive s \<and>
    (\<exists>ws. mt_asked s = mt_granted s @ ws \<and> (\<forall>t. mt_pc s t = Waiting \<longrightarrow> t \<in> set ws) \<and>
      (ws \<noteq> [] \<longrightarrow> (\<exists>u. has_lock s u)))"
  using mt_inv_exclusive mt_inv_served mt_reach_inv [OF assms] by blast

text \<open>The threads 0 and 1 meet: 0 owns the mutex while 1 asks for it.\<close>

fun mt_run :: "bool \<Rightarrow> (mact \<times> nat) list \<Rightarrow> mt_state \<Rightarrow> mt_state option" where
  "mt_run patient [] s = Some s"
| "mt_run patient ((act, t) # cs) s =
     (if mt_can act (mt_pc s t) \<and> \<not> (patient \<and> hurries t s)
      then Option.bind (mt_exec act t s) (mt_run patient cs) else None)"

lemma mt_run_reach: "mt_reach patient s \<Longrightarrow> mt_run patient cs s = Some s' \<Longrightarrow> mt_reach patient s'"
proof (induction cs arbitrary: s)
  case (Cons c cs)
  then show ?case by (cases c) (auto simp: bind_Some_iff split: if_splits intro: mt_step)
qed simp

lemmas mt_eval = mt_init_def mutex_init_def mt_ready_def mutex_ready_def mt_cas_def mt_take_def mt_build_def
  mt_unlock_def mt_pop_def mt_wake_def stop_of_def after_build_def goto_def put_next_def put_requests_def
  put_queue_def hurries_def awt_of_def thread_of_def doorman_def awaiter_instance_def Let_def

definition mt_contend :: "(mact \<times> nat) list" where
  "mt_contend = [(Lock, 0), (Go False, 0), (Lock, 1), (Go False, 1), (Go False, 1), (Go False, 1), (Go False, 1)]"

theorem mutex_threads_exclude_witness:
  "\<exists>s. mt_run True (mt_contend @ [(Go False, 1), (Go False, 1)]) mt_init = Some s \<and> mt_exclusive s \<and> mt_pc s 0 = Owning \<and>
    mt_pc s 1 = Waiting \<and> mt_asked s = [1]"
proof -
  obtain s where s: "mt_run True (mt_contend @ [(Go False, 1), (Go False, 1)]) mt_init = Some s"
    "mt_pc s 0 = Owning" "mt_pc s 1 = Waiting" "mt_asked s = [1]"
    by (simp add: mt_contend_def mt_eval)
  then show ?thesis using mutex_threads_exclude [OF mt_run_reach [OF mt_start s(1)]] by blast
qed

text \<open>
  C20. No step of such a run violates an assertion or follows a null pointer, whatever the
  next thread and its next action are.
\<close>

theorem mutex_threads_never_fail:
  assumes "mt_reach True s" and "mt_can act (mt_pc s t)"
  shows "\<exists>s'. mt_exec act t s = Some s'"
  using mt_reach_inv [OF assms(1)] assms(2) by (rule mt_inv_enabled)

theorem mutex_threads_never_fail_witness:
  "\<exists>s'. mt_exec Unlock 0 (mt_ready 0 Idle mt_init) = Some s'"
proof (rule mutex_threads_never_fail)
  show "mt_reach True (mt_ready 0 Idle mt_init)" by (rule mt_run_reach [OF mt_start, of _ "[(Try, 0)]"]) (simp add: mt_init_def hurries_def)
  show "mt_can Unlock (mt_pc (mt_ready 0 Idle mt_init) 0)" by (simp add: mt_eval)
qed

text \<open>
  C19. Without that condition the mutex fails: \<open>subscribe\<close> tests \<open>_next\<close> after its exchange has
  published the awaiter, and the owner's \<open>build_queue\<close> may have written null into it by then.
  The thread concludes that it has the mutex, which at the same time is handed to its awaiter:
  its coroutine runs twice, and both runs own the mutex.
\<close>

theorem mutex_race_two_owners: "\<exists>s t. mt_reach False s \<and> t \<in> set (mt_early s) \<and> mt_pc s t = Owning"
proof -
  let ?race = "[(Unlock, 0), (Go False, 0), (Go False, 0), (Go False, 0), (Go False, 0), (Go False, 0),
    (Go False, 1), (Go False, 1), (Go False, 1), (Go False, 1), (Go False, 1)]"
  obtain s where s: "mt_run False (mt_contend @ ?race) mt_init = Some s" "mt_early s = [1]" "mt_pc s 1 = Owning"
    by (simp add: mt_contend_def mt_eval)
  from mt_run_reach [OF mt_start s(1)] have "mt_reach False s" .
  with s(2,3) show ?thesis by (intro exI [of _ s] exI [of _ 1]) simp
qed

end
