(* ===== verification/Future_Threads.thy ===== *)
theory Future_Threads
  imports Threads
begin

section \<open>future: threads that await and threads that resolve\<close>

text \<open>
  A future of \<open>future.h\<close> at the grain of its atomic accesses: any number of threads await it, any
  number call its promise, at any time and interleaved in any way (with sequentially
  consistent memory). Each step is one access to \<open>_awaiter\<close>, to \<open>promise::_owner\<close>, to the
  result or to the \<open>_next\<close> of an awaiter. A thread that calls the promise sets a value
  (\<open>Some\<close>) or drops it (\<open>None\<close>); the result that the future shows is such an option.

  A coroutine that is resumed, or whose await does not suspend, reads the result
  (\<open>ft_seen\<close>) and may go on with the same future, with a new awaiter at the old address.
\<close>

subsection \<open>State\<close>

datatype 'v fpc =
    F_idle
  | F_ready
  | F_cas
  | F_suspended
  | F_claim "'v option"
  | F_set "'v option"
  | F_swap
  | F_walk ptr
  | F_resume ptr ptr

record 'v ft_state =
  ft_owner :: bool
  ft_chain :: ptr
  ft_value :: "'v option"
  ft_next :: "ptr \<Rightarrow> ptr"
  ft_pc :: "nat \<Rightarrow> 'v fpc"
  ft_seen :: "(nat \<times> 'v option) list"
  ft_winner :: "'v option option"

definition ft_init :: "'v ft_state" where
  "ft_init = \<lparr>ft_owner = True, ft_chain = nullptr, ft_value = None, ft_next = \<lambda>_. nullptr,
     ft_pc = \<lambda>_. F_idle, ft_seen = [], ft_winner = None\<rparr>"

definition ft_goto :: "nat \<Rightarrow> 'v fpc \<Rightarrow> 'v ft_state \<Rightarrow> 'v ft_state" where
  "ft_goto t p s = s\<lparr>ft_pc := (ft_pc s)(t := p)\<rparr>"

definition ft_put_next :: "ptr \<Rightarrow> ptr \<Rightarrow> 'v ft_state \<Rightarrow> 'v ft_state" where
  "ft_put_next a p s = s\<lparr>ft_next := (ft_next s)(a := p)\<rparr>"

text \<open>\<open>await_resume\<close>: the result is read.\<close>

definition ft_see :: "nat \<Rightarrow> 'v ft_state \<Rightarrow> 'v ft_state" where
  "ft_see t s = ft_goto t F_idle (s\<lparr>ft_seen := ft_seen s @ [(t, ft_value s)]\<rparr>)"

subsection \<open>The steps of a thread\<close>

text \<open>\<open>await_ready\<close>, and the assertion at the begin of \<open>subscribe_check_ready\<close>.\<close>

definition ft_ready :: "nat \<Rightarrow> 'v ft_state \<Rightarrow> 'v ft_state option" where
  "ft_ready t s =
     (if ft_chain s = awaiter_disabled then Some (ft_see t s)
      else if ft_next s (awt_of t) \<noteq> nullptr then None
      else Some (ft_goto t F_cas s))"

text \<open>One try of its loop; \<open>fail\<close>: the exchange fails although the values agree.\<close>

definition ft_cas :: "bool \<Rightarrow> nat \<Rightarrow> 'v ft_state \<Rightarrow> 'v ft_state" where
  "ft_cas fail t s =
     (let a = awt_of t in
      if ft_chain s = ft_next s a \<and> \<not> fail then ft_goto t F_suspended (s\<lparr>ft_chain := a\<rparr>)
      else if ft_chain s = awaiter_disabled then ft_see t (ft_put_next a nullptr s)
      else ft_put_next a (ft_chain s) s)"

text \<open>\<open>claim\<close>: the first call wins, the others return false.\<close>

definition ft_claim :: "'v option \<Rightarrow> nat \<Rightarrow> 'v ft_state \<Rightarrow> 'v ft_state" where
  "ft_claim x t s =
     (if ft_owner s then ft_goto t (F_set x) (s\<lparr>ft_owner := False, ft_winner := Some x\<rparr>) else ft_goto t F_idle s)"

text \<open>\<open>set\<close> asserts that there is no value; a drop sets none.\<close>

definition ft_set :: "'v option \<Rightarrow> nat \<Rightarrow> 'v ft_state \<Rightarrow> 'v ft_state option" where
  "ft_set x t s = (if x \<noteq> None \<and> ft_value s \<noteq> None then None else Some (ft_goto t F_swap (s\<lparr>ft_value := x\<rparr>)))"

text \<open>\<open>resume_chain_set_ready\<close>: the exchange, and the loop of \<open>resume_chain_lk\<close>.\<close>

definition ft_swap :: "nat \<Rightarrow> 'v ft_state \<Rightarrow> 'v ft_state" where
  "ft_swap t s = ft_goto t (F_walk (ft_chain s)) (s\<lparr>ft_chain := awaiter_disabled\<rparr>)"

definition ft_walk :: "ptr \<Rightarrow> nat \<Rightarrow> 'v ft_state \<Rightarrow> 'v ft_state" where
  "ft_walk p t s =
     (if p = nullptr then ft_goto t F_idle s else ft_goto t (F_resume p (ft_next s p)) (ft_put_next p nullptr s))"

definition ft_resume :: "ptr \<Rightarrow> ptr \<Rightarrow> nat \<Rightarrow> 'v ft_state \<Rightarrow> 'v ft_state option" where
  "ft_resume a p t s =
     (if ft_pc s (thread_of a) = F_suspended then Some (ft_see (thread_of a) (ft_goto t (F_walk p) s)) else None)"

datatype 'v fact =
    F_await
  | F_call "'v option"
  | F_go bool

fun ft_can :: "'v fact \<Rightarrow> 'v fpc \<Rightarrow> bool" where
  "ft_can (F_go _) p \<longleftrightarrow> p \<noteq> F_idle \<and> p \<noteq> F_suspended"
| "ft_can _ p \<longleftrightarrow> p = F_idle"

fun ft_go :: "bool \<Rightarrow> 'v fpc \<Rightarrow> nat \<Rightarrow> 'v ft_state \<Rightarrow> 'v ft_state option" where
  "ft_go fail F_ready t s = ft_ready t s"
| "ft_go fail F_cas t s = Some (ft_cas fail t s)"
| "ft_go fail (F_claim x) t s = Some (ft_claim x t s)"
| "ft_go fail (F_set x) t s = ft_set x t s"
| "ft_go fail F_swap t s = Some (ft_swap t s)"
| "ft_go fail (F_walk p) t s = Some (ft_walk p t s)"
| "ft_go fail (F_resume a p) t s = ft_resume a p t s"
| "ft_go fail p t s = Some s"

fun ft_exec :: "'v fact \<Rightarrow> nat \<Rightarrow> 'v ft_state \<Rightarrow> 'v ft_state option" where
  "ft_exec F_await t s = Some (ft_goto t F_ready (ft_put_next (awt_of t) nullptr s))"
| "ft_exec (F_call x) t s = Some (ft_goto t (F_claim x) s)"
| "ft_exec (F_go fail) t s = ft_go fail (ft_pc s t) t s"

inductive ft_reach :: "'v ft_state \<Rightarrow> bool" where
  ft_start: "ft_reach ft_init"
| ft_step: "ft_reach s \<Longrightarrow> ft_can act (ft_pc s t) \<Longrightarrow> ft_exec act t s = Some s' \<Longrightarrow> ft_reach s'"

subsection \<open>The invariant\<close>

lemma ft_simps [simp]:
  "ft_owner (ft_goto t p s) = ft_owner s" "ft_chain (ft_goto t p s) = ft_chain s" "ft_value (ft_goto t p s) = ft_value s"
  "ft_next (ft_goto t p s) = ft_next s" "ft_pc (ft_goto t p s) = (ft_pc s)(t := p)" "ft_seen (ft_goto t p s) = ft_seen s"
  "ft_winner (ft_goto t p s) = ft_winner s"
  "ft_owner (ft_put_next a q s) = ft_owner s" "ft_chain (ft_put_next a q s) = ft_chain s"
  "ft_value (ft_put_next a q s) = ft_value s" "ft_next (ft_put_next a q s) = (ft_next s)(a := q)"
  "ft_pc (ft_put_next a q s) = ft_pc s" "ft_seen (ft_put_next a q s) = ft_seen s"
  "ft_winner (ft_put_next a q s) = ft_winner s"
  "ft_owner (ft_see t s) = ft_owner s" "ft_chain (ft_see t s) = ft_chain s" "ft_value (ft_see t s) = ft_value s"
  "ft_next (ft_see t s) = ft_next s" "ft_pc (ft_see t s) = (ft_pc s)(t := F_idle)"
  "ft_seen (ft_see t s) = ft_seen s @ [(t, ft_value s)]" "ft_winner (ft_see t s) = ft_winner s"
  by (simp_all add: ft_goto_def ft_put_next_def ft_see_def)

text \<open>Who resolves: the thread that has claimed, up to the end of its loop.\<close>

fun resolving :: "'v fpc \<Rightarrow> bool" where
  "resolving (F_set x) \<longleftrightarrow> True"
| "resolving F_swap \<longleftrightarrow> True"
| "resolving (F_walk p) \<longleftrightarrow> True"
| "resolving (F_resume a p) \<longleftrightarrow> True"
| "resolving _ \<longleftrightarrow> False"

text \<open>The awaiters a resolving thread still has to resume, or the chain they wait in.\<close>

fun taken :: "'v fpc \<Rightarrow> 'v ft_state \<Rightarrow> nat list \<Rightarrow> bool" where
  "taken (F_set x) s W \<longleftrightarrow> ft_winner s = Some x \<and> ft_value s = None \<and> ft_chain s \<noteq> awaiter_disabled \<and>
     linked (ft_next s) (ft_chain s) (awaiters W) 0"
| "taken F_swap s W \<longleftrightarrow> ft_winner s = Some (ft_value s) \<and> ft_chain s \<noteq> awaiter_disabled \<and>
     linked (ft_next s) (ft_chain s) (awaiters W) 0"
| "taken (F_walk p) s W \<longleftrightarrow> ft_winner s = Some (ft_value s) \<and> ft_chain s = awaiter_disabled \<and>
     linked (ft_next s) p (awaiters W) 0"
| "taken (F_resume a p) s W \<longleftrightarrow> ft_winner s = Some (ft_value s) \<and> ft_chain s = awaiter_disabled \<and>
     (\<exists>t W'. a = awt_of t \<and> W = t # W' \<and> linked (ft_next s) p (awaiters W') 0)"
| "taken _ s W \<longleftrightarrow> False"

definition ft_phase :: "'v ft_state \<Rightarrow> nat list \<Rightarrow> bool" where
  "ft_phase s W \<longleftrightarrow>
     ft_owner s \<and> ft_winner s = None \<and> ft_value s = None \<and> ft_chain s \<noteq> awaiter_disabled \<and>
       linked (ft_next s) (ft_chain s) (awaiters W) 0 \<and> (\<forall>t. \<not> resolving (ft_pc s t)) \<or>
     \<not> ft_owner s \<and> (\<exists>r. taken (ft_pc s r) s W \<and> (\<forall>t. resolving (ft_pc s t) \<longrightarrow> t = r)) \<or>
     \<not> ft_owner s \<and> W = [] \<and> ft_winner s = Some (ft_value s) \<and> ft_chain s = awaiter_disabled \<and>
       (\<forall>t. \<not> resolving (ft_pc s t))"

lemma ft_phaseE [consumes 1, case_names Pending Resolving Resolved]:
  assumes "ft_phase s W"
  obtains "ft_owner s" "ft_winner s = None" "ft_value s = None" "ft_chain s \<noteq> awaiter_disabled"
      "linked (ft_next s) (ft_chain s) (awaiters W) 0" "\<And>t. \<not> resolving (ft_pc s t)"
    | r where "\<not> ft_owner s" "taken (ft_pc s r) s W" "\<And>t. resolving (ft_pc s t) \<Longrightarrow> t = r"
    | "\<not> ft_owner s" "W = []" "ft_winner s = Some (ft_value s)" "ft_chain s = awaiter_disabled"
      "\<And>t. \<not> resolving (ft_pc s t)"
  using assms unfolding ft_phase_def by auto

lemma ft_phase_resolving:
  "\<not> ft_owner s \<Longrightarrow> taken (ft_pc s r) s W \<Longrightarrow> (\<And>t. resolving (ft_pc s t) \<Longrightarrow> t = r) \<Longrightarrow> ft_phase s W"
  unfolding ft_phase_def by blast

definition ft_ok :: "'v ft_state \<Rightarrow> nat list \<Rightarrow> bool" where
  "ft_ok s W \<longleftrightarrow>
     ft_phase s W \<and> distinct W \<and> (\<forall>t. t \<in> set W \<longleftrightarrow> ft_pc s t = F_suspended) \<and>
     (\<forall>t. ft_pc s t = F_cas \<longrightarrow> ft_next s (awt_of t) \<noteq> awaiter_disabled) \<and>
     (\<forall>t. ft_pc s t = F_ready \<longrightarrow> ft_next s (awt_of t) = nullptr) \<and>
     (\<forall>x \<in> set (ft_seen s). ft_winner s = Some (snd x)) \<and>
     (ft_seen s \<noteq> [] \<longrightarrow> ft_chain s = awaiter_disabled)"

lemma ft_okD:
  assumes "ft_ok s W"
  shows "ft_phase s W" "distinct W" "t \<in> set W \<longleftrightarrow> ft_pc s t = F_suspended"
    "ft_pc s t = F_cas \<Longrightarrow> ft_next s (awt_of t) \<noteq> awaiter_disabled"
    "ft_pc s t = F_ready \<Longrightarrow> ft_next s (awt_of t) = nullptr"
    "x \<in> set (ft_seen s) \<Longrightarrow> ft_winner s = Some (snd x)" "ft_seen s \<noteq> [] \<Longrightarrow> ft_chain s = awaiter_disabled"
  using assms unfolding ft_ok_def by blast+

lemma ft_okI:
  assumes "ft_phase s W" "distinct W" "\<And>t. t \<in> set W \<longleftrightarrow> ft_pc s t = F_suspended"
    "\<And>t. ft_pc s t = F_cas \<Longrightarrow> ft_next s (awt_of t) \<noteq> awaiter_disabled"
    "\<And>t. ft_pc s t = F_ready \<Longrightarrow> ft_next s (awt_of t) = nullptr"
    "\<And>x. x \<in> set (ft_seen s) \<Longrightarrow> ft_winner s = Some (snd x)" "ft_seen s \<noteq> [] \<Longrightarrow> ft_chain s = awaiter_disabled"
  shows "ft_ok s W"
  using assms unfolding ft_ok_def by blast

lemma phase_disabled: "ft_phase s W \<Longrightarrow> ft_chain s = awaiter_disabled \<Longrightarrow> ft_winner s = Some (ft_value s)"
  by (cases rule: ft_phaseE) (auto elim!: taken.elims)

lemma taken_frame:
  assumes "taken p s W" and "ft_chain s' = ft_chain s" "ft_value s' = ft_value s" "ft_winner s' = ft_winner s"
    and "ft_next s' = (ft_next s)(awt_of t := v)" and "t \<notin> set W"
  shows "taken p s' W"
  using assms by (cases p) auto

text \<open>A thread that does not resolve changes its own place, and its awaiter while it does not wait.\<close>

lemma ft_ok_frame:
  assumes ok: "ft_ok s W" and p: "ft_pc s t \<noteq> F_suspended" "\<not> resolving (ft_pc s t)" "p \<noteq> F_suspended" "\<not> resolving p"
    and s': "ft_owner s' = ft_owner s" "ft_chain s' = ft_chain s" "ft_value s' = ft_value s" "ft_winner s' = ft_winner s"
      "ft_pc s' = (ft_pc s)(t := p)" "ft_next s' = (ft_next s)(awt_of t := v)"
    and v: "p = F_cas \<Longrightarrow> v \<noteq> awaiter_disabled" "p = F_ready \<Longrightarrow> v = 0"
    and seen: "ft_seen s' = ft_seen s \<or> ft_chain s = awaiter_disabled \<and> ft_seen s' = ft_seen s @ [(t, ft_value s)]"
  shows "ft_ok s' W"
proof -
  note D = ft_okD [OF ok]
  have out: "t \<notin> set W" using D(3) p(1) by simp
  have pc: "ft_pc s' u = (if u = t then p else ft_pc s u)" for u using s'(5) by simp
  have "ft_phase s' W"
    using D(1)
  proof (cases rule: ft_phaseE)
    case r: (Resolving r)
    have "r \<noteq> t" using r(2) p(2) by (cases "ft_pc s r") auto
    then have "taken (ft_pc s' r) s' W" using taken_frame [OF r(2) s'(2,3,4,6) out] pc by simp
    moreover have "resolving (ft_pc s' u) \<Longrightarrow> u = r" for u using r(3) [of u] p(4) pc by (simp split: if_splits)
    ultimately show ?thesis using r(1) s'(1) ft_phase_resolving by metis
  qed (use out pc p(4) s' in \<open>auto simp: ft_phase_def\<close>)
  moreover have "u \<in> set W \<longleftrightarrow> ft_pc s' u = F_suspended" for u using D(3) [of u] p(1,3) pc by simp
  moreover have "ft_pc s' u = F_cas \<Longrightarrow> ft_next s' (awt_of u) \<noteq> awaiter_disabled" for u
    using D(4) [of u] pc s'(6) v(1) by (cases "u = t") simp_all
  moreover have "ft_pc s' u = F_ready \<Longrightarrow> ft_next s' (awt_of u) = nullptr" for u
    using D(5) [of u] pc s'(6) v(2) by (cases "u = t") simp_all
  moreover have "\<forall>x \<in> set (ft_seen s'). ft_winner s' = Some (snd x)" "ft_seen s' \<noteq> [] \<longrightarrow> ft_chain s' = awaiter_disabled"
    using seen D(6,7) phase_disabled [OF D(1)] s'(2,4) by auto
  ultimately show ?thesis using D(2) unfolding ft_ok_def by blast
qed

lemma ft_step_await:
  "ft_ok s W \<Longrightarrow> ft_pc s t = F_idle \<Longrightarrow> ft_ok (ft_goto t F_ready (ft_put_next (awt_of t) nullptr s)) W"
  by (erule ft_ok_frame [where t = t and p = F_ready and v = 0]) simp_all

lemma ft_step_call: "ft_ok s W \<Longrightarrow> ft_pc s t = F_idle \<Longrightarrow> ft_ok (ft_goto t (F_claim x) s) W"
  by (erule ft_ok_frame [where t = t and p = "F_claim x" and v = "ft_next s (awt_of t)"]) simp_all

lemma ft_step_ready:
  assumes ok: "ft_ok s W" and t: "ft_pc s t = F_ready" and s': "ft_ready t s = Some s'"
  shows "ft_ok s' W"
proof (cases "ft_chain s = awaiter_disabled")
  case True
  then have "s' = ft_see t s" using s' by (simp add: ft_ready_def)
  then show ?thesis using ft_ok_frame [OF ok, of t F_idle s' "ft_next s (awt_of t)"] t True by simp
next
  case False
  then have "s' = ft_goto t F_cas s" "ft_next s (awt_of t) = 0"
    using s' ft_okD(5) [OF ok t] by (simp_all add: ft_ready_def split: if_splits)
  then show ?thesis using ft_ok_frame [OF ok, of t F_cas s' 0] t by (simp add: fun_upd_idem)
qed

lemma ft_step_cas:
  assumes ok: "ft_ok s W" and t: "ft_pc s t = F_cas"
  shows "\<exists>W'. ft_ok (ft_cas fail t s) W'"
proof -
  note D = ft_okD [OF ok]
  have nd: "ft_next s (awt_of t) \<noteq> awaiter_disabled" using D(4) t by simp
  consider "ft_chain s = ft_next s (awt_of t)" "\<not> fail" | "ft_chain s \<noteq> ft_next s (awt_of t) \<or> fail" "ft_chain s = awaiter_disabled"
    | "ft_chain s \<noteq> ft_next s (awt_of t) \<or> fail" "ft_chain s \<noteq> awaiter_disabled" by blast
  then show ?thesis
  proof cases
    case 1
    let ?s = "ft_goto t F_suspended (s\<lparr>ft_chain := awt_of t\<rparr>)"
    have s': "ft_cas fail t s = ?s" using 1 by (simp add: ft_cas_def)
    have ch: "ft_chain s \<noteq> awaiter_disabled" using 1 nd by simp
    have out: "t \<notin> set W" using D(3) t by simp
    have link: "linked (ft_next ?s) (ft_chain ?s) (awaiters (t # W)) 0" if "linked (ft_next s) (ft_chain s) (awaiters W) 0"
      using that 1 by simp
    have "ft_phase ?s (t # W)"
      using D(1)
    proof (cases rule: ft_phaseE)
      case Pending
      then show ?thesis using link unfolding ft_phase_def by simp
    next
      case r: (Resolving r)
      have ne: "r \<noteq> t" using r(2) t by auto
      have "taken (ft_pc s r) ?s (t # W)" using r(2) ch link by (cases "ft_pc s r") auto
      moreover have "resolving (ft_pc ?s u) \<Longrightarrow> u = r" for u using r(3) [of u] by (simp split: if_splits)
      ultimately show ?thesis using r(1) ne ft_phase_resolving [of ?s r] by simp
    qed (use ch in simp)
    moreover have "u \<in> set (t # W) \<longleftrightarrow> ft_pc ?s u = F_suspended" for u using D(3) [of u] by auto
    moreover have "ft_seen s = []" using D(7) ch by blast
    ultimately have "ft_ok ?s (t # W)" using D(2,4,5) out t unfolding ft_ok_def by auto
    then show ?thesis using s' by metis
  next
    case 2
    then have "ft_cas fail t s = ft_see t (ft_put_next (awt_of t) 0 s)" by (auto simp: ft_cas_def Let_def)
    then show ?thesis using ft_ok_frame [OF ok, of t F_idle "ft_cas fail t s" 0] t 2 by auto
  next
    case 3
    then have s': "ft_cas fail t s = ft_put_next (awt_of t) (ft_chain s) s" by (auto simp: ft_cas_def Let_def)
    have "ft_ok (ft_cas fail t s) W"
      by (rule ft_ok_frame [OF ok, of t F_cas _ "ft_chain s"]) (use t 3 in \<open>simp_all add: s' fun_upd_idem\<close>)
    then show ?thesis by blast
  qed
qed

text \<open>The steps of a thread that resolves.\<close>

lemma ft_taken:
  assumes "ft_ok s W" and "resolving (ft_pc s t)"
  shows "\<not> ft_owner s" "taken (ft_pc s t) s W" "\<And>u. resolving (ft_pc s u) \<Longrightarrow> u = t"
proof -
  have "\<not> ft_owner s \<and> taken (ft_pc s t) s W \<and> (\<forall>u. resolving (ft_pc s u) \<longrightarrow> u = t)"
    using ft_okD(1) [OF assms(1)]
  proof (cases rule: ft_phaseE)
    case (Resolving r)
    from Resolving(3) [OF assms(2)] Resolving show ?thesis by blast
  qed (use assms(2) in blast)+
  then show "\<not> ft_owner s" "taken (ft_pc s t) s W" "\<And>u. resolving (ft_pc s u) \<Longrightarrow> u = t" by blast+
qed

lemma ft_step_claim:
  assumes ok: "ft_ok s W" and t: "ft_pc s t = F_claim x"
  shows "ft_ok (ft_claim x t s) W"
proof (cases "ft_owner s")
  case False
  then show ?thesis using ft_ok_frame [OF ok, of t F_idle "ft_claim x t s" "ft_next s (awt_of t)"] t by (simp add: ft_claim_def)
next
  case True
  let ?s = "ft_goto t (F_set x) (s\<lparr>ft_owner := False, ft_winner := Some x\<rparr>)"
  note D = ft_okD [OF ok]
  have s': "ft_claim x t s = ?s" using True by (simp add: ft_claim_def)
  have P: "ft_value s = None" "ft_chain s \<noteq> awaiter_disabled" "linked (ft_next s) (ft_chain s) (awaiters W) 0"
    "\<And>t. \<not> resolving (ft_pc s t)" using D(1) True by (cases rule: ft_phaseE, simp_all)+
  have "ft_phase ?s W"
    by (rule ft_phase_resolving [where r = t]) (use P in \<open>auto split: if_splits\<close>)
  moreover have "ft_seen s = []" using D(7) P(2) by blast
  moreover have "u \<in> set W \<longleftrightarrow> ft_pc ?s u = F_suspended" for u using D(3) [of u] t by auto
  ultimately show ?thesis unfolding s' ft_ok_def using D(2,4,5) by auto
qed

text \<open>A step of the resolving thread to another place in its work.\<close>

lemma ft_ok_resolving:
  assumes ok: "ft_ok s W" and t: "resolving (ft_pc s t)" and p: "taken p s' W"
    and s': "ft_owner s' = ft_owner s" "ft_winner s' = ft_winner s" "ft_pc s' = (ft_pc s)(t := p)"
      "ft_next s' = (ft_next s)" "ft_seen s' = ft_seen s" "ft_chain s = awaiter_disabled \<Longrightarrow> ft_chain s' = awaiter_disabled"
  shows "ft_ok s' W"
proof -
  note D = ft_okD [OF ok] and T = ft_taken [OF ok t]
  have r: "resolving (ft_pc s' u) \<Longrightarrow> u = t" for u using T(3) [of u] s'(3) by (simp split: if_splits)
  have "\<not> ft_owner s'" "taken (ft_pc s' t) s' W" using T(1) p s'(1,3) by simp_all
  then have "ft_phase s' W" by (rule ft_phase_resolving [OF _ _ r])
  have "p \<noteq> F_suspended" "p \<noteq> F_cas" "p \<noteq> F_ready" "ft_pc s t \<noteq> F_suspended" using p t by auto
  note q = this
  from \<open>ft_phase s' W\<close> show ?thesis
  proof (rule ft_okI)
    fix u
    show "u \<in> set W \<longleftrightarrow> ft_pc s' u = F_suspended" using D(3) [of u] q s'(3) by simp
    show "ft_next s' (awt_of u) \<noteq> awaiter_disabled" if "ft_pc s' u = F_cas"
      using D(4) [of u] q s'(3,4) that by (simp split: if_splits)
    show "ft_next s' (awt_of u) = nullptr" if "ft_pc s' u = F_ready"
      using D(5) [of u] q s'(3,4) that by (simp split: if_splits)
    show "ft_winner s' = Some (snd x)" if "x \<in> set (ft_seen s')" for x using D(6) [of x] that s'(2,5) by simp
    show "ft_chain s' = awaiter_disabled" if "ft_seen s' \<noteq> []" using D(7) that s'(5,6) by simp
  qed (rule D(2))
qed

lemma ft_step_set:
  assumes ok: "ft_ok s W" and t: "ft_pc s t = F_set x"
  shows "\<exists>s'. ft_set x t s = Some s' \<and> ft_ok s' W"
proof -
  have T: "taken (ft_pc s t) s W" using ft_taken(2) [OF ok, of t] t by simp
  let ?s = "ft_goto t F_swap (s\<lparr>ft_value := x\<rparr>)"
  have "ft_ok ?s W" by (rule ft_ok_resolving [OF ok, of t F_swap]) (use T t in simp_all)
  then show ?thesis using T t by (auto simp: ft_set_def)
qed

lemma ft_step_swap:
  assumes ok: "ft_ok s W" and t: "ft_pc s t = F_swap"
  shows "ft_ok (ft_swap t s) W"
proof -
  have "taken (ft_pc s t) s W" using ft_taken(2) [OF ok, of t] t by simp
  then show ?thesis using t
    by (intro ft_ok_resolving [OF ok, of t "F_walk (ft_chain s)"]) (simp_all add: ft_swap_def)
qed

lemma ft_step_walk:
  assumes ok: "ft_ok s W" and t: "ft_pc s t = F_walk p"
  shows "ft_ok (ft_walk p t s) W"
proof -
  note D = ft_okD [OF ok] and T = ft_taken [OF ok, of t]
  have r: "resolving (ft_pc s t)" using t by simp
  have k: "ft_winner s = Some (ft_value s)" "ft_chain s = awaiter_disabled" "linked (ft_next s) p (awaiters W) 0"
    using T(2) [OF r] t by simp_all
  show ?thesis
  proof (cases W)
    case Nil
    then have s': "ft_walk p t s = ft_goto t F_idle s" using k(3) by (simp add: ft_walk_def)
    have "\<forall>u. \<not> resolving (ft_pc (ft_goto t F_idle s) u)" using T(3) [OF r] by auto
    then have "ft_phase (ft_goto t F_idle s) W" using T(1) [OF r] Nil k unfolding ft_phase_def by simp
    then show ?thesis unfolding s'
    proof (rule ft_okI)
      fix u
      show "u \<in> set W \<longleftrightarrow> ft_pc (ft_goto t F_idle s) u = F_suspended" using D(3) [of u] t by auto
      show "ft_next (ft_goto t F_idle s) (awt_of u) \<noteq> awaiter_disabled" if "ft_pc (ft_goto t F_idle s) u = F_cas"
        using D(4) [of u] that by (simp split: if_splits)
      show "ft_next (ft_goto t F_idle s) (awt_of u) = nullptr" if "ft_pc (ft_goto t F_idle s) u = F_ready"
        using D(5) [of u] that by (simp split: if_splits)
    qed (use D(2,6,7) in simp_all)
  next
    case (Cons u W')
    let ?s = "ft_goto t (F_resume p (ft_next s p)) (ft_put_next p nullptr s)"
    have p: "p = awt_of u" "linked (ft_next s) (ft_next s p) (awaiters W') 0" using k(3) Cons by simp_all
    have s': "ft_walk p t s = ?s" using p(1) by (simp add: ft_walk_def)
    have d: "u \<notin> set W'" "ft_pc s u = F_suspended" using D(2,3) Cons by auto
    have "taken (F_resume p (ft_next s p)) ?s W" using k p d(1) Cons by simp
    then have "\<not> ft_owner ?s" "taken (ft_pc ?s t) ?s W" using T(1) [OF r] by simp_all
    moreover have "resolving (ft_pc ?s v) \<Longrightarrow> v = t" for v using T(3) [OF r, of v] by (simp split: if_splits)
    ultimately have "ft_phase ?s W" by (rule ft_phase_resolving)
    then show ?thesis unfolding s'
    proof (rule ft_okI)
      fix v
      show "v \<in> set W \<longleftrightarrow> ft_pc ?s v = F_suspended" using D(3) [of v] t by auto
      show "ft_next ?s (awt_of v) \<noteq> awaiter_disabled" if "ft_pc ?s v = F_cas"
        using D(4) [of v] d(2) p(1) that by (auto split: if_splits)
      show "ft_next ?s (awt_of v) = nullptr" if "ft_pc ?s v = F_ready"
        using D(5) [of v] d(2) p(1) that by (auto split: if_splits)
    qed (use D(2,6,7) in auto)
  qed
qed

lemma ft_step_resume:
  assumes ok: "ft_ok s W" and t: "ft_pc s t = F_resume a p"
  shows "\<exists>s' W'. ft_resume a p t s = Some s' \<and> ft_ok s' W'"
proof -
  note D = ft_okD [OF ok] and T = ft_taken [OF ok, of t]
  have r: "resolving (ft_pc s t)" using t by simp
  obtain u W' where k: "ft_winner s = Some (ft_value s)" "ft_chain s = awaiter_disabled" "a = awt_of u" "W = u # W'"
    "linked (ft_next s) p (awaiters W') 0" using T(2) [OF r] t by auto
  have d: "u \<notin> set W'" "distinct W'" "ft_pc s u = F_suspended" "u \<noteq> t" using D(2) D(3) [of u] k(4) t by auto
  let ?s = "ft_see u (ft_goto t (F_walk p) s)"
  have "\<not> ft_owner ?s" "taken (ft_pc ?s t) ?s W'" using T(1) [OF r] k d(4) by simp_all
  moreover have "resolving (ft_pc ?s v) \<Longrightarrow> v = t" for v using T(3) [OF r, of v] by (simp split: if_splits)
  ultimately have "ft_phase ?s W'" by (rule ft_phase_resolving)
  then have "ft_ok ?s W'"
  proof (rule ft_okI)
    fix v
    show "v \<in> set W' \<longleftrightarrow> ft_pc ?s v = F_suspended" using D(3) [of v] k(4) d t by (cases "v = u"; cases "v = t") auto
    show "ft_next ?s (awt_of v) \<noteq> awaiter_disabled" if "ft_pc ?s v = F_cas" using D(4) [of v] that by (auto split: if_splits)
    show "ft_next ?s (awt_of v) = nullptr" if "ft_pc ?s v = F_ready" using D(5) [of v] that by (auto split: if_splits)
    show "ft_winner ?s = Some (snd x)" if "x \<in> set (ft_seen ?s)" for x using that D(6) [of x] k(1) by auto
  qed (use d(2) k(2) in auto)
  then show ?thesis using d(3) k(3) by (auto simp: ft_resume_def)
qed

lemma ft_step_ok:
  assumes ok: "ft_ok s W" and can: "ft_can act (ft_pc s t)"
  shows "\<exists>s' W'. ft_exec act t s = Some s' \<and> ft_ok s' W'"
proof (cases act)
  case F_await
  then show ?thesis using ft_step_await [OF ok] can by auto
next
  case (F_call x)
  then show ?thesis using ft_step_call [OF ok] can by auto
next
  case (F_go fail)
  show ?thesis
  proof (cases "ft_pc s t")
    case F_ready
    then have "ft_ready t s \<noteq> None" using ft_okD(5) [OF ok] by (simp add: ft_ready_def)
    then show ?thesis using ft_step_ready [OF ok F_ready] F_go F_ready by auto
  next
    case F_cas
    then show ?thesis using ft_step_cas [OF ok F_cas] F_go by auto
  next
    case (F_claim x)
    then show ?thesis using ft_step_claim [OF ok F_claim] F_go by auto
  next
    case (F_set x)
    then show ?thesis using ft_step_set [OF ok F_set] F_go by auto
  next
    case F_swap
    then show ?thesis using ft_step_swap [OF ok F_swap] F_go by auto
  next
    case (F_walk p)
    then show ?thesis using ft_step_walk [OF ok F_walk] F_go by auto
  next
    case (F_resume a p)
    then show ?thesis using ft_step_resume [OF ok F_resume] F_go by auto
  qed (use can F_go in auto)
qed

lemma ft_reach_ok: "ft_reach s \<Longrightarrow> \<exists>W. ft_ok s W"
proof (induction rule: ft_reach.induct)
  case ft_start
  have "ft_ok ft_init []" by (simp add: ft_ok_def ft_phase_def ft_init_def)
  then show ?case ..
next
  case (ft_step s act t s')
  then show ?case using ft_step_ok by (metis option.inject)
qed

subsection \<open>Runs\<close>

fun ft_run :: "('v fact \<times> nat) list \<Rightarrow> 'v ft_state \<Rightarrow> 'v ft_state option" where
  "ft_run [] s = Some s"
| "ft_run ((act, t) # cs) s = (if ft_can act (ft_pc s t) then Option.bind (ft_exec act t s) (ft_run cs) else None)"

lemma ft_run_reach: "ft_reach s \<Longrightarrow> ft_run cs s = Some s' \<Longrightarrow> ft_reach s'"
proof (induction cs arbitrary: s)
  case (Cons c cs)
  then show ?case by (cases c) (auto simp: bind_Some_iff split: if_splits intro: ft_step)
qed simp

text \<open>What a resolving thread still does when the others stand still.\<close>

fun steps_left :: "'v fpc \<Rightarrow> nat list \<Rightarrow> nat" where
  "steps_left (F_set x) W = 2 * length W + 3"
| "steps_left F_swap W = 2 * length W + 2"
| "steps_left (F_walk p) W = 2 * length W + 1"
| "steps_left (F_resume a p) W = 2 * length W"
| "steps_left _ W = 0"

lemma ft_step_left:
  assumes ok: "ft_ok s W" and t: "resolving (ft_pc s t)"
  shows "\<exists>s' W'. ft_exec (F_go False) t s = Some s' \<and> ft_ok s' W' \<and>
    (resolving (ft_pc s' t) \<and> steps_left (ft_pc s' t) W' < steps_left (ft_pc s t) W \<or> ft_pc s' t = F_idle \<and> W' = [])"
proof (cases "ft_pc s t")
  case (F_set x)
  obtain s' where s': "ft_set x t s = Some s'" "ft_ok s' W" using ft_step_set [OF ok F_set] by blast
  then have "ft_pc s' t = F_swap" by (auto simp: ft_set_def split: if_splits)
  with s' F_set show ?thesis by auto
next
  case F_swap
  have "ft_pc (ft_swap t s) t = F_walk (ft_chain s)" by (simp add: ft_swap_def)
  with ft_step_swap [OF ok F_swap] F_swap show ?thesis by auto
next
  case (F_walk p)
  have l: "linked (ft_next s) p (awaiters W) 0" using ft_taken(2) [OF ok t] F_walk by simp
  show ?thesis
  proof (cases "p = 0")
    case True
    then have "W = []" using l by (cases W) auto
    with ft_step_walk [OF ok F_walk] F_walk True show ?thesis by (auto simp: ft_walk_def)
  next
    case False
    then have "W \<noteq> []" using l by auto
    with ft_step_walk [OF ok F_walk] F_walk False show ?thesis by (intro exI [of _ "ft_walk p t s"] exI [of _ W]) (auto simp: ft_walk_def)
  qed
next
  case (F_resume a p)
  obtain u W' where k: "a = awt_of u" "W = u # W'" using ft_taken(2) [OF ok t] F_resume by auto
  have u: "ft_pc s u = F_suspended" using ft_okD(3) [OF ok, of u] k(2) by simp
  let ?s = "ft_see u (ft_goto t (F_walk p) s)"
  have s': "ft_resume a p t s = Some ?s" using u k(1) by (simp add: ft_resume_def)
  obtain V where V: "ft_ok ?s V" using ft_step_resume [OF ok F_resume] s' by auto
  have ne: "u \<noteq> t" using u F_resume by auto
  have "set V = set W'"
  proof -
    have "v \<in> set V \<longleftrightarrow> v \<in> set W'" for v
      using ft_okD(3) [OF V, of v] ft_okD(3) [OF ok, of v] ft_okD(2) [OF ok] k(2) ne F_resume by (cases "v = u"; cases "v = t") auto
    then show ?thesis by blast
  qed
  then have "length V = length W'" using ft_okD(2) [OF V] ft_okD(2) [OF ok] k(2) by (metis distinct.simps(2) distinct_card)
  then show ?thesis using V s' F_resume ne k(2) by (intro exI [of _ ?s] exI [of _ V]) simp
qed (use t in simp_all)

lemma ft_resolver_finishes:
  "ft_ok s W \<Longrightarrow> resolving (ft_pc s t) \<Longrightarrow>
    \<exists>n s'. n \<le> steps_left (ft_pc s t) W \<and> ft_run (replicate n (F_go False, t)) s = Some s' \<and> ft_pc s' t = F_idle \<and> ft_ok s' []"
proof (induction "steps_left (ft_pc s t) W" arbitrary: s W rule: less_induct)
  case less
  obtain s' W' where s': "ft_exec (F_go False) t s = Some s'" "ft_ok s' W'"
    "resolving (ft_pc s' t) \<and> steps_left (ft_pc s' t) W' < steps_left (ft_pc s t) W \<or> ft_pc s' t = F_idle \<and> W' = []"
    using ft_step_left [OF less.prems] by blast
  have can: "ft_can (F_go False) (ft_pc s t)" using less.prems(2) by (cases "ft_pc s t") auto
  from s'(3) show ?case
  proof
    assume a: "resolving (ft_pc s' t) \<and> steps_left (ft_pc s' t) W' < steps_left (ft_pc s t) W"
    then obtain n s'' where n: "n \<le> steps_left (ft_pc s' t) W'" "ft_run (replicate n (F_go False, t)) s' = Some s''"
      "ft_pc s'' t = F_idle" "ft_ok s'' []" using less.hyps [of s' W'] s'(2) by blast
    have "ft_run (replicate (Suc n) (F_go False, t)) s = Some s''" using can s'(1) n(2) by simp
    moreover have "Suc n \<le> steps_left (ft_pc s t) W" using n(1) a by linarith
    ultimately show ?thesis using n(3,4) by blast
  next
    assume b: "ft_pc s' t = F_idle \<and> W' = []"
    have "ft_run (replicate 1 (F_go False, t)) s = Some s'" using can s'(1) by simp
    moreover have "1 \<le> steps_left (ft_pc s t) W"
      using less.prems ft_taken(2) [OF less.prems] by (cases "ft_pc s t") auto
    ultimately show ?thesis using b s'(2) by blast
  qed
qed

subsection \<open>Properties\<close>

text \<open>
  C17. Whatever the interleaving, all who read a result read the same one, that of the first
  call of the promise, and once that call is over nobody is left suspended: no wake-up is lost
  between the test for readiness and the subscription.
\<close>

theorem future_threads_agree:
  assumes "ft_reach s"
  shows "(\<forall>x \<in> set (ft_seen s). ft_winner s = Some (snd x)) \<and>
    (\<not> ft_owner s \<longrightarrow> (\<forall>t. \<not> resolving (ft_pc s t)) \<longrightarrow> (\<forall>t. ft_pc s t \<noteq> F_suspended))"
proof -
  obtain W where W: "ft_ok s W" using ft_reach_ok [OF assms] by blast
  have "ft_pc s t \<noteq> F_suspended" if "\<not> ft_owner s" "\<forall>t. \<not> resolving (ft_pc s t)" for t
  proof -
    have "W = []" using ft_okD(1) [OF W]
    proof (cases rule: ft_phaseE)
      case (Resolving r)
      then have "resolving (ft_pc s r)" by (cases "ft_pc s r") auto
      then show ?thesis using that(2) by blast
    qed (use that(1) in simp_all)
    then show ?thesis using ft_okD(3) [OF W, of t] by simp
  qed
  then show ?thesis using ft_okD(6) [OF W] by blast
qed

definition ft_meet :: "(nat fact \<times> nat) list" where
  "ft_meet = [(F_await, 0), (F_go False, 0), (F_call (Some 5), 1), (F_go False, 1), (F_call (Some 6), 2), (F_go False, 1),
     (F_go True, 0), (F_go False, 0), (F_go False, 2), (F_go False, 1), (F_await, 3), (F_go False, 3)]"

definition ft_met :: "nat ft_state" where
  "ft_met = \<lparr>ft_owner = False, ft_chain = awaiter_disabled, ft_value = Some 5, ft_next = \<lambda>_. 0,
     ft_pc = (\<lambda>_. F_idle)(0 := F_suspended, 1 := F_walk 3), ft_seen = [(3, Some 5)], ft_winner = Some (Some 5)\<rparr>"

lemmas ft_eval = ft_init_def ft_ready_def ft_cas_def ft_claim_def ft_set_def ft_swap_def ft_walk_def ft_resume_def
  ft_goto_def ft_put_next_def ft_see_def awt_of_def thread_of_def awaiter_disabled_def

lemma ft_met_reach: "ft_reach ft_met"
proof -
  have "ft_run ft_meet ft_init = Some ft_met"
    by (auto simp: ft_meet_def ft_met_def ft_eval Let_def fun_eq_iff)
  then show ?thesis by (rule ft_run_reach [OF ft_start])
qed

theorem future_threads_agree_witness:
  "ft_seen ft_met = [(3, Some 5)] \<and> ft_winner ft_met = Some (Some 5)"
  using future_threads_agree [OF ft_met_reach] by (simp add: ft_met_def)

text \<open>
  C21. No step of a thread fails: no value is set twice, only suspended coroutines are resumed
  (each once per subscription), and no null pointer is followed.
\<close>

theorem future_threads_never_fail:
  assumes "ft_reach s" and "ft_can act (ft_pc s t)"
  shows "\<exists>s'. ft_exec act t s = Some s'"
  using ft_reach_ok [OF assms(1)] ft_step_ok assms(2) by blast

theorem future_threads_never_fail_witness: "\<exists>s'. ft_exec (F_go False) 1 ft_met = Some s'"
  by (rule future_threads_never_fail [OF ft_met_reach]) (simp add: ft_met_def)

text \<open>
  C18. The winning call comes back, and with every suspended coroutine resumed: at any moment
  the thread that has claimed the promise needs a number of steps that is bounded by the
  number of those who wait, and no help from the other threads.
\<close>

theorem future_threads_wake_all:
  assumes "ft_reach s" and "resolving (ft_pc s t)"
  shows "\<exists>n s'. n \<le> 2 * card {u. ft_pc s u = F_suspended} + 3 \<and> ft_run (replicate n (F_go False, t)) s = Some s' \<and>
    ft_pc s' t = F_idle \<and> (\<forall>u. ft_pc s' u \<noteq> F_suspended)"
proof -
  obtain W where W: "ft_ok s W" using ft_reach_ok [OF assms(1)] by blast
  obtain n s' where n: "n \<le> steps_left (ft_pc s t) W" "ft_run (replicate n (F_go False, t)) s = Some s'"
    "ft_pc s' t = F_idle" "ft_ok s' []" using ft_resolver_finishes [OF W assms(2)] by blast
  have "{u. ft_pc s u = F_suspended} = set W" using ft_okD(3) [OF W] by blast
  then have "card {u. ft_pc s u = F_suspended} = length W" using ft_okD(2) [OF W] by (simp add: distinct_card)
  moreover have "steps_left (ft_pc s t) W \<le> 2 * length W + 3" by (cases "ft_pc s t") simp_all
  moreover have "ft_pc s' u \<noteq> F_suspended" for u using ft_okD(3) [OF n(4), of u] by simp
  ultimately show ?thesis using n by (intro exI [of _ n] exI [of _ s']) simp
qed

theorem future_threads_wake_all_witness:
  "\<exists>n s'. ft_run (replicate n (F_go False, 1)) ft_met = Some s' \<and> ft_pc s' 1 = F_idle \<and> (\<forall>u. ft_pc s' u \<noteq> F_suspended)"
  using future_threads_wake_all [OF ft_met_reach, of 1] by (auto simp: ft_met_def)

end
