(* ===== verification/Future.thy ===== *)
theory Future
  imports Awaiter "HOL-Library.Monad_Syntax"
begin

section \<open>future and promise\<close>

text \<open>
  \<open>future.h\<close>. A future is a value to come with the collector of its awaiters
  (\<open>_awaiter\<close>: \<open>awaiter::instance\<close> before there is a promise, \<open>awaiter::disabled\<close> once
  the future is resolved, otherwise the chain of those that wait). A promise is a pointer
  to the future it resolves. Both live in a store that is the client part of the awaiters'
  world, so the functions that a resumption calls (\<open>future_with_cb\<close>, \<open>discard\<close>,
  \<open>call_fn_future_awaiter\<close>) see and change it. An address without an object has no entry:
  using a destroyed object is \<open>None\<close>. An object and its base classes share one address.

  The type \<open>'v\<close> is \<open>T\<close>; the constructor of \<open>T\<close> does not throw. \<open>promise::reference\<close>,
  \<open>set_value_and_suspend\<close> and \<open>drop_and_suspend\<close> call the functions \<open>set_ptr\<close> and
  \<open>resolve_resume\<close>, which \<open>future\<close> does not have, so they have no instance.
\<close>

subsection \<open>State\<close>

datatype fstate =
    Not_value
  | Has_value
  | Has_value_ref
  | Has_exception

datatype ('v, 'e) slot =
    Raw
  | Slot_value 'v
  | Slot_ptr ptr
  | Slot_exc "'e exc"

record ('v, 'e) future =
  f_awaiter :: ptr
  f_state :: fstate
  f_slot :: "('v, 'e) slot"

record ('v, 'e, 'u) fworld =
  futs :: "ptr \<rightharpoonup> ('v, 'e) future"
  proms :: "ptr \<rightharpoonup> ptr"
  user :: 'u

type_synonym ('v, 'e, 'u) fstore = "('v, 'e, 'u) fworld aworld"

definition fut_at :: "ptr \<Rightarrow> ('v, 'e, 'u) fstore \<Rightarrow> ('v, 'e) future option" where
  "fut_at f s = futs (client s) f"

definition prom_at :: "ptr \<Rightarrow> ('v, 'e, 'u) fstore \<Rightarrow> ptr option" where
  "prom_at p s = proms (client s) p"

definition upd_fut :: "ptr \<Rightarrow> ('v, 'e) future option \<Rightarrow> ('v, 'e, 'u) fstore \<Rightarrow> ('v, 'e, 'u) fstore" where
  "upd_fut f fu s = s\<lparr>client := (client s)\<lparr>futs := (futs (client s))(f := fu)\<rparr>\<rparr>"

definition upd_prom :: "ptr \<Rightarrow> ptr option \<Rightarrow> ('v, 'e, 'u) fstore \<Rightarrow> ('v, 'e, 'u) fstore" where
  "upd_prom p m s = s\<lparr>client := (client s)\<lparr>proms := (proms (client s))(p := m)\<rparr>\<rparr>"

declare set_handle_def [cocls_store] set_resume_fn_def [cocls_store] fut_at_def [cocls_store] prom_at_def [cocls_store]
  upd_fut_def [cocls_store] upd_prom_def [cocls_store]

subsection \<open>The future by itself\<close>

definition fut_default :: "('v, 'e) future" where
  "fut_default = \<lparr>f_awaiter = awaiter_instance, f_state = Not_value, f_slot = Raw\<rparr>"

text \<open>\<open>future_common()\<close>, as the constructor that takes a function begins.\<close>

definition fut_started :: "('v, 'e) future" where
  "fut_started = \<lparr>f_awaiter = nullptr, f_state = Not_value, f_slot = Raw\<rparr>"

definition fut_set_value :: "'v \<Rightarrow> ('v, 'e) future" where
  "fut_set_value v = \<lparr>f_awaiter = awaiter_disabled, f_state = Has_value, f_slot = Slot_value v\<rparr>"

definition fut_set_exception :: "'e exc \<Rightarrow> ('v, 'e) future" where
  "fut_set_exception e = \<lparr>f_awaiter = awaiter_disabled, f_state = Has_exception, f_slot = Slot_exc e\<rparr>"

definition fut_set_not_value :: "('v, 'e) future" where
  "fut_set_not_value = \<lparr>f_awaiter = awaiter_disabled, f_state = Not_value, f_slot = Raw\<rparr>"

definition initialized :: "('v, 'e) future \<Rightarrow> bool" where
  "initialized fu \<longleftrightarrow> f_awaiter fu = awaiter_instance"

definition pending :: "('v, 'e) future \<Rightarrow> bool" where
  "pending fu \<longleftrightarrow> f_awaiter fu \<noteq> awaiter_instance \<and> f_awaiter fu \<noteq> awaiter_disabled"

definition fut_ready :: "('v, 'e) future \<Rightarrow> bool" where
  "fut_ready fu \<longleftrightarrow> f_awaiter fu = awaiter_disabled"

definition fut_subscribe ::
    "bool list \<Rightarrow> ptr \<Rightarrow> ('v, 'e) future \<Rightarrow> 'w aworld \<Rightarrow> (bool \<times> ('v, 'e) future \<times> 'w aworld) option" where
  "fut_subscribe sf awt fu w =
     map_option (\<lambda>(ok, chain, w'). (ok, fu\<lparr>f_awaiter := chain\<rparr>, w'))
       (subscribe_check_ready sf awt awaiter_disabled (f_awaiter fu) w)"

definition fut_ops :: "bool list \<Rightarrow> (('v, 'e) future, 'w) owner_ops" where
  "fut_ops sf = \<lparr>op_ready = (\<lambda>fu. (fut_ready fu, fu)), op_subscribe = fut_subscribe sf\<rparr>"

text \<open>
  \<open>value()\<close>: an exception, or a reference, to the future's own value or to an object of
  the client. The slot that the state does not name is not read.
\<close>

datatype 'v reference =
    Own 'v
  | At ptr

definition fut_value :: "('v, 'e) future \<Rightarrow> ('e exc + 'v reference) option" where
  "fut_value fu =
     (case f_state fu of
        Not_value \<Rightarrow> if pending fu then Some (Inl Value_not_ready) else Some (Inl Await_canceled)
      | Has_exception \<Rightarrow> (case f_slot fu of Slot_exc e \<Rightarrow> Some (Inl e) | _ \<Rightarrow> None)
      | Has_value \<Rightarrow> (case f_slot fu of Slot_value v \<Rightarrow> Some (Inr (Own v)) | _ \<Rightarrow> None)
      | Has_value_ref \<Rightarrow> (case f_slot fu of Slot_ptr p \<Rightarrow> Some (Inr (At p)) | _ \<Rightarrow> None))"

text \<open>\<open>has_value()\<close> once the future is resolved (\<open>awaitable_bool::await_resume\<close>).\<close>

definition fut_has_value :: "('v, 'e) future \<Rightarrow> bool" where
  "fut_has_value fu \<longleftrightarrow> f_state fu \<noteq> Not_value"

text \<open>The three ways to set a future; setting it twice violates an assertion.\<close>

definition set_own :: "'v \<Rightarrow> ('v, 'e) future \<Rightarrow> ('v, 'e) future option" where
  "set_own v fu =
     (if f_state fu \<noteq> Not_value then None else Some (fu\<lparr>f_slot := Slot_value v, f_state := Has_value\<rparr>))"

definition set_ref :: "ptr \<Rightarrow> ('v, 'e) future \<Rightarrow> ('v, 'e) future option" where
  "set_ref x fu =
     (if f_state fu \<noteq> Not_value then None else Some (fu\<lparr>f_slot := Slot_ptr x, f_state := Has_value_ref\<rparr>))"

definition set_exc :: "'e exc \<Rightarrow> ('v, 'e) future \<Rightarrow> ('v, 'e) future option" where
  "set_exc e fu =
     (if f_state fu \<noteq> Not_value then None else Some (fu\<lparr>f_slot := Slot_exc e, f_state := Has_exception\<rparr>))"

text \<open>The argument of \<open>set_value\<close> selects the overload of \<open>set\<close>.\<close>

datatype ('v, 'e) set_arg =
    Arg_value 'v
  | Arg_ref ptr
  | Arg_exc "'e exc"

definition fut_set :: "('v, 'e) set_arg \<Rightarrow> ('v, 'e) future \<Rightarrow> ('v, 'e) future option" where
  "fut_set x fu = (case x of Arg_value v \<Rightarrow> set_own v fu | Arg_ref p \<Rightarrow> set_ref p fu | Arg_exc e \<Rightarrow> set_exc e fu)"

subsection \<open>Promises and resolution\<close>

text \<open>\<open>resolve\<close>: the collector is marked ready before the chain is resumed.\<close>

definition fut_resolve ::
    "('v, 'e, 'u) fworld client_fn \<Rightarrow> ptr \<Rightarrow> ('v, 'e, 'u) fstore \<Rightarrow> (handle list \<times> ('v, 'e, 'u) fstore) option" where
  "fut_resolve cl f s = do {
     fu \<leftarrow> fut_at f s;
     resume_chain_lk cl (f_awaiter fu) (upd_fut f (Some (fu\<lparr>f_awaiter := awaiter_disabled\<rparr>)) s) }"

definition get_promise :: "ptr \<Rightarrow> ptr \<Rightarrow> ('v, 'e, 'u) fstore \<Rightarrow> ('v, 'e, 'u) fstore option" where
  "get_promise f p s = do {
     fu \<leftarrow> fut_at f s;
     if f_awaiter fu \<noteq> awaiter_instance then None
     else Some (upd_prom p (Some f) (upd_fut f (Some (fu\<lparr>f_awaiter := nullptr\<rparr>)) s)) }"

definition claim :: "ptr \<Rightarrow> ('v, 'e, 'u) fstore \<Rightarrow> (ptr \<times> ('v, 'e, 'u) fstore) option" where
  "claim p s = do { m \<leftarrow> prom_at p s; Some (m, upd_prom p (Some nullptr) s) }"

text \<open>What \<open>set_value\<close> does with the future it has claimed, if any.\<close>

definition promise_call ::
    "('v, 'e, 'u) fworld client_fn \<Rightarrow> ptr \<Rightarrow> ('v, 'e) set_arg \<Rightarrow> ('v, 'e, 'u) fstore \<Rightarrow>
      (handle list \<times> bool \<times> ('v, 'e, 'u) fstore) option" where
  "promise_call cl m x s =
     (if m \<noteq> nullptr then do {
       fu \<leftarrow> fut_at m s;
       fu' \<leftarrow> fut_set x fu;
       (hs, s') \<leftarrow> fut_resolve cl m (upd_fut m (Some fu') s);
       Some (hs, True, s') }
      else Some ([], False, s))"

definition promise_set ::
    "('v, 'e, 'u) fworld client_fn \<Rightarrow> ptr \<Rightarrow> ('v, 'e) set_arg \<Rightarrow> ('v, 'e, 'u) fstore \<Rightarrow>
      (handle list \<times> bool \<times> ('v, 'e, 'u) fstore) option" where
  "promise_set cl p x s = do { (m, s1) \<leftarrow> claim p s; promise_call cl m x s1 }"

definition promise_drop ::
    "('v, 'e, 'u) fworld client_fn \<Rightarrow> ptr \<Rightarrow> ('v, 'e, 'u) fstore \<Rightarrow>
      (handle list \<times> bool \<times> ('v, 'e, 'u) fstore) option" where
  "promise_drop cl p s = do {
     (m, s1) \<leftarrow> claim p s;
     if m \<noteq> nullptr then do {
       (hs, s2) \<leftarrow> fut_resolve cl m s1;
       Some (hs, True, s2) }
     else Some ([], False, s1) }"

text \<open>
  The move constructor, the move assignment and the destructor. The suspend points they
  throw away resume what they hold, so the handles are a result here as well.
\<close>

definition promise_move :: "ptr \<Rightarrow> ptr \<Rightarrow> ('v, 'e, 'u) fstore \<Rightarrow> ('v, 'e, 'u) fstore option" where
  "promise_move p other s = do { (m, s1) \<leftarrow> claim other s; Some (upd_prom p (Some m) s1) }"

definition promise_assign ::
    "('v, 'e, 'u) fworld client_fn \<Rightarrow> ptr \<Rightarrow> ptr \<Rightarrow> ('v, 'e, 'u) fstore \<Rightarrow>
      (handle list \<times> ('v, 'e, 'u) fstore) option" where
  "promise_assign cl p other s =
     (if p \<noteq> other then do {
        (hs, _, s1) \<leftarrow> promise_drop cl p s;
        (m, s2) \<leftarrow> claim other s1;
        Some (hs, upd_prom p (Some m) s2) }
      else Some ([], s))"

definition promise_destroy ::
    "('v, 'e, 'u) fworld client_fn \<Rightarrow> ptr \<Rightarrow> ('v, 'e, 'u) fstore \<Rightarrow> (handle list \<times> ('v, 'e, 'u) fstore) option" where
  "promise_destroy cl p s = do {
     m \<leftarrow> prom_at p s;
     (hs, s1) \<leftarrow> (if m \<noteq> nullptr then fut_resolve cl m s else Some ([], s));
     Some (hs, upd_prom p None s1) }"

definition promise_valid :: "ptr \<Rightarrow> ('v, 'e, 'u) fstore \<Rightarrow> bool option" where
  "promise_valid p s = map_option (\<lambda>m. m \<noteq> nullptr) (prom_at p s)"

text \<open>Construction with a function that receives the promise, and destruction.\<close>

definition fut_construct ::
    "(ptr \<Rightarrow> ('v, 'e, 'u) fstore \<Rightarrow> ('v, 'e, 'u) fstore option) \<Rightarrow> ptr \<Rightarrow> ptr \<Rightarrow> ('v, 'e, 'u) fstore \<Rightarrow>
      ('v, 'e, 'u) fstore option" where
  "fut_construct init f p s = init p (upd_prom p (Some f) (upd_fut f (Some fut_started) s))"

definition fut_destroy :: "ptr \<Rightarrow> ('v, 'e, 'u) fstore \<Rightarrow> ('v, 'e, 'u) fstore option" where
  "fut_destroy f s = do {
     fu \<leftarrow> fut_at f s;
     if pending fu then None else Some (upd_fut f None s) }"

text \<open>
  \<open>result_of\<close>: the function constructs its result in place of the future, or throws; then
  the future is resolved with the exception by a promise (at the address \<open>p\<close>).
\<close>

definition result_of ::
    "('v, 'e, 'u) fworld client_fn \<Rightarrow> (ptr \<Rightarrow> ('v, 'e, 'u) fstore \<Rightarrow> ('e exc option \<times> ('v, 'e, 'u) fstore) option)
      \<Rightarrow> ptr \<Rightarrow> ptr \<Rightarrow> ('v, 'e, 'u) fstore \<Rightarrow> (handle list \<times> ('v, 'e, 'u) fstore) option" where
  "result_of cl fn f p s = do {
     s1 \<leftarrow> fut_destroy f s;
     (thrown, s2) \<leftarrow> fn f s1;
     case thrown of
       None \<Rightarrow> Some ([], s2)
     | Some e \<Rightarrow> do {
         s3 \<leftarrow> get_promise f p (upd_fut f (Some fut_default) s2);
         (hs, _, s4) \<leftarrow> promise_set cl p (Arg_exc e) s3;
         (hs', s5) \<leftarrow> promise_destroy cl p s4;
         Some (hs @ hs', s5) } }"

lemma store_simps [simp]:
  "fut_at f (upd_fut g x s) = (if f = g then x else fut_at f s)"
  "fut_at f (upd_prom p m s) = fut_at f s"
  "prom_at p (upd_prom q m s) = (if p = q then m else prom_at p s)"
  "prom_at p (upd_fut g x s) = prom_at p s"
  "a_next (upd_fut g x s) = a_next s" "a_next (upd_prom p m s) = a_next s"
  "a_fn (upd_fut g x s) = a_fn s" "a_fn (upd_prom p m s) = a_fn s"
  "a_haddr (upd_fut g x s) = a_haddr s" "a_haddr (upd_prom p m s) = a_haddr s"
  "fut_at f (resumed xs s) = fut_at f s" "prom_at p (resumed xs s) = prom_at p s"
  "fut_at f (set_next a q s) = fut_at f s" "prom_at p (set_next a q s) = prom_at p s"
  "fut_at f (set_handle a h s) = fut_at f s" "prom_at p (set_handle a h s) = prom_at p s"
  by (simp_all add: fut_at_def prom_at_def upd_fut_def upd_prom_def set_handle_def)

lemma set_handle_simps [simp]:
  "a_next (set_handle a h w) = a_next w" "a_fn (set_handle a h w) = (a_fn w)(a := Fn_coro)"
  "a_haddr (set_handle a h w) = (a_haddr w)(a := h)"
  by (simp_all add: set_handle_def)

lemma set_resume_fn_simps [simp]:
  "a_next (set_resume_fn a fn c w) = a_next w" "a_fn (set_resume_fn a fn c w) = (a_fn w)(a := fn)"
  "a_haddr (set_resume_fn a fn c w) = (a_haddr w)(a := c)"
  "fut_at f (set_resume_fn a fn c s) = fut_at f s" "prom_at p (set_resume_fn a fn c s) = prom_at p s"
  by (simp_all add: set_resume_fn_def fut_at_def prom_at_def)

lemma plain_upd [simp]: "plain (upd_fut f x s) ws = plain s ws" "plain (upd_prom p m s) ws = plain s ws"
  by (simp_all add: plain_def)

lemma handles_upd [simp]:
  "handles_of (upd_fut f x s) ws = handles_of s ws" "handles_of (upd_prom p m s) ws = handles_of s ws"
  by (simp_all add: handles_of_def)

subsection \<open>A future keeps the contract of an awaitable object\<close>

text \<open>\<open>Some ws\<close>: not resolved, the awaiters \<open>ws\<close> wait, the newest first; \<open>None\<close>: resolved.\<close>

definition fut_rep :: "('v, 'e) future \<Rightarrow> 'w aworld \<Rightarrow> ptr list option \<Rightarrow> bool" where
  "fut_rep fu w x \<longleftrightarrow>
     (case x of None \<Rightarrow> f_awaiter fu = awaiter_disabled | Some ws \<Rightarrow> linked (a_next w) (f_awaiter fu) ws nullptr)"

lemma linked_null_not_marker: "linked nx p ws 0 \<Longrightarrow> p \<noteq> awaiter_disabled \<and> p \<noteq> awaiter_instance"
  by (cases ws) auto

lemma fut_subscribe_result:
  assumes "a_next w a = 0"
  shows "fut_subscribe sf a fu w = Some (if fut_ready fu then (False, fu, w)
    else (True, fu\<lparr>f_awaiter := a\<rparr>, set_next a (f_awaiter fu) w))"
  using assms by (simp add: fut_subscribe_def fut_ready_def subscribe_check_ready_result)

interpretation fu: awaitable "fut_ops sf" fut_rep "\<lambda>x. x = None" "\<lambda>x. x" "\<lambda>a x. map_option ((#) a) x"
  "\<lambda>x. case x of None \<Rightarrow> {} | Some ws \<Rightarrow> set ws" for sf
proof (unfold_locales, goal_cases)
  case (1 f w x)
  then show ?case by (simp add: fut_ops_def fut_rep_def fut_ready_def)
next
  case (2 f w x)
  then show ?case by (auto simp: fut_ops_def fut_rep_def fut_ready_def dest: linked_null_not_marker)
next
  case (3 f w x a)
  then show ?case by (simp add: fut_ops_def fut_rep_def fut_ready_def fut_subscribe_result)
next
  case (4 f w x a)
  then obtain ws where ws: "x = Some ws" "linked (a_next w) (f_awaiter f) ws 0" "a \<notin> set ws"
    by (auto simp: fut_rep_def)
  then have "\<not> fut_ready f" by (auto simp: fut_ready_def dest: linked_null_not_marker)
  with 4 ws show ?case by (simp add: fut_ops_def fut_rep_def fut_subscribe_result)
next
  case (5 x a)
  then show ?case by auto
next
  case (6 f w x w')
  show ?case
  proof (cases x)
    case (Some ws)
    then have "linked (a_next w') (f_awaiter f) ws 0 = linked (a_next w) (f_awaiter f) ws 0"
      using 6(2) by (intro linked_cong) simp
    with 6(1) Some show ?thesis by (simp add: fut_rep_def)
  qed (use 6(1) in \<open>simp add: fut_rep_def\<close>)
qed

subsection \<open>Setting a future through its promise\<close>

lemma fut_resolve_result:
  assumes "fut_at f s = Some fu" and "linked (a_next s) (f_awaiter fu) ws 0" and "plain s ws"
  shows "fut_resolve cl f s =
    Some (handles_of s ws, resumed ws (upd_fut f (Some (fu\<lparr>f_awaiter := awaiter_disabled\<rparr>)) s))"
  using assms resume_chain_loop_plain [of "upd_fut f (Some (fu\<lparr>f_awaiter := awaiter_disabled\<rparr>)) s"
      "f_awaiter fu" ws cl "[]"]
  by (simp add: fut_resolve_def resume_chain_lk_def)

lemma fut_set_awaiter: "fut_set x fu = Some fu' \<Longrightarrow> f_awaiter fu' = f_awaiter fu"
  by (auto simp: fut_set_def set_own_def set_ref_def set_exc_def split: set_arg.splits if_splits)

definition stored :: "('v, 'e) set_arg \<Rightarrow> ('v, 'e) future" where
  "stored x = (case x of
      Arg_value v \<Rightarrow> \<lparr>f_awaiter = awaiter_disabled, f_state = Has_value, f_slot = Slot_value v\<rparr>
    | Arg_ref p \<Rightarrow> \<lparr>f_awaiter = awaiter_disabled, f_state = Has_value_ref, f_slot = Slot_ptr p\<rparr>
    | Arg_exc e \<Rightarrow> \<lparr>f_awaiter = awaiter_disabled, f_state = Has_exception, f_slot = Slot_exc e\<rparr>)"

lemma fut_set_result:
  assumes "f_state fu = Not_value"
  shows "\<exists>fu'. fut_set x fu = Some fu' \<and> fu'\<lparr>f_awaiter := awaiter_disabled\<rparr> = stored x \<and>
    f_awaiter fu' = f_awaiter fu"
  using assms by (cases fu) (auto simp: fut_set_def set_own_def set_ref_def set_exc_def stored_def split: set_arg.splits)

text \<open>What setting and dropping leave behind.\<close>

definition settled ::
    "ptr \<Rightarrow> ptr option \<Rightarrow> ptr \<Rightarrow> ('v, 'e) future \<Rightarrow> ptr list \<Rightarrow> ('v, 'e, 'u) fstore \<Rightarrow> ('v, 'e, 'u) fstore" where
  "settled p m f fu ws s = resumed ws (upd_fut f (Some fu) (upd_prom p m s))"

lemma upd_fut_twice [simp]: "upd_fut f x (upd_fut f y s) = upd_fut f x s"
  by (simp add: upd_fut_def)

lemma upd_commute: "upd_prom p m (upd_fut f x s) = upd_fut f x (upd_prom p m s)"
  by (simp add: upd_fut_def upd_prom_def)

lemma resumed_upd: "resumed ws (upd_fut f x s) = upd_fut f x (resumed ws s)"
  "resumed ws (upd_prom p m s) = upd_prom p m (resumed ws s)"
  by (auto simp: upd_fut_def upd_prom_def resumed_def intro!: aworld.equality)

lemma promise_call_result:
  assumes "f \<noteq> 0" and "fut_at f s = Some fu" and "f_state fu = Not_value"
    and "linked (a_next s) (f_awaiter fu) ws 0" and "plain s ws"
  shows "promise_call cl f x s = Some (handles_of s ws, True, resumed ws (upd_fut f (Some (stored x)) s))"
proof -
  obtain fu' where fu': "fut_set x fu = Some fu'" "fu'\<lparr>f_awaiter := awaiter_disabled\<rparr> = stored x"
    "f_awaiter fu' = f_awaiter fu"
    using fut_set_result [OF assms(3)] by blast
  then have "fut_resolve cl f (upd_fut f (Some fu') s) =
      Some (handles_of s ws, resumed ws (upd_fut f (Some (stored x)) s))"
    using fut_resolve_result [of f "upd_fut f (Some fu') s" fu' ws cl] assms by simp
  with assms fu' show ?thesis by (simp add: promise_call_def)
qed

lemma promise_set_result:
  assumes "prom_at p s = Some f" and "f \<noteq> 0" and "fut_at f s = Some fu" and "f_state fu = Not_value"
    and "linked (a_next s) (f_awaiter fu) ws 0" and "plain s ws"
  shows "promise_set cl p x s = Some (handles_of s ws, True, settled p (Some 0) f (stored x) ws s)"
  using assms promise_call_result [of f "upd_prom p (Some 0) s" fu ws cl x]
  by (simp add: promise_set_def claim_def settled_def)

lemma promise_drop_result:
  assumes "prom_at p s = Some f" and "f \<noteq> 0" and "fut_at f s = Some fu"
    and "linked (a_next s) (f_awaiter fu) ws 0" and "plain s ws"
  shows "promise_drop cl p s =
    Some (handles_of s ws, True, settled p (Some 0) f (fu\<lparr>f_awaiter := awaiter_disabled\<rparr>) ws s)"
  using assms fut_resolve_result [of f "upd_prom p (Some 0) s" fu ws cl]
  by (simp add: promise_drop_def claim_def settled_def)

lemma promise_empty_result:
  assumes "prom_at p s = Some 0"
  shows "promise_set cl p x s = Some ([], False, s)" and "promise_drop cl p s = Some ([], False, s)"
    and "promise_destroy cl p s = Some ([], upd_prom p None s)"
proof -
  have "upd_prom p (Some 0) s = s"
    using assms by (simp add: upd_prom_def prom_at_def fun_upd_idem)
  then show "promise_set cl p x s = Some ([], False, s)" "promise_drop cl p s = Some ([], False, s)"
    "promise_destroy cl p s = Some ([], upd_prom p None s)"
    using assms by (simp_all add: promise_set_def promise_call_def promise_drop_def promise_destroy_def claim_def)
qed

lemma promise_destroy_result:
  assumes "prom_at p s = Some f" and "f \<noteq> 0" and "fut_at f s = Some fu"
    and "linked (a_next s) (f_awaiter fu) ws 0" and "plain s ws"
  shows "promise_destroy cl p s =
    Some (handles_of s ws, settled p None f (fu\<lparr>f_awaiter := awaiter_disabled\<rparr>) ws s)"
  using assms fut_resolve_result [of f s fu ws cl]
  by (simp add: promise_destroy_def settled_def resumed_upd upd_commute)

subsection \<open>Any number of futures and promises\<close>

text \<open>
  \<open>W\<close> gives the awaiters of each future. Every future that is pending has a value to
  come from exactly one promise, and no promise points to another future.
\<close>

definition fut_ok :: "('v, 'e, 'u) fstore \<Rightarrow> ptr list \<Rightarrow> ptr \<Rightarrow> ('v, 'e) future \<Rightarrow> bool" where
  "fut_ok s ws f fu \<longleftrightarrow>
     (if pending fu
      then f_state fu = Not_value \<and> linked (a_next s) (f_awaiter fu) ws nullptr \<and> plain s ws \<and>
        (\<exists>p. prom_at p s = Some f)
      else ws = [] \<and> (initialized fu \<longrightarrow> f_state fu = Not_value))"

definition fut_inv :: "(ptr \<Rightarrow> ptr list) \<Rightarrow> ('v, 'e, 'u) fstore \<Rightarrow> bool" where
  "fut_inv W s \<longleftrightarrow>
     (\<forall>f fu. fut_at f s = Some fu \<longrightarrow> f \<noteq> nullptr \<and> fut_ok s (W f) f fu) \<and>
     (\<forall>f. fut_at f s = None \<longrightarrow> W f = []) \<and>
     (\<forall>p f. prom_at p s = Some f \<longrightarrow> f \<noteq> nullptr \<longrightarrow> (\<exists>fu. fut_at f s = Some fu \<and> pending fu)) \<and>
     (\<forall>p q f. prom_at p s = Some f \<longrightarrow> prom_at q s = Some f \<longrightarrow> f \<noteq> nullptr \<longrightarrow> p = q) \<and>
     (\<forall>f g. f \<noteq> g \<longrightarrow> set (W f) \<inter> set (W g) = {})"

lemma fut_invI:
  assumes "\<And>f fu. fut_at f s = Some fu \<Longrightarrow> f \<noteq> 0 \<and> fut_ok s (W f) f fu"
    and "\<And>f. fut_at f s = None \<Longrightarrow> W f = []"
    and "\<And>p f. prom_at p s = Some f \<Longrightarrow> f \<noteq> 0 \<Longrightarrow> \<exists>fu. fut_at f s = Some fu \<and> pending fu"
    and "\<And>p q f. prom_at p s = Some f \<Longrightarrow> prom_at q s = Some f \<Longrightarrow> f \<noteq> 0 \<Longrightarrow> p = q"
    and "\<And>f g. f \<noteq> g \<Longrightarrow> set (W f) \<inter> set (W g) = {}"
  shows "fut_inv W s"
  using assms unfolding fut_inv_def by blast

lemma fut_invD:
  assumes "fut_inv W s"
  shows "fut_at f s = Some fu \<Longrightarrow> f \<noteq> 0" and "fut_at f s = Some fu \<Longrightarrow> fut_ok s (W f) f fu"
    and "fut_at f s = None \<Longrightarrow> W f = []"
    and "prom_at p s = Some f \<Longrightarrow> f \<noteq> 0 \<Longrightarrow> \<exists>fu. fut_at f s = Some fu \<and> pending fu"
    and "prom_at p s = Some f \<Longrightarrow> prom_at q s = Some f \<Longrightarrow> f \<noteq> 0 \<Longrightarrow> p = q"
    and "f \<noteq> g \<Longrightarrow> set (W f) \<inter> set (W g) = {}"
  using assms unfolding fut_inv_def by blast+

lemma fut_ok_promises:
  assumes "fut_ok s ws f fu" and "a_next s' = a_next s" and "a_fn s' = a_fn s"
    and "\<And>q. prom_at q s = Some f \<Longrightarrow> \<exists>r. prom_at r s' = Some f"
  shows "fut_ok s' ws f fu"
  using assms by (auto simp: fut_ok_def plain_def)

lemma fut_inv_promise:
  assumes "fut_inv W s" and "prom_at p s = Some f" and "f \<noteq> 0"
  obtains fu where "fut_at f s = Some fu" "pending fu" "f_state fu = Not_value"
    "linked (a_next s) (f_awaiter fu) (W f) 0" "plain s (W f)"
proof -
  obtain fu where "fut_at f s = Some fu" "pending fu"
    using assms unfolding fut_inv_def by blast
  moreover from this have "fut_ok s (W f) f fu" using assms(1) unfolding fut_inv_def by blast
  ultimately show ?thesis using that by (simp add: fut_ok_def)
qed

lemma fut_inv_links:
  assumes "fut_inv W s" and "a \<in> set (W f)"
  shows "\<exists>fu. fut_at f s = Some fu \<and> pending fu"
proof -
  obtain fu where fu: "fut_at f s = Some fu" using assms unfolding fut_inv_def by force
  then have "fut_ok s (W f) f fu" using assms(1) unfolding fut_inv_def by blast
  with fu assms(2) show ?thesis by (auto simp: fut_ok_def split: if_splits)
qed

text \<open>A future is settled, and its promise emptied or destroyed.\<close>

lemma fut_inv_settled:
  assumes inv: "fut_inv W s" and p: "prom_at p s = Some f" "f \<noteq> 0" and m: "m = None \<or> m = Some 0"
    and fu': "f_awaiter fu' = awaiter_disabled"
  shows "fut_inv (W(f := [])) (settled p m f fu' (W f) s)"
proof -
  let ?s = "settled p m f fu' (W f) s"
  have at: "fut_at g ?s = (if g = f then Some fu' else fut_at g s)"
    and pr: "prom_at q ?s = (if q = p then m else prom_at q s)" for g q
    by (auto simp: settled_def)
  have one: "q = p" if "prom_at q s = Some f" for q
    using inv p that unfolding fut_inv_def by blast
  have "fut_ok ?s (W g) g fu" if g: "g \<noteq> f" "fut_at g s = Some fu" for g fu
  proof -
    have old: "fut_ok s (W g) g fu" using inv g unfolding fut_inv_def by blast
    have "set (W g) \<inter> set (W f) = {}" using inv g unfolding fut_inv_def by blast
    then have "linked (a_next ?s) (f_awaiter fu) (W g) 0 = linked (a_next s) (f_awaiter fu) (W g) 0"
      by (intro linked_cong) (auto simp: settled_def)
    moreover have "plain ?s (W g) = plain s (W g)" by (simp add: settled_def plain_def)
    moreover have "prom_at q s = Some g \<Longrightarrow> prom_at q ?s = Some g" for q
      using g p by (auto simp: pr)
    ultimately show ?thesis using old by (fastforce simp: fut_ok_def)
  qed
  moreover have "fut_ok ?s [] f fu'" using fu' by (simp add: fut_ok_def pending_def initialized_def)
  ultimately have 1: "g \<noteq> 0 \<and> fut_ok ?s ((W(f := [])) g) g fu" if "fut_at g ?s = Some fu" for g fu
    using that inv p unfolding fut_inv_def by (auto simp: at split: if_splits)
  have 2: "\<exists>fu. fut_at g ?s = Some fu \<and> pending fu" if "prom_at q ?s = Some g" "g \<noteq> 0" for q g
    using that inv m one unfolding fut_inv_def by (auto simp: at pr split: if_splits)
  have 3: "q = r" if "prom_at q ?s = Some g" "prom_at r ?s = Some g" "g \<noteq> 0" for q r g
    using that inv m unfolding fut_inv_def by (auto simp: pr split: if_splits)
  show ?thesis using 1 2 3 inv unfolding fut_inv_def by (auto simp: at)
qed

text \<open>
  The commands of a client. Each object is used in its lifetime only, a future is awaited once
  it is initialized, and an awaiter is not linked twice.
\<close>

datatype ('v, 'e) fcmd =
    New_future ptr
  | Start_future ptr ptr
  | Take_promise ptr ptr
  | Move_promise ptr ptr
  | Assign_promise ptr ptr
  | Set_promise ptr "('v, 'e) set_arg"
  | Drop_promise ptr
  | Destroy_promise ptr
  | Await_future ptr ptr handle
  | Destroy_future ptr

definition unlinked :: "ptr \<Rightarrow> ('v, 'e, 'u) fstore \<Rightarrow> bool" where
  "unlinked a s \<longleftrightarrow>
     (\<forall>g gu ws. fut_at g s = Some gu \<longrightarrow> linked (a_next s) (f_awaiter gu) ws nullptr \<longrightarrow> a \<notin> set ws)"

fun fcmd_ok :: "('v, 'e) fcmd \<Rightarrow> ('v, 'e, 'u) fstore \<Rightarrow> bool" where
  "fcmd_ok (New_future f) s \<longleftrightarrow> f \<noteq> nullptr \<and> fut_at f s = None"
| "fcmd_ok (Start_future f p) s \<longleftrightarrow> f \<noteq> nullptr \<and> fut_at f s = None \<and> prom_at p s = None"
| "fcmd_ok (Take_promise f p) s \<longleftrightarrow> fut_at f s \<noteq> None \<and> prom_at p s = None"
| "fcmd_ok (Move_promise p q) s \<longleftrightarrow> prom_at p s = None \<and> prom_at q s \<noteq> None"
| "fcmd_ok (Assign_promise p q) s \<longleftrightarrow> prom_at p s \<noteq> None \<and> prom_at q s \<noteq> None"
| "fcmd_ok (Set_promise p x) s \<longleftrightarrow> prom_at p s \<noteq> None"
| "fcmd_ok (Drop_promise p) s \<longleftrightarrow> prom_at p s \<noteq> None"
| "fcmd_ok (Destroy_promise p) s \<longleftrightarrow> prom_at p s \<noteq> None"
| "fcmd_ok (Await_future f a h) s \<longleftrightarrow>
     (\<exists>fu. fut_at f s = Some fu \<and> \<not> initialized fu) \<and> proper a \<and> unlinked a s"
| "fcmd_ok (Destroy_future f) s \<longleftrightarrow> fut_at f s \<noteq> None"

fun fut_exec ::
    "bool list \<Rightarrow> ('v, 'e, 'u) fworld client_fn \<Rightarrow> ('v, 'e) fcmd \<Rightarrow> ('v, 'e, 'u) fstore \<Rightarrow>
      (handle list \<times> ('v, 'e, 'u) fstore) option" where
  "fut_exec sf cl (New_future f) s = Some ([], upd_fut f (Some fut_default) s)"
| "fut_exec sf cl (Start_future f p) s = map_option (Pair []) (fut_construct (\<lambda>_. Some) f p s)"
| "fut_exec sf cl (Take_promise f p) s = map_option (Pair []) (get_promise f p s)"
| "fut_exec sf cl (Move_promise p q) s = map_option (Pair []) (promise_move p q s)"
| "fut_exec sf cl (Assign_promise p q) s = promise_assign cl p q s"
| "fut_exec sf cl (Set_promise p x) s = map_option (\<lambda>(hs, _, s'). (hs, s')) (promise_set cl p x s)"
| "fut_exec sf cl (Drop_promise p) s = map_option (\<lambda>(hs, _, s'). (hs, s')) (promise_drop cl p s)"
| "fut_exec sf cl (Destroy_promise p) s = promise_destroy cl p s"
| "fut_exec sf cl (Await_future f a h) s = do {
     fu \<leftarrow> fut_at f s;
     (_, fu', s') \<leftarrow> co_await (fut_ops sf) a h fu (set_next a nullptr s);
     Some ([], upd_fut f (Some fu') s') }"
| "fut_exec sf cl (Destroy_future f) s = map_option (Pair []) (fut_destroy f s)"

text \<open>
  The two misuses that \<open>future.h\<close> asserts against: taking the promise of a future that was
  started before, and destroying a future while a promise still points to it.
\<close>

fun violates :: "('v, 'e) fcmd \<Rightarrow> ('v, 'e, 'u) fstore \<Rightarrow> bool" where
  "violates (Take_promise f p) s \<longleftrightarrow> (\<exists>fu. fut_at f s = Some fu \<and> \<not> initialized fu)"
| "violates (Destroy_future f) s \<longleftrightarrow> (\<exists>q. prom_at q s = Some f)"
| "violates _ s \<longleftrightarrow> False"

inductive fut_reach :: "('v, 'e, 'u) fworld client_fn \<Rightarrow> ('v, 'e, 'u) fstore \<Rightarrow> bool" for cl where
  fut_start: "futs (client s) = Map.empty \<Longrightarrow> proms (client s) = Map.empty \<Longrightarrow> fut_reach cl s"
| fut_step: "fut_reach cl s \<Longrightarrow> fcmd_ok c s \<Longrightarrow> fut_exec sf cl c s = Some (hs, s') \<Longrightarrow> fut_reach cl s'"

lemma fut_inv_moved:
  assumes inv: "fut_inv W s" and q: "prom_at q s = Some m"
    and p: "prom_at p s = None \<or> prom_at p s = Some 0" and "p \<noteq> q"
  shows "fut_inv W (upd_prom p (Some m) (upd_prom q (Some 0) s))"
proof (rule fut_invI, goal_cases)
  case (1 f fu)
  then have at: "fut_at f s = Some fu" by simp
  have "\<exists>r'. prom_at r' (upd_prom p (Some m) (upd_prom q (Some 0) s)) = Some f" if "prom_at r s = Some f" for r
    using that q p fut_invD(1) [OF inv at] \<open>p \<noteq> q\<close> by (intro exI [of _ "if r = q then p else r"]) auto
  then show ?case using fut_invD(1,2) [OF inv at] by (auto intro: fut_ok_promises)
next
  case (2 f)
  then show ?case using fut_invD(3) [OF inv] by simp
next
  case (3 r f)
  then show ?case using fut_invD(4) [OF inv] q by (auto split: if_splits)
next
  case (4 r r' f)
  then show ?case using fut_invD(5) [OF inv, of _ f] q p \<open>p \<noteq> q\<close> by (simp split: if_splits)
next
  case (5 f g)
  then show ?case by (rule fut_invD(6) [OF inv])
qed

lemma fut_inv_promise_gone:
  assumes inv: "fut_inv W s" and p: "prom_at p s = Some 0"
  shows "fut_inv W (upd_prom p None s)"
proof (rule fut_invI, goal_cases)
  case (1 f fu)
  then have at: "fut_at f s = Some fu" by simp
  have "\<exists>r. prom_at r (upd_prom p None s) = Some f" if "prom_at q s = Some f" for q
    using that p fut_invD(1) [OF inv at] by (intro exI [of _ q]) auto
  then show ?case using fut_invD(1,2) [OF inv at] by (auto intro: fut_ok_promises)
next
  case (2 f)
  then show ?case using fut_invD(3) [OF inv] by simp
next
  case (3 r f)
  then show ?case using fut_invD(4) [OF inv] by (auto split: if_splits)
next
  case (4 r r' f)
  then show ?case using fut_invD(5) [OF inv, of r f r'] by (simp split: if_splits)
next
  case (5 f g)
  then show ?case by (rule fut_invD(6) [OF inv])
qed

lemma fut_inv_set:
  assumes inv: "fut_inv W s" and p: "prom_at p s = Some f"
  shows "\<exists>hs ok s' W'. promise_set cl p x s = Some (hs, ok, s') \<and> fut_inv W' s'"
proof (cases "f = 0")
  case True
  with assms promise_empty_result(1) [of p s cl x] show ?thesis by auto
next
  case False
  with assms obtain fu where fu: "fut_at f s = Some fu" "f_state fu = Not_value"
    "linked (a_next s) (f_awaiter fu) (W f) 0" "plain s (W f)" by (rule fut_inv_promise)
  have "f_awaiter (stored x) = awaiter_disabled" by (simp add: stored_def split: set_arg.splits)
  then have "fut_inv (W(f := [])) (settled p (Some 0) f (stored x) (W f) s)"
    using fut_inv_settled [OF inv p False] by simp
  moreover have "promise_set cl p x s = Some (handles_of s (W f), True, settled p (Some 0) f (stored x) (W f) s)"
    by (rule promise_set_result [OF p False fu])
  ultimately show ?thesis by blast
qed

lemma fut_inv_drop:
  assumes inv: "fut_inv W s" and p: "prom_at p s = Some f"
  shows "\<exists>hs ok s' W'. promise_drop cl p s = Some (hs, ok, s') \<and> fut_inv W' s' \<and> prom_at p s' = Some 0 \<and>
    (\<forall>q. q \<noteq> p \<longrightarrow> prom_at q s' = prom_at q s)"
proof (cases "f = 0")
  case True
  with assms promise_empty_result(2) [of p s cl] show ?thesis by auto
next
  case False
  with assms obtain fu where fu: "fut_at f s = Some fu" "f_state fu = Not_value"
    "linked (a_next s) (f_awaiter fu) (W f) 0" "plain s (W f)" by (rule fut_inv_promise)
  let ?s = "settled p (Some 0) f (fu\<lparr>f_awaiter := awaiter_disabled\<rparr>) (W f) s"
  have "fut_inv (W(f := [])) ?s" using fut_inv_settled [OF inv p False] by simp
  moreover have "promise_drop cl p s = Some (handles_of s (W f), True, ?s)"
    by (rule promise_drop_result [OF p False fu(1,3,4)])
  moreover have "prom_at p ?s = Some 0" "\<forall>q. q \<noteq> p \<longrightarrow> prom_at q ?s = prom_at q s"
    by (simp_all add: settled_def)
  ultimately show ?thesis by blast
qed

lemma fut_inv_destroy_promise:
  assumes inv: "fut_inv W s" and p: "prom_at p s = Some f"
  shows "\<exists>hs s' W'. promise_destroy cl p s = Some (hs, s') \<and> fut_inv W' s'"
proof (cases "f = 0")
  case True
  then have "fut_inv W (upd_prom p None s)" using fut_inv_promise_gone [OF inv] p by simp
  with p True promise_empty_result(3) [of p s cl] show ?thesis by auto
next
  case False
  with assms obtain fu where fu: "fut_at f s = Some fu" "f_state fu = Not_value"
    "linked (a_next s) (f_awaiter fu) (W f) 0" "plain s (W f)" by (rule fut_inv_promise)
  have "fut_inv (W(f := [])) (settled p None f (fu\<lparr>f_awaiter := awaiter_disabled\<rparr>) (W f) s)"
    using fut_inv_settled [OF inv p False] by simp
  with promise_destroy_result [OF p False fu(1,3,4)] show ?thesis by blast
qed

lemma fut_inv_assign:
  assumes inv: "fut_inv W s" and p: "prom_at p s = Some f" and q: "prom_at q s = Some g"
  shows "\<exists>hs s' W'. promise_assign cl p q s = Some (hs, s') \<and> fut_inv W' s'"
proof (cases "p = q")
  case True
  with inv show ?thesis by (auto simp: promise_assign_def)
next
  case False
  obtain hs ok s1 W1 where s1: "promise_drop cl p s = Some (hs, ok, s1)" "fut_inv W1 s1"
    "prom_at p s1 = Some 0" "prom_at q s1 = Some g"
    using fut_inv_drop [OF inv p, of cl] q False by metis
  then have "fut_inv W1 (upd_prom p (Some g) (upd_prom q (Some 0) s1))"
    using False by (intro fut_inv_moved) simp_all
  with s1 False show ?thesis by (auto simp: promise_assign_def claim_def)
qed

text \<open>A future appears, or changes while nobody waits for it.\<close>

lemma fut_inv_upd_fut:
  assumes inv: "fut_inv W s" and f: "f \<noteq> 0" and ws: "W f = []"
    and np: "\<And>p. prom_at p s \<noteq> Some f" and x: "\<And>fu. x = Some fu \<Longrightarrow> fut_ok s [] f fu"
  shows "fut_inv W (upd_fut f x s)"
proof (rule fut_invI, goal_cases)
  case (1 g gu)
  show ?case
  proof (cases "g = f")
    case True
    then have "x = Some gu" using 1 by simp
    then have "fut_ok s [] f gu" by (rule x)
    then have "fut_ok (upd_fut f x s) [] f gu" by (rule fut_ok_promises) auto
    with True f ws show ?thesis by simp
  next
    case False
    then have at: "fut_at g s = Some gu" using 1 by simp
    have "fut_ok (upd_fut f x s) (W g) g gu" using fut_invD(2) [OF inv at] by (rule fut_ok_promises) auto
    with fut_invD(1) [OF inv at] show ?thesis by simp
  qed
next
  case (2 g)
  then show ?case using ws fut_invD(3) [OF inv] by (cases "g = f") auto
next
  case (3 p g)
  then show ?case using np fut_invD(4) [OF inv] by (cases "g = f") auto
next
  case (4 p q g)
  then show ?case using fut_invD(5) [OF inv, of p g q] by simp
next
  case (5 g h)
  then show ?case by (rule fut_invD(6) [OF inv])
qed

text \<open>A future without promise gets one.\<close>

lemma fut_inv_begun:
  assumes inv: "fut_inv W s" and f: "f \<noteq> 0" and ws: "W f = []"
    and np: "\<And>q. prom_at q s \<noteq> Some f" and p: "prom_at p s = None"
    and fu: "f_awaiter fu = 0" "f_state fu = Not_value"
  shows "fut_inv W (upd_prom p (Some f) (upd_fut f (Some fu) s))"
proof (rule fut_invI, goal_cases)
  let ?s = "upd_prom p (Some f) (upd_fut f (Some fu) s)"
  case (1 g gu)
  show ?case
  proof (cases "g = f")
    case True
    then show ?thesis using 1 f ws fu
      by (auto simp: fut_ok_def pending_def plain_def initialized_def intro!: exI [of _ p])
  next
    case False
    then have at: "fut_at g s = Some gu" using 1 by simp
    have "\<exists>r. prom_at r ?s = Some g" if "prom_at q s = Some g" for q
      using that p by (intro exI [of _ q]) auto
    then have "fut_ok ?s (W g) g gu" using fut_invD(2) [OF inv at] by (auto intro: fut_ok_promises)
    with fut_invD(1) [OF inv at] show ?thesis by simp
  qed
next
  case (2 g)
  then show ?case using ws fut_invD(3) [OF inv] by (cases "g = f") auto
next
  case (3 q g)
  then show ?case using fu np fut_invD(4) [OF inv, of q g] by (cases "g = f") (auto simp: pending_def split: if_splits)
next
  case (4 q r g)
  then show ?case using np p fut_invD(5) [OF inv, of q g r] by (auto split: if_splits)
next
  case (5 g h)
  then show ?case by (rule fut_invD(6) [OF inv])
qed

lemma fut_inv_no_promise:
  assumes "fut_inv W s" and "f \<noteq> 0" and "\<And>fu. fut_at f s = Some fu \<Longrightarrow> \<not> pending fu"
  shows "W f = []" and "prom_at p s \<noteq> Some f"
proof -
  show "prom_at p s \<noteq> Some f" using assms fut_invD(4) by blast
  show "W f = []"
    using assms fut_invD(2,3) [OF assms(1)] by (cases "fut_at f s") (force simp: fut_ok_def)+
qed

lemma initialized_not_pending: "initialized fu \<Longrightarrow> \<not> pending fu"
  by (simp add: initialized_def pending_def)

lemma co_await_future_result:
  assumes "a_next w a = 0"
  shows "co_await (fut_ops sf) a h fu w = Some (if fut_ready fu then (False, fu, w)
    else (True, fu\<lparr>f_awaiter := a\<rparr>, set_next a (f_awaiter fu) (set_handle a h w)))"
  using assms by (auto simp: co_await_def await_ready_def await_suspend_def fut_ops_def fut_subscribe_result)

lemma fut_inv_await:
  assumes inv: "fut_inv W s" and at: "fut_at f s = Some fu" and fu: "pending fu"
    and a: "proper a" "\<And>g. a \<notin> set (W g)"
  shows "fut_inv (W(f := a # W f))
    (upd_fut f (Some (fu\<lparr>f_awaiter := a\<rparr>)) (set_next a (f_awaiter fu) (set_handle a h s)))"
proof (rule fut_invI, goal_cases)
  let ?s = "upd_fut f (Some (fu\<lparr>f_awaiter := a\<rparr>)) (set_next a (f_awaiter fu) (set_handle a h s))"
  have pend: "pending (fu\<lparr>f_awaiter := a\<rparr>)" using a by (simp add: pending_def)
  case (1 g gu)
  show ?case
  proof (cases "g = f")
    case True
    then show ?thesis using 1 a pend fut_invD(1,2) [OF inv at] fu
      by (auto simp: fut_ok_def plain_def)
  next
    case False
    then have at': "fut_at g s = Some gu" using 1 by simp
    have "fut_ok ?s (W g) g gu"
      using fut_invD(2) [OF inv at'] a(2) [of g] by (auto simp: fut_ok_def plain_def)
    with False fut_invD(1) [OF inv at'] show ?thesis by simp
  qed
next
  case (2 g)
  then show ?case using fut_invD(3) [OF inv] by (auto split: if_splits)
next
  case (3 p g)
  have pend: "pending (fu\<lparr>f_awaiter := a\<rparr>)" using a by (simp add: pending_def)
  show ?case using 3 fut_invD(4) [OF inv, of p g] pend by (cases "g = f") auto
next
  case (4 p q g)
  then show ?case using fut_invD(5) [OF inv, of p g q] by simp
next
  case (5 g k)
  then show ?case using fut_invD(6) [OF inv, of g k] a(2) by auto
qed

lemma unlinked_notin:
  assumes "fut_inv W s" and "unlinked a s"
  shows "a \<notin> set (W g)"
proof
  assume a: "a \<in> set (W g)"
  then obtain gu where gu: "fut_at g s = Some gu" "pending gu" using fut_inv_links [OF assms(1)] by blast
  then have "linked (a_next s) (f_awaiter gu) (W g) 0"
    using fut_invD(2) [OF assms(1)] by (auto simp: fut_ok_def)
  with gu a assms(2) show False unfolding unlinked_def by blast
qed

lemma fut_inv_set_next:
  assumes inv: "fut_inv W s" and a: "\<And>g. a \<notin> set (W g)"
  shows "fut_inv W (set_next a q s)"
proof (rule fut_invI, goal_cases)
  case (1 f fu)
  then have at: "fut_at f s = Some fu" by simp
  then show ?case using fut_invD(1,2) [OF inv at] a [of f] by (auto simp: fut_ok_def plain_def)
next
  case (2 f)
  then show ?case using fut_invD(3) [OF inv] by simp
next
  case (3 p f)
  then show ?case using fut_invD(4) [OF inv] by simp
next
  case (4 p r f)
  then show ?case using fut_invD(5) [OF inv, of p f r] by simp
next
  case (5 f g)
  then show ?case by (rule fut_invD(6) [OF inv])
qed

lemma exec_await_ok:
  assumes inv: "fut_inv W s" and ok: "fcmd_ok (Await_future f a h) s"
  shows "\<exists>hs s' W'. fut_exec sf cl (Await_future f a h) s = Some (hs, s') \<and> fut_inv W' s'"
proof -
  obtain fu where fu: "fut_at f s = Some fu" "\<not> initialized fu" and a: "proper a" "unlinked a s"
    using ok by auto
  have nin: "a \<notin> set (W g)" for g using unlinked_notin [OF inv a(2)] .
  let ?s = "set_next a 0 s"
  have inv': "fut_inv W ?s" using inv nin by (rule fut_inv_set_next)
  have at: "fut_at f ?s = Some fu" using fu by simp
  have r: "co_await (fut_ops sf) a h fu ?s = Some (if fut_ready fu then (False, fu, ?s)
      else (True, fu\<lparr>f_awaiter := a\<rparr>, set_next a (f_awaiter fu) (set_handle a h ?s)))"
    by (rule co_await_future_result) simp
  show ?thesis
  proof (cases "fut_ready fu")
    case True
    have "upd_fut f (Some fu) ?s = ?s" using at by (simp add: upd_fut_def fut_at_def fun_upd_idem)
    with True r fu inv' show ?thesis by auto
  next
    case False
    then have "pending fu" using fu(2) by (simp add: pending_def fut_ready_def initialized_def)
    from fut_inv_await [OF inv' at this a(1) nin, of h] r fu False show ?thesis by auto
  qed
qed

lemma exec_begin_ok:
  assumes inv: "fut_inv W s"
  shows "fcmd_ok (New_future f) s \<Longrightarrow>
      \<exists>hs s' W'. fut_exec sf cl (New_future f) s = Some (hs, s') \<and> fut_inv W' s'"
    and "fcmd_ok (Start_future f p) s \<Longrightarrow>
      \<exists>hs s' W'. fut_exec sf cl (Start_future f p) s = Some (hs, s') \<and> fut_inv W' s'"
    and "fcmd_ok (Take_promise f p) s \<Longrightarrow> \<not> violates (Take_promise f p) s \<Longrightarrow>
      \<exists>hs s' W'. fut_exec sf cl (Take_promise f p) s = Some (hs, s') \<and> fut_inv W' s'"
    and "fcmd_ok (Destroy_future f) s \<Longrightarrow> \<not> violates (Destroy_future f) s \<Longrightarrow>
      \<exists>hs s' W'. fut_exec sf cl (Destroy_future f) s = Some (hs, s') \<and> fut_inv W' s'"
proof -
  assume ok: "fcmd_ok (New_future f) s"
  then have f: "f \<noteq> 0" "\<And>fu. fut_at f s = Some fu \<Longrightarrow> \<not> pending fu" by auto
  have "fut_ok s [] f fut_default" by (simp add: fut_default_def fut_ok_def pending_def)
  then have "fut_inv W (upd_fut f (Some fut_default) s)"
    by (intro fut_inv_upd_fut [OF inv f(1) fut_inv_no_promise [OF inv f]]) simp_all
  then show "\<exists>hs s' W'. fut_exec sf cl (New_future f) s = Some (hs, s') \<and> fut_inv W' s'" by auto
next
  assume ok: "fcmd_ok (Start_future f p) s"
  then have f: "f \<noteq> 0" "\<And>fu. fut_at f s = Some fu \<Longrightarrow> \<not> pending fu" by auto
  have "fut_inv W (upd_prom p (Some f) (upd_fut f (Some fut_started) s))"
    using fut_inv_begun [OF inv f(1) fut_inv_no_promise [OF inv f]] ok by (simp add: fut_started_def)
  then show "\<exists>hs s' W'. fut_exec sf cl (Start_future f p) s = Some (hs, s') \<and> fut_inv W' s'"
    by (auto simp: fut_construct_def)
next
  assume ok: "fcmd_ok (Take_promise f p) s" "\<not> violates (Take_promise f p) s"
  then obtain fu where fu: "fut_at f s = Some fu" "initialized fu" and p: "prom_at p s = None" by auto
  then have f: "f \<noteq> 0" "\<And>fu. fut_at f s = Some fu \<Longrightarrow> \<not> pending fu"
    using fut_invD(1) [OF inv fu(1)] initialized_not_pending [of fu] by auto
  have "f_state fu = Not_value"
    using fut_invD(2) [OF inv fu(1)] fu(2) initialized_not_pending [of fu] by (simp add: fut_ok_def)
  then have "fut_inv W (upd_prom p (Some f) (upd_fut f (Some (fu\<lparr>f_awaiter := 0\<rparr>)) s))"
    using fut_inv_begun [OF inv f(1) fut_inv_no_promise [OF inv f] p] by simp
  then show "\<exists>hs s' W'. fut_exec sf cl (Take_promise f p) s = Some (hs, s') \<and> fut_inv W' s'"
    using fu by (auto simp: get_promise_def initialized_def)
next
  assume ok: "fcmd_ok (Destroy_future f) s" "\<not> violates (Destroy_future f) s"
  then obtain fu where fu: "fut_at f s = Some fu" by auto
  then have "\<not> pending fu" using fut_invD(2) [OF inv fu] ok(2) by (auto simp: fut_ok_def)
  note fu = fu this
  then have f: "f \<noteq> 0" "\<And>fu. fut_at f s = Some fu \<Longrightarrow> \<not> pending fu"
    using fut_invD(1) [OF inv fu(1)] by auto
  have "fut_inv W (upd_fut f None s)"
    by (intro fut_inv_upd_fut [OF inv f(1) fut_inv_no_promise [OF inv f]]) simp_all
  then show "\<exists>hs s' W'. fut_exec sf cl (Destroy_future f) s = Some (hs, s') \<and> fut_inv W' s'"
    using fu by (auto simp: fut_destroy_def)
qed

lemma exec_promise_ok:
  assumes inv: "fut_inv W s"
  shows "fcmd_ok (Move_promise p q) s \<Longrightarrow>
      \<exists>hs s' W'. fut_exec sf cl (Move_promise p q) s = Some (hs, s') \<and> fut_inv W' s'"
    and "fcmd_ok (Assign_promise p q) s \<Longrightarrow>
      \<exists>hs s' W'. fut_exec sf cl (Assign_promise p q) s = Some (hs, s') \<and> fut_inv W' s'"
    and "fcmd_ok (Set_promise p x) s \<Longrightarrow>
      \<exists>hs s' W'. fut_exec sf cl (Set_promise p x) s = Some (hs, s') \<and> fut_inv W' s'"
    and "fcmd_ok (Drop_promise p) s \<Longrightarrow>
      \<exists>hs s' W'. fut_exec sf cl (Drop_promise p) s = Some (hs, s') \<and> fut_inv W' s'"
    and "fcmd_ok (Destroy_promise p) s \<Longrightarrow>
      \<exists>hs s' W'. fut_exec sf cl (Destroy_promise p) s = Some (hs, s') \<and> fut_inv W' s'"
proof -
  assume ok: "fcmd_ok (Move_promise p q) s"
  then obtain m where q: "prom_at q s = Some m" "prom_at p s = None" by auto
  then have "p \<noteq> q" by auto
  have "fut_inv W (upd_prom p (Some m) (upd_prom q (Some 0) s))"
    using fut_inv_moved [OF inv q(1)] q \<open>p \<noteq> q\<close> by simp
  then show "\<exists>hs s' W'. fut_exec sf cl (Move_promise p q) s = Some (hs, s') \<and> fut_inv W' s'"
    using q by (auto simp: promise_move_def claim_def)
qed (use fut_inv_assign [OF inv, where p = p and q = q and cl = cl] fut_inv_set [OF inv, where p = p and cl = cl and x = x]
    fut_inv_drop [OF inv, where p = p and cl = cl] fut_inv_destroy_promise [OF inv, where p = p and cl = cl] in fastforce)+

lemma fut_exec_violates: "fut_inv W s \<Longrightarrow> fcmd_ok c s \<Longrightarrow> violates c s \<Longrightarrow> fut_exec sf cl c s = None"
proof (cases c)
  case (Destroy_future f)
  moreover assume inv: "fut_inv W s" and ok: "fcmd_ok c s" and v: "violates c s"
  ultimately obtain fu q where fu: "fut_at f s = Some fu" and q: "prom_at q s = Some f" by auto
  have "f \<noteq> 0" using fut_invD(1) [OF inv fu] .
  then have "pending fu" using fut_invD(4) [OF inv q] fu by simp
  then show ?thesis using Destroy_future fu by (simp add: fut_destroy_def)
qed (auto simp: get_promise_def initialized_def)

lemma fut_exec_ok:
  assumes "fut_inv W s" and "fcmd_ok c s" and "\<not> violates c s"
  shows "\<exists>hs s' W'. fut_exec sf cl c s = Some (hs, s') \<and> fut_inv W' s'"
  using assms by (cases c; simp only: exec_begin_ok exec_promise_ok exec_await_ok)

lemma fut_reach_inv: "fut_reach cl s \<Longrightarrow> \<exists>W. fut_inv W s"
proof (induction rule: fut_reach.induct)
  case (fut_start s)
  then have "fut_inv (\<lambda>_. []) s" by (simp add: fut_inv_def fut_at_def prom_at_def)
  then show ?case by blast
next
  case (fut_step s c sf hs s')
  then obtain W where W: "fut_inv W s" by blast
  then have "\<not> violates c s" using fut_exec_violates [OF W fut_step(2), of sf cl] fut_step(3) by auto
  from fut_exec_ok [OF W fut_step(2) this, of sf cl] fut_step(3) show ?case by auto
qed

subsection \<open>Pending futures whose promises another object holds\<close>

text \<open>
  The components that keep promises (queues, the scheduler) rely on this much of the store:
  the futures of \<open>F\<close> are pending, each with the coroutines \<open>W\<close> names and no others.
\<close>

definition awaited :: "(ptr \<Rightarrow> ptr list) \<Rightarrow> ptr set \<Rightarrow> ('v, 'e, 'u) fstore \<Rightarrow> bool" where
  "awaited W F s \<longleftrightarrow>
     (\<forall>f \<in> F. f \<noteq> nullptr \<and> (\<exists>fu. fut_at f s = Some fu \<and> pending fu \<and> f_state fu = Not_value \<and>
        linked (a_next s) (f_awaiter fu) (W f) nullptr \<and> plain s (W f))) \<and>
     (\<forall>f \<in> F. \<forall>g \<in> F. f \<noteq> g \<longrightarrow> set (W f) \<inter> set (W g) = {})"

lemma awaitedE:
  assumes "awaited W F s" and "f \<in> F"
  obtains fu where "f \<noteq> 0" "fut_at f s = Some fu" "pending fu" "f_state fu = Not_value"
    "linked (a_next s) (f_awaiter fu) (W f) 0" "plain s (W f)"
  using assms unfolding awaited_def by blast

lemma awaited_disjoint: "awaited W F s \<Longrightarrow> f \<in> F \<Longrightarrow> g \<in> F \<Longrightarrow> f \<noteq> g \<Longrightarrow> set (W f) \<inter> set (W g) = {}"
  unfolding awaited_def by blast

lemma awaited_cong:
  assumes "awaited W F s" and "\<And>f. f \<in> F \<Longrightarrow> W' f = W f" and "\<And>f. f \<in> F \<Longrightarrow> fut_at f s' = fut_at f s"
    and "\<And>f a. f \<in> F \<Longrightarrow> a \<in> set (W f) \<Longrightarrow> a_next s' a = a_next s a"
    and "\<And>f a. f \<in> F \<Longrightarrow> a \<in> set (W f) \<Longrightarrow> a_fn s' a = a_fn s a"
  shows "awaited W' F s'"
  unfolding awaited_def
proof (intro conjI ballI impI)
  fix f assume f: "f \<in> F"
  from assms(1) f obtain fu where fu: "f \<noteq> 0" "fut_at f s = Some fu" "pending fu" "f_state fu = Not_value"
    "linked (a_next s) (f_awaiter fu) (W f) 0" "plain s (W f)" by (rule awaitedE)
  show "f \<noteq> 0" by (fact fu)
  have "linked (a_next s') (f_awaiter fu) (W f) 0 = linked (a_next s) (f_awaiter fu) (W f) 0"
    using assms(4) f by (intro linked_cong) simp
  with fu f assms(2,3,5) show "\<exists>fu. fut_at f s' = Some fu \<and> pending fu \<and> f_state fu = Not_value \<and>
      linked (a_next s') (f_awaiter fu) (W' f) 0 \<and> plain s' (W' f)"
    by (auto simp: plain_def)
qed (use assms(1,2) awaited_disjoint in fastforce)

lemma awaited_new:
  assumes "awaited W F s" and "f \<notin> F" and "f \<noteq> 0"
  shows "awaited (W(f := [])) (insert f F) (upd_fut f (Some fut_started) s)"
proof -
  have "awaited (W(f := [])) F (upd_fut f (Some fut_started) s)"
    using assms(1) by (rule awaited_cong) (use assms(2) in auto)
  then show ?thesis using assms(3)
    unfolding awaited_def by (auto simp: fut_started_def pending_def plain_def)
qed

lemma awaited_subset: "awaited W F s \<Longrightarrow> G \<subseteq> F \<Longrightarrow> awaited W G s"
  unfolding awaited_def by blast

lemma awaited_call:
  assumes aw: "awaited W F s" and f: "f \<in> F"
  shows "\<exists>s'. promise_call cl f x s = Some (handles_of s (W f), True, s') \<and> fut_at f s' = Some (stored x) \<and>
    awaited W (F - {f}) s' \<and> (\<forall>g. g \<noteq> f \<longrightarrow> fut_at g s' = fut_at g s)"
proof -
  from aw f obtain fu where fu: "f \<noteq> 0" "fut_at f s = Some fu" "pending fu" "f_state fu = Not_value"
    "linked (a_next s) (f_awaiter fu) (W f) 0" "plain s (W f)" by (rule awaitedE)
  let ?s = "resumed (W f) (upd_fut f (Some (stored x)) s)"
  have "awaited W (F - {f}) ?s"
    using awaited_subset [OF aw, of "F - {f}"] by (rule awaited_cong) (use awaited_disjoint [OF aw _ f] in auto)
  with promise_call_result [OF fu(1,2,4-6)] show ?thesis by auto
qed

lemma awaited_await:
  assumes aw: "awaited W F s" and f: "f \<in> F" and a: "proper a" "\<And>g. g \<in> F \<Longrightarrow> a \<notin> set (W g)" "a_next s a = 0"
  shows "\<exists>fu fu' s'. fut_at f s = Some fu \<and> co_await (fut_ops sf) a h fu s = Some (True, fu', s') \<and>
    awaited (W(f := a # W f)) F (upd_fut f (Some fu') s') \<and> (\<forall>g. fut_at g s' = fut_at g s)"
proof -
  from aw f obtain fu where fu: "f \<noteq> 0" "fut_at f s = Some fu" "pending fu" "f_state fu = Not_value"
    "linked (a_next s) (f_awaiter fu) (W f) 0" "plain s (W f)" by (rule awaitedE)
  let ?s = "set_next a (f_awaiter fu) (set_handle a h s)" and ?fu = "fu\<lparr>f_awaiter := a\<rparr>"
  have "\<not> fut_ready fu" using fu(3) by (simp add: fut_ready_def pending_def)
  then have "co_await (fut_ops sf) a h fu s = Some (True, ?fu, ?s)"
    using co_await_future_result [OF a(3), of sf h fu] by simp
  moreover have "awaited (W(f := a # W f)) F (upd_fut f (Some ?fu) ?s)"
    unfolding awaited_def
  proof (intro conjI ballI impI)
    fix g assume g: "g \<in> F"
    from aw g obtain gu where gu: "g \<noteq> 0" "fut_at g s = Some gu" "pending gu" "f_state gu = Not_value"
      "linked (a_next s) (f_awaiter gu) (W g) 0" "plain s (W g)" by (rule awaitedE)
    show "g \<noteq> 0" by (fact gu)
    show "\<exists>fu'. fut_at g (upd_fut f (Some ?fu) ?s) = Some fu' \<and> pending fu' \<and> f_state fu' = Not_value \<and>
        linked (a_next (upd_fut f (Some ?fu) ?s)) (f_awaiter fu') ((W(f := a # W f)) g) 0 \<and>
        plain (upd_fut f (Some ?fu) ?s) ((W(f := a # W f)) g)"
      using a(1) a(2) [OF g] gu fu by (cases "g = f") (auto simp: pending_def plain_def)
  next
    fix g k assume "g \<in> F" "k \<in> F" "g \<noteq> k"
    then show "set ((W(f := a # W f)) g) \<inter> set ((W(f := a # W f)) k) = {}"
      using awaited_disjoint [OF aw, of g k] a(2) by auto
  qed
  ultimately show ?thesis using fu(2) by auto
qed

lemma stored_ready: "fut_ready (stored x)"
  by (simp add: stored_def fut_ready_def split: set_arg.split)

lemma exec_await_ready:
  assumes "fut_at f s = Some (stored x)"
  shows "fut_exec sf cl (Await_future f a h) s = Some ([], set_next a 0 s)"
proof -
  have "upd_fut f (Some (stored x)) (set_next a 0 s) = set_next a 0 s"
    using assms by (simp add: upd_fut_def fut_at_def fun_upd_idem)
  then show ?thesis
    using assms by (simp add: co_await_future_result stored_ready)
qed

lemma awaited_set_next:
  "awaited W F s \<Longrightarrow> (\<And>g. g \<in> F \<Longrightarrow> a \<notin> set (W g)) \<Longrightarrow> awaited W F (set_next a p s)"
  by (rule awaited_cong) auto

lemma awaited_unlinked:
  assumes "awaited W F s" and "unlinked a s" and "g \<in> F"
  shows "a \<notin> set (W g)"
  using assms(1,3) by (rule awaitedE) (use assms(2) in \<open>auto simp: unlinked_def\<close>)

text \<open>The awaiter joins the line of the future, or the coroutine goes on.\<close>

lemma awaited_joins:
  assumes aw: "awaited W F s" and a: "proper a" and nin: "\<And>g. g \<in> F \<Longrightarrow> a \<notin> set (W g)"
    and f: "f \<in> F \<or> (\<exists>x. fut_at f s = Some (stored x))"
  shows "\<exists>s'. fut_exec sf cl (Await_future f a h) s = Some ([], s') \<and>
    awaited (if f \<in> F then W(f := a # W f) else W) F s' \<and> (\<forall>g. g \<notin> F \<longrightarrow> fut_at g s' = fut_at g s)"
proof -
  let ?s = "set_next a 0 s"
  have aw': "awaited W F ?s" using aw nin by (rule awaited_set_next)
  show ?thesis
  proof (cases "f \<in> F")
    case True
    obtain fu fu' s' where r: "fut_at f ?s = Some fu" "co_await (fut_ops sf) a h fu ?s = Some (True, fu', s')"
      "awaited (W(f := a # W f)) F (upd_fut f (Some fu') s')" "\<forall>g. fut_at g s' = fut_at g ?s"
      using awaited_await [OF aw' True a nin, where h = h and sf = sf] by auto
    with True show ?thesis by auto
  next
    case False
    then obtain x where "fut_at f s = Some (stored x)" using f by blast
    with exec_await_ready [of f s x sf cl a h] aw' False show ?thesis by (auto simp del: fut_exec.simps)
  qed
qed

lemma awaited_exec_await:
  assumes aw: "awaited W F s" and a: "proper a" "unlinked a s"
    and f: "f \<in> F \<or> (\<exists>x. fut_at f s = Some (stored x))"
  shows "\<exists>s' W'. fut_exec sf cl (Await_future f a h) s = Some ([], s') \<and> awaited W' F s' \<and>
    (\<forall>g. g \<notin> F \<longrightarrow> fut_at g s' = fut_at g s)"
  using awaited_joins [OF aw a(1) awaited_unlinked [OF aw a(2)] f, of sf cl h] by blast

subsection \<open>Promises with a default value, futures with a callback\<close>

text \<open>
  \<open>promise_with_default\<close>: the default is a member of the object; the destructor sets it
  before the base class drops the promise. The assignment moves \<open>def\<close> to itself.
\<close>

definition pwd_destroy ::
    "('v, 'e, 'u) fworld client_fn \<Rightarrow> ptr \<Rightarrow> 'v \<Rightarrow> ('v, 'e, 'u) fstore \<Rightarrow>
      (handle list \<times> ('v, 'e, 'u) fstore) option" where
  "pwd_destroy cl p def s = do {
     (hs, _, s1) \<leftarrow> promise_set cl p (Arg_value def) s;
     (hs', s2) \<leftarrow> promise_destroy cl p s1;
     Some (hs @ hs', s2) }"

definition pwd_assign ::
    "('v, 'e, 'u) fworld client_fn \<Rightarrow> ptr \<Rightarrow> 'v \<Rightarrow> ptr \<Rightarrow> 'v \<Rightarrow> ('v, 'e, 'u) fstore \<Rightarrow>
      (handle list \<times> 'v \<times> 'v \<times> ('v, 'e, 'u) fstore) option" where
  "pwd_assign cl p def other other_def s =
     (if p \<noteq> other then do {
        (hs, s1) \<leftarrow> promise_assign cl p other s;
        Some (hs, def, other_def, s1) }
      else Some ([], def, other_def, s))"

text \<open>
  The functions that resume the awaiters of this file, as client functions: number 0 is
  the callback of a \<open>future_with_cb\<close> (the user's function, then \<open>delete\<close>), 1 the function
  of \<open>discard\<close> (\<open>delete\<close>), 2 that of a \<open>call_fn_future_awaiter\<close> (the member function of
  the owner, the context), and the others belong to the client.
\<close>

definition cb_wakeup ::
    "(ptr \<Rightarrow> ('v, 'e, 'u) fstore \<Rightarrow> ('v, 'e, 'u) fstore) \<Rightarrow> ptr \<Rightarrow> ('v, 'e, 'u) fstore \<Rightarrow>
      handle list \<times> ('v, 'e, 'u) fstore" where
  "cb_wakeup fn me s = ([], upd_fut me None (fn me s))"

definition discard_fin :: "ptr \<Rightarrow> ('v, 'e, 'u) fstore \<Rightarrow> handle list \<times> ('v, 'e, 'u) fstore" where
  "discard_fin me s = ([], upd_fut me None s)"

definition call_fn_wakeup ::
    "(ptr \<Rightarrow> ptr \<Rightarrow> ('v, 'e, 'u) fstore \<Rightarrow> handle list \<times> ('v, 'e, 'u) fstore) \<Rightarrow> ptr \<Rightarrow> ptr \<Rightarrow>
      ('v, 'e, 'u) fstore \<Rightarrow> handle list \<times> ('v, 'e, 'u) fstore" where
  "call_fn_wakeup fn me owner s = fn owner me s"

definition fut_clients ::
    "(ptr \<Rightarrow> ('v, 'e, 'u) fstore \<Rightarrow> ('v, 'e, 'u) fstore) \<Rightarrow>
      (ptr \<Rightarrow> ptr \<Rightarrow> ('v, 'e, 'u) fstore \<Rightarrow> handle list \<times> ('v, 'e, 'u) fstore) \<Rightarrow>
      ('v, 'e, 'u) fworld client_fn \<Rightarrow> ('v, 'e, 'u) fworld client_fn" where
  "fut_clients cb fn cl k me ctx s =
     (if k = 0 then cb_wakeup cb me s
      else if k = 1 then discard_fin me s
      else if k = 2 then call_fn_wakeup fn me ctx s
      else cl k me ctx s)"

text \<open>
  \<open>make_promise\<close> allocates a \<open>future_with_cb\<close> (at the address \<open>f\<close>), which is the only
  awaiter of its own future, and gives its promise.
\<close>

definition future_with_cb :: "ptr \<Rightarrow> ('v, 'e, 'u) fstore \<Rightarrow> ('v, 'e, 'u) fstore" where
  "future_with_cb f s =
     set_resume_fn f (Fn_client 0) nullptr
       (set_next f nullptr (upd_fut f (Some (fut_default\<lparr>f_awaiter := f\<rparr>)) s))"

definition make_promise :: "ptr \<Rightarrow> ptr \<Rightarrow> ('v, 'e, 'u) fstore \<Rightarrow> ('v, 'e, 'u) fstore" where
  "make_promise f p s = upd_prom p (Some f) (future_with_cb f s)"

text \<open>
  \<open>discard\<close>: an object that holds the future and awaits it; \<open>fn\<close> constructs the future
  there. When the future is resolved already the object is resumed, that is deleted, at once.
\<close>

definition discard ::
    "bool list \<Rightarrow> ('v, 'e, 'u) fworld client_fn \<Rightarrow> (ptr \<Rightarrow> ('v, 'e, 'u) fstore \<Rightarrow> ('v, 'e, 'u) fstore option) \<Rightarrow>
      ptr \<Rightarrow> ('v, 'e, 'u) fstore \<Rightarrow> (handle list \<times> ('v, 'e, 'u) fstore) option" where
  "discard sf cl fn x s = do {
     s1 \<leftarrow> fn x (set_next x nullptr s);
     fu \<leftarrow> fut_at x s1;
     (w, fu', s2) \<leftarrow> fut_subscribe sf x fu (set_resume_fn x (Fn_client 1) nullptr s1);
     let s3 = upd_fut x (Some fu') s2;
     Some (if w then ([], s3) else resume_awaiter cl x s3) }"

text \<open>\<open>call_fn_future_awaiter::operator<<\<close>, for the object at \<open>x\<close> with the owner \<open>o1\<close>.\<close>

definition call_fn_init :: "ptr \<Rightarrow> ptr \<Rightarrow> ('v, 'e, 'u) fstore \<Rightarrow> ('v, 'e, 'u) fstore" where
  "call_fn_init x o1 s =
     set_resume_fn x (Fn_client 2) o1 (set_next x nullptr (upd_fut x (Some fut_default) s))"

definition call_fn_await ::
    "bool list \<Rightarrow> ('v, 'e, 'u) fworld client_fn \<Rightarrow>
      (ptr \<Rightarrow> ('v, 'e, 'u) fstore \<Rightarrow> ('e exc option \<times> ('v, 'e, 'u) fstore) option)
      \<Rightarrow> ptr \<Rightarrow> ptr \<Rightarrow> ('v, 'e, 'u) fstore \<Rightarrow> (handle list \<times> ('v, 'e, 'u) fstore) option" where
  "call_fn_await sf cl xfn x p s = do {
     (hs, s1) \<leftarrow> result_of cl xfn x p s;
     fu \<leftarrow> fut_at x s1;
     (w, fu', s2) \<leftarrow> fut_subscribe sf x fu s1;
     let s3 = upd_fut x (Some fu') s2;
     Some (if w then (hs, s3) else (let (hs', s4) = resume_awaiter cl x s3 in (hs @ hs', s4))) }"

lemma pwd_destroy_pending:
  assumes "prom_at p s = Some f" and "f \<noteq> 0" and "fut_at f s = Some fu" and "f_state fu = Not_value"
    and "linked (a_next s) (f_awaiter fu) ws 0" and "plain s ws"
  shows "pwd_destroy cl p def s = Some (handles_of s ws, settled p None f (stored (Arg_value def)) ws s)"
proof -
  let ?s = "settled p (Some 0) f (stored (Arg_value def)) ws s"
  have "promise_destroy cl p ?s = Some ([], upd_prom p None ?s)"
    by (rule promise_empty_result) (simp add: settled_def)
  moreover have "upd_prom p None ?s = settled p None f (stored (Arg_value def)) ws s"
    by (simp add: settled_def resumed_upd upd_commute) (simp add: upd_prom_def)
  ultimately show ?thesis
    using promise_set_result [OF assms, of cl "Arg_value def"] by (simp add: pwd_destroy_def)
qed

lemma resume_chain_loop_one:
  assumes "proper a" and "a_next w a = 0"
  shows "resume_chain_loop cl a [] w = Some (resume_awaiter cl a w)"
proof -
  have "resume_chain_loop cl 0 ret w' = Some (ret, w')" for ret w' by (subst resume_chain_loop.simps) simp
  then show ?thesis using assms by (subst resume_chain_loop.simps) (simp add: Let_def split_def)
qed

lemma make_promise_set:
  fixes s :: "('v, 'e, 'u) fstore"
  assumes f: "proper f" and p: "p \<noteq> 0"
  defines "s1 \<equiv> make_promise f p s"
  shows "promise_set (fut_clients cb fn cl) p x s1 =
    Some ([], True, upd_fut f None (cb f (upd_fut f (Some (stored x)) (upd_prom p (Some 0) s1))))"
proof -
  let ?fu = "(fut_default :: ('v, 'e) future)\<lparr>f_awaiter := f\<rparr>"
  have s1: "prom_at p s1 = Some f" "fut_at f s1 = Some ?fu" "a_next s1 f = 0" "a_fn s1 f = Fn_client 0"
    by (simp_all add: s1_def make_promise_def future_with_cb_def)
  have "f_state ?fu = Not_value" by (simp add: fut_default_def)
  then obtain fu' where fu': "fut_set x ?fu = Some fu'" "fu'\<lparr>f_awaiter := awaiter_disabled\<rparr> = stored x"
    "f_awaiter fu' = f"
    using fut_set_result [of ?fu x] by auto
  let ?s2 = "upd_fut f (Some (stored x)) (upd_prom p (Some 0) s1)"
  have "a_next ?s2 f = 0" "a_fn ?s2 f = Fn_client 0" using s1 by simp_all
  then have "resume_chain_lk (fut_clients cb fn cl) f ?s2 = Some ([], upd_fut f None (cb f ?s2))"
    using resume_chain_loop_one [of f ?s2] f
    by (simp add: resume_chain_lk_def resume_awaiter_def fut_clients_def cb_wakeup_def)
  then have "fut_resolve (fut_clients cb fn cl) f (upd_fut f (Some fu') (upd_prom p (Some 0) s1)) =
      Some ([], upd_fut f None (cb f ?s2))"
    using fu' by (simp add: fut_resolve_def)
  then show ?thesis using s1 f fu' by (simp add: promise_set_def promise_call_def claim_def)
qed

subsection \<open>Properties\<close>

text \<open>
  Setting a promise resolves its future: the value, reference or exception is what
  \<open>value()\<close> then yields, the suspend point holds the waiting coroutines, each once and the
  newest first, and the promise is used up: a second attempt changes nothing and says so.
\<close>

theorem promise_set_resolves:
  assumes "prom_at p s = Some f" and "f \<noteq> 0" and "fut_at f s = Some fu" and "f_state fu = Not_value"
    and "linked (a_next s) (f_awaiter fu) ws 0" and "plain s ws"
  shows "\<exists>s' fu'. promise_set cl p x s = Some (handles_of s ws, True, s') \<and> fut_at f s' = Some fu' \<and>
    fut_ready fu' \<and> fut_has_value fu' \<and>
    fut_value fu' = Some (case x of Arg_value v \<Rightarrow> Inr (Own v) | Arg_ref r \<Rightarrow> Inr (At r) | Arg_exc e \<Rightarrow> Inl e) \<and>
    (\<forall>a \<in> set ws. a_next s' a = 0) \<and> promise_set cl p y s' = Some ([], False, s')"
proof -
  let ?s = "settled p (Some 0) f (stored x) ws s"
  have "promise_set cl p y ?s = Some ([], False, ?s)"
    by (rule promise_empty_result) (simp add: settled_def)
  then show ?thesis
    using promise_set_result [OF assms, of cl x]
    by (intro exI [of _ ?s] exI [of _ "stored x"])
      (simp add: settled_def stored_def fut_ready_def fut_has_value_def fut_value_def split: set_arg.split)
qed

definition sample_store :: "(nat, unit, unit) fstore" where
  "sample_store = \<lparr>a_next = (\<lambda>_. 0)(20 := 10), a_fn = \<lambda>_. Fn_coro, a_haddr = \<lambda>a. 100 + a, a_flag = \<lambda>_. False,
     client = \<lparr>futs = [50 \<mapsto> \<lparr>f_awaiter = 20, f_state = Not_value, f_slot = Raw\<rparr>], proms = [60 \<mapsto> 50], user = ()\<rparr>\<rparr>"

theorem promise_set_resolves_witness:
  "\<exists>s' fu'. promise_set (\<lambda>_ _ _ w. ([], w)) 60 (Arg_value 7) sample_store = Some ([120, 110], True, s') \<and>
    fut_at 50 s' = Some fu' \<and> fut_value fu' = Some (Inr (Own 7)) \<and>
    promise_set (\<lambda>_ _ _ w. ([], w)) 60 (Arg_value 8) s' = Some ([], False, s')"
  using promise_set_resolves [of 60 sample_store 50 "\<lparr>f_awaiter = 20, f_state = Not_value, f_slot = Raw\<rparr>"
      "[20, 10]" "\<lambda>_ _ _ w. ([], w)" "Arg_value 7" "Arg_value 8"]
  by (auto simp: sample_store_def cocls_store proper_def plain_def handles_of_def)

text \<open>
  C11. However futures and promises are created, moved, assigned, set, dropped, awaited and
  destroyed, an operation fails exactly when the client destroys a future to which a promise
  points, or takes the promise of a future that was started before; these are the assertions of
  the destructor and of \<open>get_promise\<close>. No other operation fails: a future is never set twice, and
  the loop that resumes its awaiters ends.
\<close>

theorem futures_never_fail:
  assumes "fut_reach cl s" and "fcmd_ok c s"
  shows "if violates c s then fut_exec sf cl c s = None
    else \<exists>hs s'. fut_exec sf cl c s = Some (hs, s') \<and> fut_reach cl s'"
proof -
  obtain W where W: "fut_inv W s" using fut_reach_inv [OF assms(1)] by blast
  show ?thesis using fut_exec_violates [OF W assms(2)] fut_exec_ok [OF W assms(2), of sf cl] fut_step [OF assms, of sf] by auto
qed

definition empty_store :: "(nat, unit, unit) fstore" where
  "empty_store = \<lparr>a_next = \<lambda>_. 0, a_fn = \<lambda>_. Fn_coro, a_haddr = \<lambda>_. 0, a_flag = \<lambda>_. False,
     client = \<lparr>futs = Map.empty, proms = Map.empty, user = ()\<rparr>\<rparr>"

lemma started_reach: "fut_reach cl (upd_prom 60 (Some 50) (upd_fut 50 (Some fut_started) empty_store))"
proof -
  have "fut_reach cl empty_store" by (rule fut_start) (simp_all add: empty_store_def)
  then show ?thesis
    by (rule fut_step [where c = "Start_future 50 60" and sf = "[]" and hs = "[]"])
      (simp_all add: fut_construct_def empty_store_def fut_at_def prom_at_def)
qed

theorem futures_never_fail_witness:
  "(\<exists>hs s'. fut_exec [True] (\<lambda>_ _ _ w. ([], w)) (Await_future 50 20 120)
      (upd_prom 60 (Some 50) (upd_fut 50 (Some fut_started) empty_store)) = Some (hs, s') \<and>
      fut_reach (\<lambda>_ _ _ w. ([], w)) s') \<and>
    fut_exec [] (\<lambda>_ _ _ w. ([], w)) (Destroy_future 50)
      (upd_prom 60 (Some 50) (upd_fut 50 (Some fut_started) empty_store)) = None"
proof
  let ?s = "upd_prom 60 (Some 50) (upd_fut 50 (Some fut_started) empty_store)"
  have "fcmd_ok (Await_future 50 20 120) ?s"
    by (auto simp: fut_started_def initialized_def proper_def unlinked_def empty_store_def fut_at_def upd_prom_def
      upd_fut_def linked_not_proper)
  from futures_never_fail [OF started_reach this, of "[True]"]
  show "\<exists>hs s'. fut_exec [True] (\<lambda>_ _ _ w. ([], w)) (Await_future 50 20 120) ?s = Some (hs, s') \<and>
      fut_reach (\<lambda>_ _ _ w. ([], w)) s'" by simp
  have "fcmd_ok (Destroy_future 50) ?s" "violates (Destroy_future 50) ?s" by (auto simp: exI [of _ 60])
  with futures_never_fail [OF started_reach this(1), of "[]"]
  show "fut_exec [] (\<lambda>_ _ _ w. ([], w)) (Destroy_future 50) ?s = None" by simp
qed

text \<open>
  C27. A future is pending exactly as long as a promise points to it, and it is exactly one:
  moving and assigning promises neither loses nor duplicates the right to set the future.
\<close>

theorem future_has_one_promise:
  assumes "fut_reach cl s" and "fut_at f s = Some fu"
  shows "(pending fu \<longleftrightarrow> (\<exists>p. prom_at p s = Some f)) \<and> (pending fu \<longrightarrow> (\<exists>!p. prom_at p s = Some f))"
proof -
  obtain W where W: "fut_inv W s" using fut_reach_inv [OF assms(1)] by blast
  note D = fut_invD [OF W]
  have "f \<noteq> 0" using assms(2) by (rule D(1))
  moreover have "pending fu \<Longrightarrow> \<exists>p. prom_at p s = Some f"
    using D(2) [OF assms(2)] by (simp add: fut_ok_def)
  ultimately show ?thesis using D(4,5) assms(2) by fastforce
qed

theorem future_has_one_promise_witness:
  "\<exists>!p. prom_at p (upd_prom 60 (Some 50) (upd_fut 50 (Some fut_started) empty_store)) = Some 50"
  using future_has_one_promise [OF started_reach [of "\<lambda>_ _ _ w. ([], w)"], of 50 fut_started]
  by (simp add: pending_def fut_started_def)

text \<open>
  C37. Awaiting a future: it suspends exactly while the future is not resolved, and the
  awaiter is then the head of the chain; a future that is resolved between \<open>await_ready\<close> and
  \<open>await_suspend\<close> is noticed, so the coroutine goes on and no wake-up is lost.
\<close>

theorem future_await_refines:
  assumes "fut_rep fu w x" and "proper a" and "a \<notin> (case x of None \<Rightarrow> {} | Some ws \<Rightarrow> set ws)" and "a_next w a = 0"
  shows "(\<exists>fu' w'. co_await (fut_ops sf) a h fu w = Some (x \<noteq> None, fu', w') \<and>
      fut_rep fu' w' (map_option ((#) a) x)) \<and>
    (x = None \<longrightarrow> (\<exists>fu' w'. await_suspend (fut_ops sf) a h fu w = Some (False, fu', w') \<and> fut_rep fu' w' None))"
  using fu.co_await_served [OF assms(1), of sf a h] fu.co_await_waits [OF assms(1), of a sf h]
    fu.await_suspend_late [OF assms(1), of a sf h] assms
  by (cases x) auto

theorem future_await_refines_witness:
  "\<exists>fu' w'. co_await (fut_ops [True, True]) 20 120 fut_started empty_store = Some (True, fu', w') \<and>
      fut_rep (fu' :: (nat, unit) future) w' (Some [20])"
  using future_await_refines [of fut_started empty_store "Some []" 20 "[True, True]" 120]
  by (simp add: fut_rep_def fut_started_def empty_store_def proper_def)

text \<open>
  A promise that is destroyed without being set (a broken promise) resolves its future
  without a value: the awaiters are resumed, \<open>has_value()\<close> is false and \<open>value()\<close> throws
  \<open>await_canceled_exception\<close>. (The comment of \<open>value()\<close> names \<open>value_not_ready_exception\<close>,
  which it throws for a pending future only.)
\<close>

theorem broken_promise_cancels:
  assumes "prom_at p s = Some f" and "f \<noteq> 0" and "fut_at f s = Some fu" and "f_state fu = Not_value"
    and "linked (a_next s) (f_awaiter fu) ws 0" and "plain s ws"
  shows "\<exists>s' fu'. promise_destroy cl p s = Some (handles_of s ws, s') \<and> prom_at p s' = None \<and>
    fut_at f s' = Some fu' \<and> fut_ready fu' \<and> \<not> fut_has_value fu' \<and>
    fut_value fu' = Some (Inl Await_canceled) \<and> fut_value fu = Some (Inl Value_not_ready)"
proof -
  have "pending fu" using linked_null_not_marker [OF assms(5)] by (simp add: pending_def)
  then show ?thesis
    using promise_destroy_result [OF assms(1-3,5,6), of cl] assms(4)
    by (simp add: settled_def fut_ready_def fut_has_value_def fut_value_def pending_def)
qed

theorem broken_promise_cancels_witness:
  "\<exists>s' fu'. promise_destroy (\<lambda>_ _ _ w. ([], w)) 60 sample_store = Some ([120, 110], s') \<and>
    prom_at 60 s' = None \<and> fut_at 50 s' = Some fu' \<and> fut_value fu' = Some (Inl Await_canceled)"
  using broken_promise_cancels [of 60 sample_store 50 "\<lparr>f_awaiter = 20, f_state = Not_value, f_slot = Raw\<rparr>"
      "[20, 10]" "\<lambda>_ _ _ w. ([], w)"]
  by (auto simp: sample_store_def cocls_store proper_def plain_def handles_of_def)

text \<open>
  The promise of \<open>make_promise\<close> calls the callback exactly once, with the future already
  resolved with the value that was set, and deletes the object after it.
\<close>

theorem make_promise_calls_back:
  assumes "proper f" and "p \<noteq> 0"
  shows "promise_set (fut_clients cb fn cl) p x (make_promise f p s) =
    Some ([], True, upd_fut f None (cb f (upd_fut f (Some (stored x)) (upd_prom p (Some 0) (make_promise f p s)))))"
  using assms by (rule make_promise_set)

theorem make_promise_calls_back_witness:
  "map_option (\<lambda>(hs, ok, s). (hs, ok, user (client s), fut_at 50 s))
     (promise_set (fut_clients
         (\<lambda>f s. s\<lparr>client := (client s)\<lparr>user := user (client s) @ [map_option fut_value (fut_at f s)]\<rparr>\<rparr>)
         (\<lambda>_ _ s. ([], s)) (\<lambda>_ _ _ s. ([], s))) 60 (Arg_value (7 :: nat))
       (make_promise 50 60 \<lparr>a_next = \<lambda>_. 0, a_fn = \<lambda>_. Fn_coro, a_haddr = \<lambda>_. 0, a_flag = \<lambda>_. False,
          client = \<lparr>futs = Map.empty, proms = Map.empty, user = ([] :: (unit exc + nat reference) option option list)\<rparr>\<rparr>))
   = Some ([], True, [Some (Some (Inr (Own 7)))], None)"
  by (subst make_promise_calls_back)
    (simp_all add: proper_def stored_def fut_value_def make_promise_def future_with_cb_def cocls_store)

end
