(* ===== verification/Queue.thy ===== *)
theory Queue
  imports Future
begin

section \<open>queue and limited\_queue\<close>

text \<open>
  \<open>queue.h\<close>. A queue of items and a queue of promises of those who wait for an item, both
  template parameters: the interface \<open>container\<close> says what the queue relies on, and the
  three containers of the header (\<open>std_queue<X>\<close>, \<open>std_queue<void>\<close>, \<open>single_item_queue\<close>)
  implement it. Every operation holds the lock while it touches the two containers; a
  promise that was taken out is resolved after the lock is released, when only the
  operation itself knows it, so an operation is one step here. A promise in a container is
  the address of its future. \<open>std_queue<X>\<close> is a list, its size a 64-bit number.
\<close>

subsection \<open>Containers\<close>

record ('x, 'c, 'e) container_ops =
  c_emplace :: "'x \<Rightarrow> 'c \<Rightarrow> 'e exc + 'c"
  c_front :: "'c \<Rightarrow> 'x option"
  c_pop :: "'c \<Rightarrow> 'c option"
  c_empty :: "'c \<Rightarrow> bool"
  c_size :: "'c \<Rightarrow> 64 word"

definition std_queue :: "('x, 'x list, 'e) container_ops" where
  "std_queue = \<lparr>c_emplace = (\<lambda>x c. Inr (c @ [x])),
     c_front = (\<lambda>c. if c = [] then None else Some (hd c)),
     c_pop = (\<lambda>c. if c = [] then None else Some (tl c)),
     c_empty = (\<lambda>c. c = []), c_size = (\<lambda>c. of_nat (length c))\<rparr>"

text \<open>\<open>std_queue<void>\<close> has no \<open>front\<close>: the only value of \<open>void\<close> stands for it.\<close>

definition std_queue_void :: "(unit, 64 word, 'e) container_ops" where
  "std_queue_void = \<lparr>c_emplace = (\<lambda>_ sz. Inr (sz + 1)), c_front = (\<lambda>sz. Some ()),
     c_pop = (\<lambda>sz. Some (max 1 sz - 1)), c_empty = (\<lambda>sz. sz = 0), c_size = (\<lambda>sz. sz)\<rparr>"

definition single_item_queue :: "('x, 'x option, 'e) container_ops" where
  "single_item_queue = \<lparr>c_emplace = (\<lambda>x c. if c \<noteq> None then Inl Runtime_error else Inr (Some x)),
     c_front = (\<lambda>c. c), c_pop = (\<lambda>c. Some None), c_empty = (\<lambda>c. c = None),
     c_size = (\<lambda>c. if c = None then 0 else 1)\<rparr>"

text \<open>The contract: a first-in first-out list \<open>items c\<close>, with room for one more while \<open>room c\<close>.\<close>

locale container =
  fixes ops :: "('x, 'c, 'e) container_ops"
    and items :: "'c \<Rightarrow> 'x list"
    and room :: "'c \<Rightarrow> bool"
  assumes emplace_ok: "room c \<Longrightarrow> \<exists>c'. c_emplace ops x c = Inr c' \<and> items c' = items c @ [x]"
    and front_ok: "items c = x # xs \<Longrightarrow> c_front ops c = Some x"
    and pop_ok: "items c = x # xs \<Longrightarrow> \<exists>c'. c_pop ops c = Some c' \<and> items c' = xs"
    and empty_ok: "c_empty ops c \<longleftrightarrow> items c = []"
    and size_ok: "c_size ops c = of_nat (length (items c))"
begin

lemma size_zero: "length (items c) < 2 ^ 64 \<Longrightarrow> c_size ops c = 0 \<longleftrightarrow> c_empty ops c"
proof -
  assume "length (items c) < 2 ^ 64"
  then have "unat (c_size ops c) = length (items c)"
    by (simp add: size_ok unat_of_nat)
  then show ?thesis by (metis empty_ok length_0_conv unat_eq_zero)
qed

end

interpretation stdq: container std_queue "\<lambda>c. c" "\<lambda>_. True"
  by unfold_locales (auto simp: std_queue_def)

lemma void_pop:
  assumes "(sz :: 64 word) \<noteq> 0"
  shows "replicate (unat (max 1 sz - 1)) () = tl (replicate (unat sz) ())"
proof -
  have "max 1 sz = sz" using assms by (simp add: max_def word_le_nat_alt unat_gt_0 Suc_le_eq)
  then have "unat (max 1 sz - 1) = unat sz - 1" using assms by (metis unat_minus_one)
  then show ?thesis by (cases "unat sz") auto
qed

interpretation voidq: container std_queue_void "\<lambda>sz. replicate (unat sz) ()" "\<lambda>sz. sz \<noteq> - 1"
proof (unfold_locales, goal_cases)
  case (1 c x)
  have "unat (c + 1) = Suc (unat c)"
    using 1 unatSuc [of c] by (metis add.commute eq_neg_iff_add_eq_0)
  then show ?case by (simp add: std_queue_void_def replicate_append_same)
next
  case (3 c x xs)
  then have "c \<noteq> 0" by auto
  with void_pop [of c] 3 show ?case by (simp add: std_queue_void_def)
next
  case (4 c)
  then show ?case by (simp add: std_queue_void_def unat_eq_zero)
qed (simp_all add: std_queue_void_def)

interpretation singleq: container single_item_queue "\<lambda>c. case c of None \<Rightarrow> [] | Some x \<Rightarrow> [x]" "\<lambda>c. c = None"
  by unfold_locales (auto simp: single_item_queue_def split: option.splits)

subsection \<open>queue\<close>

record ('qc, 'cc) queue =
  q_items :: 'qc
  q_awaiters :: 'cc

text \<open>A failed \<open>emplace\<close> throws out of the operation; the queue is as before.\<close>

definition q_push ::
    "('v, 'qc, 'e) container_ops \<Rightarrow> (ptr, 'cc, 'e) container_ops \<Rightarrow> ('v, 'e, 'u) fworld client_fn \<Rightarrow> 'v \<Rightarrow>
      ('qc, 'cc) queue \<Rightarrow> ('v, 'e, 'u) fstore \<Rightarrow>
      (('e exc + handle list \<times> bool) \<times> ('qc, 'cc) queue \<times> ('v, 'e, 'u) fstore) option" where
  "q_push Q A cl x q s =
     (if \<not> c_empty A (q_awaiters q) then do {
        p \<leftarrow> c_front A (q_awaiters q);
        aw \<leftarrow> c_pop A (q_awaiters q);
        (hs, ok, s') \<leftarrow> promise_call cl p (Arg_value x) s;
        Some (Inr (hs, ok), q\<lparr>q_awaiters := aw\<rparr>, s') }
      else
        (case c_emplace Q x (q_items q) of
           Inl e \<Rightarrow> Some (Inl e, q, s)
         | Inr it \<Rightarrow> Some (Inr ([], False), q\<lparr>q_items := it\<rparr>, s)))"

definition q_empty :: "('v, 'qc, 'e) container_ops \<Rightarrow> ('qc, 'cc) queue \<Rightarrow> bool" where
  "q_empty Q q = c_empty Q (q_items q)"

definition q_size :: "('v, 'qc, 'e) container_ops \<Rightarrow> ('qc, 'cc) queue \<Rightarrow> 64 word" where
  "q_size Q q = c_size Q (q_items q)"

text \<open>
  \<open>pop\<close> constructs the future it returns, at the address \<open>f\<close>, with a function that gets
  its promise. If that throws, the future does not come to exist.
\<close>

definition q_pop ::
    "('v, 'qc, 'e) container_ops \<Rightarrow> (ptr, 'cc, 'e) container_ops \<Rightarrow> ('v, 'e, 'u) fworld client_fn \<Rightarrow> ptr \<Rightarrow>
      ('qc, 'cc) queue \<Rightarrow> ('v, 'e, 'u) fstore \<Rightarrow>
      (('e exc + handle list) \<times> ('qc, 'cc) queue \<times> ('v, 'e, 'u) fstore) option" where
  "q_pop Q A cl f q s =
     (let s1 = upd_fut f (Some fut_started) s in
      if c_empty Q (q_items q) then
        (case c_emplace A f (q_awaiters q) of
           Inl e \<Rightarrow> Some (Inl e, q, s)
         | Inr aw \<Rightarrow> Some (Inr [], q\<lparr>q_awaiters := aw\<rparr>, s1))
      else do {
        x \<leftarrow> c_front Q (q_items q);
        (hs, _, s2) \<leftarrow> promise_call cl f (Arg_value x) s1;
        it \<leftarrow> c_pop Q (q_items q);
        Some (Inr hs, q\<lparr>q_items := it\<rparr>, s2) })"

definition q_unblock_pop ::
    "(ptr, 'cc, 'e) container_ops \<Rightarrow> ('v, 'e, 'u) fworld client_fn \<Rightarrow> 'e exc \<Rightarrow>
      ('qc, 'cc) queue \<Rightarrow> ('v, 'e, 'u) fstore \<Rightarrow>
      (handle list \<times> bool \<times> ('qc, 'cc) queue \<times> ('v, 'e, 'u) fstore) option" where
  "q_unblock_pop A cl e q s =
     (if c_empty A (q_awaiters q) then Some ([], False, q, s)
      else do {
        p \<leftarrow> c_front A (q_awaiters q);
        aw \<leftarrow> c_pop A (q_awaiters q);
        (hs, ok, s') \<leftarrow> promise_call cl p (Arg_exc e) s;
        Some (hs, ok, q\<lparr>q_awaiters := aw\<rparr>, s') })"

subsection \<open>The operations over any two containers\<close>

locale queue_parts =
  q: container qops qitems qroom + a: container aops aitems aroom
  for qops :: "('v, 'qc, 'e) container_ops" and qitems qroom
    and aops :: "(ptr, 'cc, 'e) container_ops" and aitems aroom
begin

text \<open>An item goes to the longest waiting consumer, or to the end of the queue.\<close>

lemma push_wakes:
  assumes aw: "awaited W F s" and fs: "aitems (q_awaiters q) = f # fs" and f: "f \<in> F"
  shows "\<exists>q' s'. q_push qops aops cl x q s = Some (Inr (handles_of s (W f), True), q', s') \<and>
    aitems (q_awaiters q') = fs \<and> q_items q' = q_items q \<and> fut_at f s' = Some (stored (Arg_value x)) \<and>
    awaited W (F - {f}) s' \<and> (\<forall>g. g \<noteq> f \<longrightarrow> fut_at g s' = fut_at g s)"
proof -
  obtain c' where "c_pop aops (q_awaiters q) = Some c'" "aitems c' = fs" using a.pop_ok [OF fs] by blast
  moreover have "c_front aops (q_awaiters q) = Some f" "\<not> c_empty aops (q_awaiters q)"
    using a.front_ok [OF fs] a.empty_ok fs by simp_all
  ultimately show ?thesis
    using awaited_call [OF aw f, of cl "Arg_value x"] by (auto simp: q_push_def)
qed

lemma push_stores:
  assumes "aitems (q_awaiters q) = []" and "qroom (q_items q)"
  shows "\<exists>q'. q_push qops aops cl x q s = Some (Inr ([], False), q', s) \<and>
    qitems (q_items q') = qitems (q_items q) @ [x] \<and> q_awaiters q' = q_awaiters q"
  using q.emplace_ok [OF assms(2), of x] a.empty_ok assms(1) by (auto simp: q_push_def)

lemma pop_waits:
  assumes "qitems (q_items q) = []" and "aroom (q_awaiters q)"
  shows "\<exists>q'. q_pop qops aops cl f q s = Some (Inr [], q', upd_fut f (Some fut_started) s) \<and>
    aitems (q_awaiters q') = aitems (q_awaiters q) @ [f] \<and> q_items q' = q_items q"
  using a.emplace_ok [OF assms(2), of f] q.empty_ok assms(1) by (auto simp: q_pop_def)

lemma pop_takes:
  assumes aw: "awaited W F s" and xs: "qitems (q_items q) = x # xs" and f: "f \<notin> F" "f \<noteq> 0"
  shows "\<exists>q' s'. q_pop qops aops cl f q s = Some (Inr [], q', s') \<and>
    qitems (q_items q') = xs \<and> q_awaiters q' = q_awaiters q \<and> fut_at f s' = Some (stored (Arg_value x)) \<and>
    awaited W F s' \<and> (\<forall>g. g \<noteq> f \<longrightarrow> fut_at g s' = fut_at g s)"
proof -
  let ?s = "upd_fut f (Some fut_started) s"
  obtain c' where c': "c_pop qops (q_items q) = Some c'" "qitems c' = xs" using q.pop_ok [OF xs] by blast
  have fr: "c_front qops (q_items q) = Some x" "\<not> c_empty qops (q_items q)"
    using q.front_ok [OF xs] q.empty_ok xs by simp_all
  obtain s' where s': "promise_call cl f (Arg_value x) ?s = Some (handles_of ?s [], True, s')"
    "fut_at f s' = Some (stored (Arg_value x))" "awaited (W(f := [])) (insert f F - {f}) s'"
    "\<forall>g. g \<noteq> f \<longrightarrow> fut_at g s' = fut_at g ?s"
    using awaited_call [OF awaited_new [OF aw f], of f cl "Arg_value x"] by auto
  have "awaited W F s'"
    by (rule awaited_cong [OF s'(3) [unfolded Diff_insert_absorb [OF f(1)]]]) (use f in auto)
  with s' c' fr show ?thesis by (auto simp: q_pop_def handles_of_def)
qed

lemma unblock_wakes:
  assumes aw: "awaited W F s" and fs: "aitems (q_awaiters q) = f # fs" and f: "f \<in> F"
  shows "\<exists>q' s'. q_unblock_pop aops cl e q s = Some (handles_of s (W f), True, q', s') \<and>
    aitems (q_awaiters q') = fs \<and> q_items q' = q_items q \<and> fut_at f s' = Some (stored (Arg_exc e)) \<and>
    awaited W (F - {f}) s' \<and> (\<forall>g. g \<noteq> f \<longrightarrow> fut_at g s' = fut_at g s)"
proof -
  obtain c' where "c_pop aops (q_awaiters q) = Some c'" "aitems c' = fs" using a.pop_ok [OF fs] by blast
  moreover have "c_front aops (q_awaiters q) = Some f" "\<not> c_empty aops (q_awaiters q)"
    using a.front_ok [OF fs] a.empty_ok fs by simp_all
  ultimately show ?thesis
    using awaited_call [OF aw f, of cl "Arg_exc e"] by (auto simp: q_unblock_pop_def)
qed

lemma unblock_nobody:
  "aitems (q_awaiters q) = [] \<Longrightarrow> q_unblock_pop aops cl e q s = Some ([], False, q, s)"
  by (simp add: q_unblock_pop_def a.empty_ok)

end

interpretation std_q: queue_parts std_queue "\<lambda>c. c" "\<lambda>_. True" std_queue "\<lambda>c. c" "\<lambda>_. True"
  by unfold_locales

interpretation single_q: queue_parts std_queue "\<lambda>c. c" "\<lambda>_. True"
    single_item_queue "\<lambda>c. case c of None \<Rightarrow> [] | Some x \<Rightarrow> [x]" "\<lambda>c. c = None"
  by unfold_locales

interpretation void_q: queue_parts std_queue_void "\<lambda>sz. replicate (unat sz) ()" "\<lambda>sz. sz \<noteq> - 1"
    std_queue "\<lambda>c. c" "\<lambda>_. True"
  by unfold_locales

subsection \<open>Runs of a queue\<close>

text \<open>
  Any number of producers and consumers use one queue; \<open>pushed\<close> and \<open>popped\<close> record the
  items that were pushed and the futures that \<open>pop\<close> returned, in the order of the calls.
\<close>

datatype ('v, 'e) qcmd =
    Push 'v
  | Pop ptr
  | Unblock "'e exc"
  | Await_pop ptr ptr handle

record ('v, 'qc, 'cc, 'e, 'u) qsys =
  qu :: "('qc, 'cc) queue"
  qst :: "('v, 'e, 'u) fstore"
  pushed :: "'v list"
  popped :: "ptr list"

fun qcmd_ok ::
    "('v, 'qc, 'e) container_ops \<Rightarrow> (ptr, 'cc, 'e) container_ops \<Rightarrow> ('qc \<Rightarrow> bool) \<Rightarrow> ('cc \<Rightarrow> bool) \<Rightarrow>
      ('v, 'e) qcmd \<Rightarrow> ('v, 'qc, 'cc, 'e, 'u) qsys \<Rightarrow> bool" where
  "qcmd_ok Q A qroom aroom (Push x) s \<longleftrightarrow> \<not> c_empty A (q_awaiters (qu s)) \<or> qroom (q_items (qu s))"
| "qcmd_ok Q A qroom aroom (Pop f) s \<longleftrightarrow>
     f \<noteq> nullptr \<and> f \<notin> set (popped s) \<and> (\<not> c_empty Q (q_items (qu s)) \<or> aroom (q_awaiters (qu s)))"
| "qcmd_ok Q A qroom aroom (Unblock e) s \<longleftrightarrow> True"
| "qcmd_ok Q A qroom aroom (Await_pop f a h) s \<longleftrightarrow> f \<in> set (popped s) \<and> proper a \<and> unlinked a (qst s)"

fun qexec ::
    "('v, 'qc, 'e) container_ops \<Rightarrow> (ptr, 'cc, 'e) container_ops \<Rightarrow> ('v, 'e, 'u) fworld client_fn \<Rightarrow>
      ('v, 'e) qcmd \<Rightarrow> ('v, 'qc, 'cc, 'e, 'u) qsys \<Rightarrow> ('v, 'qc, 'cc, 'e, 'u) qsys option" where
  "qexec Q A cl (Push x) s =
     map_option (\<lambda>(_, q, st). s\<lparr>qu := q, qst := st, pushed := pushed s @ [x]\<rparr>) (q_push Q A cl x (qu s) (qst s))"
| "qexec Q A cl (Pop f) s =
     map_option (\<lambda>(_, q, st). s\<lparr>qu := q, qst := st, popped := popped s @ [f]\<rparr>) (q_pop Q A cl f (qu s) (qst s))"
| "qexec Q A cl (Unblock e) s =
     map_option (\<lambda>(_, _, q, st). s\<lparr>qu := q, qst := st\<rparr>) (q_unblock_pop A cl e (qu s) (qst s))"
| "qexec Q A cl (Await_pop f a h) s =
     map_option (\<lambda>(_, st). s\<lparr>qst := st\<rparr>) (fut_exec [] cl (Await_future f a h) (qst s))"

inductive q_reach ::
    "('v, 'qc, 'e) container_ops \<Rightarrow> (ptr, 'cc, 'e) container_ops \<Rightarrow> ('qc \<Rightarrow> bool) \<Rightarrow> ('cc \<Rightarrow> bool) \<Rightarrow>
      ('v, 'e, 'u) fworld client_fn \<Rightarrow> ('qc, 'cc) queue \<Rightarrow> ('v, 'qc, 'cc, 'e, 'u) qsys \<Rightarrow> bool"
  for Q A qroom aroom cl q0 where
  q_start: "q_reach Q A qroom aroom cl q0 \<lparr>qu = q0, qst = st, pushed = [], popped = []\<rparr>"
| q_step: "q_reach Q A qroom aroom cl q0 s \<Longrightarrow> qcmd_ok Q A qroom aroom c s \<Longrightarrow>
    qexec Q A cl c s = Some s' \<Longrightarrow> q_reach Q A qroom aroom cl q0 s'"

definition vals :: "('v, 'e) set_arg list \<Rightarrow> 'v list" where
  "vals xs = concat (map (\<lambda>x. case x of Arg_value v \<Rightarrow> [v] | _ \<Rightarrow> []) xs)"

lemma vals_simps [simp]:
  "vals [] = []" "vals (xs @ ys) = vals xs @ vals ys" "vals [Arg_value v] = [v]" "vals [Arg_exc e] = []"
  by (simp_all add: vals_def)

text \<open>
  The results \<open>res\<close> of the first futures are settled and the others wait, in the order of
  the calls; the pushed items are those in the results followed by those in the queue.
\<close>

definition q_settled :: "(ptr \<times> ('v, 'e) set_arg) list \<Rightarrow> ('v, 'e, 'u) fstore \<Rightarrow> bool" where
  "q_settled res st \<longleftrightarrow> (\<forall>(f, x) \<in> set res. fut_at f st = Some (stored x))"

definition q_inv ::
    "('qc \<Rightarrow> 'v list) \<Rightarrow> ('cc \<Rightarrow> ptr list) \<Rightarrow> (ptr \<Rightarrow> ptr list) \<Rightarrow> (ptr \<times> ('v, 'e) set_arg) list \<Rightarrow>
      ('v, 'qc, 'cc, 'e, 'u) qsys \<Rightarrow> bool" where
  "q_inv qitems aitems W res s \<longleftrightarrow>
     awaited W (set (aitems (q_awaiters (qu s)))) (qst s) \<and> distinct (map fst res @ aitems (q_awaiters (qu s))) \<and>
     popped s = map fst res @ aitems (q_awaiters (qu s)) \<and> q_settled res (qst s) \<and>
     pushed s = vals (map snd res) @ qitems (q_items (qu s)) \<and>
     (aitems (q_awaiters (qu s)) = [] \<or> qitems (q_items (qu s)) = [])"

lemma q_settled_add:
  assumes "q_settled res st" and "fut_at f st' = Some (stored x)" and "f \<notin> set (map fst res)"
    and "\<forall>g. g \<noteq> f \<longrightarrow> fut_at g st' = fut_at g st"
  shows "q_settled (res @ [(f, x)]) st'"
  using assms by (force simp: q_settled_def)

context queue_parts
begin

lemma inv_push:
  assumes inv: "q_inv qitems aitems W res s" and ok: "qcmd_ok qops aops qroom aroom (Push x) s"
  shows "\<exists>s' res'. qexec qops aops cl (Push x) s = Some s' \<and> q_inv qitems aitems W res' s'"
proof (cases "aitems (q_awaiters (qu s))")
  case Nil
  then have "qroom (q_items (qu s))" using ok a.empty_ok by simp
  from push_stores [OF Nil this, of cl x "qst s"] obtain q' where
    "q_push qops aops cl x (qu s) (qst s) = Some (Inr ([], False), q', qst s)"
    "qitems (q_items q') = qitems (q_items (qu s)) @ [x]" "q_awaiters q' = q_awaiters (qu s)" by blast
  then show ?thesis using inv Nil by (auto simp: q_inv_def intro!: exI [of _ res])
next
  case (Cons f fs)
  then have aw: "awaited W (set (f # fs)) (qst s)" and none: "qitems (q_items (qu s)) = []"
    and p: "distinct (map fst res @ f # fs)"
    using inv by (simp_all add: q_inv_def)
  then have d: "f \<notin> set fs" "f \<notin> set (map fst res)" by simp_all
  obtain q' st where r: "q_push qops aops cl x (qu s) (qst s) = Some (Inr (handles_of (qst s) (W f), True), q', st)"
    "aitems (q_awaiters q') = fs" "q_items q' = q_items (qu s)" "fut_at f st = Some (stored (Arg_value x))"
    "awaited W (set (f # fs) - {f}) st" "\<forall>g. g \<noteq> f \<longrightarrow> fut_at g st = fut_at g (qst s)"
    using push_wakes [OF aw Cons, of cl x] by auto
  have "q_settled (res @ [(f, Arg_value x)]) st"
    by (rule q_settled_add [OF _ r(4) d(2) r(6)]) (use inv in \<open>simp add: q_inv_def\<close>)
  moreover have "set (f # fs) - {f} = set fs" using d(1) by auto
  ultimately have "q_inv qitems aitems W (res @ [(f, Arg_value x)])
      (s\<lparr>qu := q', qst := st, pushed := pushed s @ [x]\<rparr>)"
    using inv r Cons none by (simp add: q_inv_def)
  with r(1) show ?thesis by auto
qed

lemma inv_pop:
  assumes inv: "q_inv qitems aitems W res s" and ok: "qcmd_ok qops aops qroom aroom (Pop f) s"
  shows "\<exists>s' W' res'. qexec qops aops cl (Pop f) s = Some s' \<and> q_inv qitems aitems W' res' s'"
proof (cases "qitems (q_items (qu s))")
  case Nil
  then have room: "aroom (q_awaiters (qu s))" using ok q.empty_ok by simp
  have f: "f \<noteq> 0" "f \<notin> set (map fst res)" "f \<notin> set (aitems (q_awaiters (qu s)))"
    using ok inv by (auto simp: q_inv_def)
  let ?st = "upd_fut f (Some fut_started) (qst s)"
  obtain q' where r: "q_pop qops aops cl f (qu s) (qst s) = Some (Inr [], q', ?st)"
    "aitems (q_awaiters q') = aitems (q_awaiters (qu s)) @ [f]" "q_items q' = q_items (qu s)"
    using pop_waits [OF Nil room, of cl f "qst s"] by blast
  have "awaited (W(f := [])) (set (aitems (q_awaiters q'))) ?st"
    using awaited_new [OF _ f(3,1), of W "qst s"] inv r(2) by (simp add: q_inv_def)
  moreover have "q_settled res ?st" using inv f(2) by (force simp: q_inv_def q_settled_def)
  ultimately have "q_inv qitems aitems (W(f := [])) res (s\<lparr>qu := q', qst := ?st, popped := popped s @ [f]\<rparr>)"
    using inv r f Nil by (simp add: q_inv_def)
  with r(1) show ?thesis by auto
next
  case (Cons x xs)
  then have none: "aitems (q_awaiters (qu s)) = []" using inv by (auto simp: q_inv_def)
  have f: "f \<noteq> 0" "f \<notin> set (map fst res)" using ok inv by (auto simp: q_inv_def)
  have aw: "awaited W {} (qst s)" using inv none by (simp add: q_inv_def)
  obtain q' st where r: "q_pop qops aops cl f (qu s) (qst s) = Some (Inr [], q', st)"
    "qitems (q_items q') = xs" "q_awaiters q' = q_awaiters (qu s)" "fut_at f st = Some (stored (Arg_value x))"
    "awaited W {} st" "\<forall>g. g \<noteq> f \<longrightarrow> fut_at g st = fut_at g (qst s)"
    using pop_takes [OF aw Cons, of f cl] f(1) by auto
  have "q_settled (res @ [(f, Arg_value x)]) st"
    by (rule q_settled_add [OF _ r(4) f(2) r(6)]) (use inv in \<open>simp add: q_inv_def\<close>)
  then have "q_inv qitems aitems W (res @ [(f, Arg_value x)]) (s\<lparr>qu := q', qst := st, popped := popped s @ [f]\<rparr>)"
    using inv r none f Cons by (simp add: q_inv_def)
  with r(1) show ?thesis by auto
qed

lemma inv_unblock:
  assumes inv: "q_inv qitems aitems W res s"
  shows "\<exists>s' res'. qexec qops aops cl (Unblock e) s = Some s' \<and> q_inv qitems aitems W res' s'"
proof (cases "aitems (q_awaiters (qu s))")
  case Nil
  from unblock_nobody [OF this, of cl e "qst s"] have "qexec qops aops cl (Unblock e) s = Some s" by simp
  with inv show ?thesis by blast
next
  case (Cons f fs)
  then have aw: "awaited W (set (f # fs)) (qst s)"
    and p: "distinct (map fst res @ f # fs)"
    using inv by (simp_all add: q_inv_def)
  then have d: "f \<notin> set fs" "f \<notin> set (map fst res)" by simp_all
  obtain q' st where r: "q_unblock_pop aops cl e (qu s) (qst s) = Some (handles_of (qst s) (W f), True, q', st)"
    "aitems (q_awaiters q') = fs" "q_items q' = q_items (qu s)" "fut_at f st = Some (stored (Arg_exc e))"
    "awaited W (set (f # fs) - {f}) st" "\<forall>g. g \<noteq> f \<longrightarrow> fut_at g st = fut_at g (qst s)"
    using unblock_wakes [OF aw Cons, of cl e] by auto
  have "q_settled (res @ [(f, Arg_exc e)]) st"
    by (rule q_settled_add [OF _ r(4) d(2) r(6)]) (use inv in \<open>simp add: q_inv_def\<close>)
  moreover have "set (f # fs) - {f} = set fs" using d(1) by auto
  ultimately have "q_inv qitems aitems W (res @ [(f, Arg_exc e)]) (s\<lparr>qu := q', qst := st\<rparr>)"
    using inv r Cons by (simp add: q_inv_def)
  with r(1) show ?thesis by auto
qed

lemma inv_await:
  assumes inv: "q_inv qitems aitems W res s" and ok: "qcmd_ok qops aops qroom aroom (Await_pop f a h) s"
  shows "\<exists>s' W'. qexec qops aops cl (Await_pop f a h) s = Some s' \<and> q_inv qitems aitems W' res s'"
proof -
  let ?F = "set (aitems (q_awaiters (qu s)))"
  have aw: "awaited W ?F (qst s)" and a: "proper a" "unlinked a (qst s)" and f: "f \<in> set (popped s)"
    using inv ok by (auto simp: q_inv_def)
  have "f \<in> ?F \<or> (\<exists>x. fut_at f (qst s) = Some (stored x))"
    using f inv by (fastforce simp: q_inv_def q_settled_def)
  then obtain st W' where r: "fut_exec [] cl (Await_future f a h) (qst s) = Some ([], st)"
    "awaited W' ?F st" "\<forall>g. g \<notin> ?F \<longrightarrow> fut_at g st = fut_at g (qst s)"
    using awaited_exec_await [OF aw a, where f = f and h = h and cl = cl and sf = "[]"] by blast
  have "set (map fst res) \<inter> ?F = {}" using inv by (simp add: q_inv_def)
  then have "q_settled res st" using inv r(3) by (force simp: q_inv_def q_settled_def)
  then have "q_inv qitems aitems W' res (s\<lparr>qst := st\<rparr>)" using inv r(2) by (simp add: q_inv_def)
  with r(1) show ?thesis by (auto simp del: fut_exec.simps)
qed

lemma inv_step:
  assumes "q_inv qitems aitems W res s" and "qcmd_ok qops aops qroom aroom c s"
  shows "\<exists>s' W' res'. qexec qops aops cl c s = Some s' \<and> q_inv qitems aitems W' res' s'"
proof (cases c)
  case (Push x)
  with inv_push [OF assms(1), of x cl] assms(2) show ?thesis by blast
next
  case (Pop f)
  with inv_pop [OF assms(1), of f cl] assms(2) show ?thesis by blast
next
  case (Unblock e)
  with inv_unblock [OF assms(1), of cl e] show ?thesis by blast
next
  case (Await_pop f a h)
  with inv_await [OF assms(1), of f a h cl] assms(2) show ?thesis by blast
qed

lemma reach_inv:
  assumes "q_reach qops aops qroom aroom cl q0 s" and "qitems (q_items q0) = []" and "aitems (q_awaiters q0) = []"
  shows "\<exists>W res. q_inv qitems aitems W res s"
  using assms
proof (induction rule: q_reach.induct)
  case (q_start st)
  then show ?case by (auto simp: q_inv_def q_settled_def awaited_def intro!: exI [of _ "[]"])
next
  case (q_step s c s')
  then obtain W res where "q_inv qitems aitems W res s" by blast
  from inv_step [OF this q_step.hyps(2), of cl] q_step.hyps(3) show ?case by auto
qed

end

subsection \<open>limited\_queue\<close>

text \<open>
  The store holds the futures of the consumers, with the items \<open>Some v\<close>, and those of the
  producers, which are \<open>future<void>\<close>: their value is \<open>None\<close>. \<open>push\<close> forwards its arguments
  twice: once into the queue and, when the limit is reached, once more into the blocked
  item; \<open>moved v\<close> is what the first time leaves of \<open>v\<close> (\<open>v\<close> itself for an lvalue).
\<close>

record ('qc, 'cc, 'bc) limited_queue = "('qc, 'cc) queue" +
  l_blocked :: 'bc
  l_limit :: "64 word"

definition l_push ::
    "('v option, 'qc, 'e) container_ops \<Rightarrow> (ptr, 'cc, 'e) container_ops \<Rightarrow> ('v \<times> ptr, 'bc, 'e) container_ops \<Rightarrow>
      ('v option, 'e, 'u) fworld client_fn \<Rightarrow> ('v \<Rightarrow> 'v) \<Rightarrow> 'v \<Rightarrow> ptr \<Rightarrow>
      ('qc, 'cc, 'bc) limited_queue \<Rightarrow> ('v option, 'e, 'u) fstore \<Rightarrow>
      (('e exc + handle list) \<times> ('qc, 'cc, 'bc) limited_queue \<times> ('v option, 'e, 'u) fstore) option" where
  "l_push Q A B cl moved x f q s =
     (if \<not> c_empty A (q_awaiters q) then do {
        p \<leftarrow> c_front A (q_awaiters q);
        aw \<leftarrow> c_pop A (q_awaiters q);
        (hs, _, s') \<leftarrow> promise_call cl p (Arg_value (Some x)) s;
        Some (Inr hs, q\<lparr>q_awaiters := aw\<rparr>, upd_fut f (Some (fut_set_value None)) s') }
      else
        (case c_emplace Q (Some x) (q_items q) of
           Inl e \<Rightarrow> Some (Inl e, q, s)
         | Inr it \<Rightarrow>
             (let q1 = q\<lparr>q_items := it\<rparr> in
              if l_limit q1 \<le> c_size Q it then
                (case c_emplace B (moved x, f) (l_blocked q1) of
                   Inl e \<Rightarrow> Some (Inl e, q1, s)
                 | Inr bl \<Rightarrow> Some (Inr [], q1\<lparr>l_blocked := bl\<rparr>, upd_fut f (Some fut_started) s))
              else Some (Inr [], q1, upd_fut f (Some (fut_set_value None)) s))))"

definition l_pop ::
    "('v option, 'qc, 'e) container_ops \<Rightarrow> (ptr, 'cc, 'e) container_ops \<Rightarrow> ('v \<times> ptr, 'bc, 'e) container_ops \<Rightarrow>
      ('v option, 'e, 'u) fworld client_fn \<Rightarrow> ptr \<Rightarrow>
      ('qc, 'cc, 'bc) limited_queue \<Rightarrow> ('v option, 'e, 'u) fstore \<Rightarrow>
      (('e exc + handle list) \<times> ('qc, 'cc, 'bc) limited_queue \<times> ('v option, 'e, 'u) fstore) option" where
  "l_pop Q A B cl f q s =
     (let s1 = upd_fut f (Some fut_started) s in
      if c_empty Q (q_items q) then
        (case c_emplace A f (q_awaiters q) of
           Inl e \<Rightarrow> Some (Inl e, q, s)
         | Inr aw \<Rightarrow> Some (Inr [], q\<lparr>q_awaiters := aw\<rparr>, s1))
      else do {
        x \<leftarrow> c_front Q (q_items q);
        (hs, _, s2) \<leftarrow> promise_call cl f (Arg_value x) s1;
        it \<leftarrow> c_pop Q (q_items q);
        if c_empty B (l_blocked q) then Some (Inr hs, q\<lparr>q_items := it\<rparr>, s2)
        else do {
          (y, p) \<leftarrow> c_front B (l_blocked q);
          bl \<leftarrow> c_pop B (l_blocked q);
          case c_emplace Q (Some y) it of
            Inl e \<Rightarrow> Some (Inl e, q\<lparr>q_items := it\<rparr>, s2)
          | Inr it' \<Rightarrow> do {
              (hs', _, s3) \<leftarrow> promise_call cl p (Arg_value None) s2;
              Some (Inr (hs @ hs'), q\<lparr>q_items := it', l_blocked := bl\<rparr>, s3) } } })"

definition l_unblock_push ::
    "('v \<times> ptr, 'bc, 'e) container_ops \<Rightarrow> ('v option, 'e, 'u) fworld client_fn \<Rightarrow> 'e exc \<Rightarrow>
      ('qc, 'cc, 'bc) limited_queue \<Rightarrow> ('v option, 'e, 'u) fstore \<Rightarrow>
      (handle list \<times> bool \<times> ('qc, 'cc, 'bc) limited_queue \<times> ('v option, 'e, 'u) fstore) option" where
  "l_unblock_push B cl e q s =
     (if c_empty B (l_blocked q) then Some ([], False, q, s)
      else do {
        (_, p) \<leftarrow> c_front B (l_blocked q);
        bl \<leftarrow> c_pop B (l_blocked q);
        (hs, ok, s') \<leftarrow> promise_call cl p (Arg_exc e) s;
        Some (hs, ok, q\<lparr>l_blocked := bl\<rparr>, s') })"

lemma promise_call_started:
  assumes "f \<noteq> 0" and "fut_at f s = Some fut_started"
  shows "promise_call cl f x s = Some ([], True, upd_fut f (Some (stored x)) s)"
proof -
  have "resumed [] (upd_fut f (Some (stored x)) s) = upd_fut f (Some (stored x)) s"
    by (auto intro!: aworld.equality)
  then show ?thesis
    using promise_call_result [of f s fut_started "[]" cl x] assms
    by (simp add: fut_started_def plain_def handles_of_def)
qed

subsection \<open>Properties\<close>

text \<open>
  An item is delivered at once to the consumer that has waited longest: its future
  holds the item and the suspend point holds the coroutines that await it; otherwise the
  item goes to the end of the queue.
\<close>

theorem queue_push_delivers:
  assumes "awaited W (set (q_awaiters q)) s" and "distinct (q_awaiters q)"
  shows "\<exists>hs ok q' s'. q_push std_queue std_queue cl x q s = Some (Inr (hs, ok), q', s') \<and>
    (case q_awaiters q of
       [] \<Rightarrow> \<not> ok \<and> hs = [] \<and> q' = q\<lparr>q_items := q_items q @ [x]\<rparr> \<and> s' = s
     | f # fs \<Rightarrow> ok \<and> hs = handles_of s (W f) \<and> q' = q\<lparr>q_awaiters := fs\<rparr> \<and>
         fut_at f s' = Some (stored (Arg_value x)) \<and> awaited W (set fs) s')"
proof (cases "q_awaiters q")
  case Nil
  then show ?thesis using std_q.push_stores [of q cl x s] by (auto intro: queue.equality)
next
  case (Cons f fs)
  then have "set (q_awaiters q) - {f} = set fs" using assms(2) by auto
  then show ?thesis
    using std_q.push_wakes [OF assms(1) Cons, of cl x] Cons by (fastforce intro: queue.equality)
qed

theorem queue_push_delivers_witness:
  "\<exists>hs ok q' s'. q_push std_queue std_queue (\<lambda>_ _ _ w. ([], w)) 7 \<lparr>q_items = [], q_awaiters = [50, 51]\<rparr>
      (upd_fut 51 (Some fut_started) sample_store) = Some (Inr (hs, ok), q', s') \<and>
    hs = [120, 110] \<and> ok \<and> q_awaiters q' = [51] \<and> fut_at 50 s' = Some (stored (Arg_value 7))"
proof -
  let ?W = "(\<lambda>_. [])(50 := [20, 10])" and ?s = "upd_fut 51 (Some fut_started) sample_store"
  have "awaited ?W (set [50, 51]) ?s"
    by (simp add: awaited_def sample_store_def fut_at_def upd_fut_def fut_started_def pending_def
        awaiter_instance_def awaiter_disabled_def proper_def plain_def)
  from queue_push_delivers [of ?W "\<lparr>q_items = [], q_awaiters = [50, 51]\<rparr>" ?s "\<lambda>_ _ _ w. ([], w)" 7] this
  show ?thesis by (auto simp: handles_of_def sample_store_def upd_fut_def)
qed

text \<open>
  C4. First in, first out, for any mix of producers, consumers, unblocking and awaiting: the
  futures are settled in the order of the \<open>pop\<close> calls, those not settled are the ones that
  wait, and the items in the settled ones followed by the items in the queue are the pushed
  items: nothing is lost, duplicated or reordered, and nobody waits while there is an item.
\<close>

theorem queue_first_in_first_out:
  assumes "q_reach std_queue std_queue (\<lambda>_. True) (\<lambda>_. True) cl \<lparr>q_items = [], q_awaiters = []\<rparr> s"
  shows "\<exists>res. popped s = map fst res @ q_awaiters (qu s) \<and> q_settled res (qst s) \<and>
    pushed s = vals (map snd res) @ q_items (qu s) \<and> (q_awaiters (qu s) = [] \<or> q_items (qu s) = []) \<and>
    (\<forall>f \<in> set (q_awaiters (qu s)). \<exists>fu. fut_at f (qst s) = Some fu \<and> pending fu)"
proof -
  obtain W res where inv: "q_inv (\<lambda>c. c) (\<lambda>c. c) W res s" using std_q.reach_inv [OF assms] by auto
  have "\<exists>fu. fut_at f (qst s) = Some fu \<and> pending fu" if "f \<in> set (q_awaiters (qu s))" for f
    using inv awaitedE [OF _ that] unfolding q_inv_def by metis
  with inv show ?thesis by (auto simp: q_inv_def)
qed

lemma queue_run:
  "q_reach std_queue std_queue (\<lambda>_. True) (\<lambda>_. True) (\<lambda>_ _ _ w. ([], w)) \<lparr>q_items = [], q_awaiters = []\<rparr>
     \<lparr>qu = \<lparr>q_items = [], q_awaiters = [51]\<rparr>,
      qst = upd_fut 51 (Some fut_started) (upd_fut 50 (Some (stored (Arg_value 7))) empty_store),
      pushed = [7], popped = [50, 51]\<rparr>"
proof -
  let ?q = "\<lambda>c. q_reach std_queue std_queue (\<lambda>_. True) (\<lambda>_. True) (\<lambda>_ _ _ w. ([], w)) \<lparr>q_items = [], q_awaiters = []\<rparr> c"
  let ?s0 = "\<lparr>qu = \<lparr>q_items = [], q_awaiters = []\<rparr>, qst = empty_store, pushed = [], popped = []\<rparr>"
  let ?s1 = "\<lparr>qu = \<lparr>q_items = [7], q_awaiters = []\<rparr>, qst = empty_store, pushed = [7], popped = []\<rparr>"
  let ?s2 = "\<lparr>qu = \<lparr>q_items = [], q_awaiters = []\<rparr>, qst = upd_fut 50 (Some (stored (Arg_value 7))) empty_store,
    pushed = [7], popped = [50]\<rparr>"
  have "?q ?s0" by (rule q_start)
  from q_step [OF this, of "Push 7" ?s1] have 1: "?q ?s1" by (simp add: q_push_def std_queue_def)
  from q_step [OF 1, of "Pop 50" ?s2] have 2: "?q ?s2"
    by (simp add: q_pop_def std_queue_def promise_call_started)
  from q_step [OF 2, of "Pop 51"] show ?thesis by (simp add: q_pop_def std_queue_def)
qed

theorem queue_first_in_first_out_witness:
  "\<exists>res. [50, 51] = map fst res @ [51 :: ptr] \<and>
    q_settled res (upd_fut 51 (Some fut_started) (upd_fut 50 (Some (stored (Arg_value 7))) empty_store)) \<and>
    [7] = vals (map snd res) @ []"
  using queue_first_in_first_out [OF queue_run] unfolding qsys.simps queue.simps by blast

text \<open>
  \<open>single_item_queue\<close> as the queue of consumers: a second consumer that has to wait makes
  \<open>pop\<close> throw, and the queue with its one consumer is unchanged (the comment of the class
  speaks of undefined behaviour).
\<close>

theorem single_consumer_limit:
  "q_pop std_queue single_item_queue cl g \<lparr>q_items = [], q_awaiters = Some f\<rparr> s
     = Some (Inl Runtime_error, \<lparr>q_items = [], q_awaiters = Some f\<rparr>, s)"
  by (simp add: q_pop_def std_queue_def single_item_queue_def)

text \<open>
  The limit of \<open>limited_queue\<close> duplicates items: a push that reaches the limit stores the
  item in the queue and once more with the blocked producer, so with the limit 1 one push
  serves two pops with the same item, and the second pop does not wait.
\<close>

theorem limited_queue_duplicates:
  assumes "f \<noteq> 0" and "g1 \<noteq> 0" and "g2 \<noteq> 0" and "distinct [f, g1, g2]"
  shows "\<exists>q1 s1 q2 s2 q3 s3.
    l_push std_queue std_queue std_queue cl (\<lambda>v. v) x f
      \<lparr>q_items = [], q_awaiters = [], l_blocked = [], l_limit = 1\<rparr> s = Some (Inr [], q1, s1) \<and>
    l_pop std_queue std_queue std_queue cl g1 q1 s1 = Some (Inr [], q2, s2) \<and>
    l_pop std_queue std_queue std_queue cl g2 q2 s2 = Some (Inr [], q3, s3) \<and>
    fut_at g1 s3 = Some (stored (Arg_value (Some x))) \<and> fut_at g2 s3 = Some (stored (Arg_value (Some x)))"
proof -
  let ?s1 = "upd_fut f (Some fut_started) s"
  let ?s2 = "upd_fut f (Some (stored (Arg_value None))) (upd_fut g1 (Some (stored (Arg_value (Some x)))) ?s1)"
  let ?q1 = "\<lparr>q_items = [Some x], q_awaiters = [], l_blocked = [(x, f)], l_limit = 1\<rparr>"
  let ?q2 = "\<lparr>q_items = [Some x], q_awaiters = [], l_blocked = [], l_limit = 1\<rparr>"
  have "l_push std_queue std_queue std_queue cl (\<lambda>v. v) x f
      \<lparr>q_items = [], q_awaiters = [], l_blocked = [], l_limit = 1\<rparr> s = Some (Inr [], ?q1, ?s1)"
    by (simp add: l_push_def std_queue_def)
  moreover have "l_pop std_queue std_queue std_queue cl g1 ?q1 ?s1 = Some (Inr [], ?q2, ?s2)"
    using assms by (simp add: l_pop_def std_queue_def promise_call_started)
  moreover have "l_pop std_queue std_queue std_queue cl g2 ?q2 ?s2 =
      Some (Inr [], ?q2\<lparr>q_items := []\<rparr>, upd_fut g2 (Some (stored (Arg_value (Some x)))) ?s2)"
    using assms by (simp add: l_pop_def std_queue_def promise_call_started)
  ultimately show ?thesis using assms(4) by (intro exI conjI) auto
qed

theorem limited_queue_duplicates_witness:
  "\<exists>q1 s1 q2 s2 q3 s3.
    l_push std_queue std_queue std_queue (\<lambda>_ _ _ w. ([], w)) (\<lambda>v. v) (7 :: nat) 50
      \<lparr>q_items = [], q_awaiters = [], l_blocked = [], l_limit = 1\<rparr>
      \<lparr>a_next = \<lambda>_. 0, a_fn = \<lambda>_. Fn_coro, a_haddr = \<lambda>_. 0, a_flag = \<lambda>_. False,
        client = \<lparr>futs = Map.empty :: ptr \<rightharpoonup> (nat option, unit) future, proms = Map.empty, user = ()\<rparr>\<rparr>
      = Some (Inr [], q1, s1) \<and>
    l_pop std_queue std_queue std_queue (\<lambda>_ _ _ w. ([], w)) 51 q1 s1 = Some (Inr [], q2, s2) \<and>
    l_pop std_queue std_queue std_queue (\<lambda>_ _ _ w. ([], w)) 52 q2 s2 = Some (Inr [], q3, s3) \<and>
    fut_at 51 s3 = Some (stored (Arg_value (Some 7))) \<and> fut_at 52 s3 = Some (stored (Arg_value (Some 7)))"
  by (rule limited_queue_duplicates) simp_all

end
