(* ===== verification/Std_Heap.thy ===== *)
theory Std_Heap
  imports Prelude
begin

section \<open>Heaps in a vector: push\_heap and pop\_heap\<close>

text \<open>
  The scheduler keeps its items with \<open>std::push_heap\<close> and \<open>std::pop_heap\<close> in a vector.
  The locale states what the standard promises of the two for a comparison of keys with
  \<open>>\<close>: the first element has the least key, and elements are only permuted. The functions
  below it are a binary heap, the way standard libraries implement them.
\<close>

record 'x heap_ops =
  h_push :: "'x list \<Rightarrow> 'x list"
  h_pop :: "'x list \<Rightarrow> 'x list"

locale std_heap =
  fixes ops :: "'x heap_ops"
    and key :: "'x \<Rightarrow> int"
    and heap :: "'x list \<Rightarrow> bool"
  assumes heap_nil: "heap []"
    and heap_first: "heap xs \<Longrightarrow> x \<in> set xs \<Longrightarrow> key (hd xs) \<le> key x"
    and push_heap: "heap xs \<Longrightarrow> heap (h_push ops (xs @ [x])) \<and> mset (h_push ops (xs @ [x])) = mset (xs @ [x])"
    and pop_heap: "heap xs \<Longrightarrow> xs \<noteq> [] \<Longrightarrow> heap (butlast (h_pop ops xs)) \<and>
      mset (h_pop ops xs) = mset xs \<and> last (h_pop ops xs) = hd xs"
    and heap_same: "heap xs \<Longrightarrow> key x = key (xs ! i) \<Longrightarrow> i < length xs \<Longrightarrow> heap (xs[i := x])"
begin

lemma pop_rest:
  assumes "heap xs" and "xs \<noteq> []"
  shows "heap (butlast (h_pop ops xs))" and "mset (butlast (h_pop ops xs)) = mset xs - {#hd xs#}"
    and "length (butlast (h_pop ops xs)) < length xs"
proof -
  note P = pop_heap [OF assms]
  then show "heap (butlast (h_pop ops xs))" by simp
  have len: "length (h_pop ops xs) = length xs" using P by (metis size_mset)
  then have ne: "h_pop ops xs \<noteq> []" using assms(2) by auto
  then have "mset (h_pop ops xs) = mset (butlast (h_pop ops xs)) + {#last (h_pop ops xs)#}"
    by (metis append_butlast_last_id mset.simps mset_append)
  with P show "mset (butlast (h_pop ops xs)) = mset xs - {#hd xs#}" by (metis add_diff_cancel_right')
  show "length (butlast (h_pop ops xs)) < length xs" using len assms(2) by simp
qed

end

subsection \<open>A binary heap\<close>

definition swap :: "'x list \<Rightarrow> nat \<Rightarrow> nat \<Rightarrow> 'x list" where
  "swap xs i j = xs[i := xs ! j, j := xs ! i]"

fun sift_up :: "('x \<Rightarrow> int) \<Rightarrow> 'x list \<Rightarrow> nat \<Rightarrow> 'x list" where
  "sift_up key xs i =
     (if i = 0 then xs
      else let p = (i - 1) div 2 in
        if key (xs ! i) < key (xs ! p) then sift_up key (swap xs i p) p else xs)"

text \<open>The smaller child of \<open>i\<close> among the first \<open>n\<close> elements, if there is a child.\<close>

definition small_child :: "('x \<Rightarrow> int) \<Rightarrow> 'x list \<Rightarrow> nat \<Rightarrow> nat \<Rightarrow> nat" where
  "small_child key xs n i =
     (if 2 * i + 2 < n \<and> key (xs ! (2 * i + 2)) < key (xs ! (2 * i + 1)) then 2 * i + 2 else 2 * i + 1)"

function sift_down :: "('x \<Rightarrow> int) \<Rightarrow> nat \<Rightarrow> 'x list \<Rightarrow> nat \<Rightarrow> 'x list" where
  "sift_down key n xs i =
     (if n \<le> 2 * i + 1 then xs
      else let c = small_child key xs n i in
        if key (xs ! c) < key (xs ! i) then sift_down key n (swap xs i c) c else xs)"
  by pat_completeness auto
termination
  by (relation "measure (\<lambda>(key, n, xs, i). n - i)") (auto simp: small_child_def)

declare sift_up.simps [simp del] sift_down.simps [simp del]

definition bin_push :: "('x \<Rightarrow> int) \<Rightarrow> 'x list \<Rightarrow> 'x list" where
  "bin_push key xs = sift_up key xs (length xs - 1)"

definition bin_pop :: "('x \<Rightarrow> int) \<Rightarrow> 'x list \<Rightarrow> 'x list" where
  "bin_pop key xs = sift_down key (length xs - 1) (swap xs 0 (length xs - 1)) 0"

definition bin_heap :: "('x \<Rightarrow> int) \<Rightarrow> 'x heap_ops" where
  "bin_heap key = \<lparr>h_push = bin_push key, h_pop = bin_pop key\<rparr>"

text \<open>The first \<open>n\<close> elements form a heap, but for the element \<open>i\<close> that may be too small or too big.\<close>

definition heap_n :: "('x \<Rightarrow> int) \<Rightarrow> 'x list \<Rightarrow> nat \<Rightarrow> bool" where
  "heap_n key xs n \<longleftrightarrow> (\<forall>j. 0 < j \<longrightarrow> j < n \<longrightarrow> key (xs ! ((j - 1) div 2)) \<le> key (xs ! j))"

definition up_ok :: "('x \<Rightarrow> int) \<Rightarrow> 'x list \<Rightarrow> nat \<Rightarrow> bool" where
  "up_ok key xs i \<longleftrightarrow>
     (\<forall>j. 0 < j \<longrightarrow> j < length xs \<longrightarrow> j \<noteq> i \<longrightarrow> key (xs ! ((j - 1) div 2)) \<le> key (xs ! j)) \<and>
     (\<forall>j. 0 < i \<longrightarrow> 0 < j \<longrightarrow> j < length xs \<longrightarrow> (j - 1) div 2 = i \<longrightarrow>
       key (xs ! ((i - 1) div 2)) \<le> key (xs ! j))"

definition down_ok :: "('x \<Rightarrow> int) \<Rightarrow> 'x list \<Rightarrow> nat \<Rightarrow> nat \<Rightarrow> bool" where
  "down_ok key xs n i \<longleftrightarrow>
     (\<forall>j. 0 < j \<longrightarrow> j < n \<longrightarrow> (j - 1) div 2 \<noteq> i \<longrightarrow> key (xs ! ((j - 1) div 2)) \<le> key (xs ! j)) \<and>
     (\<forall>j. 0 < i \<longrightarrow> 0 < j \<longrightarrow> j < n \<longrightarrow> (j - 1) div 2 = i \<longrightarrow>
       key (xs ! ((i - 1) div 2)) \<le> key (xs ! j))"

lemma length_swap [simp]: "length (swap xs i j) = length xs"
  by (simp add: swap_def)

lemma mset_swap_elems [simp]: "i < length xs \<Longrightarrow> j < length xs \<Longrightarrow> mset (swap xs i j) = mset xs"
  unfolding swap_def by (rule mset_swap)

lemma nth_swap:
  "i < length xs \<Longrightarrow> j < length xs \<Longrightarrow> k < length xs \<Longrightarrow>
    swap xs i j ! k = (if k = j then xs ! i else if k = i then xs ! j else xs ! k)"
  by (simp add: swap_def nth_list_update)

lemma parent_less: "0 < (j :: nat) \<Longrightarrow> (j - 1) div 2 < j"
  by linarith

lemma sift_up_ok:
  assumes "up_ok key xs i" and "i < length xs"
  shows "heap_n key (sift_up key xs i) (length xs) \<and> mset (sift_up key xs i) = mset xs"
  using assms
proof (induction key xs i rule: sift_up.induct)
  case (1 key xs i)
  let ?p = "(i - 1) div 2"
  show ?case
  proof (cases "i \<noteq> 0 \<and> key (xs ! i) < key (xs ! ?p)")
    case True
    then have p: "?p < i" "?p < length xs" using 1(3) parent_less [of i] by auto
    have "up_ok key (swap xs i ?p) ?p"
      unfolding up_ok_def
    proof (intro conjI allI impI)
      fix j assume j: "0 < j" "j < length (swap xs i ?p)" "j \<noteq> ?p"
      show "key (swap xs i ?p ! ((j - 1) div 2)) \<le> key (swap xs i ?p ! j)"
      proof (cases "j = i")
        case j': False
        have q: "(j - 1) div 2 < length xs" using parent_less [OF j(1)] j(2) by simp
        have "key (xs ! ((j - 1) div 2)) \<le> key (xs ! j)"
          using 1(2) j j' unfolding up_ok_def by simp
        moreover have "(j - 1) div 2 = i \<Longrightarrow> key (xs ! ?p) \<le> key (xs ! j)"
          using 1(2) j True unfolding up_ok_def by simp
        ultimately show ?thesis using j j' q p True 1(3) by (auto simp: nth_swap)
      qed (use p True 1(3) in \<open>simp add: nth_swap\<close>)
    next
      fix j assume j: "0 < ?p" "0 < j" "j < length (swap xs i ?p)" "(j - 1) div 2 = ?p"
      have pp: "(?p - 1) div 2 < ?p" using j(1) by (rule parent_less)
      then have g: "key (xs ! ((?p - 1) div 2)) \<le> key (xs ! ?p)"
        using 1(2) j(1) p unfolding up_ok_def by simp
      show "key (swap xs i ?p ! ((?p - 1) div 2)) \<le> key (swap xs i ?p ! j)"
      proof (cases "j = i")
        case True
        then show ?thesis using g p pp 1(3) by (simp add: nth_swap)
      next
        case False
        then have "key (xs ! ?p) \<le> key (xs ! j)"
          using 1(2) j unfolding up_ok_def by (metis length_swap)
        moreover have "j \<noteq> ?p" using j parent_less [OF j(2)] by auto
        moreover have "swap xs i ?p ! ((?p - 1) div 2) = xs ! ((?p - 1) div 2)"
          using p(1,2) pp 1(3) by (subst nth_swap) auto
        moreover have "swap xs i ?p ! j = xs ! j"
          using p(1,2) 1(3) j(3) False \<open>j \<noteq> ?p\<close> by (subst nth_swap) auto
        ultimately show ?thesis using order_trans [OF g] by metis
      qed
    qed
    with 1(1) [OF _ refl] True p have
      "heap_n key (sift_up key (swap xs i ?p) ?p) (length xs) \<and> mset (sift_up key (swap xs i ?p) ?p) = mset xs"
      using 1(3) by simp
    with True show ?thesis by (subst (1 2) sift_up.simps) (simp add: Let_def)
  next
    case False
    have "heap_n key xs (length xs)"
      unfolding heap_n_def
    proof (intro allI impI)
      fix j assume "0 < j" "j < length xs"
      then show "key (xs ! ((j - 1) div 2)) \<le> key (xs ! j)"
        using 1(2) False unfolding up_ok_def by (cases "j = i") auto
    qed
    with False show ?thesis by (subst (1 2) sift_up.simps) (auto simp: Let_def)
  qed
qed

lemma small_child_props:
  assumes "2 * i + 1 < n" and c: "c = small_child key xs n i"
  shows "c < n" and "i < c" and "(c - 1) div 2 = i"
    and "\<And>j. 0 < j \<Longrightarrow> j < n \<Longrightarrow> (j - 1) div 2 = i \<Longrightarrow> key (xs ! c) \<le> key (xs ! j)"
proof -
  show "c < n" "i < c" "(c - 1) div 2 = i" using assms(1) by (auto simp: c small_child_def)
  fix j assume j: "0 < j" "j < n" "(j - 1) div 2 = i"
  then have "j = 2 * i + 1 \<or> j = 2 * i + 2" by presburger
  with j(2) show "key (xs ! c) \<le> key (xs ! j)" by (auto simp: c small_child_def)
qed

lemma down_ok_swap:
  assumes ok: "down_ok key xs n i" and n: "n \<le> length xs" "2 * i + 1 < n"
    and c: "c = small_child key xs n i" "key (xs ! c) < key (xs ! i)"
  shows "down_ok key (swap xs i c) n c"
proof -
  note C = small_child_props [OF n(2) c(1)]
  have i: "i < n" "i < length xs" "c < length xs" using n C by auto
  have s: "swap xs i c ! k = (if k = c then xs ! i else if k = i then xs ! c else xs ! k)" if "k < n" for k
    using that n i C by (simp add: nth_swap)
  show ?thesis
    unfolding down_ok_def
  proof (intro conjI allI impI)
    fix j assume j: "0 < j" "j < n" "(j - 1) div 2 \<noteq> c"
    have q: "(j - 1) div 2 < n" using parent_less [OF j(1)] j(2) by simp
    consider "j = c" | "j \<noteq> c" "(j - 1) div 2 = i" | "j = i" "j \<noteq> c" | "j \<noteq> c" "j \<noteq> i" "(j - 1) div 2 \<noteq> i" by blast
    then show "key (swap xs i c ! ((j - 1) div 2)) \<le> key (swap xs i c ! j)"
    proof cases
      case 1
      then show ?thesis using C(2,3) c(2) s [of c] s [of i] C(1) i(1) by simp
    next
      case 2
      then have "key (xs ! c) \<le> key (xs ! j)" using C(4) j by simp
      moreover have "j \<noteq> i" using 2 parent_less [OF j(1)] by auto
      ultimately show ?thesis using 2 s [of j] s [of i] j i C(2) by simp
    next
      case 3
      have "(c - 1) div 2 = i" by (rule C(3))
      then have "key (xs ! ((i - 1) div 2)) \<le> key (xs ! c)"
        using ok j 3 C(1,2) unfolding down_ok_def by force
      moreover have "(i - 1) div 2 \<noteq> i" "(i - 1) div 2 \<noteq> c" using parent_less [of i] 3 j C(2) by auto
      ultimately show ?thesis using 3 s [of i] s [of "(i - 1) div 2"] j q by simp
    next
      case 4
      then have "key (xs ! ((j - 1) div 2)) \<le> key (xs ! j)" using ok j unfolding down_ok_def by simp
      then show ?thesis using 4 s [of j] s [OF q] j by simp
    qed
  next
    fix j assume j: "0 < c" "0 < j" "j < n" "(j - 1) div 2 = c"
    then have "key (xs ! ((j - 1) div 2)) \<le> key (xs ! j)"
      using ok C(2) unfolding down_ok_def by (metis less_irrefl)
    moreover have "j \<noteq> c" "j \<noteq> i" using j parent_less [OF j(2)] C(2) by auto
    ultimately show "key (swap xs i c ! ((c - 1) div 2)) \<le> key (swap xs i c ! j)"
      using j C s [of i] s [of j] i by simp
  qed
qed

lemma sift_down_ok:
  assumes "down_ok key xs n i" and "n \<le> length xs" and "i < n"
  shows "heap_n key (sift_down key n xs i) n \<and> mset (sift_down key n xs i) = mset xs \<and>
    (\<forall>j. n \<le> j \<longrightarrow> sift_down key n xs i ! j = xs ! j)"
  using assms
proof (induction key n xs i rule: sift_down.induct)
  case (1 key n xs i)
  let ?c = "small_child key xs n i"
  show ?case
  proof (cases "2 * i + 1 < n \<and> key (xs ! ?c) < key (xs ! i)")
    case True
    note C = small_child_props [OF conjunct1 [OF True] refl, where key = key and xs = xs]
    have "down_ok key (swap xs i ?c) n ?c" using down_ok_swap [OF 1(2,3)] True by simp
    with 1(1) [OF _ refl] True C 1(3) have
      "heap_n key (sift_down key n (swap xs i ?c) ?c) n \<and> mset (sift_down key n (swap xs i ?c) ?c) = mset (swap xs i ?c) \<and>
        (\<forall>j. n \<le> j \<longrightarrow> sift_down key n (swap xs i ?c) ?c ! j = swap xs i ?c ! j)"
      by simp
    moreover have "\<forall>j. n \<le> j \<longrightarrow> swap xs i ?c ! j = xs ! j"
      using C 1(4) by (auto simp: swap_def)
    moreover have "mset (swap xs i ?c) = mset xs" using C(1) 1(3,4) by (intro mset_swap_elems) auto
    moreover have "sift_down key n xs i = sift_down key n (swap xs i ?c) ?c"
      using True by (subst sift_down.simps) (simp add: Let_def)
    ultimately show ?thesis by simp
  next
    case False
    then have id: "sift_down key n xs i = xs" by (subst sift_down.simps) (auto simp: Let_def)
    have "heap_n key xs n"
      unfolding heap_n_def
    proof (intro allI impI)
      fix j assume j: "0 < j" "j < n"
      show "key (xs ! ((j - 1) div 2)) \<le> key (xs ! j)"
      proof (cases "(j - 1) div 2 = i")
        case True
        then have c: "2 * i + 1 < n" using j by presburger
        with small_child_props(4) [OF c refl j True, where key = key and xs = xs] False True show ?thesis by simp
      next
        case False
        with 1(2) j show ?thesis unfolding down_ok_def by simp
      qed
    qed
    with id show ?thesis by simp
  qed
qed

lemma heap_n_first:
  assumes "heap_n key xs n" and "i < n" and "n \<le> length xs"
  shows "key (xs ! 0) \<le> key (xs ! i)"
  using assms(2)
proof (induction i rule: less_induct)
  case (less i)
  show ?case
  proof (cases "i = 0")
    case False
    then have "(i - 1) div 2 < i" by (intro parent_less) simp
    with less have "key (xs ! 0) \<le> key (xs ! ((i - 1) div 2))" by simp
    also have "\<dots> \<le> key (xs ! i)" using assms(1) less(2) False unfolding heap_n_def by simp
    finally show ?thesis .
  qed simp
qed

lemma bin_push_ok:
  assumes "heap_n key xs (length xs)"
  shows "heap_n key (bin_push key (xs @ [x])) (length (bin_push key (xs @ [x]))) \<and>
    mset (bin_push key (xs @ [x])) = mset (xs @ [x])"
proof -
  let ?xs = "xs @ [x]" and ?i = "length xs"
  have "up_ok key ?xs ?i"
    unfolding up_ok_def
  proof (intro conjI allI impI)
    fix j assume j: "0 < j" "j < length ?xs" "j \<noteq> ?i"
    then have "j < length xs" by simp
    moreover from this have "(j - 1) div 2 < length xs" using parent_less [OF j(1)] by simp
    ultimately show "key (?xs ! ((j - 1) div 2)) \<le> key (?xs ! j)"
      using assms j(1) unfolding heap_n_def by (simp add: nth_append)
  next
    fix j assume "0 < j" "j < length ?xs" "(j - 1) div 2 = ?i"
    then show "key (?xs ! ((?i - 1) div 2)) \<le> key (?xs ! j)" by (simp add: parent_less)
  qed
  from sift_up_ok [OF this] have "heap_n key (sift_up key ?xs ?i) (length ?xs) \<and> mset (sift_up key ?xs ?i) = mset ?xs"
    by simp
  moreover from this have "length (sift_up key ?xs ?i) = length ?xs" by (metis size_mset)
  ultimately show ?thesis by (simp add: bin_push_def)
qed

lemma bin_pop_ok:
  assumes h: "heap_n key xs (length xs)" and ne: "xs \<noteq> []"
  shows "heap_n key (butlast (bin_pop key xs)) (length (butlast (bin_pop key xs))) \<and>
    mset (bin_pop key xs) = mset xs \<and> last (bin_pop key xs) = hd xs"
proof -
  let ?n = "length xs - 1" and ?ys = "swap xs 0 (length xs - 1)"
  let ?zs = "sift_down key ?n ?ys 0"
  have n: "?n < length xs" "0 < length xs" using ne by simp_all
  have ys: "?ys ! k = (if k = ?n then xs ! 0 else if k = 0 then xs ! ?n else xs ! k)" if "k < length xs" for k
    using that n by (simp add: nth_swap)
  have "down_ok key ?ys ?n 0"
    unfolding down_ok_def
  proof (intro conjI allI impI)
    fix j assume j: "0 < j" "j < ?n" "(j - 1) div 2 \<noteq> 0"
    then have "(j - 1) div 2 < ?n" using parent_less [OF j(1)] by simp
    with j h ys [of j] ys [of "(j - 1) div 2"] show "key (?ys ! ((j - 1) div 2)) \<le> key (?ys ! j)"
      unfolding heap_n_def by simp
  qed simp
  moreover have "sift_down key 0 ?ys 0 = ?ys" by (subst sift_down.simps) simp
  moreover have "heap_n key ?ys 0" by (simp add: heap_n_def)
  moreover have "mset ?ys = mset xs" using n by (intro mset_swap_elems) auto
  ultimately have z: "heap_n key ?zs ?n" "mset ?zs = mset xs" "\<forall>j. ?n \<le> j \<longrightarrow> ?zs ! j = ?ys ! j"
    using sift_down_ok [of key ?ys ?n 0] by (cases "?n = 0"; simp)+
  have len: "length ?zs = length xs" using z(2) by (metis size_mset)
  have "last ?zs = ?zs ! ?n" using len ne by (metis last_conv_nth length_0_conv)
  also have "\<dots> = hd xs" using z(3) ys [of ?n] n ne by (simp add: hd_conv_nth)
  finally have "last ?zs = hd xs" .
  moreover have "heap_n key (butlast ?zs) (length (butlast ?zs))"
    unfolding heap_n_def
  proof (intro allI impI)
    fix j assume j: "0 < j" "j < length (butlast ?zs)"
    moreover from this have "(j - 1) div 2 < length (butlast ?zs)" using parent_less [OF j(1)] by simp
    ultimately show "key (butlast ?zs ! ((j - 1) div 2)) \<le> key (butlast ?zs ! j)"
      using z(1) len unfolding heap_n_def by (simp add: nth_butlast)
  qed
  ultimately show ?thesis using z(2) by (simp add: bin_pop_def)
qed

interpretation bin: std_heap "bin_heap key" key "\<lambda>xs. heap_n key xs (length xs)" for key :: "'x \<Rightarrow> int"
proof (unfold_locales, goal_cases)
  case 1
  then show ?case by (simp add: heap_n_def)
next
  case (2 xs x)
  then obtain i where i: "i < length xs" "x = xs ! i" by (auto simp: in_set_conv_nth)
  then have "xs \<noteq> []" by auto
  with heap_n_first [OF 2(1) i(1)] i show ?case by (simp add: hd_conv_nth)
next
  case (3 xs x)
  then show ?case using bin_push_ok [of key xs x] by (simp add: bin_heap_def)
next
  case (4 xs)
  then show ?case using bin_pop_ok [of key xs] by (simp add: bin_heap_def)
next
  case (5 xs x i)
  have "key (xs[i := x] ! j) = key (xs ! j)" if "j < length xs" for j
    using that 5 by (simp add: nth_list_update)
  moreover have "(j - 1) div 2 < length xs" if "0 < j" "j < length xs" for j
    using that parent_less [of j] by simp
  ultimately show ?case using 5(1) by (simp add: heap_n_def)
qed

end
