(* ===== verification/Scheduler.thy ===== *)
theory Scheduler
  imports Future Std_Heap
begin

section \<open>scheduler: futures that resolve at a given time\<close>

text \<open>
  \<open>scheduler.h\<close>. The scheduled items are a heap ordered by time in a vector; cancelling may
  leave an item whose promise was taken away (a tombstone) in it. The operations run under
  the lock; a promise that was cancelled is resolved after it is released, an expired one by the
  worker, which keeps it. A promise is the
  address of its future, a time point a number; \<open>tp_max\<close> is \<open>time_point::max()\<close>. The vector
  algorithms are a parameter \<open>H\<close> (theory \<open>Std_Heap\<close>).
\<close>

subsection \<open>State and operations\<close>

record sch_item =
  i_tp :: int
  i_p :: ptr
  i_ident :: ptr

datatype expired =
    Expired ptr
  | Next_time int

definition tp_max :: int where
  "tp_max = 2 ^ 63 - 1"

text \<open>The first result says whether the sleeping worker is notified.\<close>

definition schedule ::
    "sch_item heap_ops \<Rightarrow> ptr \<Rightarrow> ptr \<Rightarrow> int \<Rightarrow> sch_item list \<Rightarrow> bool \<times> sch_item list" where
  "schedule H idt p tp xs =
     (let ntf = xs = [] \<or> i_tp (xs ! 0) > tp in
      (ntf, h_push H (xs @ [\<lparr>i_tp = tp, i_p = p, i_ident = idt\<rparr>])))"

definition pop_item :: "sch_item heap_ops \<Rightarrow> sch_item list \<Rightarrow> sch_item list" where
  "pop_item H xs = butlast (h_pop H xs)"

text \<open>Moving the promise out of an item leaves an empty promise there.\<close>

definition take_promise :: "nat \<Rightarrow> sch_item list \<Rightarrow> ptr \<times> sch_item list" where
  "take_promise i xs = (i_p (xs ! i), xs[i := (xs ! i)\<lparr>i_p := nullptr\<rparr>])"

partial_function (option) get_expired_lk ::
    "sch_item heap_ops \<Rightarrow> int \<Rightarrow> sch_item list \<Rightarrow> (expired \<times> sch_item list) option" where
  "get_expired_lk H now xs =
     (if xs \<noteq> [] \<and> (i_tp (xs ! 0) \<le> now \<or> i_p (xs ! 0) = nullptr) then
        (let (p, xs1) = take_promise 0 xs; xs2 = pop_item H xs1 in
         if p \<noteq> nullptr then Some (Expired p, xs2) else get_expired_lk H now xs2)
      else if xs = [] then Some (Next_time tp_max, xs)
      else Some (Next_time (i_tp (xs ! 0)), xs))"

text \<open>
  \<open>remove\<close>: the vector is tested for emptiness once, and its first element is read in every
  round of the loop.
\<close>

fun find_ident :: "ptr \<Rightarrow> sch_item list \<Rightarrow> nat option" where
  "find_ident idt [] = None"
| "find_ident idt (x # xs) = (if i_ident x = idt then Some 0 else map_option Suc (find_ident idt xs))"

partial_function (option) remove_loop ::
    "sch_item heap_ops \<Rightarrow> ptr \<Rightarrow> sch_item list \<Rightarrow> (ptr \<times> sch_item list) option" where
  "remove_loop H idt xs =
     (if xs = [] then None
      else if i_ident (xs ! 0) = idt then
        (let (p, xs1) = take_promise 0 xs; xs2 = pop_item H xs1 in
         if p \<noteq> nullptr then Some (p, xs2) else remove_loop H idt xs2)
      else
        (case find_ident idt xs of
           None \<Rightarrow> Some (nullptr, xs)
         | Some i \<Rightarrow> Some (take_promise i xs)))"

definition remove :: "sch_item heap_ops \<Rightarrow> ptr \<Rightarrow> sch_item list \<Rightarrow> (ptr \<times> sch_item list) option" where
  "remove H idt xs = (if xs = [] then Some (nullptr, xs) else remove_loop H idt xs)"

definition sleep_until ::
    "sch_item heap_ops \<Rightarrow> ptr \<Rightarrow> int \<Rightarrow> ptr \<Rightarrow> sch_item list \<Rightarrow> (unit, 'e, 'u) fstore \<Rightarrow>
      bool \<times> sch_item list \<times> (unit, 'e, 'u) fstore" where
  "sleep_until H f tp idt xs s =
     (let (ntf, xs') = schedule H idt f tp xs in (ntf, xs', upd_fut f (Some fut_started) s))"

definition sleep_for ::
    "sch_item heap_ops \<Rightarrow> ptr \<Rightarrow> int \<Rightarrow> int \<Rightarrow> ptr \<Rightarrow> sch_item list \<Rightarrow> (unit, 'e, 'u) fstore \<Rightarrow>
      bool \<times> sch_item list \<times> (unit, 'e, 'u) fstore" where
  "sleep_for H f now dur idt xs s = sleep_until H f (now + dur) idt xs s"

definition cancel_with ::
    "sch_item heap_ops \<Rightarrow> (unit, 'e, 'u) fworld client_fn \<Rightarrow> ptr \<Rightarrow> 'e exc \<Rightarrow> sch_item list \<Rightarrow>
      (unit, 'e, 'u) fstore \<Rightarrow> (handle list \<times> bool \<times> sch_item list \<times> (unit, 'e, 'u) fstore) option" where
  "cancel_with H cl idt e xs s = do {
     (p, xs') \<leftarrow> remove H idt xs;
     if p \<noteq> nullptr then do {
       (hs, _, s') \<leftarrow> promise_call cl p (Arg_exc e) s;
       Some (hs, True, xs', s') }
     else Some ([], False, xs', s) }"

definition cancel ::
    "sch_item heap_ops \<Rightarrow> (unit, 'e, 'u) fworld client_fn \<Rightarrow> ptr \<Rightarrow> sch_item list \<Rightarrow>
      (unit, 'e, 'u) fstore \<Rightarrow> (handle list \<times> bool \<times> sch_item list \<times> (unit, 'e, 'u) fstore) option" where
  "cancel H cl idt xs s = cancel_with H cl idt Await_canceled xs s"

text \<open>
  One round of \<open>worker_coro\<close> after the lock is taken: resolve what has expired, or give the
  time to wait until (the worker waits if its thread can block).
\<close>

definition worker_round ::
    "sch_item heap_ops \<Rightarrow> (unit, 'e, 'u) fworld client_fn \<Rightarrow> int \<Rightarrow> sch_item list \<Rightarrow>
      (unit, 'e, 'u) fstore \<Rightarrow> (handle list \<times> int option \<times> sch_item list \<times> (unit, 'e, 'u) fstore) option" where
  "worker_round H cl now xs s = do {
     (x, xs') \<leftarrow> get_expired_lk H now xs;
     case x of
       Expired p \<Rightarrow> do {
         (hs, _, s') \<leftarrow> promise_call cl p (Arg_value ()) s;
         Some (hs, None, xs', s') }
     | Next_time t \<Rightarrow> Some ([], Some t, xs', s) }"

subsection \<open>What is scheduled\<close>

text \<open>The items that still have their promise; the tombstones do not count.\<close>

definition live :: "sch_item list \<Rightarrow> sch_item multiset" where
  "live xs = filter_mset (\<lambda>x. i_p x \<noteq> nullptr) (mset xs)"

lemma live_iff: "x \<in># live xs \<longleftrightarrow> x \<in> set xs \<and> i_p x \<noteq> 0"
  by (simp add: live_def)

lemma live_take:
  assumes "i < length xs"
  shows "live (snd (take_promise i xs)) =
    (if i_p (xs ! i) = 0 then live xs else live xs - {#xs ! i#})"
proof -
  obtain us vs where us: "xs = us @ (xs ! i) # vs" "length us = i"
    using assms by (metis id_take_nth_drop length_take min.absorb4)
  let ?x = "xs ! i"
  have "snd (take_promise i xs) = us @ ?x\<lparr>i_p := 0\<rparr> # vs"
    using us(2) by (subst us(1)) (simp add: take_promise_def list_update_append nth_append)
  moreover have "live xs = live us + live [?x] + live vs" by (subst us(1)) (simp add: live_def)
  moreover have "live (us @ ?x\<lparr>i_p := 0\<rparr> # vs) = live us + live vs" by (simp add: live_def)
  ultimately show ?thesis by (simp add: live_def)
qed

lemma find_ident_Some: "find_ident idt xs = Some i \<Longrightarrow> i < length xs \<and> i_ident (xs ! i) = idt"
  by (induction xs arbitrary: i) (auto split: if_splits)

lemma find_ident_None: "find_ident idt xs = None \<longleftrightarrow> (\<forall>x \<in> set xs. i_ident x \<noteq> idt)"
  by (induction xs) auto

text \<open>
  What \<open>get_expired\<close> promises: the earliest promise, if its time has come, or the time of the
  earliest one, or \<open>tp_max\<close>.
\<close>

definition earliest :: "int \<Rightarrow> sch_item multiset \<Rightarrow> expired \<Rightarrow> sch_item multiset \<Rightarrow> bool" where
  "earliest now L r L' \<longleftrightarrow>
     (case r of
        Expired p \<Rightarrow> (\<exists>x. x \<in># L \<and> i_p x = p \<and> i_tp x \<le> now \<and> L' = L - {#x#} \<and>
          (\<forall>y. y \<in># L \<longrightarrow> i_tp x \<le> i_tp y))
      | Next_time t \<Rightarrow> L' = L \<and> (\<forall>y. y \<in># L \<longrightarrow> now < i_tp y \<and> t \<le> i_tp y) \<and>
          (L = {#} \<and> t = tp_max \<or> (\<exists>y. y \<in># L \<and> i_tp y = t)))"

text \<open>The vector algorithms with the items' time as the key.\<close>

locale sch_heap = std_heap H i_tp heap for H :: "sch_item heap_ops" and heap
begin

lemma schedule_ok:
  assumes "heap xs" and "p \<noteq> 0"
  shows "heap (snd (schedule H idt p tp xs))"
    and "live (snd (schedule H idt p tp xs)) = add_mset \<lparr>i_tp = tp, i_p = p, i_ident = idt\<rparr> (live xs)"
    and "fst (schedule H idt p tp xs) \<longleftrightarrow> (\<forall>x \<in> set xs. tp < i_tp x)"
proof -
  note P = push_heap [OF assms(1), of "\<lparr>i_tp = tp, i_p = p, i_ident = idt\<rparr>"]
  show "heap (snd (schedule H idt p tp xs))" using P by (simp add: schedule_def)
  show "live (snd (schedule H idt p tp xs)) = add_mset \<lparr>i_tp = tp, i_p = p, i_ident = idt\<rparr> (live xs)"
    using P assms(2) by (simp add: schedule_def live_def)
  show "fst (schedule H idt p tp xs) \<longleftrightarrow> (\<forall>x \<in> set xs. tp < i_tp x)"
    using heap_first [OF assms(1)] by (cases xs) (force simp: schedule_def)+
qed

lemma pop_taken:
  assumes "heap xs" and "xs \<noteq> []"
  defines "ys \<equiv> pop_item H (snd (take_promise 0 xs))"
  shows "heap ys" and "length ys < length xs"
    and "live ys = (if i_p (hd xs) = 0 then live xs else live xs - {#hd xs#})"
    and "set ys \<subseteq> set (tl xs)"
proof -
  let ?zs = "snd (take_promise 0 xs)"
  have zs: "?zs = (hd xs)\<lparr>i_p := 0\<rparr> # tl xs" using assms(2) by (cases xs) (simp_all add: take_promise_def)
  have h: "heap ?zs"
    using heap_same [OF assms(1), of "(hd xs)\<lparr>i_p := 0\<rparr>" 0] assms(2) by (simp add: take_promise_def hd_conv_nth)
  note P = pop_rest [OF h, folded pop_item_def]
  show "heap ys" "length ys < length xs" using P zs assms(2) by (auto simp: ys_def)
  have m: "mset ys = mset (tl xs)" using P(2) zs by (simp add: ys_def)
  then show "set ys \<subseteq> set (tl xs)" by (metis set_mset_mset order_refl)
  show "live ys = (if i_p (hd xs) = 0 then live xs else live xs - {#hd xs#})"
    using m assms(2) by (cases xs) (simp_all add: live_def)
qed

lemma get_expired_ok:
  assumes "heap xs"
  shows "\<exists>r ys. get_expired_lk H now xs = Some (r, ys) \<and> heap ys \<and> earliest now (live xs) r (live ys)"
  using assms
proof (induction "length xs" arbitrary: xs rule: less_induct)
  case less
  show ?case
  proof (cases "xs \<noteq> [] \<and> (i_tp (xs ! 0) \<le> now \<or> i_p (xs ! 0) = 0)")
    case True
    let ?ys = "pop_item H (snd (take_promise 0 xs))"
    have hd: "hd xs = xs ! 0" using True by (simp add: hd_conv_nth)
    note P = pop_taken [OF less.prems conjunct1 [OF True]]
    have p: "fst (take_promise 0 xs) = i_p (hd xs)" by (simp add: take_promise_def hd)
    show ?thesis
    proof (cases "i_p (hd xs) = 0")
      case z: True
      have "get_expired_lk H now xs = get_expired_lk H now ?ys"
        using True z p by (subst get_expired_lk.simps) (simp add: Let_def split_def)
      moreover have "live ?ys = live xs" using P(3) z by simp
      ultimately show ?thesis using less.hyps [OF P(2,1)] by (simp only:)
    next
      case z: False
      have r: "get_expired_lk H now xs = Some (Expired (i_p (hd xs)), ?ys)"
        using True z p by (subst get_expired_lk.simps) (simp add: Let_def split_def)
      have "hd xs \<in># live xs" using True z by (simp add: live_iff)
      moreover have "i_tp (hd xs) \<le> now" using True z hd by simp
      moreover have "\<forall>y. y \<in># live xs \<longrightarrow> i_tp (hd xs) \<le> i_tp y"
        using heap_first [OF less.prems] by (simp add: live_iff)
      ultimately show ?thesis using r P(1,3) z
        by (intro exI [of _ "Expired (i_p (hd xs))"] exI [of _ ?ys]) (auto simp: earliest_def)
    qed
  next
    case False
    show ?thesis
    proof (cases "xs = []")
      case True
      then show ?thesis using less.prems
        by (intro exI [of _ "Next_time tp_max"] exI [of _ xs]) (subst get_expired_lk.simps, simp add: live_def earliest_def)
    next
      case ne: False
      have r: "get_expired_lk H now xs = Some (Next_time (i_tp (hd xs)), xs)"
        using False ne by (subst get_expired_lk.simps) (simp add: hd_conv_nth)
      have "now < i_tp (hd xs)" "hd xs \<in># live xs" using False ne by (simp_all add: hd_conv_nth live_iff)
      moreover have "\<forall>y. y \<in># live xs \<longrightarrow> i_tp (hd xs) \<le> i_tp y"
        using heap_first [OF less.prems] by (simp add: live_iff)
      ultimately show ?thesis using r less.prems
        by (intro exI [of _ "Next_time (i_tp (hd xs))"] exI [of _ xs]) (fastforce simp: earliest_def)
    qed
  qed
qed

text \<open>
  When one item with its promise carries the identifier and no tombstone does, \<open>remove\<close>
  finds it.
\<close>

lemma remove_found:
  assumes h: "heap xs" and x: "x \<in># live xs" "i_ident x = idt" and u: "\<forall>y \<in> set xs. i_ident y = idt \<longrightarrow> y = x"
  shows "\<exists>ys. remove H idt xs = Some (i_p x, ys) \<and> heap ys \<and> live ys = live xs - {#x#}"
proof -
  have ne: "xs \<noteq> []" "i_p x \<noteq> 0" "x \<in> set xs" using x by (auto simp: live_iff)
  have hd: "xs ! 0 = hd xs" using ne by (simp add: hd_conv_nth)
  show ?thesis
  proof (cases "i_ident (hd xs) = idt")
    case True
    then have eq: "hd xs = x" using u ne by simp
    have "remove H idt xs = Some (i_p x, pop_item H (snd (take_promise 0 xs)))"
      using True ne eq hd by (subst remove_def, subst remove_loop.simps) (simp add: take_promise_def Let_def)
    with pop_taken [OF h ne(1)] eq ne show ?thesis by simp
  next
    case False
    then obtain i where i: "find_ident idt xs = Some i"
      using find_ident_None [of idt xs] x(2) ne(3) by (cases "find_ident idt xs") auto
    then have I: "i < length xs" "xs ! i = x" using find_ident_Some [OF i] u by auto
    have "remove H idt xs = Some (take_promise i xs)"
      using False ne hd i by (subst remove_def, subst remove_loop.simps) simp
    moreover have "heap (snd (take_promise i xs))"
      using heap_same [OF h, of "x\<lparr>i_p := 0\<rparr>" i] I by (simp add: take_promise_def)
    moreover have "fst (take_promise i xs) = i_p x" using I by (simp add: take_promise_def)
    ultimately show ?thesis using live_take [OF I(1)] I ne by (intro exI [of _ "snd (take_promise i xs)"]) (cases "take_promise i xs", simp)
  qed
qed

text \<open>Whatever \<open>remove\<close> gives back, it takes at most one item away, one of the identifier.\<close>

lemma remove_loop_takes:
  assumes "heap xs" and "remove_loop H idt xs = Some (p, ys)"
  shows "heap ys \<and> (if p = 0 then live ys = live xs
    else \<exists>x. x \<in># live xs \<and> i_p x = p \<and> i_ident x = idt \<and> live ys = live xs - {#x#})"
  using assms
proof (induction "length xs" arbitrary: xs rule: less_induct)
  case less
  have ne: "xs \<noteq> []" using less.prems(2) by (subst (asm) remove_loop.simps) (auto split: if_splits)
  have hd: "xs ! 0 = hd xs" using ne by (simp add: hd_conv_nth)
  let ?ys = "pop_item H (snd (take_promise 0 xs))"
  note P = pop_taken [OF less.prems(1) ne]
  have t: "take_promise 0 xs = (i_p (hd xs), snd (take_promise 0 xs))" by (simp add: take_promise_def hd)
  consider "i_ident (hd xs) = idt" "i_p (hd xs) = 0" | "i_ident (hd xs) = idt" "i_p (hd xs) \<noteq> 0"
    | "i_ident (hd xs) \<noteq> idt" by blast
  then show ?case
  proof cases
    case 1
    then have "remove_loop H idt ?ys = Some (p, ys)"
      using less.prems(2) ne hd by (subst (asm) remove_loop.simps, subst (asm) t) (simp add: Let_def)
    note ih = less.hyps [OF P(2,1) this]
    have "live ?ys = live xs" using P(3) 1(2) by simp
    with ih show ?thesis by (cases "p = 0") simp_all
  next
    case 2
    then have "p = i_p (hd xs)" "ys = ?ys"
      using less.prems(2) ne hd by (subst (asm) remove_loop.simps, subst (asm) t, simp add: Let_def)+
    moreover have "hd xs \<in># live xs" using ne 2 by (simp add: live_iff)
    ultimately show ?thesis using P(1,3) 2 by auto
  next
    case 3
    show ?thesis
    proof (cases "find_ident idt xs")
      case None
      then have "p = 0" "ys = xs"
        using less.prems(2) ne hd 3 by (subst (asm) remove_loop.simps, simp)+
      then show ?thesis using less.prems(1) by simp
    next
      case (Some i)
      then have r: "take_promise i xs = (p, ys)"
        using less.prems(2) ne hd 3 by (subst (asm) remove_loop.simps) simp
      have i: "i < length xs" "i_ident (xs ! i) = idt" using find_ident_Some [OF Some] by simp_all
      have p: "p = i_p (xs ! i)" "ys = xs[i := (xs ! i)\<lparr>i_p := 0\<rparr>]" using r by (simp_all add: take_promise_def)
      then have "heap ys" using heap_same [OF less.prems(1), of "(xs ! i)\<lparr>i_p := 0\<rparr>" i] i(1) by simp
      moreover have "p \<noteq> 0 \<Longrightarrow> xs ! i \<in># live xs" using i(1) p(1) by (simp add: live_iff)
      ultimately show ?thesis using live_take [OF i(1)] r i p(1) by auto
    qed
  qed
qed

lemma remove_takes:
  assumes "heap xs" and "remove H idt xs = Some (p, ys)"
  shows "heap ys \<and> (if p = 0 then live ys = live xs
    else \<exists>x. x \<in># live xs \<and> i_p x = p \<and> i_ident x = idt \<and> live ys = live xs - {#x#})"
  using assms remove_loop_takes [OF assms(1), of idt p ys] by (auto simp: remove_def split: if_splits)

lemma remove_unknown:
  assumes "\<forall>y \<in> set xs. i_ident y \<noteq> idt"
  shows "remove H idt xs = Some (nullptr, xs)"
proof (cases "xs = []")
  case False
  then have "i_ident (xs ! 0) \<noteq> idt" using assms by simp
  moreover have "find_ident idt xs = None" using assms by (simp add: find_ident_None)
  ultimately show ?thesis using False by (subst remove_def, subst remove_loop.simps) simp
qed (simp add: remove_def)

end

interpretation sch: sch_heap "bin_heap i_tp" "\<lambda>xs. heap_n i_tp xs (length xs)"
  by unfold_locales

subsection \<open>Runs of a scheduler\<close>

text \<open>
  Coroutines sleep, await their sleep and cancel others while worker rounds happen at
  non-decreasing times (\<open>clock\<close> is the last one); \<open>slept\<close> records the futures of
  \<open>sleep_until\<close> with their times.
\<close>

datatype 'e scmd =
    Sleep ptr int ptr
  | Await_sleep ptr ptr handle
  | Cancel ptr "'e exc"
  | Round int

record ('e, 'u) sched =
  sitems :: "sch_item list"
  sst :: "(unit, 'e, 'u) fstore"
  clock :: int
  slept :: "(ptr \<times> int) list"

fun scmd_ok :: "'e scmd \<Rightarrow> ('e, 'u) sched \<Rightarrow> bool" where
  "scmd_ok (Sleep f tp idt) s \<longleftrightarrow> f \<noteq> nullptr \<and> f \<notin> fst ` set (slept s)"
| "scmd_ok (Await_sleep f a h) s \<longleftrightarrow> f \<in> fst ` set (slept s) \<and> proper a \<and> unlinked a (sst s)"
| "scmd_ok (Cancel idt e) s \<longleftrightarrow> True"
| "scmd_ok (Round now) s \<longleftrightarrow> clock s \<le> now"

fun sexec ::
    "sch_item heap_ops \<Rightarrow> (unit, 'e, 'u) fworld client_fn \<Rightarrow> 'e scmd \<Rightarrow> ('e, 'u) sched \<Rightarrow> ('e, 'u) sched option" where
  "sexec H cl (Sleep f tp idt) s =
     (let (_, xs, st) = sleep_until H f tp idt (sitems s) (sst s) in
      Some (s\<lparr>sitems := xs, sst := st, slept := slept s @ [(f, tp)]\<rparr>))"
| "sexec H cl (Await_sleep f a h) s =
     map_option (\<lambda>(_, st). s\<lparr>sst := st\<rparr>) (fut_exec [] cl (Await_future f a h) (sst s))"
| "sexec H cl (Cancel idt e) s =
     map_option (\<lambda>(_, _, xs, st). s\<lparr>sitems := xs, sst := st\<rparr>) (cancel_with H cl idt e (sitems s) (sst s))"
| "sexec H cl (Round now) s =
     map_option (\<lambda>(_, _, xs, st). s\<lparr>sitems := xs, sst := st, clock := now\<rparr>) (worker_round H cl now (sitems s) (sst s))"

inductive sched_reach ::
    "sch_item heap_ops \<Rightarrow> (unit, 'e, 'u) fworld client_fn \<Rightarrow> ('e, 'u) sched \<Rightarrow> bool" for H cl where
  sched_start: "sched_reach H cl \<lparr>sitems = [], sst = st, clock = c, slept = []\<rparr>"
| sched_step: "sched_reach H cl s \<Longrightarrow> scmd_ok c s \<Longrightarrow> sexec H cl c s = Some s' \<Longrightarrow> sched_reach H cl s'"

text \<open>The futures that still wait, and what each sleep has come to.\<close>

definition sleepers :: "sch_item list \<Rightarrow> ptr set" where
  "sleepers xs = i_p ` set_mset (live xs)"

definition sleep_state :: "('e, 'u) sched \<Rightarrow> ptr \<times> int \<Rightarrow> bool" where
  "sleep_state s p \<longleftrightarrow>
     (\<exists>x. x \<in># live (sitems s) \<and> i_p x = fst p \<and> i_tp x = snd p) \<or>
     (fut_at (fst p) (sst s) = Some (stored (Arg_value ())) \<and> snd p \<le> clock s) \<or>
     (\<exists>e. fut_at (fst p) (sst s) = Some (stored (Arg_exc e)))"

definition one_each :: "sch_item multiset \<Rightarrow> bool" where
  "one_each L \<longleftrightarrow> (\<forall>x y. x \<in># L \<longrightarrow> y \<in># L - {#x#} \<longrightarrow> i_p x \<noteq> i_p y)"

definition sched_inv :: "(sch_item list \<Rightarrow> bool) \<Rightarrow> (ptr \<Rightarrow> ptr list) \<Rightarrow> ('e, 'u) sched \<Rightarrow> bool" where
  "sched_inv heap W s \<longleftrightarrow>
     heap (sitems s) \<and> awaited W (sleepers (sitems s)) (sst s) \<and> one_each (live (sitems s)) \<and>
     sleepers (sitems s) \<subseteq> fst ` set (slept s) \<and> (\<forall>p \<in> set (slept s). sleep_state s p)"

lemma one_each_remove: "one_each L \<Longrightarrow> one_each (L - {#x#})"
  unfolding one_each_def by (metis diff_right_commute in_diffD)

lemma one_each_eq: "one_each L \<Longrightarrow> x \<in># L \<Longrightarrow> y \<in># L \<Longrightarrow> i_p x = i_p y \<Longrightarrow> x = y"
  unfolding one_each_def by (metis in_diff_neq)

lemma one_each_add:
  assumes "one_each L" and new: "i_p x \<notin> i_p ` set_mset L"
  shows "one_each (add_mset x L)"
  unfolding one_each_def
proof (intro allI impI)
  fix y z assume y: "y \<in># add_mset x L" and z: "z \<in># add_mset x L - {#y#}"
  show "i_p y \<noteq> i_p z"
  proof (cases "y = x")
    case True
    then have "z \<in># L" using z by simp
    with True new show ?thesis by auto
  next
    case False
    then have yL: "y \<in># L" using y by simp
    from False z have "z = x \<or> z \<in># L - {#y#}" by (simp add: diff_add_mset_swap)
    moreover have "i_p y \<noteq> i_p x" using yL new by (metis image_eqI)
    ultimately show ?thesis using yL assms(1) unfolding one_each_def by auto
  qed
qed

lemma sleepers_remove:
  assumes "one_each (live xs)" and "x \<in># live xs" and "live ys = live xs - {#x#}"
  shows "sleepers ys \<subseteq> sleepers xs - {i_p x}"
  using assms unfolding sleepers_def one_each_def by (auto dest: in_diffD) metis

text \<open>One sleeper leaves the queue and its future is settled.\<close>

lemma sched_settle:
  fixes s :: "('e, 'u) sched"
  assumes inv: "sched_inv heap W s" and x: "x \<in># live (sitems s)" and h: "heap ys"
    and l: "live ys = live (sitems s) - {#x#}" and c: "clock s \<le> c"
    and r: "(\<exists>e. r = Arg_exc e) \<or> r = Arg_value () \<and> i_tp x \<le> c"
  shows "\<exists>hs st. promise_call cl (i_p x) r (sst s) = Some (hs, True, st) \<and>
    sched_inv heap W (s\<lparr>sitems := ys, sst := st, clock := c\<rparr>)"
proof -
  have one: "one_each (live (sitems s))" and aw: "awaited W (sleepers (sitems s)) (sst s)"
    using inv by (simp_all add: sched_inv_def)
  have xin: "i_p x \<in> sleepers (sitems s)" using x by (simp add: sleepers_def)
  obtain st where st: "promise_call cl (i_p x) r (sst s) = Some (handles_of (sst s) (W (i_p x)), True, st)"
    "fut_at (i_p x) st = Some (stored r)" "awaited W (sleepers (sitems s) - {i_p x}) st"
    "\<forall>g. g \<noteq> i_p x \<longrightarrow> fut_at g st = fut_at g (sst s)"
    using awaited_call [OF aw xin, of cl r] by blast
  note sub = sleepers_remove [OF one x l]
  let ?s = "s\<lparr>sitems := ys, sst := st, clock := c\<rparr>"
  have "sleep_state ?s p" if p: "p \<in> set (slept s)" for p
  proof -
    have old: "sleep_state s p" using inv p by (simp add: sched_inv_def)
    show ?thesis
    proof (cases "fst p = i_p x")
      case False
      have "y \<in># live ys" if "y \<in># live (sitems s)" "i_p y = fst p" for y
        using that False l by (metis in_diff_neq)
      with old st(4) False c show ?thesis unfolding sleep_state_def by fastforce
    next
      case True
      from aw xin obtain fu where "fut_at (i_p x) (sst s) = Some fu" "pending fu" by (rule awaitedE)
      then have "fut_at (i_p x) (sst s) \<noteq> Some (stored q)" for q
        using stored_ready [of q] by (auto simp: pending_def fut_ready_def)
      with old True obtain y where "y \<in># live (sitems s)" "i_p y = i_p x" "i_tp y = snd p"
        unfolding sleep_state_def by auto
      then have "i_tp x = snd p" using one_each_eq [OF one x] by metis
      then show ?thesis using r st(2) True unfolding sleep_state_def by auto
    qed
  qed
  moreover have "awaited W (sleepers ys) st" using awaited_subset [OF st(3) sub] .
  moreover have "one_each (live ys)" using one_each_remove [OF one] l by simp
  moreover have "sleepers ys \<subseteq> fst ` set (slept s)" using inv sub by (auto simp: sched_inv_def)
  ultimately have "sched_inv heap W ?s" using h by (simp add: sched_inv_def)
  with st(1) show ?thesis by blast
qed

context sch_heap
begin

lemma inv_sleep_new:
  assumes inv: "sched_inv heap W s" and ok: "scmd_ok (Sleep f tp idt) s"
  shows "\<exists>s'. sexec H cl (Sleep f tp idt) s = Some s' \<and> sched_inv heap (W(f := [])) s' \<and>
    sleepers (sitems s') = insert f (sleepers (sitems s)) \<and> slept s' = slept s @ [(f, tp)] \<and> clock s' = clock s"
proof -
  have f: "f \<noteq> 0" "f \<notin> fst ` set (slept s)" "f \<notin> sleepers (sitems s)"
    using ok inv by (auto simp: sched_inv_def)
  obtain ntf xs where sc: "schedule H idt f tp (sitems s) = (ntf, xs)" by (metis surj_pair)
  have h: "heap (sitems s)" using inv by (simp add: sched_inv_def)
  note S = schedule_ok [OF h f(1), of idt tp, unfolded sc, simplified]
  let ?st = "upd_fut f (Some fut_started) (sst s)"
  let ?s = "s\<lparr>sitems := xs, sst := ?st, slept := slept s @ [(f, tp)]\<rparr>"
  have sl: "sleepers xs = insert f (sleepers (sitems s))" using S(2) by (simp add: sleepers_def)
  have "sleep_state ?s p" if "p \<in> set (slept s)" for p
  proof -
    have "fst p \<noteq> f" using that f(2) by auto
    moreover have "sleep_state s p" using inv that by (simp add: sched_inv_def)
    ultimately show ?thesis using S(2) unfolding sleep_state_def by auto
  qed
  moreover have "sleep_state ?s (f, tp)" using S(2) unfolding sleep_state_def by auto
  moreover have "awaited (W(f := [])) (sleepers xs) ?st"
    using awaited_new [OF _ f(3,1), of W "sst s"] inv sl by (simp add: sched_inv_def)
  moreover have "one_each (live xs)"
    using one_each_add [of "live (sitems s)" "\<lparr>i_tp = tp, i_p = f, i_ident = idt\<rparr>"] inv S(2) f(3)
    by (simp add: sched_inv_def sleepers_def)
  ultimately have "sched_inv heap (W(f := [])) ?s" using S(1) inv sl by (auto simp: sched_inv_def)
  with sc sl show ?thesis by (auto simp: sleep_until_def)
qed

lemma inv_sleep:
  assumes "sched_inv heap W s" and "scmd_ok (Sleep f tp idt) s"
  shows "\<exists>s' W'. sexec H cl (Sleep f tp idt) s = Some s' \<and> sched_inv heap W' s'"
  using inv_sleep_new [OF assms, of cl] by blast

lemma inv_await_joins:
  assumes inv: "sched_inv heap W s" and f: "f \<in> fst ` set (slept s)" and a: "proper a"
    and nin: "\<And>g. g \<in> sleepers (sitems s) \<Longrightarrow> a \<notin> set (W g)"
  shows "\<exists>s' W'. sexec H cl (Await_sleep f a h) s = Some s' \<and> sched_inv heap W' s' \<and>
    W' = (if f \<in> sleepers (sitems s) then W(f := a # W f) else W) \<and>
    sitems s' = sitems s \<and> slept s' = slept s \<and> clock s' = clock s"
proof -
  let ?F = "sleepers (sitems s)" and ?W = "if f \<in> sleepers (sitems s) then W(f := a # W f) else W"
  have aw: "awaited W ?F (sst s)" using inv by (auto simp: sched_inv_def)
  obtain tp where "(f, tp) \<in> set (slept s)" using f by auto
  then have "sleep_state s (f, tp)" using inv unfolding sched_inv_def by blast
  then have "f \<in> ?F \<or> (\<exists>x. fut_at f (sst s) = Some (stored x))" unfolding sleep_state_def sleepers_def by auto
  then obtain st where r: "fut_exec [] cl (Await_future f a h) (sst s) = Some ([], st)"
    "awaited ?W ?F st" "\<forall>g. g \<notin> ?F \<longrightarrow> fut_at g st = fut_at g (sst s)"
    using awaited_joins [OF aw a nin, where f = f and h = h and cl = cl and sf = "[]"] by blast
  have "sleep_state (s\<lparr>sst := st\<rparr>) p" if "p \<in> set (slept s)" for p
  proof (cases "fst p \<in> ?F")
    case False
    have "sleep_state s p" using inv that by (simp add: sched_inv_def)
    with r(3) False show ?thesis unfolding sleep_state_def by auto
  next
    case True
    from aw True obtain fu where "fut_at (fst p) (sst s) = Some fu" "pending fu" by (rule awaitedE)
    then have "fut_at (fst p) (sst s) \<noteq> Some (stored q)" for q
      using stored_ready [of q] by (auto simp: pending_def fut_ready_def)
    moreover have "sleep_state s p" using inv that by (simp add: sched_inv_def)
    ultimately show ?thesis unfolding sleep_state_def by auto
  qed
  then have "sched_inv heap ?W (s\<lparr>sst := st\<rparr>)" using inv r(2) by (simp add: sched_inv_def)
  with r(1) show ?thesis by (auto simp del: fut_exec.simps)
qed

lemma inv_await_sleep:
  assumes inv: "sched_inv heap W s" and ok: "scmd_ok (Await_sleep f a h) s"
  shows "\<exists>s' W'. sexec H cl (Await_sleep f a h) s = Some s' \<and> sched_inv heap W' s'"
proof -
  have "awaited W (sleepers (sitems s)) (sst s)" using inv by (simp add: sched_inv_def)
  with ok inv_await_joins [OF inv, of f a cl h] awaited_unlinked show ?thesis
    unfolding scmd_ok.simps by blast
qed

lemma inv_same_live:
  assumes "sched_inv heap W s" and "heap ys" and "live ys = live (sitems s)" and "clock s \<le> c"
  shows "sched_inv heap W (s\<lparr>sitems := ys, clock := c\<rparr>)"
proof -
  have "sleep_state (s\<lparr>sitems := ys, clock := c\<rparr>) p" if "sleep_state s p" for p
    using that assms(3,4) unfolding sleep_state_def by auto
  then show ?thesis using assms by (simp add: sched_inv_def sleepers_def)
qed

lemma inv_cancel:
  assumes inv: "sched_inv heap W s" and r: "remove H idt (sitems s) = Some (p, ys)"
  shows "\<exists>s'. sexec H cl (Cancel idt e) s = Some s' \<and> sched_inv heap W s'"
proof -
  have h: "heap (sitems s)" using inv by (simp add: sched_inv_def)
  note R = remove_takes [OF h r]
  show ?thesis
  proof (cases "p = 0")
    case True
    have "sched_inv heap W (s\<lparr>sitems := ys, clock := clock s\<rparr>)"
      by (rule inv_same_live [OF inv]) (use R True in simp_all)
    with r True show ?thesis by (simp add: cancel_with_def)
  next
    case False
    then obtain x where x: "x \<in># live (sitems s)" "i_p x = p" "live ys = live (sitems s) - {#x#}"
      using R by auto
    then obtain hs st where "promise_call cl p (Arg_exc e) (sst s) = Some (hs, True, st)"
      "sched_inv heap W (s\<lparr>sitems := ys, sst := st, clock := clock s\<rparr>)"
      using sched_settle [OF inv x(1) _ x(3), of "clock s" "Arg_exc e" cl] R by auto
    with r False show ?thesis by (simp add: cancel_with_def)
  qed
qed

lemma inv_round:
  assumes inv: "sched_inv heap W s" and ok: "clock s \<le> now"
  shows "\<exists>s'. sexec H cl (Round now) s = Some s' \<and> sched_inv heap W s'"
proof -
  have h: "heap (sitems s)" using inv by (simp add: sched_inv_def)
  obtain r ys where r: "get_expired_lk H now (sitems s) = Some (r, ys)" "heap ys"
    "earliest now (live (sitems s)) r (live ys)"
    using get_expired_ok [OF h] by blast
  show ?thesis
  proof (cases r)
    case (Expired p)
    then obtain x where x: "x \<in># live (sitems s)" "i_p x = p" "i_tp x \<le> now" "live ys = live (sitems s) - {#x#}"
      using r(3) by (auto simp: earliest_def)
    then obtain hs st where "promise_call cl p (Arg_value ()) (sst s) = Some (hs, True, st)"
      "sched_inv heap W (s\<lparr>sitems := ys, sst := st, clock := now\<rparr>)"
      using sched_settle [OF inv x(1) r(2) x(4) ok, of "Arg_value ()" cl] by auto
    with r(1) Expired show ?thesis by (simp add: worker_round_def)
  next
    case (Next_time t)
    then have "sched_inv heap W (s\<lparr>sitems := ys, clock := now\<rparr>)"
      using inv_same_live [OF inv r(2) _ ok] r(3) by (simp add: earliest_def)
    with r(1) Next_time show ?thesis by (simp add: worker_round_def)
  qed
qed

lemma inv_reach:
  assumes "sched_reach H cl s"
  shows "\<exists>W. sched_inv heap W s"
  using assms
proof induction
  case (sched_start st c)
  have "sched_inv heap (\<lambda>_. []) \<lparr>sitems = [], sst = st, clock = c, slept = []\<rparr>"
    using heap_nil by (simp add: sched_inv_def live_def sleepers_def awaited_def one_each_def)
  then show ?case by blast
next
  case (sched_step s c s')
  then obtain W where W: "sched_inv heap W s" by blast
  show ?case
  proof (cases c)
    case (Sleep f tp idt)
    with inv_sleep [OF W, of f tp idt cl] sched_step.hyps show ?thesis by auto
  next
    case (Await_sleep f a h)
    with inv_await_sleep [OF W, of f a h cl] sched_step.hyps show ?thesis by (auto simp del: sexec.simps)
  next
    case (Cancel idt e)
    then obtain p ys where "remove H idt (sitems s) = Some (p, ys)"
      using sched_step.hyps(3) by (cases "remove H idt (sitems s)") (auto simp: cancel_with_def)
    from inv_cancel [OF W this, of cl e] Cancel sched_step.hyps show ?thesis by (auto simp del: sexec.simps)
  next
    case (Round now)
    with inv_round [OF W, of now cl] sched_step.hyps show ?thesis by (auto simp del: sexec.simps)
  qed
qed

end

subsection \<open>Who waits\<close>

lemma sexec_slept:
  assumes "sexec H cl c s = Some s'"
  shows "slept s' = (case c of Sleep f tp idt \<Rightarrow> slept s @ [(f, tp)] | _ \<Rightarrow> slept s)"
    and "clock s' = (case c of Round now \<Rightarrow> now | _ \<Rightarrow> clock s)"
  using assms by (cases c; auto simp: Let_def split: prod.splits)+

lemma sleepers_mono: "live ys \<subseteq># live xs \<Longrightarrow> sleepers ys \<subseteq> sleepers xs"
  unfolding sleepers_def by (intro image_mono set_mset_mono)

text \<open>The handles in the lines of the futures that still wait.\<close>

definition waiting :: "(ptr \<Rightarrow> ptr list) \<Rightarrow> ('e, 'u) sched \<Rightarrow> handle set" where
  "waiting W s = (\<Union>f \<in> sleepers (sitems s). a_haddr (sst s) ` set (W f))"

fun joins :: "'e scmd \<Rightarrow> handle set" where
  "joins (Await_sleep f a h) = {h}"
| "joins _ = {}"

lemma awaited_call_handles:
  assumes aw: "awaited W F s" and f: "f \<in> F" and r: "promise_call cl f x s = Some (hs, b, s')"
  shows "hs = handles_of s (W f) \<and> a_haddr s' = a_haddr s"
proof -
  from aw f obtain fu where "f \<noteq> 0" "fut_at f s = Some fu" "pending fu" "f_state fu = Not_value"
    "linked (a_next s) (f_awaiter fu) (W f) 0" "plain s (W f)" by (rule awaitedE)
  with promise_call_result [of f s fu "W f" cl x] r show ?thesis by simp
qed

lemma await_handles:
  assumes "fut_exec sf cl (Await_future f a h) s = Some (hs, s')" and "fut_at f s = Some fu"
  shows "a_haddr s' = (if fut_ready fu then a_haddr s else (a_haddr s)(a := h))"
  using assms co_await_future_result [of "set_next a 0 s" a sf h fu] by (auto split: if_splits)

context sch_heap
begin

lemma sexec_sleepers:
  assumes inv: "sched_inv heap W s" and ex: "sexec H cl c s = Some s'"
    and c: "(\<exists>idt e. c = Cancel idt e) \<or> (\<exists>now. c = Round now \<and> clock s \<le> now)"
  shows "sched_inv heap W s' \<and> sleepers (sitems s') \<subseteq> sleepers (sitems s)"
proof -
  have h: "heap (sitems s)" using inv by (simp add: sched_inv_def)
  from c show ?thesis
  proof (elim disjE exE conjE)
    fix idt e assume c: "c = Cancel idt e"
    then obtain p ys where r: "remove H idt (sitems s) = Some (p, ys)"
      using ex by (cases "remove H idt (sitems s)") (auto simp: cancel_with_def)
    have "sitems s' = ys" using ex c r by (auto simp: cancel_with_def bind_eq_Some_conv split: if_splits prod.splits)
    moreover have "sleepers ys \<subseteq> sleepers (sitems s)"
      using remove_takes [OF h r] by (intro sleepers_mono) (auto split: if_splits)
    ultimately show ?thesis using inv_cancel [OF inv r, of cl e] c ex by (auto simp del: sexec.simps)
  next
    fix now assume c: "c = Round now" "clock s \<le> now"
    obtain r ys where r: "get_expired_lk H now (sitems s) = Some (r, ys)" "earliest now (live (sitems s)) r (live ys)"
      using get_expired_ok [OF h] by blast
    have "sitems s' = ys" using ex c r by (auto simp: worker_round_def bind_eq_Some_conv split: expired.splits prod.splits)
    moreover have "sleepers ys \<subseteq> sleepers (sitems s)"
      using r(2) by (intro sleepers_mono) (auto simp: earliest_def split: expired.splits)
    ultimately show ?thesis using inv_round [OF inv c(2), of cl] c ex by (auto simp del: sexec.simps)
  qed
qed

text \<open>A command adds at most its own coroutine; a round resumes none but those that wait.\<close>

lemma round_handles:
  assumes inv: "sched_inv heap W s" and r: "worker_round H cl now (sitems s) (sst s) = Some (hs, wt, xs, st)"
  shows "set hs \<subseteq> waiting W s \<and> a_haddr st = a_haddr (sst s)"
proof -
  have h: "heap (sitems s)" and aw: "awaited W (sleepers (sitems s)) (sst s)" using inv by (simp_all add: sched_inv_def)
  obtain x ys where x: "get_expired_lk H now (sitems s) = Some (x, ys)" "earliest now (live (sitems s)) x (live ys)"
    using get_expired_ok [OF h] by blast
  show ?thesis
  proof (cases x)
    case (Expired p)
    then have p: "p \<in> sleepers (sitems s)" using x(2) by (auto simp: earliest_def sleepers_def)
    obtain b where c: "promise_call cl p (Arg_value ()) (sst s) = Some (hs, b, st)"
      using r x(1) Expired by (auto simp: worker_round_def bind_eq_Some_conv)
    from awaited_call_handles [OF aw p c] p show ?thesis by (auto simp: waiting_def handles_of_def)
  next
    case (Next_time t)
    with r x(1) show ?thesis by (auto simp: worker_round_def)
  qed
qed

lemma cancel_handles:
  assumes inv: "sched_inv heap W s" and ex: "sexec H cl (Cancel idt e) s = Some s'"
  shows "a_haddr (sst s') = a_haddr (sst s)"
proof -
  have h: "heap (sitems s)" and aw: "awaited W (sleepers (sitems s)) (sst s)" using inv by (simp_all add: sched_inv_def)
  obtain p ys where r: "remove H idt (sitems s) = Some (p, ys)"
    using ex by (cases "remove H idt (sitems s)") (auto simp: cancel_with_def)
  show ?thesis
  proof (cases "p = 0")
    case False
    then have p: "p \<in> sleepers (sitems s)" using remove_takes [OF h r] by (auto simp: sleepers_def)
    obtain hs b where "promise_call cl p (Arg_exc e) (sst s) = Some (hs, b, sst s')"
      using ex r False by (auto simp: cancel_with_def bind_eq_Some_conv)
    from awaited_call_handles [OF aw p this] show ?thesis by simp
  qed (use ex r in \<open>auto simp: cancel_with_def\<close>)
qed

lemma sexec_waiting:
  assumes inv: "sched_inv heap W s" and ok: "scmd_ok c s" and ex: "sexec H cl c s = Some s'"
  shows "\<exists>W'. sched_inv heap W' s' \<and> waiting W' s' \<subseteq> waiting W s \<union> joins c"
proof (cases c)
  case (Sleep f tp idt)
  then have "sst s' = upd_fut f (Some fut_started) (sst s)" using ex by (auto simp: sleep_until_def split_def Let_def)
  with inv_sleep_new [OF inv, of f tp idt cl] ok ex Sleep show ?thesis
    by (intro exI [of _ "W(f := [])"]) (auto simp: waiting_def simp del: sexec.simps split: if_splits)
next
  case (Await_sleep f a h)
  have aw: "awaited W (sleepers (sitems s)) (sst s)" using inv by (simp add: sched_inv_def)
  have a: "a \<notin> set (W g)" if "g \<in> sleepers (sitems s)" for g
    using awaited_unlinked [OF aw _ that] ok Await_sleep by simp
  obtain W' where W': "sched_inv heap W' s'" "W' = (if f \<in> sleepers (sitems s) then W(f := a # W f) else W)"
    "sitems s' = sitems s"
    using inv_await_joins [OF inv, of f a cl h] a ok ex Await_sleep by (auto simp del: sexec.simps)
  obtain hs st where st: "fut_exec [] cl (Await_future f a h) (sst s) = Some (hs, st)" "sst s' = st"
    using ex Await_sleep by (auto simp del: fut_exec.simps)
  then obtain fu where fu: "fut_at f (sst s) = Some fu" by (auto simp: bind_eq_Some_conv)
  have "fut_ready fu \<Longrightarrow> f \<notin> sleepers (sitems s)"
    using aw fu by (auto simp: fut_ready_def pending_def elim!: awaitedE)
  with await_handles [OF st(1) fu] st(2) W' a Await_sleep show ?thesis
    by (intro exI [of _ W']) (auto simp: waiting_def split: if_splits)
next
  case (Cancel idt e)
  with sexec_sleepers [OF inv ex] cancel_handles [OF inv, of cl idt e s'] ex show ?thesis
    by (intro exI [of _ W]) (auto simp: waiting_def simp del: sexec.simps)
next
  case (Round now)
  then obtain hs wt xs st where r: "worker_round H cl now (sitems s) (sst s) = Some (hs, wt, xs, st)" "sst s' = st"
    using ex by auto
  with sexec_sleepers [OF inv ex] round_handles [OF inv r(1)] ok Round show ?thesis
    by (intro exI [of _ W]) (auto simp: waiting_def)
qed

end

subsection \<open>Properties\<close>

text \<open>
  The scheduler serves the earliest promise whose time has come and takes exactly it
  out of the heap, tombstones apart; if no time has come yet it says how long to wait: until
  the earliest time, or for ever. The loop over expired and cancelled items ends.
\<close>

theorem scheduler_earliest_first:
  assumes "heap_n i_tp xs (length xs)"
  shows "\<exists>r ys. get_expired_lk (bin_heap i_tp) now xs = Some (r, ys) \<and> heap_n i_tp ys (length ys) \<and>
    earliest now (live xs) r (live ys)"
  using assms by (rule sch.get_expired_ok)

definition two_sleepers :: "sch_item list" where
  "two_sleepers = [\<lparr>i_tp = 10, i_p = 0, i_ident = 1\<rparr>, \<lparr>i_tp = 30, i_p = 50, i_ident = 2\<rparr>, \<lparr>i_tp = 20, i_p = 60, i_ident = 3\<rparr>]"

lemma two_sleepers_heap: "heap_n i_tp two_sleepers (length two_sleepers)"
  by (simp add: heap_n_def two_sleepers_def nth_Cons' less_Suc_eq numeral_eq_Suc)

theorem scheduler_earliest_first_witness:
  "\<exists>r ys. get_expired_lk (bin_heap i_tp) 25 two_sleepers = Some (r, ys) \<and> heap_n i_tp ys (length ys) \<and>
    earliest 25 (live two_sleepers) r (live ys)"
  by (rule scheduler_earliest_first [OF two_sleepers_heap])

text \<open>
  C5. No sleep is lost and none ends early, for any mix of sleeps, cancellations and worker
  rounds at non-decreasing times: every sleep is still scheduled at its time with its future
  pending, or was resolved at a time not before its own, or was cancelled with an exception.
\<close>

theorem scheduler_never_early:
  assumes "sched_reach (bin_heap i_tp) cl s" and "(f, tp) \<in> set (slept s)"
  shows "(\<exists>x fu. x \<in># live (sitems s) \<and> i_p x = f \<and> i_tp x = tp \<and> fut_at f (sst s) = Some fu \<and> pending fu) \<or>
    (fut_at f (sst s) = Some (stored (Arg_value ())) \<and> tp \<le> clock s) \<or>
    (\<exists>e. fut_at f (sst s) = Some (stored (Arg_exc e)))"
proof -
  obtain W where inv: "sched_inv (\<lambda>xs. heap_n i_tp xs (length xs)) W s" using sch.inv_reach [OF assms(1)] by blast
  then have st: "sleep_state s (f, tp)" and aw: "awaited W (sleepers (sitems s)) (sst s)"
    using assms(2) unfolding sched_inv_def by blast+
  have "\<exists>fu. fut_at f (sst s) = Some fu \<and> pending fu" if "x \<in># live (sitems s)" "i_p x = f" for x
  proof -
    have "f \<in> sleepers (sitems s)" using that by (auto simp: sleepers_def)
    with aw show ?thesis by (metis awaitedE)
  qed
  with st show ?thesis unfolding sleep_state_def by auto
qed

lemma one_sleeper_reach:
  "sched_reach (bin_heap i_tp) cl
     \<lparr>sitems = [\<lparr>i_tp = 10, i_p = 50, i_ident = 1\<rparr>], sst = upd_fut 50 (Some fut_started) st, clock = 0, slept = [(50, 10)]\<rparr>"
proof -
  have "sexec (bin_heap i_tp) cl (Sleep 50 10 1) \<lparr>sitems = [], sst = st, clock = 0, slept = []\<rparr> =
      Some \<lparr>sitems = [\<lparr>i_tp = 10, i_p = 50, i_ident = 1\<rparr>], sst = upd_fut 50 (Some fut_started) st, clock = 0, slept = [(50, 10)]\<rparr>"
    by (simp add: sleep_until_def schedule_def bin_heap_def bin_push_def sift_up.simps)
  from sched_step [OF sched_start _ this] show ?thesis by simp
qed

definition sleep_store :: "(unit, unit, unit) fstore" where
  "sleep_store = \<lparr>a_next = \<lambda>_. 0, a_fn = \<lambda>_. Fn_coro, a_haddr = \<lambda>_. 0, a_flag = \<lambda>_. False,
     client = \<lparr>futs = Map.empty, proms = Map.empty, user = ()\<rparr>\<rparr>"

theorem scheduler_never_early_witness:
  "\<exists>x fu. x \<in># live [\<lparr>i_tp = 10, i_p = 50, i_ident = 1\<rparr>] \<and> i_p x = 50 \<and> i_tp x = 10 \<and>
    fut_at 50 (upd_fut 50 (Some fut_started) sleep_store) = Some fu \<and> pending fu"
proof -
  have "(fut_started :: (unit, unit) future) \<noteq> stored (Arg_value ())" "\<And>e. (fut_started :: (unit, unit) future) \<noteq> stored (Arg_exc e)"
    by (simp_all add: fut_started_def stored_def)
  then show ?thesis
    using scheduler_never_early [OF one_sleeper_reach [of "\<lambda>_ _ _ w. ([], w)" sleep_store], of 50 10] by auto
qed

text \<open>
  Cancelling: when exactly one item carries the identifier and still has its promise,
  \<open>cancel\<close> resolves that future with the exception, returns its coroutines and takes the item
  out of the schedule; all other sleeps stay.
\<close>

theorem scheduler_cancels:
  assumes "heap_n i_tp xs (length xs)" and "x \<in># live xs" and "i_ident x = idt"
    and "\<forall>y \<in> set xs. i_ident y = idt \<longrightarrow> y = x" and "awaited W (i_p ` set_mset (live xs)) s"
  shows "\<exists>ys s'. cancel (bin_heap i_tp) cl idt xs s = Some (handles_of s (W (i_p x)), True, ys, s') \<and>
    heap_n i_tp ys (length ys) \<and> live ys = live xs - {#x#} \<and>
    fut_at (i_p x) s' = Some (stored (Arg_exc Await_canceled)) \<and> (\<forall>g. g \<noteq> i_p x \<longrightarrow> fut_at g s' = fut_at g s)"
proof -
  have p: "i_p x \<noteq> 0" "i_p x \<in> i_p ` set_mset (live xs)" using assms(2) by (auto simp: live_iff)
  obtain ys where "remove (bin_heap i_tp) idt xs = Some (i_p x, ys)" "heap_n i_tp ys (length ys)"
    "live ys = live xs - {#x#}"
    using sch.remove_found [OF assms(1-4)] by blast
  with awaited_call [OF assms(5) p(2), of cl "Arg_exc Await_canceled"] p(1) show ?thesis
    by (auto simp: cancel_def cancel_with_def)
qed

theorem scheduler_cancels_witness:
  "\<exists>ys s'. cancel (bin_heap i_tp) (\<lambda>_ _ _ w. ([], w)) 3 two_sleepers
      (upd_fut 50 (Some fut_started) (upd_fut 60 (Some fut_started)
        \<lparr>a_next = \<lambda>_. 0, a_fn = \<lambda>_. Fn_coro, a_haddr = \<lambda>_. 0, a_flag = \<lambda>_. False,
          client = \<lparr>futs = Map.empty :: ptr \<rightharpoonup> (unit, unit) future, proms = Map.empty, user = ()\<rparr>\<rparr>))
      = Some ([], True, ys, s') \<and> fut_at 60 s' = Some (stored (Arg_exc Await_canceled))"
proof -
  let ?s0 = "\<lparr>a_next = \<lambda>_. 0, a_fn = \<lambda>_. Fn_coro, a_haddr = \<lambda>_. 0, a_flag = \<lambda>_. False,
    client = \<lparr>futs = Map.empty :: ptr \<rightharpoonup> (unit, unit) future, proms = Map.empty, user = ()\<rparr>\<rparr>"
  let ?s = "upd_fut 50 (Some fut_started) (upd_fut 60 (Some fut_started) ?s0)"
  have "awaited (\<lambda>_. []) {50, 60} ?s"
    by (simp add: awaited_def fut_started_def pending_def awaiter_instance_def awaiter_disabled_def plain_def)
  moreover have "i_p ` set_mset (live two_sleepers) = {50, 60}" by (auto simp: live_def two_sleepers_def)
  moreover have "\<lparr>i_tp = 20, i_p = 60, i_ident = 3\<rparr> \<in># live two_sleepers" by (simp add: live_def two_sleepers_def)
  moreover have "\<forall>y \<in> set two_sleepers. i_ident y = 3 \<longrightarrow> y = \<lparr>i_tp = 20, i_p = 60, i_ident = 3\<rparr>"
    by (simp add: two_sleepers_def)
  ultimately show ?thesis
    using scheduler_cancels [OF two_sleepers_heap, of "\<lparr>i_tp = 20, i_p = 60, i_ident = 3\<rparr>" 3 "\<lambda>_. []" ?s "\<lambda>_ _ _ w. ([], w)"]
    by (auto simp: handles_of_def)
qed

text \<open>
  Cancelling twice reads an empty vector: the first cancellation leaves a tombstone
  behind the head, and when nothing else is scheduled any more, cancelling the same
  identifier pops the tombstone and goes on reading the first element.
\<close>

theorem scheduler_cancel_reads_empty:
  assumes "p \<noteq> 0" and "q \<noteq> 0" and "a \<noteq> b" and "s \<le> t"
  shows "\<exists>xs ys. remove (bin_heap i_tp) b
      [\<lparr>i_tp = s, i_p = p, i_ident = a\<rparr>, \<lparr>i_tp = t, i_p = q, i_ident = b\<rparr>] = Some (q, xs) \<and>
    remove (bin_heap i_tp) a xs = Some (p, ys) \<and> remove (bin_heap i_tp) b ys = None"
proof -
  let ?x = "\<lparr>i_tp = s, i_p = p, i_ident = a\<rparr>" and ?z = "\<lparr>i_tp = s, i_p = 0, i_ident = a\<rparr>"
    and ?t = "\<lparr>i_tp = t, i_p = 0, i_ident = b\<rparr>"
  have pop2: "pop_item (bin_heap i_tp) [?z, ?t] = [?t]"
    by (simp add: pop_item_def bin_heap_def bin_pop_def swap_def sift_down.simps)
  have pop1: "pop_item (bin_heap i_tp) [?t] = []"
    by (simp add: pop_item_def bin_heap_def bin_pop_def swap_def sift_down.simps)
  have "remove (bin_heap i_tp) b [?x, \<lparr>i_tp = t, i_p = q, i_ident = b\<rparr>] = Some (q, [?x, ?t])"
    using assms by (subst remove_def, subst remove_loop.simps) (simp add: take_promise_def)
  moreover have "remove (bin_heap i_tp) a [?x, ?t] = Some (p, [?t])"
    using assms pop2 by (subst remove_def, subst remove_loop.simps) (simp add: take_promise_def)
  moreover have "remove_loop (bin_heap i_tp) b [] = None" by (subst remove_loop.simps) simp
  then have "remove (bin_heap i_tp) b [?t] = None"
    using pop1 by (subst remove_def, subst remove_loop.simps) (simp add: take_promise_def)
  ultimately show ?thesis by blast
qed

theorem scheduler_cancel_reads_empty_witness:
  "\<exists>xs ys. remove (bin_heap i_tp) 8
      [\<lparr>i_tp = 10, i_p = 50, i_ident = 7\<rparr>, \<lparr>i_tp = 20, i_p = 60, i_ident = 8\<rparr>] = Some (60, xs) \<and>
    remove (bin_heap i_tp) 7 xs = Some (50, ys) \<and> remove (bin_heap i_tp) 8 ys = None"
  by (rule scheduler_cancel_reads_empty) simp_all

end
