(* ===== verification/Scheduler_Threads.thy ===== *)
theory Scheduler_Threads
  imports Scheduler Coro_Queue
begin

section \<open>scheduler: the thread of the scheduler and its destructor\<close>

text \<open>
  \<open>worker_coro\<close> of \<open>scheduler.h\<close> in a thread of its own (\<open>start_in(std::thread &)\<close>), while
  other threads sleep, await and cancel, and \<open>~scheduler\<close> stops it. Every section under
  the lock is a step, and so is each access without it: the tests of the stop flag, setting it,
  its callback, the wait. The wait on the condition variable gives the lock away and
  sleeps in one step; it ends by a notification, by the time or for no reason.

  Expired promises are resolved by the worker while it holds the lock. The coroutines they
  resume go to the queue of the worker's thread (theory \<open>Coro_Queue\<close>) and run when the
  worker pauses.
\<close>

subsection \<open>State\<close>

datatype worker_pc =
    Wk_register
  | Wk_enter
  | Wk_head
  | Wk_pause
  | Wk_client
  | Wk_relock
  | Wk_check
  | Wk_round
  | Wk_wait int
  | Wk_sleep int
  | Wk_leave
  | Wk_done

text \<open>The destructor: nothing yet, the flag is set, its callbacks were called, it has the result.\<close>

datatype destructor_pc =
    De_idle
  | De_notify
  | De_wait
  | De_done

text \<open>
  \<open>th_sched\<close> is the scheduler with its futures, \<open>th_queue\<close> the queue of the worker's thread,
  \<open>th_ran\<close> the coroutines it resumed; \<open>th_notified\<close> says that the sleeping worker was notified,
  \<open>th_stop\<close> is the flag of \<open>_stp\<close> and \<open>th_callback\<close> whether \<open>stop_notify\<close> is registered with it.
\<close>

record ('e, 'u) sthreads =
  th_sched :: "('e, 'u) sched"
  th_now :: int
  th_pc :: worker_pc
  th_queue :: "unit tls"
  th_ran :: "handle list"
  th_notified :: bool
  th_stop :: bool
  th_callback :: bool
  th_destr :: destructor_pc

text \<open>
  \<open>start_in\<close>: the new thread starts the coroutine by the suspend point that \<open>start\<close> returns,
  which installs the queue of the thread and resumes the coroutine in it.
\<close>

definition sched_thread :: "('e, 'u) sched \<Rightarrow> ('e, 'u) sthreads" where
  "sched_thread sd =
     \<lparr>th_sched = sd, th_now = clock sd, th_pc = Wk_register, th_queue = \<lparr>active = True, cq = [], world = ()\<rparr>, th_ran = [],
      th_notified = False, th_stop = False, th_callback = False, th_destr = De_idle\<rparr>"

definition wk_goto :: "worker_pc \<Rightarrow> ('e, 'u) sthreads \<Rightarrow> ('e, 'u) sthreads" where
  "wk_goto p s = s\<lparr>th_pc := p\<rparr>"

definition wk_locked :: "worker_pc \<Rightarrow> bool" where
  "wk_locked p \<longleftrightarrow> p = Wk_head \<or> p = Wk_round \<or> (\<exists>t. p = Wk_wait t)"

text \<open>\<open>_cond.notify_all()\<close>: there is nobody but the worker who sleeps.\<close>

definition wk_notify :: "bool \<Rightarrow> ('e, 'u) sthreads \<Rightarrow> ('e, 'u) sthreads" where
  "wk_notify b s = s\<lparr>th_notified := th_notified s \<or> b\<rparr>"

subsection \<open>The steps of the worker\<close>

text \<open>A \<open>stop_callback\<close> for a token that was stopped already is called at once, by the worker.\<close>

definition wk_register :: "('e, 'u) sthreads \<Rightarrow> ('e, 'u) sthreads" where
  "wk_register s = wk_goto Wk_enter (s\<lparr>th_callback := \<not> th_stop s\<rparr>)"

definition wk_head :: "('e, 'u) sthreads \<Rightarrow> ('e, 'u) sthreads" where
  "wk_head s = wk_goto (if th_stop s then Wk_leave else Wk_pause) s"

text \<open>A coroutine is resumed from the queue: the worker, or one of a client.\<close>

definition wk_resume :: "handle \<Rightarrow> handle \<Rightarrow> unit tls \<Rightarrow> ('e, 'u) sthreads \<Rightarrow> ('e, 'u) sthreads" where
  "wk_resume me h q s =
     (if h = me then wk_goto Wk_relock (s\<lparr>th_queue := q\<rparr>)
      else wk_goto Wk_client (s\<lparr>th_queue := q, th_ran := th_ran s @ [h]\<rparr>))"

definition wk_pause :: "handle \<Rightarrow> ('e, 'u) sthreads \<Rightarrow> ('e, 'u) sthreads option" where
  "wk_pause me s = map_option (\<lambda>(h, q). wk_resume me h q s) (pause_suspend me (th_queue s))"

text \<open>The coroutine of a client suspends: the next one in the queue is resumed.\<close>

definition wk_client :: "handle \<Rightarrow> ('e, 'u) sthreads \<Rightarrow> ('e, 'u) sthreads option" where
  "wk_client me s =
     (case resume_handle_next (th_queue s) of
        (None, q) \<Rightarrow> None
      | (Some h, q) \<Rightarrow> Some (wk_resume me h q s))"

definition wk_check :: "('e, 'u) sthreads \<Rightarrow> ('e, 'u) sthreads" where
  "wk_check s = wk_goto (if th_stop s then Wk_leave else Wk_round) s"

text \<open>
  The round itself. The suspend point of a resolved promise is flushed into the queue, which
  is active here; the worker waits when no other coroutine of its thread is ready.
\<close>

definition wk_round ::
    "sch_item heap_ops \<Rightarrow> (unit, 'e, 'u) fworld client_fn \<Rightarrow> ('e, 'u) sthreads \<Rightarrow> ('e, 'u) sthreads option" where
  "wk_round H cl s = do {
     let sd = th_sched s;
     (hs, wt, xs, st) \<leftarrow> worker_round H cl (th_now s) (sitems sd) (sst sd);
     let s1 = s\<lparr>th_sched := sd\<lparr>sitems := xs, sst := st, clock := th_now s\<rparr>, th_queue := fold queue_push hs (th_queue s)\<rparr>;
     Some (wk_goto (case wt of None \<Rightarrow> Wk_head | Some t \<Rightarrow> if can_block (th_queue s1) then Wk_wait t else Wk_head) s1) }"

definition wk_wait :: "int \<Rightarrow> ('e, 'u) sthreads \<Rightarrow> ('e, 'u) sthreads" where
  "wk_wait t s = wk_goto (Wk_sleep t) (s\<lparr>th_notified := False\<rparr>)"

text \<open>
  The end: the lock is released, the callback deregistered, the promise of \<open>_fut\<close> resolved; the
  queue of the thread is flushed.
\<close>

definition wk_leave :: "('e, 'u) sthreads \<Rightarrow> ('e, 'u) sthreads" where
  "wk_leave s = wk_goto Wk_done (s\<lparr>th_callback := False\<rparr>)"

definition wk_flush :: "('e, 'u) sthreads \<Rightarrow> ('e, 'u) sthreads" where
  "wk_flush s =
     (let q = th_queue s in
      case cq q of
        [] \<Rightarrow> s\<lparr>th_queue := q\<lparr>active := False\<rparr>\<rparr>
      | h # hs \<Rightarrow> s\<lparr>th_queue := q\<lparr>cq := hs\<rparr>, th_ran := th_ran s @ [h]\<rparr>)"

text \<open>What the thread does next, when it can; \<open>spur\<close>: the sleep ends for no reason.\<close>

fun wk_can :: "bool \<Rightarrow> ('e, 'u) sthreads \<Rightarrow> worker_pc \<Rightarrow> bool" where
  "wk_can spur s (Wk_sleep t) \<longleftrightarrow> spur \<or> th_notified s \<or> t \<le> th_now s"
| "wk_can spur s Wk_done \<longleftrightarrow> active (th_queue s)"
| "wk_can spur s p \<longleftrightarrow> True"

fun wk_go ::
    "sch_item heap_ops \<Rightarrow> (unit, 'e, 'u) fworld client_fn \<Rightarrow> handle \<Rightarrow> worker_pc \<Rightarrow> ('e, 'u) sthreads \<Rightarrow>
      ('e, 'u) sthreads option" where
  "wk_go H cl me Wk_register s = Some (wk_register s)"
| "wk_go H cl me Wk_enter s = Some (wk_goto Wk_head s)"
| "wk_go H cl me Wk_head s = Some (wk_head s)"
| "wk_go H cl me Wk_pause s = wk_pause me s"
| "wk_go H cl me Wk_client s = wk_client me s"
| "wk_go H cl me Wk_relock s = Some (wk_goto Wk_check s)"
| "wk_go H cl me Wk_check s = Some (wk_check s)"
| "wk_go H cl me Wk_round s = wk_round H cl s"
| "wk_go H cl me (Wk_wait t) s = Some (wk_wait t s)"
| "wk_go H cl me (Wk_sleep t) s = Some (wk_goto Wk_head s)"
| "wk_go H cl me Wk_leave s = Some (wk_leave s)"
| "wk_go H cl me Wk_done s = Some (wk_flush s)"

subsection \<open>The other threads\<close>

text \<open>\<open>~scheduler\<close>: \<open>request_stop\<close> sets the flag and calls the callbacks; then it waits.\<close>

fun destr_can :: "('e, 'u) sthreads \<Rightarrow> destructor_pc \<Rightarrow> bool" where
  "destr_can s De_wait \<longleftrightarrow> th_pc s = Wk_done"
| "destr_can s De_done \<longleftrightarrow> False"
| "destr_can s d \<longleftrightarrow> True"

fun destr_go :: "destructor_pc \<Rightarrow> ('e, 'u) sthreads \<Rightarrow> ('e, 'u) sthreads" where
  "destr_go De_idle s = s\<lparr>th_stop := True, th_destr := De_notify\<rparr>"
| "destr_go De_notify s = (wk_notify (th_callback s) s)\<lparr>th_destr := De_wait\<rparr>"
| "destr_go d s = s\<lparr>th_destr := De_done\<rparr>"

text \<open>An operation of a client; \<open>sleep_until\<close> and \<open>cancel\<close> take the lock.\<close>

fun cmd_can :: "'e scmd \<Rightarrow> ('e, 'u) sthreads \<Rightarrow> bool" where
  "cmd_can (Round now) s \<longleftrightarrow> False"
| "cmd_can (Await_sleep f a h) s \<longleftrightarrow> scmd_ok (Await_sleep f a h) (th_sched s)"
| "cmd_can c s \<longleftrightarrow> \<not> wk_locked (th_pc s) \<and> scmd_ok c (th_sched s)"

fun cmd_notifies :: "sch_item heap_ops \<Rightarrow> 'e scmd \<Rightarrow> ('e, 'u) sched \<Rightarrow> bool" where
  "cmd_notifies H (Sleep f tp idt) sd = fst (sleep_until H f tp idt (sitems sd) (sst sd))"
| "cmd_notifies H c sd = False"

datatype 'e sact =
    A_worker bool
  | A_destructor
  | A_client "'e scmd"
  | A_ready handle
  | A_time int

fun act_can :: "'e sact \<Rightarrow> ('e, 'u) sthreads \<Rightarrow> bool" where
  "act_can (A_worker spur) s \<longleftrightarrow> wk_can spur s (th_pc s)"
| "act_can A_destructor s \<longleftrightarrow> destr_can s (th_destr s)"
| "act_can (A_client c) s \<longleftrightarrow> cmd_can c s"
| "act_can (A_ready h) s \<longleftrightarrow> th_pc s = Wk_client"
| "act_can (A_time t) s \<longleftrightarrow> th_now s \<le> t"

fun act_go ::
    "sch_item heap_ops \<Rightarrow> (unit, 'e, 'u) fworld client_fn \<Rightarrow> handle \<Rightarrow> 'e sact \<Rightarrow> ('e, 'u) sthreads \<Rightarrow>
      ('e, 'u) sthreads option" where
  "act_go H cl me (A_worker spur) s = wk_go H cl me (th_pc s) s"
| "act_go H cl me A_destructor s = Some (destr_go (th_destr s) s)"
| "act_go H cl me (A_client c) s =
     map_option (\<lambda>sd. wk_notify (cmd_notifies H c (th_sched s)) (s\<lparr>th_sched := sd\<rparr>)) (sexec H cl c (th_sched s))"
| "act_go H cl me (A_ready h) s = Some (s\<lparr>th_queue := queue_push h (th_queue s)\<rparr>)"
| "act_go H cl me (A_time t) s = Some (s\<lparr>th_now := t\<rparr>)"

inductive th_reach ::
    "sch_item heap_ops \<Rightarrow> (unit, 'e, 'u) fworld client_fn \<Rightarrow> handle \<Rightarrow> ('e, 'u) sthreads \<Rightarrow> bool" for H cl me where
  th_start: "th_reach H cl me (sched_thread \<lparr>sitems = [], sst = st, clock = c, slept = []\<rparr>)"
| th_step: "th_reach H cl me s \<Longrightarrow> act_can act s \<Longrightarrow> act_go H cl me act s = Some s' \<Longrightarrow> th_reach H cl me s'"

fun th_run ::
    "sch_item heap_ops \<Rightarrow> (unit, 'e, 'u) fworld client_fn \<Rightarrow> handle \<Rightarrow> 'e sact list \<Rightarrow> ('e, 'u) sthreads \<Rightarrow>
      ('e, 'u) sthreads option" where
  "th_run H cl me [] s = Some s"
| "th_run H cl me (c # cs) s = (if act_can c s then Option.bind (act_go H cl me c s) (th_run H cl me cs) else None)"


subsection \<open>The invariant\<close>

text \<open>A worker that sleeps, and was not notified, wakes up in time for whatever is scheduled.\<close>

definition watching :: "('e, 'u) sthreads \<Rightarrow> bool" where
  "watching s \<longleftrightarrow>
     (\<forall>t. th_pc s = Wk_wait t \<or> th_pc s = Wk_sleep t \<and> \<not> th_notified s \<longrightarrow>
       (\<forall>x \<in> set (sitems (th_sched s)). t \<le> i_tp x))"

definition th_ok ::
    "sch_item heap_ops \<Rightarrow> (unit, 'e, 'u) fworld client_fn \<Rightarrow> handle \<Rightarrow> ('e, 'u) sthreads \<Rightarrow> bool" where
  "th_ok H cl me s \<longleftrightarrow>
     sched_reach H cl (th_sched s) \<and> clock (th_sched s) \<le> th_now s \<and> watching s \<and>
     (th_pc s \<noteq> Wk_done \<longrightarrow> active (th_queue s)) \<and> (th_pc s = Wk_client \<longrightarrow> me \<in> set (cq (th_queue s))) \<and>
     (th_pc s = Wk_leave \<or> th_pc s = Wk_done \<longrightarrow> th_stop s) \<and> (th_destr s \<noteq> De_idle \<longrightarrow> th_stop s)"

lemma th_okD:
  assumes "th_ok H cl me s"
  shows "sched_reach H cl (th_sched s)" "clock (th_sched s) \<le> th_now s" "watching s"
    "th_pc s \<noteq> Wk_done \<Longrightarrow> active (th_queue s)" "th_pc s = Wk_client \<Longrightarrow> me \<in> set (cq (th_queue s))"
    "th_pc s = Wk_leave \<or> th_pc s = Wk_done \<Longrightarrow> th_stop s" "th_destr s \<noteq> De_idle \<Longrightarrow> th_stop s"
  using assms unfolding th_ok_def by blast+

lemma watchingD: "watching s \<Longrightarrow> th_pc s = Wk_sleep t \<Longrightarrow> \<not> th_notified s \<Longrightarrow> x \<in> set (sitems (th_sched s)) \<Longrightarrow> t \<le> i_tp x"
  unfolding watching_def by blast

lemma th_simps [simp]:
  "th_sched (wk_goto p s) = th_sched s" "th_now (wk_goto p s) = th_now s" "th_pc (wk_goto p s) = p"
  "th_queue (wk_goto p s) = th_queue s" "th_ran (wk_goto p s) = th_ran s" "th_notified (wk_goto p s) = th_notified s"
  "th_stop (wk_goto p s) = th_stop s" "th_callback (wk_goto p s) = th_callback s" "th_destr (wk_goto p s) = th_destr s"
  "th_sched (wk_notify b s) = th_sched s" "th_now (wk_notify b s) = th_now s" "th_pc (wk_notify b s) = th_pc s"
  "th_queue (wk_notify b s) = th_queue s" "th_ran (wk_notify b s) = th_ran s"
  "th_notified (wk_notify b s) \<longleftrightarrow> th_notified s \<or> b" "th_stop (wk_notify b s) = th_stop s"
  "th_callback (wk_notify b s) = th_callback s" "th_destr (wk_notify b s) = th_destr s"
  by (simp_all add: wk_goto_def wk_notify_def)

lemma queue_pushes [simp]: "cq (fold queue_push hs q) = cq q @ hs" "active (fold queue_push hs q) = active q"
  by (induction hs arbitrary: q) (simp_all add: queue_push_def)

text \<open>Steps between places where no time is awaited.\<close>

lemma th_ok_goto:
  assumes "th_ok H cl me s" and "th_pc s \<noteq> Wk_done" "p \<noteq> Wk_client" "\<And>t. p \<noteq> Wk_wait t" "\<And>t. p \<noteq> Wk_sleep t"
    and "p = Wk_leave \<or> p = Wk_done \<Longrightarrow> th_stop s"
  shows "th_ok H cl me (wk_goto p s)"
  using assms th_okD [OF assms(1)] unfolding th_ok_def watching_def by auto

context sch_heap
begin

lemma next_time_first:
  assumes "heap xs" and "get_expired_lk H now xs = Some (Next_time t, ys)"
  shows "\<forall>x \<in> set ys. t \<le> i_tp x"
  using assms
proof (induction "length xs" arbitrary: xs rule: less_induct)
  case less
  note D = less.prems(2) [unfolded get_expired_lk.simps [of H now xs]]
  show ?case
  proof (cases "xs \<noteq> [] \<and> (i_tp (xs ! 0) \<le> now \<or> i_p (xs ! 0) = 0)")
    case True
    let ?ys = "pop_item H (snd (take_promise 0 xs))"
    note P = pop_taken [OF less.prems(1) conjunct1 [OF True]]
    have "get_expired_lk H now ?ys = Some (Next_time t, ys)"
      using D True by (auto simp: Let_def split_def split: if_splits)
    then show ?thesis by (rule less.hyps [OF P(2,1)])
  next
    case False
    then have "xs = [] \<and> ys = [] \<or> xs \<noteq> [] \<and> ys = xs \<and> t = i_tp (hd xs)"
      using D by (auto simp: hd_conv_nth split: if_splits)
    then show ?thesis using heap_first [OF less.prems(1)] by auto
  qed
qed

lemma remove_loop_times:
  assumes "heap xs" and "remove_loop H idt xs = Some (p, ys)"
  shows "i_tp ` set ys \<subseteq> i_tp ` set xs"
  using assms
proof (induction "length xs" arbitrary: xs rule: less_induct)
  case less
  note D = less.prems(2) [unfolded remove_loop.simps [of H idt xs]]
  have ne: "xs \<noteq> []" using D by (auto split: if_splits)
  let ?ys = "pop_item H (snd (take_promise 0 xs))"
  note P = pop_taken [OF less.prems(1) ne]
  have sub: "set ?ys \<subseteq> set xs" using P(4) by (auto dest: list.set_sel(2) [OF ne])
  show ?case
  proof (cases "i_ident (xs ! 0) = idt")
    case True
    then have "ys = ?ys \<or> remove_loop H idt ?ys = Some (p, ys)"
      using D ne by (auto simp: Let_def split_def split: if_splits)
    then show ?thesis using less.hyps [OF P(2,1)] sub by blast
  next
    case False
    then have "ys = xs \<or> (\<exists>i. i < length xs \<and> ys = snd (take_promise i xs))"
      using D ne find_ident_Some [of idt xs] by (auto split: option.splits)
    then show ?thesis using set_update_subset_insert [of xs] by (fastforce simp: take_promise_def)
  qed
qed

lemma remove_times: "heap xs \<Longrightarrow> remove H idt xs = Some (p, ys) \<Longrightarrow> i_tp ` set ys \<subseteq> i_tp ` set xs"
  using remove_loop_times [of xs idt p ys] by (auto simp: remove_def split: if_splits)

lemma schedule_times:
  assumes "heap xs" and "x \<in> set (snd (schedule H idt p tp xs))"
  shows "x \<in> set xs \<or> i_tp x = tp"
proof -
  have "mset (snd (schedule H idt p tp xs)) = mset (xs @ [\<lparr>i_tp = tp, i_p = p, i_ident = idt\<rparr>])"
    using push_heap [OF assms(1)] by (simp add: schedule_def)
  from mset_eq_setD [OF this] assms(2) have "x = \<lparr>i_tp = tp, i_p = p, i_ident = idt\<rparr> \<or> x \<in> set xs" by simp
  then show ?thesis by auto
qed

text \<open>What a round waits for, and what the other operations do to it.\<close>

lemma round_times:
  assumes "heap xs" and "worker_round H cl now xs s = Some (hs, Some t, ys, s')"
  shows "\<forall>x \<in> set ys. t \<le> i_tp x"
proof -
  have "get_expired_lk H now xs = Some (Next_time t, ys)"
    using assms(2) by (cases "get_expired_lk H now xs") (auto simp: worker_round_def bind_Some_iff split: expired.split_asm)
  then show ?thesis by (rule next_time_first [OF assms(1)])
qed

lemma cmd_times:
  assumes h: "heap (sitems sd)" and sd: "sexec H cl c sd = Some sd'" and c: "\<And>now. c \<noteq> Round now"
  shows "clock sd' = clock sd \<and>
    (\<not> cmd_notifies H c sd \<longrightarrow> (\<forall>x \<in> set (sitems sd). t \<le> i_tp x) \<longrightarrow> (\<forall>x \<in> set (sitems sd'). t \<le> i_tp x))"
proof (cases c)
  case (Sleep f tp idt)
  let ?r = "schedule H idt f tp (sitems sd)"
  have "t \<le> i_tp x" if "\<not> fst ?r" "x \<in> set (snd ?r)" and t: "\<forall>x \<in> set (sitems sd). t \<le> i_tp x" for x
  proof -
    have "sitems sd \<noteq> []" "i_tp (sitems sd ! 0) \<le> tp" using that(1) by (auto simp: schedule_def)
    then have "t \<le> tp" using t by (metis length_greater_0_conv nth_mem order_trans)
    then show ?thesis using schedule_times [OF h that(2)] t by auto
  qed
  moreover have "sd' = sd\<lparr>sitems := snd ?r, sst := upd_fut f (Some fut_started) (sst sd), slept := slept sd @ [(f, tp)]\<rparr>"
    using sd Sleep by (simp add: sleep_until_def split_def Let_def)
  ultimately show ?thesis using Sleep by (simp add: sleep_until_def split_def Let_def)
next
  case (Cancel idt e)
  obtain p where r: "remove H idt (sitems sd) = Some (p, sitems sd')" and "clock sd' = clock sd"
    using Cancel sd by (auto simp: cancel_with_def bind_Some_iff split: if_splits)
  with Cancel remove_times [OF h r] show ?thesis by fastforce
qed (use sd c in auto)

lemma th_ok_resume:
  assumes "th_ok H cl me s" and "th_pc s \<noteq> Wk_done" "active q" and "h = me \<or> me \<in> set (cq q)"
  shows "th_ok H cl me (wk_resume me h q s)"
  using assms th_okD [OF assms(1)] unfolding th_ok_def watching_def wk_resume_def by auto

lemma th_ok_round:
  assumes ok: "th_ok H cl me s" and pc: "th_pc s = Wk_round"
  shows "\<exists>s'. wk_round H cl s = Some s' \<and> th_ok H cl me s'"
proof -
  let ?sd = "th_sched s"
  note D = th_okD [OF ok]
  obtain W where inv: "sched_inv heap W ?sd" using inv_reach [OF D(1)] by blast
  then have h: "heap (sitems ?sd)" by (simp add: sched_inv_def)
  obtain hs wt xs st where r: "worker_round H cl (th_now s) (sitems ?sd) (sst ?sd) = Some (hs, wt, xs, st)"
    using inv_round [OF inv D(2), of cl] by auto
  let ?sd' = "?sd\<lparr>sitems := xs, sst := st, clock := th_now s\<rparr>"
  have reach: "sched_reach H cl ?sd'"
    by (rule sched_step [OF D(1), of "Round (th_now s)"]) (use D(2) r in simp_all)
  have first: "\<forall>x \<in> set xs. t \<le> i_tp x" if "wt = Some t" for t
    using round_times [OF h] r that by simp
  have "watching s'" if "th_pc s' = Wk_head \<or> (\<exists>t. wt = Some t \<and> th_pc s' = Wk_wait t)" "th_sched s' = ?sd'" for s' :: "('a, 'b) sthreads"
    using that first unfolding watching_def by auto
  then show ?thesis
    using r D reach pc unfolding wk_round_def th_ok_def
    by (auto simp: Let_def bind_Some_iff split: option.splits)
qed

lemma th_ok_worker:
  assumes ok: "th_ok H cl me s" and can: "wk_can spur s (th_pc s)"
  shows "\<exists>s'. wk_go H cl me (th_pc s) s = Some s' \<and> th_ok H cl me s'"
proof -
  note D = th_okD [OF ok]
  show ?thesis
  proof (cases "th_pc s")
    case Wk_register
    have "th_ok H cl me (s\<lparr>th_callback := \<not> th_stop s\<rparr>)" using ok by (simp add: th_ok_def watching_def)
    from th_ok_goto [OF this, of Wk_enter] Wk_register show ?thesis by (simp add: wk_register_def)
  next
    case Wk_enter
    with th_ok_goto [OF ok, of Wk_head] show ?thesis by (simp)
  next
    case Wk_head
    with th_ok_goto [OF ok, of Wk_leave] th_ok_goto [OF ok, of Wk_pause] show ?thesis by (simp add: wk_head_def)
  next
    case Wk_pause
    then have a: "active (th_queue s)" using D(4) by simp
    obtain h q where q: "queue_rotate me (th_queue s) = (h, q)" by (metis surj_pair)
    have "h = me \<or> me \<in> set (cq q)" "active q"
      using q a by (cases "cq (th_queue s)"; force simp: queue_rotate_def)+
    then have "th_ok H cl me (wk_resume me h q s)" using ok Wk_pause by (simp add: th_ok_resume)
    with Wk_pause a q show ?thesis by (simp add: wk_pause_def pause_suspend_def)
  next
    case Wk_client
    then have a: "active (th_queue s)" "me \<in> set (cq (th_queue s))" using D(4,5) by simp_all
    then obtain h hs where q: "cq (th_queue s) = h # hs" by (cases "cq (th_queue s)") auto
    have "th_ok H cl me (wk_resume me h ((th_queue s)\<lparr>cq := hs\<rparr>) s)"
      by (rule th_ok_resume [OF ok]) (use Wk_client a q in auto)
    with Wk_client a q show ?thesis by (simp add: wk_client_def resume_handle_next_def)
  next
    case Wk_relock
    with th_ok_goto [OF ok, of Wk_check] show ?thesis by (simp)
  next
    case Wk_check
    with th_ok_goto [OF ok, of Wk_leave] th_ok_goto [OF ok, of Wk_round] show ?thesis by (simp add: wk_check_def)
  next
    case Wk_round
    with th_ok_round [OF ok] show ?thesis by simp
  next
    case (Wk_wait t)
    have "th_ok H cl me (wk_wait t s)" using D Wk_wait unfolding th_ok_def watching_def wk_wait_def by simp
    with Wk_wait show ?thesis by simp
  next
    case (Wk_sleep t)
    with th_ok_goto [OF ok, of Wk_head] show ?thesis by (simp)
  next
    case Wk_leave
    have "th_ok H cl me (wk_leave s)" using D Wk_leave unfolding th_ok_def watching_def wk_leave_def by simp
    with Wk_leave show ?thesis by simp
  next
    case Wk_done
    have "th_ok H cl me (wk_flush s)"
      using D Wk_done unfolding th_ok_def watching_def wk_flush_def by (simp add: Let_def split: list.split)
    with Wk_done show ?thesis by simp
  qed
qed

lemma th_ok_destructor:
  assumes "th_ok H cl me s"
  shows "th_ok H cl me (destr_go (th_destr s) s)"
  using th_okD [OF assms] unfolding th_ok_def watching_def by (cases "th_destr s") auto

lemma th_ok_client:
  assumes ok: "th_ok H cl me s" and can: "cmd_can c s" and go: "act_go H cl me (A_client c) s = Some s'"
  shows "th_ok H cl me s'"
proof -
  let ?sd = "th_sched s"
  note D = th_okD [OF ok]
  obtain W where inv: "sched_inv heap W ?sd" using inv_reach [OF D(1)] by blast
  then have h: "heap (sitems ?sd)" by (simp add: sched_inv_def)
  have sc: "scmd_ok c ?sd" using can by (cases c) simp_all
  obtain sd where sd: "sexec H cl c ?sd = Some sd" and s': "s' = wk_notify (cmd_notifies H c ?sd) (s\<lparr>th_sched := sd\<rparr>)"
    using go by auto
  have "\<And>now. c \<noteq> Round now" using can by auto
  note T = cmd_times [OF h sd this]
  have "watching s'"
  proof (cases "cmd_notifies H c ?sd")
    case True
    then obtain f tp idt where "c = Sleep f tp idt" by (cases c) auto
    with True can s' show ?thesis by (auto simp: watching_def wk_locked_def)
  next
    case False
    with T D(3) s' show ?thesis unfolding watching_def by fastforce
  qed
  with T have "clock sd = clock ?sd \<and> watching s'" by blast
  moreover have "sched_reach H cl sd" using sched_step [OF D(1) sc sd] .
  ultimately show ?thesis using D s' unfolding th_ok_def by auto
qed

lemma th_reach_ok: "th_reach H cl me s \<Longrightarrow> th_ok H cl me s"
proof (induction rule: th_reach.induct)
  case (th_start st c)
  have "sched_reach H cl \<lparr>sitems = [], sst = st, clock = c, slept = []\<rparr>" by (rule sched_start)
  then show ?case by (simp add: th_ok_def sched_thread_def watching_def)
next
  case (th_step s act s')
  note ok = th_step.IH
  show ?case
  proof (cases act)
    case (A_worker spur)
    with th_ok_worker [OF ok, of spur] th_step.hyps show ?thesis by auto
  next
    case A_destructor
    with th_ok_destructor [OF ok] th_step.hyps show ?thesis by auto
  next
    case (A_client c)
    with th_ok_client [OF ok] th_step.hyps show ?thesis by auto
  next
    case (A_ready h)
    with ok th_step.hyps show ?thesis by (auto simp: th_ok_def watching_def queue_push_def)
  next
    case (A_time t)
    with ok th_step.hyps show ?thesis by (auto simp: th_ok_def watching_def)
  qed
qed

end

subsection \<open>The worker alone\<close>

text \<open>The steps to the next round, or to the end when the flag is set, as a measure.\<close>

definition before :: "handle \<Rightarrow> handle list \<Rightarrow> nat" where
  "before me q = length (takeWhile (\<lambda>h. h \<noteq> me) q)"

fun wk_left :: "handle \<Rightarrow> handle list \<Rightarrow> worker_pc \<Rightarrow> nat" where
  "wk_left me q Wk_leave = 1"
| "wk_left me q Wk_check = 2"
| "wk_left me q Wk_relock = 3"
| "wk_left me q Wk_client = 4 + before me q"
| "wk_left me q Wk_pause = 5 + length q"
| "wk_left me q Wk_head = 6 + length q"
| "wk_left me q Wk_enter = 7 + length q"
| "wk_left me q (Wk_sleep t) = 7 + length q"
| "wk_left me q Wk_register = 8 + length q"
| "wk_left me q p = 0"

abbreviation left_of :: "handle \<Rightarrow> ('e, 'u) sthreads \<Rightarrow> nat" where
  "left_of me s \<equiv> wk_left me (cq (th_queue s)) (th_pc s)"

abbreviation worker_run ::
    "sch_item heap_ops \<Rightarrow> (unit, 'e, 'u) fworld client_fn \<Rightarrow> handle \<Rightarrow> nat \<Rightarrow> ('e, 'u) sthreads \<Rightarrow> ('e, 'u) sthreads option" where
  "worker_run H cl me n s \<equiv> th_run H cl me (replicate n (A_worker False)) s"

text \<open>What no step of the worker but a round changes.\<close>

definition same_world :: "('e, 'u) sthreads \<Rightarrow> ('e, 'u) sthreads \<Rightarrow> bool" where
  "same_world s s' \<longleftrightarrow> th_sched s' = th_sched s \<and> th_now s' = th_now s \<and> th_stop s' = th_stop s \<and> th_destr s' = th_destr s"

lemma wk_resume_left:
  "left_of me (wk_resume me h q s) = (if h = me then 3 else 4 + before me (cq q))"
  by (simp add: wk_resume_def)

lemma wk_resume_world: "same_world s (wk_resume me h q s)"
  by (simp add: wk_resume_def same_world_def)

lemma th_run_add: "th_run H cl me (xs @ ys) s = Option.bind (th_run H cl me xs s) (th_run H cl me ys)"
  by (induction xs arbitrary: s) (simp_all split: bind_split)

lemma worker_run_more:
  "worker_run H cl me m s = Some s1 \<Longrightarrow> worker_run H cl me n s1 = Some s2 \<Longrightarrow> worker_run H cl me (m + n) s = Some s2"
  by (simp add: replicate_add th_run_add)

lemma worker_run_one:
  "wk_can False s (th_pc s) \<Longrightarrow> wk_go H cl me (th_pc s) s = Some s' \<Longrightarrow> worker_run H cl me 1 s = Some s'"
  by simp

lemma worker_step_left:
  assumes s': "wk_go H cl me (th_pc s) s = Some s'"
    and pc: "th_pc s \<noteq> Wk_round" "th_pc s \<noteq> Wk_done" "\<And>t. th_pc s \<noteq> Wk_wait t" and a: "active (th_queue s)"
  shows "left_of me s' < left_of me s \<and> same_world s s'"
proof (cases "th_pc s")
  case Wk_pause
  obtain h q where q: "queue_rotate me (th_queue s) = (h, q)" by (metis surj_pair)
  then have "length (cq q) = length (cq (th_queue s))" by (auto simp: queue_rotate_def)
  moreover have "before me (cq q) \<le> length (cq q)" by (simp add: before_def length_takeWhile_le)
  moreover have r: "s' = wk_resume me h q s" using s' q a Wk_pause by (simp add: wk_pause_def pause_suspend_def)
  ultimately have "left_of me s' < left_of me s" using Wk_pause by (simp only: wk_resume_left) simp
  with r show ?thesis by (simp add: wk_resume_world)
next
  case Wk_client
  then obtain h hs where q: "cq (th_queue s) = h # hs" "s' = wk_resume me h ((th_queue s)\<lparr>cq := hs\<rparr>) s"
    using s' by (cases "cq (th_queue s)") (auto simp: wk_client_def resume_handle_next_def split: if_splits)
  then have "left_of me s' < left_of me s" using Wk_client by (simp only: wk_resume_left) (simp add: before_def)
  with q show ?thesis by (simp add: wk_resume_world)
qed (use assms in \<open>auto simp: wk_register_def wk_head_def wk_check_def wk_leave_def same_world_def\<close>)

text \<open>The worker goes on alone until it has done what \<open>Q\<close> says.\<close>

lemma worker_until:
  assumes step: "\<And>s. th_ok H cl me s \<Longrightarrow> P s \<Longrightarrow> \<not> Q s \<Longrightarrow>
      wk_can False s (th_pc s) \<and> th_pc s \<noteq> Wk_round \<and> th_pc s \<noteq> Wk_done \<and> (\<forall>t. th_pc s \<noteq> Wk_wait t)"
    and inv: "\<And>s s'. P s \<Longrightarrow> \<not> Q s \<Longrightarrow> same_world s s' \<Longrightarrow> wk_go H cl me (th_pc s) s = Some s' \<Longrightarrow> P s'"
    and H: "sch_heap H heap" and s: "th_ok H cl me s" "P s"
  shows "\<exists>n s'. worker_run H cl me n s = Some s' \<and> th_ok H cl me s' \<and> P s' \<and> Q s' \<and> same_world s s'"
  using s
proof (induction "left_of me s" arbitrary: s rule: less_induct)
  case less
  show ?case
  proof (cases "Q s")
    case True
    with less.prems show ?thesis by (intro exI [of _ 0] exI [of _ s]) (simp add: same_world_def)
  next
    case False
    note st = step [OF less.prems False]
    obtain s' where s': "wk_go H cl me (th_pc s) s = Some s'" "th_ok H cl me s'"
      using sch_heap.th_ok_worker [OF H less.prems(1)] st by blast
    have l: "left_of me s' < left_of me s" "same_world s s'"
      using worker_step_left [OF s'(1)] st th_okD(4) [OF less.prems(1)] by auto
    obtain n s'' where n: "worker_run H cl me n s' = Some s''" "th_ok H cl me s''" "P s''" "Q s''" "same_world s' s''"
      using less.hyps [OF l(1) s'(2) inv [OF less.prems(2) False l(2) s'(1)]] by blast
    have "worker_run H cl me (1 + n) s = Some s''"
      by (rule worker_run_more [OF worker_run_one n(1)]) (use st s' in simp_all)
    moreover have "same_world s s''" using l(2) n(5) by (simp add: same_world_def)
    ultimately show ?thesis using n by blast
  qed
qed

text \<open>Where the worker is on its way to a round.\<close>

definition underway :: "worker_pc \<Rightarrow> bool" where
  "underway p \<longleftrightarrow> p \<in> {Wk_register, Wk_enter, Wk_head, Wk_pause, Wk_client, Wk_relock, Wk_check, Wk_round}"

definition served :: "('e, 'u) sthreads \<Rightarrow> bool" where
  "served s \<longleftrightarrow> (\<forall>x. x \<in># live (sitems (th_sched s)) \<longrightarrow> th_now s < i_tp x)"

definition same_sleeps :: "('e, 'u) sthreads \<Rightarrow> ('e, 'u) sthreads \<Rightarrow> bool" where
  "same_sleeps s s' \<longleftrightarrow> slept (th_sched s') = slept (th_sched s) \<and> th_now s' = th_now s \<and> th_stop s' = th_stop s"

lemma same_sleepsI: "same_world s s' \<Longrightarrow> same_sleeps s s'"
  by (simp add: same_world_def same_sleeps_def)

lemma same_sleeps_trans: "same_sleeps s s1 \<Longrightarrow> same_sleeps s1 s2 \<Longrightarrow> same_sleeps s s2"
  by (simp add: same_sleeps_def)

text \<open>The scheduler is being destroyed, and its notification did not miss the worker.\<close>

definition stopping :: "('e, 'u) sthreads \<Rightarrow> bool" where
  "stopping s \<longleftrightarrow> th_stop s \<and> (th_destr s = De_wait \<or> th_destr s = De_done) \<and> th_pc s \<noteq> Wk_round \<and>
     (\<forall>t. th_pc s \<noteq> Wk_wait t) \<and> (\<forall>t. th_pc s = Wk_sleep t \<longrightarrow> th_notified s)"

lemma stopping_worker: "stopping s \<Longrightarrow> wk_go H cl me (th_pc s) s = Some s' \<Longrightarrow> stopping s'"
  by (cases "th_pc s") (auto simp: stopping_def wk_register_def wk_head_def wk_check_def wk_pause_def wk_client_def wk_leave_def
      wk_flush_def wk_resume_def Let_def split: option.splits if_splits prod.splits list.splits)

lemma stopping_step:
  assumes st: "stopping s" and can: "act_can act s" and go: "act_go H cl me act s = Some s'"
  shows "stopping s'"
proof (cases act)
  case (A_worker spur)
  with go stopping_worker [OF st] show ?thesis by simp
next
  case A_destructor
  with go st can show ?thesis by (cases "th_destr s") (auto simp: stopping_def)
qed (use go st in \<open>auto simp: stopping_def queue_push_def\<close>)

context sch_heap
begin

lemma reaches_round:
  assumes "th_ok H cl me s" and "underway (th_pc s)" and "\<not> th_stop s"
  shows "\<exists>n s'. worker_run H cl me n s = Some s' \<and> th_ok H cl me s' \<and> th_pc s' = Wk_round \<and> same_world s s'"
proof -
  have "\<exists>n s'. worker_run H cl me n s = Some s' \<and> th_ok H cl me s' \<and> (underway (th_pc s') \<and> \<not> th_stop s') \<and>
      th_pc s' = Wk_round \<and> same_world s s'"
  proof (rule worker_until [OF _ _ sch_heap_axioms])
    fix s s' :: "('a, 'b) sthreads"
    assume u: "underway (th_pc s) \<and> \<not> th_stop s" and r: "th_pc s \<noteq> Wk_round" and w: "same_world s s'" and go: "wk_go H cl me (th_pc s) s = Some s'"
    have "underway (th_pc s')" using u r go
      by (cases "th_pc s") (auto simp: underway_def wk_register_def wk_head_def wk_check_def wk_pause_def wk_client_def wk_resume_def
          split: option.splits if_splits prod.splits)
    with u w show "underway (th_pc s') \<and> \<not> th_stop s'" by (simp add: same_world_def)
  qed (use assms in \<open>auto simp: underway_def\<close>)
  then show ?thesis by blast
qed

lemma round_serves:
  assumes ok: "th_ok H cl me s" and pc: "th_pc s = Wk_round"
  shows "\<exists>s'. wk_round H cl s = Some s' \<and> th_ok H cl me s' \<and> same_sleeps s s' \<and>
    (served s' \<or> th_pc s' = Wk_head \<and> size (live (sitems (th_sched s'))) < size (live (sitems (th_sched s))))"
proof -
  let ?sd = "th_sched s"
  obtain s' where s': "wk_round H cl s = Some s'" "th_ok H cl me s'" using th_ok_round [OF ok pc] by blast
  obtain W where "sched_inv heap W ?sd" using inv_reach [OF th_okD(1) [OF ok]] by blast
  then have "heap (sitems ?sd)" by (simp add: sched_inv_def)
  then obtain r ys where r: "get_expired_lk H (th_now s) (sitems ?sd) = Some (r, ys)"
    "earliest (th_now s) (live (sitems ?sd)) r (live ys)"
    using get_expired_ok by blast
  have same: "same_sleeps s s'" using s'(1) unfolding wk_round_def
    by (auto simp: same_sleeps_def Let_def bind_Some_iff)
  show ?thesis
  proof (cases r)
    case (Expired p)
    then obtain x where "x \<in># live (sitems ?sd)" "live ys = live (sitems ?sd) - {#x#}" using r(2) by (auto simp: earliest_def)
    then have "size (live ys) < size (live (sitems ?sd))" by (simp add: size_Diff1_less)
    moreover have "sitems (th_sched s') = ys \<and> th_pc s' = Wk_head"
      using s'(1) r(1) Expired unfolding wk_round_def by (auto simp: worker_round_def Let_def bind_Some_iff)
    ultimately show ?thesis using s' same by simp
  next
    case (Next_time t)
    have "sitems (th_sched s') = ys \<and> th_now s' = th_now s"
      using s'(1) r(1) Next_time unfolding wk_round_def by (auto simp: worker_round_def Let_def bind_Some_iff)
    then have "served s'" using r(2) Next_time by (auto simp: served_def earliest_def)
    with s' same show ?thesis by blast
  qed
qed

lemma worker_serves:
  assumes "th_ok H cl me s" and "underway (th_pc s)" and "\<not> th_stop s"
  shows "\<exists>n s'. worker_run H cl me n s = Some s' \<and> th_ok H cl me s' \<and> same_sleeps s s' \<and> served s'"
  using assms
proof (induction "size (live (sitems (th_sched s)))" arbitrary: s rule: less_induct)
  case less
  obtain m s1 where m: "worker_run H cl me m s = Some s1" "th_ok H cl me s1" "th_pc s1 = Wk_round" "same_world s s1"
    using reaches_round [OF less.prems] by blast
  obtain s2 where s2: "wk_round H cl s1 = Some s2" "th_ok H cl me s2" "same_sleeps s1 s2"
    "served s2 \<or> th_pc s2 = Wk_head \<and> size (live (sitems (th_sched s2))) < size (live (sitems (th_sched s1)))"
    using round_serves [OF m(2,3)] by blast
  have run: "worker_run H cl me (m + 1) s = Some s2"
    by (rule worker_run_more [OF m(1) worker_run_one]) (use m(3) s2(1) in simp_all)
  have same: "same_sleeps s s2" using same_sleepsI [OF m(4)] s2(3) by (rule same_sleeps_trans)
  from s2(4) show ?case
  proof
    assume "served s2"
    with run s2(2) same show ?thesis by blast
  next
    assume "th_pc s2 = Wk_head \<and> size (live (sitems (th_sched s2))) < size (live (sitems (th_sched s1)))"
    then have h: "underway (th_pc s2)" "size (live (sitems (th_sched s2))) < size (live (sitems (th_sched s)))"
      using m(4) by (simp_all add: underway_def same_world_def)
    have "\<not> th_stop s2" using same less.prems(3) by (simp add: same_sleeps_def)
    from less.hyps [OF h(2) s2(2) h(1) this]
    obtain n s3 where "worker_run H cl me n s2 = Some s3" "th_ok H cl me s3" "same_sleeps s2 s3" "served s3" by blast
    with worker_run_more [OF run] same_sleeps_trans [OF same] show ?thesis by blast
  qed
qed

lemma awake_serves:
  assumes ok: "th_ok H cl me s" and go: "\<not> th_stop s"
  shows "\<exists>n s'. worker_run H cl me n s = Some s' \<and> th_ok H cl me s' \<and> same_sleeps s s' \<and> served s'"
proof -
  note D = th_okD [OF ok]
  have idle: ?thesis if "th_pc s = Wk_wait t \<or> th_pc s = Wk_sleep t \<and> \<not> th_notified s" "th_now s < t" for t
  proof -
    have "served s" using D(3) that unfolding served_def watching_def live_iff by fastforce
    with ok show ?thesis by (intro exI [of _ 0] exI [of _ s]) (simp add: same_sleeps_def)
  qed
  have wakes: ?thesis if w: "worker_run H cl me n s = Some s'" "th_pc s' = Wk_head" "same_sleeps s s'" "th_ok H cl me s'" for n s'
  proof -
    have "underway (th_pc s')" "\<not> th_stop s'" using w go by (simp_all add: underway_def same_sleeps_def)
    from worker_serves [OF w(4) this] obtain m s'' where
      "worker_run H cl me m s' = Some s''" "th_ok H cl me s''" "same_sleeps s' s''" "served s''" by blast
    with worker_run_more [OF w(1)] same_sleeps_trans [OF w(3)] show ?thesis by blast
  qed
  show ?thesis
  proof (cases "th_pc s")
    case (Wk_wait t)
    show ?thesis
    proof (cases "th_now s < t")
      case True
      with idle [of t] Wk_wait show ?thesis by simp
    next
      case False
      have "worker_run H cl me 2 s = Some (wk_goto Wk_head (wk_wait t s))"
        using Wk_wait False by (simp add: numeral_2_eq_2 wk_wait_def)
      moreover have "th_ok H cl me (wk_goto Wk_head (wk_wait t s))"
        using ok Wk_wait unfolding th_ok_def watching_def wk_wait_def by simp
      ultimately show ?thesis by (intro wakes) (simp_all add: same_sleeps_def wk_wait_def)
    qed
  next
    case (Wk_sleep t)
    show ?thesis
    proof (cases "th_notified s \<or> t \<le> th_now s")
      case True
      have w: "worker_run H cl me 1 s = Some (wk_goto Wk_head s)" using Wk_sleep True by simp
      have "th_ok H cl me (wk_goto Wk_head s)" using ok Wk_sleep th_ok_goto [OF ok, of Wk_head] by simp
      then show ?thesis by (intro wakes [OF w]) (simp_all add: same_sleeps_def)
    next
      case False
      with idle [of t] Wk_sleep show ?thesis by simp
    qed
  qed (use worker_serves [OF ok _ go] D(6) go in \<open>simp_all add: underway_def\<close>)
qed

lemma served_sleeps:
  assumes ok: "th_ok H cl me s" and sv: "served s" and p: "(f, tp) \<in> set (slept (th_sched s))" and t: "tp \<le> th_now s"
  shows "\<exists>x. fut_at f (sst (th_sched s)) = Some (stored x)"
proof -
  obtain W where "sched_inv heap W (th_sched s)" using inv_reach [OF th_okD(1) [OF ok]] by blast
  then have "sleep_state (th_sched s) (f, tp)" using p unfolding sched_inv_def by blast
  then show ?thesis using sv t unfolding sleep_state_def served_def by auto
qed

lemma stopping_ends:
  assumes "th_ok H cl me s" and "stopping s"
  shows "\<exists>n s'. worker_run H cl me n s = Some s' \<and> th_pc s' = Wk_done \<and> th_destr s' = th_destr s"
proof -
  have "\<exists>n s'. worker_run H cl me n s = Some s' \<and> th_ok H cl me s' \<and> stopping s' \<and> th_pc s' = Wk_done \<and> same_world s s'"
  proof (rule worker_until [OF _ _ sch_heap_axioms])
    fix s :: "('a, 'b) sthreads"
    assume "stopping s" "th_pc s \<noteq> Wk_done"
    then show "wk_can False s (th_pc s) \<and> th_pc s \<noteq> Wk_round \<and> th_pc s \<noteq> Wk_done \<and> (\<forall>t. th_pc s \<noteq> Wk_wait t)"
      by (cases "th_pc s") (auto simp: stopping_def)
  qed (use assms stopping_worker in auto)
  then show ?thesis by (auto simp: same_world_def)
qed

end

text \<open>While the callback is not registered the worker cannot sleep.\<close>

definition callback_ok :: "('e, 'u) sthreads \<Rightarrow> bool" where
  "callback_ok s \<longleftrightarrow> th_callback s \<or> th_pc s = Wk_register \<or> th_stop s \<and> th_pc s \<in> {Wk_enter, Wk_head, Wk_leave, Wk_done}"

lemma callback_step:
  assumes "callback_ok s" and "th_pc s = Wk_done \<Longrightarrow> th_stop s" and "th_pc s = Wk_leave \<Longrightarrow> th_stop s"
    and "act_go H cl me act s = Some s'"
  shows "callback_ok s'"
proof (cases act)
  case (A_worker spur)
  with assms show ?thesis
    by (cases "th_pc s") (auto simp: callback_ok_def wk_register_def wk_head_def wk_check_def wk_pause_def wk_client_def wk_leave_def
        wk_flush_def wk_wait_def wk_resume_def wk_round_def Let_def bind_Some_iff split: option.splits if_splits prod.splits list.splits)
next
  case A_destructor
  with assms show ?thesis by (cases "th_destr s") (auto simp: callback_ok_def)
qed (use assms in \<open>auto simp: callback_ok_def queue_push_def\<close>)

lemma callback_reach: "sch_heap H heap \<Longrightarrow> th_reach H cl me s \<Longrightarrow> callback_ok s"
proof (rotate_tac, induction rule: th_reach.induct)
  case (th_start st c)
  then show ?case by (simp add: callback_ok_def sched_thread_def)
next
  case (th_step s act s')
  note D = th_okD [OF sch_heap.th_reach_ok [OF th_step.prems th_step.hyps(1)]]
  show ?case by (rule callback_step [OF th_step.IH [OF th_step.prems] _ _ th_step.hyps(3)]) (use D(6) in simp_all)
qed

lemma stopping_run: "stopping s \<Longrightarrow> th_run H cl me acts s = Some s' \<Longrightarrow> stopping s'"
proof (induction acts arbitrary: s)
  case (Cons act acts)
  then obtain s1 where "act_can act s" "act_go H cl me act s = Some s1" "th_run H cl me acts s1 = Some s'"
    by (auto simp: bind_Some_iff split: if_splits)
  with Cons.IH stopping_step [OF Cons.prems(1)] show ?case by blast
qed simp

lemma th_run_reach: "th_reach H cl me s \<Longrightarrow> th_run H cl me acts s = Some s' \<Longrightarrow> th_reach H cl me s'"
proof (induction acts arbitrary: s)
  case (Cons act acts)
  then obtain s1 where "act_can act s" "act_go H cl me act s = Some s1" "th_run H cl me acts s1 = Some s'"
    by (auto simp: bind_Some_iff split: if_splits)
  with Cons th_step show ?case by blast
qed simp

subsection \<open>Properties\<close>

text \<open>A worker that missed the notification of the destructor.\<close>

definition lost_stop :: "('e, 'u) sched \<Rightarrow> ('e, 'u) sthreads" where
  "lost_stop sd = \<lparr>th_sched = sd, th_now = clock sd, th_pc = Wk_sleep tp_max, th_queue = \<lparr>active = True, cq = [], world = ()\<rparr>,
     th_ran = [], th_notified = False, th_stop = True, th_callback = True, th_destr = De_wait\<rparr>"

text \<open>A sleep of one client, until 10, and a worker that waits for it; it ran alone up to there.\<close>

definition one_asleep :: "int \<Rightarrow> destructor_pc \<Rightarrow> (unit, unit) sthreads" where
  "one_asleep now d =
     \<lparr>th_sched = \<lparr>sitems = [\<lparr>i_tp = 10, i_p = 50, i_ident = 1\<rparr>], sst = upd_fut 50 (Some fut_started) sleep_store, clock = 0, slept = [(50, 10)]\<rparr>,
      th_now = now, th_pc = Wk_sleep 10, th_queue = \<lparr>active = True, cq = [], world = ()\<rparr>, th_ran = [],
      th_notified = False, th_stop = (d \<noteq> De_idle), th_callback = True, th_destr = d\<rparr>"

abbreviation no_client :: "(unit, unit, unit) fworld client_fn" where
  "no_client \<equiv> \<lambda>_ _ _ w. ([], w)"

lemmas sched_thread_eval = numeral_eq_Suc sched_thread_def lost_stop_def wk_register_def wk_goto_def wk_head_def wk_pause_def
  pause_suspend_def queue_rotate_def wk_resume_def wk_check_def wk_round_def worker_round_def can_block_def wk_wait_def wk_notify_def

lemma one_asleep_reach: "0 \<le> now \<Longrightarrow> d = De_idle \<or> d = De_notify \<Longrightarrow> th_reach (bin_heap i_tp) no_client 7 (one_asleep now d)"
proof -
  assume now: "0 \<le> now" and d: "d = De_idle \<or> d = De_notify"
  let ?sd = "\<lparr>sitems = [], sst = sleep_store, clock = 0, slept = []\<rparr>"
  let ?acts = "A_client (Sleep 50 10 1) # replicate 8 (A_worker False) @ [A_time now] @ (if d = De_idle then [] else [A_destructor])"
  have "get_expired_lk (bin_heap i_tp) 0 [\<lparr>i_tp = 10, i_p = 50, i_ident = 1\<rparr>] =
      Some (Next_time 10, [\<lparr>i_tp = 10, i_p = 50, i_ident = 1\<rparr>])"
    by (subst get_expired_lk.simps) simp
  moreover have "h_push (bin_heap i_tp) [x] = [x]" for x :: sch_item by (simp add: bin_heap_def bin_push_def sift_up.simps)
  ultimately have "th_run (bin_heap i_tp) no_client 7 ?acts (sched_thread ?sd) = Some (one_asleep now d)"
    using now d by (auto simp: sched_thread_eval one_asleep_def sleep_until_def schedule_def wk_locked_def Let_def)
  with th_start show ?thesis by (rule th_run_reach)
qed

text \<open>
  C9. The worker does not oversleep, however the threads are interleaved: when it sleeps
  until some time and no notification is under way, all that is scheduled is for that time or
  later. The schedule is that of a run of \<open>Scheduler\<close>, with all its properties.
\<close>

theorem scheduler_thread_watches:
  assumes "th_reach (bin_heap i_tp) cl me s"
  shows "sched_reach (bin_heap i_tp) cl (th_sched s) \<and>
    (th_pc s = Wk_sleep t \<longrightarrow> \<not> th_notified s \<longrightarrow> (\<forall>x. x \<in># live (sitems (th_sched s)) \<longrightarrow> t \<le> i_tp x))"
  using th_okD(1,3) [OF sch.th_reach_ok [OF assms]] by (auto simp: live_iff dest: watchingD)

theorem scheduler_thread_watches_witness:
  "sched_reach (bin_heap i_tp) no_client (th_sched (one_asleep 0 De_idle)) \<and> (10::int) \<le> 10"
  using scheduler_thread_watches [OF one_asleep_reach [of 0 De_idle], of 10] by (auto simp: one_asleep_def live_def)

text \<open>
  C7. Every sleep whose time has come is ended by the worker on its own, in finitely many steps,
  as long as the scheduler is not being destroyed: whatever was asleep, ready or
  scheduled at that moment, afterwards its future has a result.
\<close>

theorem scheduler_thread_serves:
  assumes "th_reach (bin_heap i_tp) cl me s" and "\<not> th_stop s"
  shows "\<exists>n s'. th_run (bin_heap i_tp) cl me (replicate n (A_worker False)) s = Some s' \<and> th_now s' = th_now s \<and>
    (\<forall>p \<in> set (slept (th_sched s)). snd p \<le> th_now s \<longrightarrow> (\<exists>x. fut_at (fst p) (sst (th_sched s')) = Some (stored x)))"
proof -
  obtain n s' where s': "worker_run (bin_heap i_tp) cl me n s = Some s'" "th_ok (bin_heap i_tp) cl me s'" "same_sleeps s s'" "served s'"
    using sch.awake_serves [OF sch.th_reach_ok [OF assms(1)] assms(2)] by blast
  have "\<exists>x. fut_at (fst p) (sst (th_sched s')) = Some (stored x)" if "p \<in> set (slept (th_sched s))" "snd p \<le> th_now s" for p
    using sch.served_sleeps [OF s'(2,4), of "fst p" "snd p"] that s'(3) by (simp add: same_sleeps_def)
  with s'(1,3) show ?thesis by (intro exI [of _ n] exI [of _ s']) (simp add: same_sleeps_def)
qed

theorem scheduler_thread_serves_witness:
  "\<exists>n s'. th_run (bin_heap i_tp) no_client 7 (replicate n (A_worker False)) (one_asleep 12 De_idle) = Some s' \<and>
    (\<exists>x. fut_at 50 (sst (th_sched s')) = Some (stored x))"
  using scheduler_thread_serves [OF one_asleep_reach [of 12 De_idle]] by (fastforce simp: one_asleep_def)

text \<open>
  C39. Destroying the scheduler ends its thread, unless the notification comes after the
  worker has read the flag and before it sleeps: then, whatever the threads do, the
  worker can always end on its own in finitely many steps, and the destructor comes back.
\<close>

theorem scheduler_stop_answered:
  assumes "th_reach (bin_heap i_tp) cl me s" and "th_destr s = De_notify" and "th_pc s \<noteq> Wk_round"
    and "\<forall>t. th_pc s \<noteq> Wk_wait t" and "th_run (bin_heap i_tp) cl me (A_destructor # acts) s = Some s1"
  shows "\<exists>n s2. th_run (bin_heap i_tp) cl me (replicate n (A_worker False)) s1 = Some s2 \<and> th_pc s2 = Wk_done \<and>
    destr_can s2 De_wait"
proof -
  note ok = sch.th_reach_ok [OF assms(1)]
  have "callback_ok s" by (rule callback_reach [OF sch.sch_heap_axioms assms(1)])
  then have "stopping (destr_go De_notify s)"
    using assms(2-4) th_okD(7) [OF ok] by (auto simp: stopping_def callback_ok_def)
  moreover have "th_run (bin_heap i_tp) cl me acts (destr_go De_notify s) = Some s1" using assms(2,5) by simp
  ultimately have "stopping s1" by (rule stopping_run)
  with sch.stopping_ends [OF sch.th_reach_ok [OF th_run_reach [OF assms(1,5)]]] show ?thesis by fastforce
qed

text \<open>Steps of the worker, the destructor and the clock.\<close>

fun quiet :: "'e sact \<Rightarrow> bool" where
  "quiet (A_worker spur) \<longleftrightarrow> \<not> spur"
| "quiet A_destructor \<longleftrightarrow> True"
| "quiet (A_time t) \<longleftrightarrow> t < tp_max"
| "quiet a \<longleftrightarrow> False"

definition asleep :: "('e, 'u) sthreads \<Rightarrow> bool" where
  "asleep s \<longleftrightarrow> th_destr s = De_wait \<and> th_pc s = Wk_sleep tp_max \<and> \<not> th_notified s \<and> th_now s < tp_max"

lemma asleep_run: "asleep s \<Longrightarrow> \<forall>act \<in> set acts. quiet act \<Longrightarrow> th_run H cl me acts s = Some s' \<Longrightarrow> asleep s'"
proof (induction acts arbitrary: s)
  case (Cons act acts)
  have "asleep s1" if "act_can act s" "act_go H cl me act s = Some s1" for s1
    using that Cons.prems(1,2) by (cases act) (auto simp: asleep_def)
  with Cons show ?case by (auto simp: bind_Some_iff split: if_splits)
qed simp

definition lost_run :: "'e sact list" where
  "lost_run = replicate 6 (A_worker False) @ [A_destructor, A_destructor, A_worker False, A_worker False]"

lemma lost_stop_reach:
  assumes "sitems sd = []" and "slept sd = []"
  shows "th_reach (bin_heap i_tp) cl me (lost_stop sd)"
proof -
  have "sd = \<lparr>sitems = [], sst = sst sd, clock = clock sd, slept = []\<rparr>" using assms by simp
  then have "th_reach (bin_heap i_tp) cl me (sched_thread sd)" using th_start by metis
  moreover have "get_expired_lk (bin_heap i_tp) now [] = Some (Next_time tp_max, [])" for now
    by (subst get_expired_lk.simps) simp
  then have "th_run (bin_heap i_tp) cl me lost_run (sched_thread sd) = Some (lost_stop sd)"
    using assms by (simp add: lost_run_def sched_thread_eval Let_def)
  ultimately show ?thesis by (rule th_run_reach)
qed

theorem scheduler_stop_answered_witness:
  "\<exists>n s2. th_run (bin_heap i_tp) no_client 7 (replicate n (A_worker False)) (wk_notify True (one_asleep 0 De_notify)\<lparr>th_destr := De_wait\<rparr>) =
      Some s2 \<and> th_pc s2 = Wk_done \<and> destr_can s2 De_wait"
  by (rule scheduler_stop_answered [OF one_asleep_reach [of 0 De_notify], where acts = "[]"]) (simp_all add: one_asleep_def)

text \<open>
  A notification that comes after the worker has read the flag and before it sleeps is
  lost: in a state that the threads reach, the destructor waits for a worker that sleeps, with
  nothing scheduled, to the end of time, and no step of the two changes that.
\<close>

theorem scheduler_stop_lost:
  assumes "sitems sd = []" and "slept sd = []" and "clock sd < tp_max" and "\<forall>act \<in> set acts. quiet act"
    and "th_run (bin_heap i_tp) cl me acts (lost_stop sd) = Some s"
  shows "th_reach (bin_heap i_tp) cl me (lost_stop sd) \<and> th_destr s = De_wait \<and> th_pc s = Wk_sleep tp_max"
proof -
  have "asleep (lost_stop sd)" using assms(3) by (simp add: asleep_def lost_stop_def)
  then have "asleep s" using assms(4,5) by (rule asleep_run)
  with lost_stop_reach [OF assms(1,2)] show ?thesis by (simp add: asleep_def)
qed

theorem scheduler_stop_lost_witness:
  "th_destr ((lost_stop \<lparr>sitems = [], sst = sleep_store, clock = 0, slept = []\<rparr>)\<lparr>th_now := 5\<rparr>) = De_wait"
  using scheduler_stop_lost [of "\<lparr>sitems = [], sst = sleep_store, clock = 0, slept = []\<rparr>" "[A_time 5]" no_client 7]
  by (simp add: lost_stop_def tp_max_def)

end
