(* ===== verification/Async.thy ===== *)
theory Async
  imports Future Suspend_Point
begin

section \<open>async: a coroutine that resolves a future\<close>

text \<open>
  \<open>async.h\<close>. The store of futures is extended by the coroutine frames (\<open>aframe\<close>: the member
  \<open>_future\<close> of \<open>async_promise\<close>, and where the coroutine is suspended) and by the \<open>async\<close>
  objects (their \<open>_h\<close>). It is the world of the thread's \<open>coro_queue\<close>, so starting a
  coroutine, symmetric transfer and the queue are those of \<open>Coro_Queue\<close>.

  Coroutine bodies are the client's. \<open>acoro\<close> has what a body does with this header: it
  returns, lets an exception out, awaits another \<open>async\<close> coroutine and goes on with its
  result (caught or not), or detaches one. \<open>run_coro\<close> executes a body from a resumption to
  the next suspension with the operations of the header.
\<close>

subsection \<open>State\<close>

type_synonym ('v, 'e) aresult = "'e exc + 'v reference"

datatype ('v, 'e) acoro =
    Co_return 'v
  | Co_throw "'e exc"
  | Co_call "('v, 'e) acoro" "('v, 'e) aresult \<Rightarrow> ('v, 'e) acoro"
  | Co_detach "('v, 'e) acoro" "('v, 'e) acoro"

datatype ('v, 'e) aplace =
    At_start "('v, 'e) acoro"
  | At_call ptr ptr "('v, 'e) aresult \<Rightarrow> ('v, 'e) acoro"
  | Running

record ('v, 'e) aframe =
  fr_future :: ptr
  fr_at :: "('v, 'e) aplace"

record ('v, 'e) auser =
  frames :: "handle \<rightharpoonup> ('v, 'e) aframe"
  objs :: "ptr \<rightharpoonup> handle"
  free_from :: ptr

type_synonym ('v, 'e) astore = "('v, 'e, ('v, 'e) auser) fstore"
type_synonym ('v, 'e) aclient = "('v, 'e, ('v, 'e) auser) fworld client_fn"
type_synonym ('v, 'e) athread = "('v, 'e) astore tls"

definition frame_at :: "handle \<Rightarrow> ('v, 'e) astore \<Rightarrow> ('v, 'e) aframe option" where
  "frame_at h s = frames (user (client s)) h"

definition obj_at :: "ptr \<Rightarrow> ('v, 'e) astore \<Rightarrow> handle option" where
  "obj_at b s = objs (user (client s)) b"

definition top_of :: "('v, 'e) astore \<Rightarrow> ptr" where
  "top_of s = free_from (user (client s))"

definition upd_user :: "(('v, 'e) auser \<Rightarrow> ('v, 'e) auser) \<Rightarrow> ('v, 'e) astore \<Rightarrow> ('v, 'e) astore" where
  "upd_user k s = s\<lparr>client := (client s)\<lparr>user := k (user (client s))\<rparr>\<rparr>"

definition upd_frame :: "handle \<Rightarrow> ('v, 'e) aframe option \<Rightarrow> ('v, 'e) astore \<Rightarrow> ('v, 'e) astore" where
  "upd_frame h x = upd_user (\<lambda>u. u\<lparr>frames := (frames u)(h := x)\<rparr>)"

definition upd_obj :: "ptr \<Rightarrow> handle option \<Rightarrow> ('v, 'e) astore \<Rightarrow> ('v, 'e) astore" where
  "upd_obj b x = upd_user (\<lambda>u. u\<lparr>objs := (objs u)(b := x)\<rparr>)"

declare frame_at_def [cocls_store] obj_at_def [cocls_store] top_of_def [cocls_store] upd_user_def [cocls_store]
  upd_frame_def [cocls_store] upd_obj_def [cocls_store]

text \<open>Frames and temporaries of a running coroutine get addresses that were never used.\<close>

definition take_addresses :: "nat \<Rightarrow> ('v, 'e) astore \<Rightarrow> ('v, 'e) astore" where
  "take_addresses n = upd_user (\<lambda>u. u\<lparr>free_from := free_from u + n\<rparr>)"

lemma async_store_simps [simp]:
  "frame_at h (upd_frame g x s) = (if h = g then x else frame_at h s)" "obj_at b (upd_frame g x s) = obj_at b s"
  "obj_at b (upd_obj c y s) = (if b = c then y else obj_at b s)" "frame_at h (upd_obj c y s) = frame_at h s"
  "frame_at h (take_addresses n s) = frame_at h s" "obj_at b (take_addresses n s) = obj_at b s"
  "top_of (upd_frame g x s) = top_of s" "top_of (upd_obj c y s) = top_of s"
  "top_of (take_addresses n s) = top_of s + n"
  "fut_at f (upd_frame g x s) = fut_at f s" "fut_at f (upd_obj c y s) = fut_at f s" "fut_at f (take_addresses n s) = fut_at f s"
  "prom_at p (upd_frame g x s) = prom_at p s" "prom_at p (upd_obj c y s) = prom_at p s"
  "prom_at p (take_addresses n s) = prom_at p s"
  "a_next (upd_frame g x s) = a_next s" "a_next (upd_obj c y s) = a_next s" "a_next (take_addresses n s) = a_next s"
  "a_fn (upd_frame g x s) = a_fn s" "a_fn (upd_obj c y s) = a_fn s" "a_fn (take_addresses n s) = a_fn s"
  "a_haddr (upd_frame g x s) = a_haddr s" "a_haddr (upd_obj c y s) = a_haddr s" "a_haddr (take_addresses n s) = a_haddr s"
  by (simp_all add: frame_at_def obj_at_def top_of_def upd_frame_def upd_obj_def take_addresses_def upd_user_def fut_at_def prom_at_def)

lemma async_user_simps [simp]:
  "frame_at h (upd_fut f x s) = frame_at h s" "frame_at h (upd_prom p m s) = frame_at h s"
  "frame_at h (set_next a q s) = frame_at h s" "frame_at h (set_handle a g s) = frame_at h s"
  "frame_at h (resumed ws s) = frame_at h s"
  "obj_at b (upd_fut f x s) = obj_at b s" "obj_at b (upd_prom p m s) = obj_at b s"
  "obj_at b (set_next a q s) = obj_at b s" "obj_at b (set_handle a g s) = obj_at b s"
  "obj_at b (resumed ws s) = obj_at b s"
  "top_of (upd_fut f x s) = top_of s" "top_of (upd_prom p m s) = top_of s"
  "top_of (set_next a q s) = top_of s" "top_of (set_handle a g s) = top_of s" "top_of (resumed ws s) = top_of s"
  by (simp_all add: frame_at_def obj_at_def top_of_def upd_fut_def upd_prom_def set_handle_def)

subsection \<open>The async object\<close>

text \<open>A call of the coroutine: a frame suspended at its start, and the object that holds it.\<close>

definition async_new :: "ptr \<Rightarrow> handle \<Rightarrow> ('v, 'e) acoro \<Rightarrow> ('v, 'e) astore \<Rightarrow> ('v, 'e) astore" where
  "async_new b h c s = upd_obj b (Some h) (upd_frame h (Some \<lparr>fr_future = nullptr, fr_at = At_start c\<rparr>) s)"

definition async_move :: "ptr \<Rightarrow> ptr \<Rightarrow> ('v, 'e) astore \<Rightarrow> ('v, 'e) astore option" where
  "async_move b other s = do {
     h \<leftarrow> obj_at other s;
     Some (upd_obj b (Some h) (upd_obj other (Some nullptr) s)) }"

definition async_destroy :: "ptr \<Rightarrow> ('v, 'e) astore \<Rightarrow> ('v, 'e) astore option" where
  "async_destroy b s = do {
     h \<leftarrow> obj_at b s;
     s1 \<leftarrow> (if h \<noteq> nullptr then map_option (\<lambda>_. upd_frame h None s) (frame_at h s) else Some s);
     Some (upd_obj b None s1) }"

definition start_coro :: "ptr \<Rightarrow> ('v, 'e) astore \<Rightarrow> (handle \<times> ('v, 'e) astore) option" where
  "start_coro b s = do {
     h \<leftarrow> obj_at b s;
     if h = nullptr then None else Some (h, upd_obj b (Some nullptr) s) }"

definition start_promise :: "ptr \<Rightarrow> ptr \<Rightarrow> ('v, 'e) astore \<Rightarrow> (handle \<times> ('v, 'e) astore) option" where
  "start_promise b p s = do {
     h \<leftarrow> obj_at b s;
     fr \<leftarrow> frame_at h s;
     (m, s1) \<leftarrow> claim p s;
     let s2 = upd_frame h (Some (fr\<lparr>fr_future := m\<rparr>)) s1;
     if m \<noteq> nullptr then start_coro b s2 else Some (nullptr, s2) }"

definition async_start_on :: "ptr \<Rightarrow> ptr \<Rightarrow> ('v, 'e) astore \<Rightarrow> (handle list \<times> bool \<times> ('v, 'e) astore) option" where
  "async_start_on b p s = do {
     (h, s1) \<leftarrow> start_promise b p s;
     Some (if h \<noteq> nullptr then ([h], True, s1) else ([], False, s1)) }"

definition detach :: "ptr \<Rightarrow> ('v, 'e) astore \<Rightarrow> (handle list \<times> ('v, 'e) astore) option" where
  "detach b s = do { (h, s1) \<leftarrow> start_coro b s; Some ([h], s1) }"

text \<open>The destructor of a suspend point, on the handles it holds.\<close>

definition discard_handles :: "'w runner \<Rightarrow> handle list \<Rightarrow> 'w tls \<Rightarrow> 'w tls option" where
  "discard_handles run hs t =
     (if hs = [] then Some t
      else if is_active t then Some (fold queue_push hs t)
      else map_option snd (install_queue_and_call run (resume_all run hs) t))"

text \<open>
  \<open>start()\<close> constructs the future at \<open>f\<close> with a function that gets its promise at \<open>p\<close>, starts
  the coroutine and runs it.
\<close>

definition async_start ::
    "('v, 'e) aclient \<Rightarrow> ('v, 'e) astore runner \<Rightarrow> ptr \<Rightarrow> ptr \<Rightarrow> ptr \<Rightarrow> ('v, 'e) athread \<Rightarrow> ('v, 'e) athread option" where
  "async_start cl run b f p t = do {
     s \<leftarrow> fut_construct (\<lambda>_. Some) f p (world t);
     (h, s1) \<leftarrow> start_promise b p s;
     t1 \<leftarrow> (if \<not> is_active t then install_queue_and_resume run h (t\<lparr>world := s1\<rparr>) else run h (t\<lparr>world := s1\<rparr>));
     (hs, s2) \<leftarrow> promise_destroy cl p (world t1);
     discard_handles run hs (t1\<lparr>world := s2\<rparr>) }"

subsection \<open>co_await of an async object\<close>

text \<open>\<open>co_awaiter\<close> at \<open>a\<close> is an awaiter and a future. Before it suspends, the handle of the
  awaiter is the coroutine to start; from then on it is the one that awaits.\<close>

definition async_co_await :: "ptr \<Rightarrow> ptr \<Rightarrow> ('v, 'e) astore \<Rightarrow> ('v, 'e) astore option" where
  "async_co_await b a s = do {
     h \<leftarrow> obj_at b s;
     Some (set_handle a h (set_next a nullptr (upd_fut a (Some fut_default) (upd_obj b (Some nullptr) s)))) }"

definition coaw_ready :: "ptr \<Rightarrow> ('v, 'e) astore \<Rightarrow> bool option" where
  "coaw_ready a s = map_option (\<lambda>fu. f_awaiter fu = awaiter_disabled) (fut_at a s)"

definition coaw_suspend :: "ptr \<Rightarrow> handle \<Rightarrow> ('v, 'e) astore \<Rightarrow> (handle \<times> ('v, 'e) astore) option" where
  "coaw_suspend a h s = do {
     let start_handle = a_haddr s a;
     fr \<leftarrow> frame_at start_handle s;
     let s1 = set_handle a h s;
     fu \<leftarrow> fut_at a s1;
     let s2 = upd_fut a (Some (fu\<lparr>f_awaiter := a\<rparr>)) s1;
     Some (start_handle, upd_frame start_handle (Some (fr\<lparr>fr_future := a\<rparr>)) s2) }"

definition coaw_resume :: "ptr \<Rightarrow> ('v, 'e) astore \<Rightarrow> ('v, 'e) aresult option" where
  "coaw_resume a s = do { fu \<leftarrow> fut_at a s; fut_value fu }"

subsection \<open>The promise of the coroutine\<close>

definition co_resolve :: "handle \<Rightarrow> ('v, 'e) set_arg \<Rightarrow> ('v, 'e) astore \<Rightarrow> ('v, 'e) astore option" where
  "co_resolve h x s = do {
     fr \<leftarrow> frame_at h s;
     if fr_future fr \<noteq> nullptr then do {
       fu \<leftarrow> fut_at (fr_future fr) s;
       fu' \<leftarrow> fut_set x fu;
       Some (upd_fut (fr_future fr) (Some fu') s) }
     else Some s }"

definition return_value :: "handle \<Rightarrow> 'v \<Rightarrow> ('v, 'e) astore \<Rightarrow> ('v, 'e) astore option" where
  "return_value h v s = co_resolve h (Arg_value v) s"

definition co_unhandled_exception :: "handle \<Rightarrow> 'e exc \<Rightarrow> ('v, 'e) astore \<Rightarrow> ('v, 'e) astore option" where
  "co_unhandled_exception h e s = co_resolve h (Arg_exc e) s"

text \<open>
  The final awaiter resolves the future, then destroys the frame; it yields the handle it
  pops for symmetric transfer and those left in the suspend point.
\<close>

definition co_final_suspend ::
    "('v, 'e) aclient \<Rightarrow> handle \<Rightarrow> ('v, 'e) astore \<Rightarrow> (handle option \<times> handle list \<times> ('v, 'e) astore) option" where
  "co_final_suspend cl h s = do {
     fr \<leftarrow> frame_at h s;
     (hs, s1) \<leftarrow> (if fr_future fr \<noteq> nullptr then fut_resolve cl (fr_future fr) s else Some ([], s));
     Some (if hs = [] then None else Some (last hs), butlast hs, upd_frame h None s1) }"

definition co_end ::
    "('v, 'e) aclient \<Rightarrow> ('v, 'e) astore runner \<Rightarrow> handle \<Rightarrow> ('v, 'e) athread \<Rightarrow> (('v, 'e) athread \<times> handle option) option" where
  "co_end cl run h t = do {
     (nxt, rest, s1) \<leftarrow> co_final_suspend cl h (world t);
     t1 \<leftarrow> discard_handles run rest (t\<lparr>world := s1\<rparr>);
     Some (t1, nxt) }"

subsection \<open>Execution of coroutines\<close>

definition set_place :: "handle \<Rightarrow> ('v, 'e) aplace \<Rightarrow> ('v, 'e) astore \<Rightarrow> ('v, 'e) astore option" where
  "set_place h pl s = map_option (\<lambda>fr. upd_frame h (Some (fr\<lparr>fr_at := pl\<rparr>)) s) (frame_at h s)"

text \<open>After an awaited coroutine has ended: its result, and the end of the temporaries.\<close>

definition call_done :: "ptr \<Rightarrow> ptr \<Rightarrow> ('v, 'e) astore \<Rightarrow> (('v, 'e) aresult \<times> ('v, 'e) astore) option" where
  "call_done b a s = do {
     r \<leftarrow> coaw_resume a s;
     s1 \<leftarrow> fut_destroy a s;
     s2 \<leftarrow> async_destroy b s1;
     Some (r, s2) }"

text \<open>A coroutine is called and detached, as a temporary object.\<close>

definition detach_new :: "('v, 'e) astore runner \<Rightarrow> ('v, 'e) acoro \<Rightarrow> ('v, 'e) athread \<Rightarrow> ('v, 'e) athread option" where
  "detach_new run c t = do {
     let n = top_of (world t);
     (hs, s1) \<leftarrow> detach (n + 1) (async_new (n + 1) n c (take_addresses 2 (world t)));
     t1 \<leftarrow> discard_handles run hs (t\<lparr>world := s1\<rparr>);
     s2 \<leftarrow> async_destroy (n + 1) (world t1);
     Some (t1\<lparr>world := s2\<rparr>) }"

primrec run_coro ::
    "('v, 'e) acoro \<Rightarrow> ('v, 'e) aclient \<Rightarrow> ('v, 'e) astore runner \<Rightarrow> handle \<Rightarrow> ('v, 'e) athread \<Rightarrow>
      (('v, 'e) athread \<times> handle option) option" where
  "run_coro (Co_return v) cl run h t = do {
     s \<leftarrow> return_value h v (world t);
     co_end cl run h (t\<lparr>world := s\<rparr>) }"
| "run_coro (Co_throw e) cl run h t = do {
     s \<leftarrow> co_unhandled_exception h e (world t);
     co_end cl run h (t\<lparr>world := s\<rparr>) }"
| "run_coro (Co_detach c k) cl run h t = do {
     t1 \<leftarrow> detach_new run c t;
     run_coro k cl run h t1 }"
| "run_coro (Co_call c k) cl run h t = do {
     let n = top_of (world t);
     s1 \<leftarrow> async_co_await (n + 1) (n + 2) (async_new (n + 1) n c (take_addresses 3 (world t)));
     rd \<leftarrow> coaw_ready (n + 2) s1;
     if rd then do {
       (r, s2) \<leftarrow> call_done (n + 1) (n + 2) s1;
       run_coro (k r) cl run h (t\<lparr>world := s2\<rparr>) }
     else do {
       s2 \<leftarrow> set_place h (At_call (n + 1) (n + 2) k) s1;
       (start_handle, s3) \<leftarrow> coaw_suspend (n + 2) h s2;
       Some (t\<lparr>world := s3\<rparr>, Some start_handle) } }"

text \<open>The body of the thread's coroutines. A coroutine that runs cannot be resumed.\<close>

definition async_body :: "('v, 'e) aclient \<Rightarrow> ('v, 'e) astore runner \<Rightarrow> ('v, 'e) astore body" where
  "async_body cl run h t = do {
     fr \<leftarrow> frame_at h (world t);
     s \<leftarrow> set_place h Running (world t);
     case fr_at fr of
       At_start c \<Rightarrow> run_coro c cl run h (t\<lparr>world := s\<rparr>)
     | At_call b a k \<Rightarrow> do {
         (r, s1) \<leftarrow> call_done b a s;
         run_coro (k r) cl run h (t\<lparr>world := s1\<rparr>) }
     | Running \<Rightarrow> None }"

subsection \<open>Direct semantics\<close>

text \<open>
  What the body means: awaiting is calling, detaching is ignoring the result. \<open>spawned\<close> are
  the coroutines detached on the way, \<open>workload\<close> counts all that are detached in the end.
\<close>

primrec direct :: "('v, 'e) acoro \<Rightarrow> 'e exc + 'v" where
  "direct (Co_return v) = Inr v"
| "direct (Co_throw e) = Inl e"
| "direct (Co_call c k) = (direct \<circ> k) (map_sum id Own (direct c))"
| "direct (Co_detach c k) = direct k"

primrec spawned :: "('v, 'e) acoro \<Rightarrow> ('v, 'e) acoro list" where
  "spawned (Co_return v) = []"
| "spawned (Co_throw e) = []"
| "spawned (Co_call c k) = spawned c @ spawned (k (map_sum id Own (direct c)))"
| "spawned (Co_detach c k) = c # spawned k"

primrec workload :: "('v, 'e) acoro \<Rightarrow> nat" where
  "workload (Co_return v) = 0"
| "workload (Co_throw e) = 0"
| "workload (Co_call c k) = workload c + workload (k (map_sum id Own (direct c)))"
| "workload (Co_detach c k) = 1 + workload c + workload k"

lemma workload_spawned: "workload c = (\<Sum>c \<leftarrow> spawned c. 1 + workload c)"
  by (induction c) simp_all

definition result_arg :: "'e exc + 'v \<Rightarrow> ('v, 'e) set_arg" where
  "result_arg r = (case r of Inl e \<Rightarrow> Arg_exc e | Inr v \<Rightarrow> Arg_value v)"

lemma result_arg_value: "fut_value (stored (result_arg r)) = Some (map_sum id Own r)"
  by (cases r) (simp_all add: fut_value_def stored_def result_arg_def)

subsection \<open>One coroutine from its start to its end\<close>

text \<open>
  The end of a body with the result \<open>x\<close>: set, then resolve and destroy. \<open>after\<close> is the
  transfer that follows a suspension.
\<close>

definition finish ::
    "('v, 'e) aclient \<Rightarrow> ('v, 'e) astore runner \<Rightarrow> handle \<Rightarrow> ('v, 'e) set_arg \<Rightarrow> ('v, 'e) athread \<Rightarrow>
      (('v, 'e) athread \<times> handle option) option" where
  "finish cl run h x t = do { s \<leftarrow> co_resolve h x (world t); co_end cl run h (t\<lparr>world := s\<rparr>) }"

definition after :: "'w body \<Rightarrow> 'w tls \<times> handle option \<Rightarrow> 'w tls option" where
  "after body = (\<lambda>(t, nxt). case nxt of None \<Rightarrow> Some t | Some h \<Rightarrow> coro_resume body h t)"

lemma coro_resume_after: "coro_resume body h t = Option.bind (body h t) (after body)"
  by (subst coro_resume.simps) (simp add: after_def)

text \<open>A thread in which \<open>h\<close> runs; nothing exists from the first free address on.\<close>

definition runs :: "handle \<Rightarrow> ptr \<Rightarrow> ('v, 'e) athread \<Rightarrow> bool" where
  "runs h f t \<longleftrightarrow> active t \<and> 3 \<le> top_of (world t) \<and> h < top_of (world t) \<and>
     frame_at h (world t) = Some \<lparr>fr_future = f, fr_at = Running\<rparr> \<and>
     (\<forall>x \<ge> top_of (world t). fut_at x (world t) = None \<and> obj_at x (world t) = None \<and> frame_at x (world t) = None)"

definition same_below :: "ptr \<Rightarrow> handle set \<Rightarrow> ('v, 'e) astore \<Rightarrow> ('v, 'e) astore \<Rightarrow> bool" where
  "same_below n X s s' \<longleftrightarrow>
     (\<forall>x < n. fut_at x s' = fut_at x s \<and> obj_at x s' = obj_at x s \<and> (x \<notin> X \<longrightarrow> frame_at x s' = frame_at x s) \<and>
        a_next s' x = a_next s x \<and> a_fn s' x = a_fn s x \<and> a_haddr s' x = a_haddr s x) \<and>
     (\<forall>p. prom_at p s' = prom_at p s)"

text \<open>What a run leaves behind: the detached coroutines \<open>cs\<close>, queued with the handles \<open>hs\<close>.\<close>

definition grown :: "('v, 'e) athread \<Rightarrow> ('v, 'e) athread \<Rightarrow> handle list \<Rightarrow> ('v, 'e) acoro list \<Rightarrow> bool" where
  "grown t t' hs cs \<longleftrightarrow>
     active t' \<and> cq t' = cq t @ hs \<and> top_of (world t) \<le> top_of (world t') \<and>
     same_below (top_of (world t)) {} (world t) (world t') \<and> distinct hs \<and>
     list_all2 (\<lambda>h c. frame_at h (world t') = Some \<lparr>fr_future = nullptr, fr_at = At_start c\<rparr>) hs cs \<and>
     (\<forall>h \<in> set hs. top_of (world t) \<le> h \<and> h < top_of (world t')) \<and>
     (\<forall>x \<ge> top_of (world t). fut_at x (world t') = None \<and> obj_at x (world t') = None \<and>
        (x \<notin> set hs \<longrightarrow> frame_at x (world t') = None))"

lemma grown_refl:
  "active t \<Longrightarrow> (\<forall>x \<ge> top_of (world t). fut_at x (world t) = None \<and> obj_at x (world t) = None \<and> frame_at x (world t) = None) \<Longrightarrow>
    grown t t [] []"
  by (simp add: grown_def same_below_def)

lemma grown_trans:
  assumes 1: "grown t t1 hs1 cs1" and 2: "grown t1 t2 hs2 cs2"
  shows "grown t t2 (hs1 @ hs2) (cs1 @ cs2)"
proof -
  have old: "frame_at h (world t2) = frame_at h (world t1)" if "h < top_of (world t1)" for h
    using 2 that by (simp add: grown_def same_below_def)
  have l1: "list_all2 (\<lambda>h c. frame_at h (world t2) = Some \<lparr>fr_future = 0, fr_at = At_start c\<rparr>) hs1 cs1"
  proof (rule list.rel_mono_strong)
    show "list_all2 (\<lambda>h c. frame_at h (world t1) = Some \<lparr>fr_future = 0, fr_at = At_start c\<rparr>) hs1 cs1"
      using 1 by (simp add: grown_def)
  qed (use 1 old in \<open>auto simp: grown_def\<close>)
  have x: "fut_at x (world t2) = None \<and> obj_at x (world t2) = None \<and> (x \<notin> set (hs1 @ hs2) \<longrightarrow> frame_at x (world t2) = None)"
    if "top_of (world t) \<le> x" for x
  proof (cases "x < top_of (world t1)")
    case True
    then show ?thesis using 1 2 that by (simp add: grown_def same_below_def)
  next
    case False
    then show ?thesis using 2 by (simp add: grown_def)
  qed
  have sb: "same_below (top_of (world t)) {} (world t) (world t2)"
    using 1 2 by (simp add: grown_def same_below_def)
  have d: "distinct (hs1 @ hs2)" and r: "\<forall>h \<in> set (hs1 @ hs2). top_of (world t) \<le> h \<and> h < top_of (world t2)"
    using 1 2 unfolding grown_def by fastforce+
  show ?thesis using 1 2 l1 x sb d r by (simp add: grown_def list_all2_appendI)
qed

lemma grown_runs:
  assumes r: "runs h f t" and g: "grown t t' hs cs"
  shows "runs h f t'"
proof -
  have "x \<notin> set hs \<and> top_of (world t) \<le> x" if "top_of (world t') \<le> x" for x
    using g that by (auto simp: grown_def)
  moreover have "frame_at h (world t') = frame_at h (world t)"
    using r g by (simp add: runs_def grown_def same_below_def)
  moreover have "3 \<le> top_of (world t') \<and> h < top_of (world t')" using r g by (auto simp: runs_def grown_def)
  ultimately show ?thesis using r g by (simp add: runs_def grown_def)
qed

lemma direct_call [simp]: "direct (Co_call c k) = direct (k (map_sum id Own (direct c)))"
  by simp

declare direct.simps(3) [simp del]

text \<open>An awaited coroutine ends: its caller, the only awaiter, is resumed next.\<close>

lemma finish_awaited:
  assumes t: "frame_at g s = Some \<lparr>fr_future = a, fr_at = Running\<rparr>" "world t = s"
    and a: "proper a" "fut_at a s = Some (fut_default\<lparr>f_awaiter := a\<rparr>)" "a_next s a = 0" "a_fn s a = Fn_coro" "a_haddr s a = h"
  shows "finish cl run g x t =
    Some (t\<lparr>world := upd_frame g None (resumed [a] (upd_fut a (Some (stored x)) s))\<rparr>, Some h)"
proof -
  obtain fu' where fu': "fut_set x (fut_default\<lparr>f_awaiter := a\<rparr>) = Some fu'"
      "fu'\<lparr>f_awaiter := awaiter_disabled\<rparr> = stored x" "f_awaiter fu' = a"
    using fut_set_result [of "fut_default\<lparr>f_awaiter := a\<rparr>" x] by (auto simp: fut_default_def)
  have "fut_resolve cl a (upd_fut a (Some fu') s) = Some ([h], resumed [a] (upd_fut a (Some (stored x)) s))"
    using fut_resolve_result [of a "upd_fut a (Some fu') s" fu' "[a]" cl] fu' a by (simp add: plain_def handles_of_def)
  then show ?thesis using t a fu'
    by (simp add: finish_def co_resolve_def co_end_def co_final_suspend_def discard_handles_def)
qed

lemma finish_detached:
  assumes "frame_at g (world t) = Some \<lparr>fr_future = 0, fr_at = pl\<rparr>"
  shows "finish cl run g x t = Some (t\<lparr>world := upd_frame g None (world t)\<rparr>, None)"
  using assms by (simp add: finish_def co_resolve_def co_end_def co_final_suspend_def discard_handles_def)

text \<open>
  \<open>calling\<close>: \<open>t1\<close> is \<open>t\<close> in which \<open>h\<close> has called a coroutine, whose frame has the address
  \<open>n\<close> and which runs now. The frame, the \<open>async\<close> object and the \<open>co_awaiter\<close> are new.
\<close>

definition calling ::
    "handle \<Rightarrow> ptr \<Rightarrow> (('v, 'e) aresult \<Rightarrow> ('v, 'e) acoro) \<Rightarrow> ('v, 'e) athread \<Rightarrow> ptr \<Rightarrow> ('v, 'e) athread \<Rightarrow> bool" where
  "calling h f k t n t1 \<longleftrightarrow>
     active t1 \<and> cq t1 = cq t \<and> n = top_of (world t) \<and> top_of (world t1) = n + 3 \<and>
     same_below n {h} (world t) (world t1) \<and>
     frame_at h (world t1) = Some \<lparr>fr_future = f, fr_at = At_call (n + 1) (n + 2) k\<rparr> \<and>
     fut_at (n + 2) (world t1) = Some (fut_default\<lparr>f_awaiter := n + 2\<rparr>) \<and> obj_at (n + 1) (world t1) = Some nullptr \<and>
     a_next (world t1) (n + 2) = nullptr \<and> a_fn (world t1) (n + 2) = Fn_coro \<and> a_haddr (world t1) (n + 2) = h \<and>
     runs n (n + 2) t1 \<and>
     (\<forall>x \<ge> n. (x \<noteq> n + 2 \<longrightarrow> fut_at x (world t1) = None) \<and> (x \<noteq> n + 1 \<longrightarrow> obj_at x (world t1) = None) \<and>
        (x \<noteq> n \<longrightarrow> frame_at x (world t1) = None))"

lemma run_call:
  assumes r: "runs h f t" and n: "n = top_of (world t)"
  shows "\<exists>t1 t2. run_coro (Co_call c k) cl run h t = Some (t1, Some n) \<and>
    async_body cl run n t1 = run_coro c cl run n t2 \<and> calling h f k t n t2"
proof -
  let ?s = "set_handle (n + 2) n (set_next (n + 2) 0 (upd_fut (n + 2) (Some fut_default) (upd_obj (n + 1) (Some 0)
      (async_new (n + 1) n c (take_addresses 3 (world t))))))"
  let ?s1 = "upd_frame n (Some \<lparr>fr_future = n + 2, fr_at = At_start c\<rparr>)
      (upd_fut (n + 2) (Some (fut_default\<lparr>f_awaiter := n + 2\<rparr>)) (set_handle (n + 2) h
        (upd_frame h (Some \<lparr>fr_future = f, fr_at = At_call (n + 1) (n + 2) k\<rparr>) ?s)))"
  let ?s2 = "upd_frame n (Some \<lparr>fr_future = n + 2, fr_at = Running\<rparr>) ?s1"
  have h: "h < n" "frame_at h (world t) = Some \<lparr>fr_future = f, fr_at = Running\<rparr>" "active t" "3 \<le> n"
    and fresh: "\<And>x. n \<le> x \<Longrightarrow> fut_at x (world t) = None \<and> obj_at x (world t) = None \<and> frame_at x (world t) = None"
    using r n by (simp_all add: runs_def)
  have "run_coro (Co_call c k) cl run h t = Some (t\<lparr>world := ?s1\<rparr>, Some n)"
    using h n by (simp add: Let_def async_co_await_def async_new_def coaw_ready_def fut_default_def set_place_def coaw_suspend_def)
  moreover have "async_body cl run n (t\<lparr>world := ?s1\<rparr>) = run_coro c cl run n (t\<lparr>world := ?s2\<rparr>)"
    by (simp add: async_body_def set_place_def)
  moreover have "calling h f k t n (t\<lparr>world := ?s2\<rparr>)"
    using h n fresh by (auto simp: calling_def same_below_def runs_def async_new_def)
  ultimately show ?thesis by blast
qed

lemma call_returns:
  assumes t: "runs h f t" and ca: "calling h f k t n t1" and gr: "grown t1 t2 hs cs" and x: "fut_value (stored x) = Some r"
  shows "\<exists>t3 t4. finish cl run n x t2 = Some (t3, Some h) \<and>
    async_body cl run h t3 = run_coro (k r) cl run h t4 \<and> runs h f t4 \<and> grown t t4 hs cs"
proof -
  have top: "n = top_of (world t)" "top_of (world t1) = n + 3" and h: "h < n" "3 \<le> n"
    and fresh: "\<And>x. n \<le> x \<Longrightarrow> fut_at x (world t) = None \<and> obj_at x (world t) = None \<and> frame_at x (world t) = None"
    using t ca by (simp_all add: runs_def calling_def)
  have old: "fut_at x (world t2) = fut_at x (world t1) \<and> obj_at x (world t2) = obj_at x (world t1) \<and>
      frame_at x (world t2) = frame_at x (world t1) \<and> a_next (world t2) x = a_next (world t1) x \<and>
      a_fn (world t2) x = a_fn (world t1) x \<and> a_haddr (world t2) x = a_haddr (world t1) x" if "x < n + 3" for x
    using gr that top by (simp add: grown_def same_below_def)
  let ?a = "n + 2"
  let ?s3 = "upd_frame n None (resumed [?a] (upd_fut ?a (Some (stored x)) (world t2)))"
  let ?s4 = "upd_obj (n + 1) None (upd_fut ?a None (upd_frame h (Some \<lparr>fr_future = f, fr_at = Running\<rparr>) ?s3))"
  have at: "frame_at n (world t2) = Some \<lparr>fr_future = ?a, fr_at = Running\<rparr>"
      "fut_at ?a (world t2) = Some (fut_default\<lparr>f_awaiter := ?a\<rparr>)" "a_next (world t2) ?a = 0"
      "a_fn (world t2) ?a = Fn_coro" "a_haddr (world t2) ?a = h" "obj_at (n + 1) (world t2) = Some 0"
      "frame_at h (world t2) = Some \<lparr>fr_future = f, fr_at = At_call (n + 1) ?a k\<rparr>"
  proof -
    have c: "frame_at n (world t1) = Some \<lparr>fr_future = ?a, fr_at = Running\<rparr>"
        "fut_at ?a (world t1) = Some (fut_default\<lparr>f_awaiter := ?a\<rparr>)" "a_next (world t1) ?a = 0"
        "a_fn (world t1) ?a = Fn_coro" "a_haddr (world t1) ?a = h" "obj_at (n + 1) (world t1) = Some 0"
        "frame_at h (world t1) = Some \<lparr>fr_future = f, fr_at = At_call (n + 1) ?a k\<rparr>"
      using ca unfolding calling_def runs_def by blast+
    have l: "n < n + 3" "?a < n + 3" "n + 1 < n + 3" "h < n + 3" using h by simp_all
    show "frame_at n (world t2) = Some \<lparr>fr_future = ?a, fr_at = Running\<rparr>"
        "fut_at ?a (world t2) = Some (fut_default\<lparr>f_awaiter := ?a\<rparr>)" "a_next (world t2) ?a = 0"
        "a_fn (world t2) ?a = Fn_coro" "a_haddr (world t2) ?a = h" "obj_at (n + 1) (world t2) = Some 0"
        "frame_at h (world t2) = Some \<lparr>fr_future = f, fr_at = At_call (n + 1) ?a k\<rparr>"
      using c old [OF l(1)] old [OF l(2)] old [OF l(3)] old [OF l(4)] by presburger+
  qed
  have fin: "finish cl run n x t2 = Some (t2\<lparr>world := ?s3\<rparr>, Some h)"
    by (rule finish_awaited) (use at h in \<open>simp_all add: proper_def\<close>)
  have "\<not> pending (stored x)" using stored_ready [of x] by (simp add: pending_def fut_ready_def)
  then have run: "async_body cl run h (t2\<lparr>world := ?s3\<rparr>) = run_coro (k r) cl run h (t2\<lparr>world := ?s4\<rparr>)"
    using at h x by (simp add: async_body_def set_place_def call_done_def coaw_resume_def fut_destroy_def async_destroy_def)
  have gr': "grown t (t2\<lparr>world := ?s4\<rparr>) hs cs"
    unfolding grown_def
  proof (intro conjI ballI allI impI)
    have l: "h \<noteq> g" "n \<noteq> g" if "g \<in> set hs" for g using gr that top(2) h by (auto simp: grown_def)
    have "list_all2 (\<lambda>g c. frame_at g (world t2) = Some \<lparr>fr_future = 0, fr_at = At_start c\<rparr>) hs cs"
      using gr by (simp add: grown_def)
    then show "list_all2 (\<lambda>g c. frame_at g (world (t2\<lparr>world := ?s4\<rparr>)) = Some \<lparr>fr_future = 0, fr_at = At_start c\<rparr>) hs cs"
      by (rule list.rel_mono_strong) (use l in auto)
  next
    show "same_below (top_of (world t)) {} (world t) (world (t2\<lparr>world := ?s4\<rparr>))"
      using ca gr h t top old by (auto simp: calling_def grown_def same_below_def runs_def)
  next
    fix y assume y: "top_of (world t) \<le> y"
    have big: "fut_at y (world t2) = None \<and> obj_at y (world t2) = None \<and> (y \<notin> set hs \<longrightarrow> frame_at y (world t2) = None)"
      if "n + 3 \<le> y" using gr that top by (simp add: grown_def)
    have small: "(y \<noteq> n + 2 \<longrightarrow> fut_at y (world t2) = None) \<and> (y \<noteq> n + 1 \<longrightarrow> obj_at y (world t2) = None) \<and>
        (y \<noteq> n \<longrightarrow> frame_at y (world t2) = None)" if "y < n + 3"
      using ca old [OF that] y top unfolding calling_def by simp
    show "fut_at y (world (t2\<lparr>world := ?s4\<rparr>)) = None" "obj_at y (world (t2\<lparr>world := ?s4\<rparr>)) = None"
      using big small by (cases "y < n + 3"; simp)+
    show "frame_at y (world (t2\<lparr>world := ?s4\<rparr>)) = None" if "y \<notin> set hs"
      using big small that y top h by (cases "y < n + 3"; simp)
  qed (use ca gr top in \<open>auto simp: calling_def grown_def\<close>)
  moreover have "runs h f (t2\<lparr>world := ?s4\<rparr>)" by (rule grown_runs [OF t gr'])
  ultimately show ?thesis using fin run by blast
qed

text \<open>\<open>make(...).detach()\<close>: a call of a coroutine, the detachment and the end of the object.\<close>

lemma detach_queued:
  assumes t: "active t" "3 \<le> top_of (world t)" and n: "n = top_of (world t)"
    and fresh: "\<And>x. n \<le> x \<Longrightarrow> fut_at x (world t) = None \<and> obj_at x (world t) = None \<and> frame_at x (world t) = None"
  shows "\<exists>t1. detach_new run c t = Some t1 \<and> grown t t1 [n] [c]"
proof -
  let ?s = "upd_obj (n + 1) None (upd_obj (n + 1) (Some 0) (async_new (n + 1) n c (take_addresses 2 (world t))))"
  let ?t = "t\<lparr>cq := cq t @ [n], world := ?s\<rparr>"
  have d: "detach (n + 1) (async_new (n + 1) n c (take_addresses 2 (world t))) =
      Some ([n], upd_obj (n + 1) (Some 0) (async_new (n + 1) n c (take_addresses 2 (world t))))"
    using t n by (simp add: detach_def start_coro_def async_new_def)
  have "detach_new run c t = Some ?t"
    using d t n by (simp add: detach_new_def Let_def discard_handles_def is_active_def queue_push_def async_destroy_def)
  moreover have "grown t ?t [n] [c]"
    using t n fresh by (auto simp: grown_def same_below_def async_new_def)
  ultimately show ?thesis by blast
qed

lemma run_detach:
  assumes r: "runs h f t" and n: "n = top_of (world t)"
  shows "\<exists>t1. run_coro (Co_detach c k) cl run h t = run_coro k cl run h t1 \<and> grown t t1 [n] [c]"
proof -
  obtain t1 where "detach_new run c t = Some t1" "grown t t1 [n] [c]"
    using detach_queued [of t n run c] r n by (auto simp: runs_def)
  then show ?thesis by (intro exI [of _ t1]) simp
qed

text \<open>Running a body is coming to its end with the direct result.\<close>

lemma run_coro_direct:
  fixes c :: "('v, 'e) acoro"
  assumes "runs h f t"
  shows "\<exists>t' hs. Option.bind (run_coro c cl run h t) (after (async_body cl run)) =
      Option.bind (finish cl run h (result_arg (direct c)) t') (after (async_body cl run)) \<and> grown t t' hs (spawned c)"
  using assms
proof (induction c arbitrary: h f t)
  case (Co_return v)
  then have "grown t t [] []" by (simp add: grown_refl runs_def)
  then show ?case by (auto simp: finish_def return_value_def result_arg_def)
next
  case (Co_throw e)
  then have "grown t t [] []" by (simp add: grown_refl runs_def)
  then show ?case by (auto simp: finish_def co_unhandled_exception_def result_arg_def)
next
  case (Co_call c k)
  let ?n = "top_of (world t)" and ?b = "async_body cl run" and ?r = "map_sum id Own (direct c)"
  obtain t0 t1 where 1: "run_coro (Co_call c k) cl run h t = Some (t0, Some ?n)"
      "?b ?n t0 = run_coro c cl run ?n t1" "calling h f k t ?n t1"
    using run_call [OF Co_call.prems refl] by blast
  then have "runs ?n (?n + 2) t1" by (simp add: calling_def)
  then obtain t2 hs where 2: "Option.bind (run_coro c cl run ?n t1) (after ?b) =
      Option.bind (finish cl run ?n (result_arg (direct c)) t2) (after ?b)" "grown t1 t2 hs (spawned c)"
    using Co_call.IH(1) by blast
  obtain t3 t4 where 3: "finish cl run ?n (result_arg (direct c)) t2 = Some (t3, Some h)"
      "?b h t3 = run_coro (k ?r) cl run h t4" "runs h f t4" "grown t t4 hs (spawned c)"
    using call_returns [OF Co_call.prems 1(3) 2(2) result_arg_value] by blast
  obtain t5 hs' where 4: "Option.bind (run_coro (k ?r) cl run h t4) (after ?b) =
      Option.bind (finish cl run h (result_arg (direct (k ?r))) t5) (after ?b)" "grown t4 t5 hs' (spawned (k ?r))"
    using Co_call.IH(2) [OF _ 3(3)] by blast
  have "Option.bind (run_coro (Co_call c k) cl run h t) (after ?b) = coro_resume ?b ?n t0"
    using 1(1) by (simp add: after_def)
  also have "\<dots> = coro_resume ?b h t3"
    using 1(2) 2(1) 3(1) by (simp add: coro_resume_after [of _ ?n]) (simp add: after_def)
  also have "\<dots> = Option.bind (finish cl run h (result_arg (direct (Co_call c k))) t5) (after ?b)"
    using 3(2) 4(1) by (simp add: coro_resume_after)
  finally show ?case using grown_trans [OF 3(4) 4(2)] by auto
next
  case (Co_detach c k)
  obtain t1 where 1: "run_coro (Co_detach c k) cl run h t = run_coro k cl run h t1" "grown t t1 [top_of (world t)] [c]"
    using run_detach [OF Co_detach.prems refl] by blast
  obtain t2 hs where "Option.bind (run_coro k cl run h t1) (after (async_body cl run)) =
      Option.bind (finish cl run h (result_arg (direct k)) t2) (after (async_body cl run))" "grown t1 t2 hs (spawned k)"
    using Co_detach.IH(2) [OF grown_runs [OF Co_detach.prems 1(2)]] by blast
  with 1 grown_trans [OF 1(2)] show ?case by fastforce
qed

text \<open>A suspended coroutine is resumed for the first time.\<close>

lemma run_started:
  assumes at: "frame_at h (world t) = Some \<lparr>fr_future = f, fr_at = At_start c\<rparr>"
    and r: "runs h f (t\<lparr>world := upd_frame h (Some \<lparr>fr_future = f, fr_at = Running\<rparr>) (world t)\<rparr>)" (is "runs h f ?t")
  shows "\<exists>t' hs. coro_resume (async_body cl run) h t =
      Option.bind (finish cl run h (result_arg (direct c)) t') (after (async_body cl run)) \<and> grown ?t t' hs (spawned c)"
proof -
  have "async_body cl run h t = run_coro c cl run h ?t" using at by (simp add: async_body_def set_place_def)
  then have "coro_resume (async_body cl run) h t = Option.bind (run_coro c cl run h ?t) (after (async_body cl run))"
    by (simp add: coro_resume_after)
  with run_coro_direct [OF r, of c cl run] show ?thesis by (simp only:)
qed

subsection \<open>The coroutines that were detached\<close>

definition without :: "handle \<Rightarrow> ('v, 'e) athread \<Rightarrow> ('v, 'e) athread" where
  "without h t = t\<lparr>world := upd_frame h None (world t)\<rparr>"

lemma grown_without:
  assumes g: "grown (t\<lparr>world := upd_frame h x (world t)\<rparr>) t1 hs cs" and h: "h < top_of (world t)"
  shows "grown (without h t) (without h t1) hs cs"
proof -
  have "list_all2 (\<lambda>h' c. frame_at h' (world (without h t1)) = Some \<lparr>fr_future = 0, fr_at = At_start c\<rparr>) hs cs"
  proof (rule list.rel_mono_strong)
    show "list_all2 (\<lambda>h c. frame_at h (world t1) = Some \<lparr>fr_future = 0, fr_at = At_start c\<rparr>) hs cs"
      using g by (simp add: grown_def)
  qed (use g h in \<open>auto simp: grown_def without_def\<close>)
  with g show ?thesis by (auto simp: grown_def same_below_def without_def)
qed

lemma run_queued:
  assumes g: "grown T t (h # q) (c # cs)" and T: "cq T = []" "3 \<le> top_of (world T)"
  shows "\<exists>t' hs. coro_resume (async_body cl run) h (t\<lparr>cq := q\<rparr>) = Some t' \<and> grown T t' (q @ hs) (cs @ spawned c)"
proof -
  let ?t = "t\<lparr>cq := q\<rparr>"
  let ?u = "?t\<lparr>world := upd_frame h (Some \<lparr>fr_future = 0, fr_at = Running\<rparr>) (world ?t)\<rparr>"
  have at: "frame_at h (world ?t) = Some \<lparr>fr_future = 0, fr_at = At_start c\<rparr>" and h: "top_of (world T) \<le> h" "h < top_of (world t)"
    and q: "h \<notin> set q" and top: "top_of (world T) \<le> top_of (world t)" "\<forall>g \<in> set q. g < top_of (world t)"
    using g by (simp_all add: grown_def)
  have q0: "grown T (without h ?t) q cs"
    unfolding grown_def
  proof (intro conjI)
    have "list_all2 (\<lambda>h c. frame_at h (world t) = Some \<lparr>fr_future = 0, fr_at = At_start c\<rparr>) q cs"
      using g by (simp add: grown_def)
    then show "list_all2 (\<lambda>h' c. frame_at h' (world (without h ?t)) = Some \<lparr>fr_future = 0, fr_at = At_start c\<rparr>) q cs"
      by (rule list.rel_mono_strong) (use q in \<open>auto simp: without_def\<close>)
  qed (use g T h in \<open>auto simp: grown_def without_def same_below_def\<close>)
  have "x \<notin> set (h # q) \<and> top_of (world T) \<le> x" if "top_of (world t) \<le> x" for x
    using that h top by fastforce
  then have "runs h 0 ?u"
    using g h top T by (simp add: runs_def grown_def)
  then obtain t1 hs where 1: "coro_resume (async_body cl run) h ?t =
      Option.bind (finish cl run h (result_arg (direct c)) t1) (after (async_body cl run))" "grown ?u t1 hs (spawned c)"
    using run_started [OF at] by blast
  then have "frame_at h (world t1) = Some \<lparr>fr_future = 0, fr_at = Running\<rparr>"
    using h by (simp add: grown_def same_below_def)
  then have "coro_resume (async_body cl run) h ?t = Some (without h t1)"
    using 1(1) by (simp add: finish_detached after_def without_def)
  moreover have "grown (without h ?t) (without h t1) hs (spawned c)"
    using grown_without [OF 1(2)] h by simp
  ultimately show ?thesis using grown_trans [OF q0] by blast
qed

text \<open>
  Flushing the queue runs all of them to their end: each, and each coroutine it detaches, takes
  one round of the loop.
\<close>

lemma flush_detached:
  assumes g: "grown T t hs cs" and T: "cq T = []" "3 \<le> top_of (world T)"
  shows "\<exists>t'. flush_rounds (\<Sum>c \<leftarrow> cs. 1 + workload c) (coro_resume (async_body cl run)) t = Some t' \<and>
    flush_queue (coro_resume (async_body cl run)) t = Some t' \<and> grown T t' [] []"
proof -
  let ?run = "coro_resume (async_body cl run)"
  have "\<exists>t'. flush_rounds n ?run t = Some t' \<and> grown T t' [] []" if "n = (\<Sum>c \<leftarrow> cs. 1 + workload c)" for n
    using that g
  proof (induction n arbitrary: t hs cs)
    case 0
    then have "cs = []" by (cases cs) auto
    with 0(2) show ?case by (simp add: grown_def)
  next
    case (Suc n)
    then obtain c cs' where cs: "cs = c # cs'" by (cases cs) auto
    then obtain h q where hs: "hs = h # q" using Suc.prems(2) by (auto simp: grown_def list_all2_Cons2)
    obtain t' hs' where t': "?run h (t\<lparr>cq := q\<rparr>) = Some t'" "grown T t' (q @ hs') (cs' @ spawned c)"
      using run_queued [OF Suc.prems(2) [unfolded cs hs] T] by blast
    have "n = (\<Sum>c \<leftarrow> cs' @ spawned c. 1 + workload c)" using Suc.prems(1) cs workload_spawned [of c] by simp
    from Suc.IH [OF this t'(2)] obtain t2 where "flush_rounds n ?run t' = Some t2" "grown T t2 [] []" by blast
    moreover have "cq t = h # q" using Suc.prems(2) hs T(1) by (simp add: grown_def)
    ultimately show ?case using t'(1) by simp
  qed
  from this [OF refl] obtain t' where t': "flush_rounds (\<Sum>c \<leftarrow> cs. 1 + workload c) ?run t = Some t'" "grown T t' [] []"
    by blast
  moreover from this have "cq t' = []" using T(1) by (simp add: grown_def)
  ultimately show ?thesis using flush_rounds_flush by blast
qed

text \<open>The end of the coroutine that \<open>start()\<close> runs: nobody waits for its future yet.\<close>

lemma resumed_Nil [simp]: "resumed [] w = w"
  by (rule aworld.equality) simp_all

lemma finish_started:
  assumes "frame_at h (world t) = Some \<lparr>fr_future = f, fr_at = Running\<rparr>" and "f \<noteq> 0"
    and "fut_at f (world t) = Some fut_started"
  shows "finish cl run h x t = Some (without h (t\<lparr>world := upd_fut f (Some (stored x)) (world t)\<rparr>), None)"
proof -
  obtain fu' where fu': "fut_set x (fut_started :: ('a, 'b) future) = Some fu'" "fu'\<lparr>f_awaiter := awaiter_disabled\<rparr> = stored x"
      "f_awaiter fu' = f_awaiter (fut_started :: ('a, 'b) future)"
    using fut_set_result [of "fut_started :: ('a, 'b) future" x] by (auto simp: fut_started_def)
  then have "fut_resolve cl f (upd_fut f (Some fu') (world t)) = Some ([], upd_fut f (Some (stored x)) (world t))"
    using fut_resolve_result [of f "upd_fut f (Some fu') (world t)" fu' "[]" cl]
    by (simp add: plain_def handles_of_def fut_started_def)
  then show ?thesis using assms fu'
    by (simp add: finish_def co_resolve_def co_end_def co_final_suspend_def discard_handles_def without_def)
qed

lemma upd_frame_fut: "upd_frame h x (upd_fut f y s) = upd_fut f y (upd_frame h x s)"
  by (simp add: upd_frame_def upd_user_def upd_fut_def)

lemma grown_upd_fut:
  assumes "grown t t1 hs cs" and "f < top_of (world t)"
  shows "grown (t\<lparr>world := upd_fut f x (world t)\<rparr>) (t1\<lparr>world := upd_fut f x (world t1)\<rparr>) hs cs"
  using assms by (auto simp: grown_def same_below_def)

section \<open>Properties\<close>

text \<open>
  The state in which \<open>start()\<close> is called: no queue is active, \<open>b\<close> holds a coroutine with the
  body \<open>c\<close> that was not started, and nothing exists from the first free address on.
\<close>

definition startable :: "ptr \<Rightarrow> handle \<Rightarrow> ('v, 'e) acoro \<Rightarrow> ptr \<Rightarrow> ptr \<Rightarrow> ('v, 'e) athread \<Rightarrow> bool" where
  "startable b h c f p t \<longleftrightarrow>
     \<not> active t \<and> cq t = [] \<and> 3 \<le> top_of (world t) \<and> b < top_of (world t) \<and> f < top_of (world t) \<and> f \<noteq> nullptr \<and>
     obj_at b (world t) = Some h \<and> h \<noteq> nullptr \<and> h < top_of (world t) \<and>
     frame_at h (world t) = Some \<lparr>fr_future = nullptr, fr_at = At_start c\<rparr> \<and>
     (\<forall>x \<ge> top_of (world t). fut_at x (world t) = None \<and> obj_at x (world t) = None \<and> frame_at x (world t) = None)"

text \<open>
  C2. Starting an \<open>async\<close> coroutine from ordinary code resolves the returned future with
  what the body means when every \<open>co_await\<close> of a coroutine is read as a call, an
  exception of an awaited coroutine being thrown at the \<open>co_await\<close>. It returns, also all
  coroutines detached on the way have ended then, no frame is left and everything else is
  as it was.
\<close>

theorem async_is_a_call:
  assumes "startable b h c f p t"
  shows "\<exists>t'. async_start cl (coro_resume (async_body cl run)) b f p t = Some t' \<and>
    fut_at f (world t') = Some (stored (result_arg (direct c))) \<and> \<not> active t' \<and> cq t' = [] \<and>
    obj_at b (world t') = Some nullptr \<and> prom_at p (world t') = None \<and>
    (\<forall>g. g \<noteq> h \<longrightarrow> frame_at g (world t') = frame_at g (world t)) \<and> frame_at h (world t') = None \<and>
    (\<forall>g. g \<noteq> f \<longrightarrow> fut_at g (world t') = fut_at g (world t)) \<and>
    (\<forall>d. d \<noteq> b \<longrightarrow> obj_at d (world t') = obj_at d (world t))"
proof -
  let ?run = "coro_resume (async_body cl run)"
  let ?s1 = "upd_obj b (Some 0) (upd_frame h (Some \<lparr>fr_future = f, fr_at = At_start c\<rparr>)
      (upd_prom p (Some 0) (upd_prom p (Some f) (upd_fut f (Some fut_started) (world t)))))"
  let ?t1 = "t\<lparr>world := ?s1, active := True\<rparr>"
  let ?u = "?t1\<lparr>world := upd_frame h (Some \<lparr>fr_future = f, fr_at = Running\<rparr>) (world ?t1)\<rparr>"
  let ?x = "stored (result_arg (direct c))"
  let ?T = "without h (?t1\<lparr>world := upd_fut f (Some ?x) (world ?t1)\<rparr>)"
  have st: "\<not> active t" "cq t = []" "3 \<le> top_of (world t)" "b < top_of (world t)" "f < top_of (world t)" "f \<noteq> 0"
      "obj_at b (world t) = Some h" "h \<noteq> 0" "h < top_of (world t)"
      "frame_at h (world t) = Some \<lparr>fr_future = 0, fr_at = At_start c\<rparr>"
    and fresh: "\<And>x. top_of (world t) \<le> x \<Longrightarrow>
      fut_at x (world t) = None \<and> obj_at x (world t) = None \<and> frame_at x (world t) = None"
    using assms by (simp_all add: startable_def)
  have s: "start_promise b p (upd_prom p (Some f) (upd_fut f (Some fut_started) (world t))) = Some (h, ?s1)"
    using st by (simp add: start_promise_def start_coro_def claim_def)
  have at1: "frame_at h (world ?t1) = Some \<lparr>fr_future = f, fr_at = At_start c\<rparr>" by simp
  have r: "runs h f ?u" using st fresh by (simp add: runs_def)
  obtain t2 hs where 2: "?run h ?t1 = Option.bind (finish cl run h (result_arg (direct c)) t2) (after (async_body cl run))"
      "grown ?u t2 hs (spawned c)"
    using run_started [OF at1 r, of cl run] by blast
  then have "frame_at h (world t2) = Some \<lparr>fr_future = f, fr_at = Running\<rparr>" "fut_at f (world t2) = Some fut_started"
    using st by (simp_all add: grown_def same_below_def)
  then have 3: "?run h ?t1 = Some (without h (t2\<lparr>world := upd_fut f (Some ?x) (world t2)\<rparr>))"
    using 2(1) st(6) by (simp add: finish_started after_def)
  have "grown (without h ?t1) (without h t2) hs (spawned c)" using grown_without [OF 2(2)] st(9) by simp
  from grown_upd_fut [OF this, of f "Some ?x"]
  have "grown ?T (without h (t2\<lparr>world := upd_fut f (Some ?x) (world t2)\<rparr>)) hs (spawned c)"
    using st(5) by (simp add: without_def upd_frame_fut)
  from flush_detached [OF this] obtain t3 where
    4: "flush_queue ?run (without h (t2\<lparr>world := upd_fut f (Some ?x) (world t2)\<rparr>)) = Some t3" "grown ?T t3 [] []"
    using st by (auto simp: without_def)
  let ?t4 = "t3\<lparr>active := False, world := upd_prom p None (world t3)\<rparr>"
  have "install_queue_and_resume ?run h (t\<lparr>world := ?s1\<rparr>) = Some (t3\<lparr>active := False\<rparr>)"
    using 3 4(1) st(1) by (simp add: install_queue_and_resume_def install_queue_and_call_def)
  moreover have "prom_at p (world t3) = Some 0" using 4(2) by (simp add: grown_def same_below_def without_def)
  ultimately have start: "async_start cl ?run b f p t = Some ?t4"
    using s st(1) by (simp add: async_start_def fut_construct_def is_active_def promise_empty_result discard_handles_def)
  have below: "same_below (top_of (world t)) {} (world ?T) (world t3)" and q: "cq t3 = []"
    and above: "\<And>x. top_of (world t) \<le> x \<Longrightarrow> fut_at x (world t3) = None \<and> obj_at x (world t3) = None \<and> frame_at x (world t3) = None"
    using 4(2) st(2) by (simp_all add: grown_def without_def)
  have "fut_at g (world ?t4) = (if g = f then Some ?x else fut_at g (world t)) \<and>
      frame_at g (world ?t4) = (if g = h then None else frame_at g (world t)) \<and>
      obj_at g (world ?t4) = (if g = b then Some 0 else obj_at g (world t))" for g
  proof (cases "g < top_of (world t)")
    case True
    with below show ?thesis by (simp add: same_below_def without_def)
  next
    case False
    with above fresh st show ?thesis by simp
  qed
  with start q show ?thesis by simp
qed

definition async_example :: "(nat, unit) athread" where
  "async_example = \<lparr>active = False, cq = [], world =
     async_new 3 4 (Co_call (Co_throw (User ())) (\<lambda>r. case r of Inl e \<Rightarrow> Co_detach (Co_return 2) (Co_return 7) | Inr v \<Rightarrow> Co_throw Await_canceled))
       \<lparr>a_next = \<lambda>_. 0, a_fn = \<lambda>_. Fn_coro, a_haddr = \<lambda>_. 0, a_flag = \<lambda>_. False,
         client = \<lparr>futs = Map.empty, proms = Map.empty, user = \<lparr>frames = Map.empty, objs = Map.empty, free_from = 7\<rparr>\<rparr>\<rparr>\<rparr>"

theorem async_is_a_call_witness:
  "\<exists>t'. async_start (\<lambda>_ _ _ s. ([], s)) (coro_resume (async_body (\<lambda>_ _ _ s. ([], s)) (\<lambda>_. Some))) 3 5 6 async_example = Some t' \<and>
    fut_at 5 (world t') = Some (fut_set_value 7) \<and> frame_at 4 (world t') = None \<and> cq t' = []"
proof -
  have e: "startable 3 4 (Co_call (Co_throw (User ()))
      (\<lambda>r. case r of Inl e \<Rightarrow> Co_detach (Co_return 2) (Co_return 7) | Inr v \<Rightarrow> Co_throw Await_canceled)) 5 6 async_example"
    by (simp add: startable_def async_example_def async_new_def cocls_store)
  from async_is_a_call [OF e, of "\<lambda>_ _ _ s. ([], s)" "\<lambda>_. Some"] show ?thesis
    by (auto simp: stored_def result_arg_def fut_set_value_def)
qed

text \<open>
  C36. A program that installs a queue and detaches any coroutines in it: the loop that flushes
  the queue ends, after exactly as many rounds as coroutines are detached, by the program or by
  one another; then every one of them has ended and its frame is destroyed, and everything is as
  it was before.
\<close>

primrec detach_all :: "('v, 'e) astore runner \<Rightarrow> ('v, 'e) acoro list \<Rightarrow> ('v, 'e) athread \<Rightarrow> ('v, 'e) athread option" where
  "detach_all run [] t = Some t"
| "detach_all run (c # cs) t = do { t1 \<leftarrow> detach_new run c t; detach_all run cs t1 }"

definition at_rest :: "('v, 'e) athread \<Rightarrow> bool" where
  "at_rest t \<longleftrightarrow> \<not> active t \<and> cq t = [] \<and> 3 \<le> top_of (world t) \<and>
     (\<forall>x \<ge> top_of (world t). fut_at x (world t) = None \<and> obj_at x (world t) = None \<and> frame_at x (world t) = None)"

lemma grown_fresh:
  assumes "grown T t hs cs" and "top_of (world t) \<le> x"
  shows "fut_at x (world t) = None \<and> obj_at x (world t) = None \<and> frame_at x (world t) = None"
proof -
  have "x \<notin> set hs" "top_of (world T) \<le> x" using assms by (auto simp: grown_def)
  with assms(1) show ?thesis by (simp add: grown_def)
qed

lemma detach_all_queued:
  assumes "grown T t hs ds" and "3 \<le> top_of (world T)"
  shows "\<exists>t' hs'. detach_all run cs t = Some t' \<and> grown T t' (hs @ hs') (ds @ cs)"
  using assms(1)
proof (induction cs arbitrary: t hs ds)
  case (Cons c cs)
  have "active t" "3 \<le> top_of (world t)" using Cons.prems assms(2) by (auto simp: grown_def)
  from detach_queued [OF this refl grown_fresh [OF Cons.prems], of run c] obtain t1 where
    t1: "detach_new run c t = Some t1" "grown t t1 [top_of (world t)] [c]" by blast
  from Cons.IH [OF grown_trans [OF Cons.prems t1(2)]] obtain t' hs' where
    "detach_all run cs t1 = Some t'" "grown T t' ((hs @ [top_of (world t)]) @ hs') ((ds @ [c]) @ cs)" by blast
  with t1(1) show ?case by (auto intro: exI [of _ "top_of (world t) # hs'"])
qed (auto intro: exI [of _ "[]"])

theorem detached_coroutines_end:
  assumes "at_rest t"
  shows "\<exists>t1 t'. detach_all (coro_resume (async_body cl run)) cs (t\<lparr>active := True\<rparr>) = Some t1 \<and>
    flush_rounds (\<Sum>c \<leftarrow> cs. 1 + workload c) (coro_resume (async_body cl run)) t1 = Some (t'\<lparr>active := True\<rparr>) \<and>
    install_queue_and_call (coro_resume (async_body cl run))
      (\<lambda>t. map_option (Pair ()) (detach_all (coro_resume (async_body cl run)) cs t)) t = Some ((), t') \<and>
    \<not> active t' \<and> cq t' = [] \<and>
    (\<forall>x. frame_at x (world t') = frame_at x (world t) \<and> fut_at x (world t') = fut_at x (world t) \<and>
       obj_at x (world t') = obj_at x (world t) \<and> prom_at x (world t') = prom_at x (world t))"
proof -
  let ?run = "coro_resume (async_body cl run)" and ?T = "t\<lparr>active := True\<rparr>"
  have T: "\<not> active t" "cq ?T = []" "3 \<le> top_of (world ?T)" "grown ?T ?T [] []"
    using assms by (simp_all add: at_rest_def grown_refl)
  obtain t1 hs where t1: "detach_all ?run cs ?T = Some t1" "grown ?T t1 hs cs"
    using detach_all_queued [OF T(4,3), of ?run cs] by auto
  obtain t2 where t2: "flush_rounds (\<Sum>c \<leftarrow> cs. 1 + workload c) ?run t1 = Some t2" "flush_queue ?run t1 = Some t2" "grown ?T t2 [] []"
    using flush_detached [OF t1(2) T(2,3)] by blast
  let ?t = "t2\<lparr>active := False\<rparr>"
  have same: "frame_at x (world t2) = frame_at x (world t) \<and> fut_at x (world t2) = fut_at x (world t) \<and>
      obj_at x (world t2) = obj_at x (world t) \<and> prom_at x (world t2) = prom_at x (world t)" for x
    using t2(3) assms by (cases "x < top_of (world t)") (auto simp: grown_def same_below_def at_rest_def)
  have "?t\<lparr>active := True\<rparr> = t2" using t2(3) by (cases t2) (simp add: grown_def)
  moreover have "install_queue_and_call ?run (\<lambda>t. map_option (Pair ()) (detach_all ?run cs t)) t = Some ((), ?t)"
    using t1(1) t2(2) T(1) by (simp add: install_queue_and_call_def)
  moreover have "cq ?t = []" using t2(3) T(2) by (simp add: grown_def)
  ultimately show ?thesis using t1(1) t2(1) same by (intro exI [of _ t1] exI [of _ ?t]) simp
qed

text \<open>One that detaches another, and one that awaits one that throws: three rounds.\<close>

theorem detached_coroutines_end_witness:
  "\<exists>t'. install_queue_and_call (coro_resume (async_body (\<lambda>_ _ _ s. ([], s)) (\<lambda>_. Some)))
      (\<lambda>t. map_option (Pair ()) (detach_all (coro_resume (async_body (\<lambda>_ _ _ s. ([], s)) (\<lambda>_. Some)))
        [Co_detach (Co_return 2) (Co_return 7), Co_call (Co_throw (User ())) (\<lambda>_. Co_return 1)] t)) async_example = Some ((), t') \<and>
    cq t' = [] \<and> frame_at 4 (world t') = frame_at 4 (world async_example) \<and> frame_at 7 (world t') = None"
proof -
  have r: "at_rest async_example" and n: "frame_at 7 (world async_example) = None"
    by (simp_all add: at_rest_def async_example_def async_new_def cocls_store)
  from detached_coroutines_end [OF r, of "\<lambda>_ _ _ s. ([], s)" "\<lambda>_. Some"
      "[Co_detach (Co_return 2) (Co_return 7), Co_call (Co_throw (User ())) (\<lambda>_. Co_return 1)]"] n
  show ?thesis by auto
qed

end
