(* ===== verification/Callback_Awaiter.thy ===== *)
theory Callback_Awaiter
  imports Async
begin

section \<open>callback\_await: a coroutine that awaits and calls a function\<close>

text \<open>
  \<open>callback_awaiter.h\<close>. The coroutine constructs what is to be awaited, awaits it and calls the
  function with an \<open>await_result\<close>: a pointer to the value, or null while an exception is being
  handled, which \<open>get\<close> throws again. The function is a parameter; it gets the exception that
  is being handled and says whether it throws.
\<close>

subsection \<open>The result\<close>

datatype 'v await_result =
    Await_value 'v
  | Await_nothing

text \<open>\<open>throw;\<close> without an exception terminates the program.\<close>

definition ar_get :: "'e exc option \<Rightarrow> 'v await_result \<Rightarrow> ('e exc + 'v) option" where
  "ar_get cur r =
     (case r of
        Await_value v \<Rightarrow> Some (Inr v)
      | Await_nothing \<Rightarrow> map_option Inl cur)"

definition ar_valid :: "'v await_result \<Rightarrow> bool" where
  "ar_valid r \<longleftrightarrow> r \<noteq> Await_nothing"

type_synonym ('v, 'e, 'w) callback = "'e exc option \<Rightarrow> 'v await_result \<Rightarrow> 'w \<Rightarrow> ('e exc option \<times> 'w) option"

subsection \<open>The coroutine\<close>

text \<open>
  The handler. An exception that leaves it goes to \<open>unhandled_exception\<close>, and the coroutine,
  which is detached, has no future that takes it.
\<close>

definition callback_catch :: "('v, 'e, 'w) callback \<Rightarrow> 'e exc \<Rightarrow> 'w \<Rightarrow> 'w option" where
  "callback_catch fn e w = map_option snd (fn (Some e) Await_nothing w)"

definition callback_body :: "('v, 'e, 'w) callback \<Rightarrow> 'e exc + 'v \<Rightarrow> 'w \<Rightarrow> 'w option" where
  "callback_body fn r w =
     (case r of
        Inl e \<Rightarrow> callback_catch fn e w
      | Inr v \<Rightarrow> do {
          (thrown, w') \<leftarrow> fn None (Await_value v) w;
          case thrown of None \<Rightarrow> Some w' | Some e \<Rightarrow> callback_catch fn e w' })"

text \<open>
  The coroutine with the frame \<open>h\<close> over a future \<open>f\<close>, from \<open>detach\<close> to where it suspends
  (\<open>True\<close>) or ends, and from its resumption to its end, where the future is destroyed with
  the frame.
\<close>

definition callback_end ::
    "('v reference, 'e, ('v, 'e, 'u) fstore) callback \<Rightarrow> ptr \<Rightarrow> ('v, 'e, 'u) fstore \<Rightarrow> ('v, 'e, 'u) fstore option" where
  "callback_end fn f s = do {
     fu \<leftarrow> fut_at f s;
     r \<leftarrow> fut_value fu;
     s1 \<leftarrow> callback_body fn r s;
     fut_destroy f s1 }"

definition callback_begin ::
    "bool list \<Rightarrow> ('v reference, 'e, ('v, 'e, 'u) fstore) callback \<Rightarrow> ptr \<Rightarrow> ptr \<Rightarrow> handle \<Rightarrow> ('v, 'e, 'u) fstore \<Rightarrow>
      (bool \<times> ('v, 'e, 'u) fstore) option" where
  "callback_begin sf fn f a h s = do {
     fu \<leftarrow> fut_at f s;
     (susp, fu', s1) \<leftarrow> co_await (fut_ops sf) a h fu (set_next a nullptr s);
     let s2 = upd_fut f (Some fu') s1;
     if susp then Some (True, s2) else map_option (Pair False) (callback_end fn f s2) }"

subsection \<open>One call\<close>

text \<open>What the function sees of a result.\<close>

definition seen_as :: "'e exc + 'v \<Rightarrow> 'e exc option \<times> 'v await_result" where
  "seen_as r = (case r of Inl e \<Rightarrow> (Some e, Await_nothing) | Inr v \<Rightarrow> (None, Await_value v))"

lemma seen_as_get: "seen_as r = (cur, x) \<Longrightarrow> ar_get cur x = Some r"
  by (auto simp: seen_as_def ar_get_def split: sum.splits)

lemma callback_body_once:
  assumes "fn (fst (seen_as r)) (snd (seen_as r)) w = Some (None, w')"
  shows "callback_body fn r w = Some w'"
  using assms by (simp add: callback_body_def callback_catch_def seen_as_def split: sum.splits)

text \<open>A function that throws when it gets the value is called again, with its own exception.\<close>

lemma callback_throwing_twice:
  assumes "fn None (Await_value v) w = Some (Some e, w1)" and "fn (Some e) Await_nothing w1 = Some (x, w2)"
  shows "callback_body fn (Inr v) w = Some w2"
  using assms by (simp add: callback_body_def callback_catch_def)

lemma callback_end_once:
  assumes "fut_at f s = Some (stored (result_arg r))"
    and "fn (fst (seen_as (map_sum id Own r))) (snd (seen_as (map_sum id Own r))) s = Some (None, s')"
  shows "callback_end fn f s = fut_destroy f s'"
proof -
  have "callback_body fn (map_sum id Own r) s = Some s'" using assms(2) by (rule callback_body_once)
  with assms(1) show ?thesis by (simp add: callback_end_def result_arg_value)
qed

text \<open>The await of a pending future suspends.\<close>

lemma co_await_pending:
  assumes aw: "awaited W F s" and f: "f \<in> F" and a: "proper a" "\<And>g. g \<in> F \<Longrightarrow> a \<notin> set (W g)"
  shows "\<exists>fu fu' s'. fut_at f s = Some fu \<and> co_await (fut_ops sf) a h fu (set_next a 0 s) = Some (True, fu', s') \<and>
    awaited (W(f := a # W f)) F (upd_fut f (Some fu') s') \<and> a_fn s' = (a_fn s)(a := Fn_coro) \<and>
    a_haddr s' = (a_haddr s)(a := h) \<and> (\<forall>g. fut_at g s' = fut_at g s)"
proof -
  let ?s = "set_next a 0 s"
  have aw': "awaited W F ?s" using aw a(2) by (rule awaited_set_next)
  obtain fu fu' s' where r: "fut_at f ?s = Some fu" "co_await (fut_ops sf) a h fu ?s = Some (True, fu', s')"
    "awaited (W(f := a # W f)) F (upd_fut f (Some fu') s')" "\<forall>g. fut_at g s' = fut_at g ?s"
    using awaited_await [OF aw' f a, where h = h and sf = sf] by auto
  moreover have "a_fn s' = (a_fn s)(a := Fn_coro) \<and> a_haddr s' = (a_haddr s)(a := h)"
    using r(2) co_await_future_result [of ?s a sf h fu] by (auto simp: set_handle_def fun_eq_iff split: if_splits)
  ultimately show ?thesis by auto
qed

lemma callback_begin_pending:
  assumes "awaited W F s" and "f \<in> F" and "proper a" "\<And>g. g \<in> F \<Longrightarrow> a \<notin> set (W g)"
  shows "\<exists>s1. callback_begin sf fn f a h s = Some (True, s1) \<and> awaited (W(f := a # W f)) F s1 \<and>
    a_fn s1 = (a_fn s)(a := Fn_coro) \<and> a_haddr s1 = (a_haddr s)(a := h)"
  using co_await_pending [OF assms, where h = h and sf = sf] by (auto simp: callback_begin_def)

text \<open>
  The function that \<open>callback_await\<close> registers for a pending future is called once, when the
  promise is set and the coroutine resumed, and its \<open>get\<close> returns the value or throws the
  exception that was set: here \<open>s'\<close> is the state that this one call leaves. Then the
  future is destroyed.
\<close>

theorem callback_await_calls:
  assumes "awaited (\<lambda>_. []) {f} s" and "proper a"
    and "\<And>cur x t. ar_get cur x = Some (map_sum id Own r) \<Longrightarrow> fn cur x t = Some (None, k cur x t)"
    and "\<And>cur x t. fut_at f (k cur x t) = fut_at f t"
  shows "\<exists>s1 s2 s3 cur x. callback_begin sf fn f a h s = Some (True, s1) \<and>
    promise_call cl f (result_arg r) s1 = Some ([h], True, s2) \<and> ar_get cur x = Some (map_sum id Own r) \<and>
    callback_end fn f s2 = Some s3 \<and> s3 = upd_fut f None (k cur x s2)"
proof -
  obtain s1 where s1: "callback_begin sf fn f a h s = Some (True, s1)" "awaited (\<lambda>g. if g = f then [a] else []) {f} s1"
    "a_fn s1 a = Fn_coro" "a_haddr s1 a = h"
    using callback_begin_pending [OF assms(1) _ assms(2), of f sf fn h] by (auto simp: fun_upd_def)
  obtain s2 where s2: "promise_call cl f (result_arg r) s1 = Some ([h], True, s2)" "fut_at f s2 = Some (stored (result_arg r))"
    using awaited_call [OF s1(2), of f cl "result_arg r"] s1(3,4) by (auto simp: handles_of_def)
  let ?p = "seen_as (map_sum id Own r)"
  have g: "ar_get (fst ?p) (snd ?p) = Some (map_sum id Own r)" by (rule seen_as_get) simp
  have "callback_end fn f s2 = fut_destroy f (k (fst ?p) (snd ?p) s2)"
    using s2(2) assms(3) [OF g] by (rule callback_end_once)
  moreover have "\<not> pending (stored (result_arg r))" using stored_ready [of "result_arg r"] by (simp add: pending_def fut_ready_def)
  ultimately have "callback_end fn f s2 = Some (upd_fut f None (k (fst ?p) (snd ?p) s2))"
    using assms(4) s2(2) by (simp add: fut_destroy_def)
  with s1(1) s2(1) g show ?thesis by blast
qed

text \<open>A callback that notes the value in the store of the client, for a future of the value 42.\<close>

definition note_value :: "(nat reference, unit, (nat, unit, nat option) fstore) callback" where
  "note_value cur x s =
     Some (None, case x of Await_value (Own v) \<Rightarrow> s\<lparr>client := (client s)\<lparr>user := Some v\<rparr>\<rparr> | _ \<Rightarrow> s)"

definition one_pending :: "(nat, unit, nat option) fstore" where
  "one_pending = \<lparr>a_next = \<lambda>_. 0, a_fn = \<lambda>_. Fn_coro, a_haddr = \<lambda>_. 0, a_flag = \<lambda>_. False,
     client = \<lparr>futs = [5 \<mapsto> fut_started], proms = Map.empty, user = None\<rparr>\<rparr>"

theorem callback_await_calls_witness:
  "\<exists>s1 s2 s3. callback_begin [] note_value 5 9 7 one_pending = Some (True, s1) \<and>
    promise_call (\<lambda>_ _ _ w. ([], w)) 5 (Arg_value 42) s1 = Some ([7], True, s2) \<and>
    callback_end note_value 5 s2 = Some s3 \<and> user (client s3) = Some 42"
proof -
  have aw: "awaited (\<lambda>_. []) {5} one_pending"
    by (simp add: awaited_def one_pending_def fut_at_def fut_started_def pending_def plain_def)
  let ?k = "\<lambda>(cur :: unit exc option) x (s :: (nat, unit, nat option) fstore).
    case x of Await_value (Own v) \<Rightarrow> s\<lparr>client := (client s)\<lparr>user := Some v\<rparr>\<rparr> | _ \<Rightarrow> s"
  have "\<exists>s1 s2 s3 cur x. callback_begin [] note_value 5 9 7 one_pending = Some (True, s1) \<and>
      promise_call (\<lambda>_ _ _ w. ([], w)) 5 (result_arg (Inr 42)) s1 = Some ([7], True, s2) \<and>
      ar_get cur x = Some (map_sum id Own (Inr 42)) \<and> callback_end note_value 5 s2 = Some s3 \<and> s3 = upd_fut 5 None (?k cur x s2)"
    by (rule callback_await_calls [OF aw])
      (simp_all add: note_value_def fut_at_def proper_def split: await_result.split reference.split)
  then show ?thesis
    by (fastforce simp: result_arg_def ar_get_def upd_fut_def split: await_result.splits option.splits)
qed

end
