(* ===== verification/Scheduler_Start.thy ===== *)
theory Scheduler_Start
  imports Scheduler Callback_Awaiter Threads
begin

section \<open>scheduler::start: a program of sleeping coroutines in one thread\<close>

text \<open>
  \<open>start(awt)\<close> of \<open>scheduler.h\<close> runs the scheduler in the current thread until \<open>awt\<close> is
  resolved. The queue of the thread is that of \<open>Coro_Queue\<close>, the schedule and the worker's
  round those of \<open>Scheduler\<close>, the coroutine that awaits \<open>awt\<close> that of \<open>Callback_Awaiter\<close>.

  The program is a parameter: each coroutine sleeps for a list of durations and ends with a
  result. \<open>awt\<close> is one of them, and awaiting it is calling it (\<open>Async\<close>), so the
  coroutine of \<open>callback_await\<close> and it are one handle. A coroutine has one future of
  \<open>sleep_for\<close> and one awaiter at a time, at the addresses \<open>awt_of\<close> of its handle.

  The clock is a parameter \<open>adv\<close>: when time \<open>n\<close> was the last one seen, the next look at the
  clock sees \<open>adv n\<close>.
\<close>

subsection \<open>State\<close>

text \<open>Where a coroutine is: it was not started, it awaits a sleep until a time, it ended.\<close>

datatype coro_place =
    Co_start
  | Co_sleeps int
  | Co_ended

text \<open>
  \<open>sw_exc\<close>, \<open>sw_ret\<close> and \<open>sw_stop\<close> are the local variables \<open>e\<close>, \<open>ret\<close> and \<open>stps\<close> of \<open>start\<close>,
  \<open>sw_begun\<close> says whether the worker coroutine is in its loop. \<open>sw_log\<close> is the history: each
  sleep with the time it was for and the time of its end.
\<close>

record ('v, 'e, 'u) sworld =
  sw_items :: "sch_item list"
  sw_store :: "(unit, 'e, 'u) fstore"
  sw_now :: int
  sw_prog :: "handle \<Rightarrow> int list"
  sw_result :: "handle \<Rightarrow> 'e exc + 'v"
  sw_place :: "handle \<Rightarrow> coro_place"
  sw_begun :: bool
  sw_stop :: bool
  sw_exc :: "'e exc option"
  sw_ret :: "'v option"
  sw_log :: "(handle \<times> int \<times> int) list"

type_synonym ('v, 'e, 'u) sthread = "('v, 'e, 'u) sworld tls"

definition set_place_of :: "handle \<Rightarrow> coro_place \<Rightarrow> ('v, 'e, 'u) sworld \<Rightarrow> ('v, 'e, 'u) sworld" where
  "set_place_of h p w = w\<lparr>sw_place := (sw_place w)(h := p)\<rparr>"

definition read_clock :: "(int \<Rightarrow> int) \<Rightarrow> ('v, 'e, 'u) sworld \<Rightarrow> ('v, 'e, 'u) sworld" where
  "read_clock adv w = w\<lparr>sw_now := adv (sw_now w)\<rparr>"

subsection \<open>The coroutines of the program\<close>

text \<open>The function that \<open>start\<close> gives to \<open>callback_await\<close>.\<close>

definition start_fn :: "('v, 'e, ('v, 'e, 'u) sworld) callback" where
  "start_fn cur x w = do {
     r \<leftarrow> ar_get cur x;
     let w1 = (case r of Inl e \<Rightarrow> w\<lparr>sw_exc := Some e\<rparr> | Inr v \<Rightarrow> w\<lparr>sw_ret := Some v\<rparr>);
     Some (None, w1\<lparr>sw_stop := True\<rparr>) }"

text \<open>The end of a coroutine; \<open>awt\<close> hands its result to the callback.\<close>

definition coro_ends :: "handle \<Rightarrow> handle \<Rightarrow> 'e exc + 'v \<Rightarrow> ('v, 'e, 'u) sworld \<Rightarrow> ('v, 'e, 'u) sworld option" where
  "coro_ends awt h r w =
     (let w1 = set_place_of h Co_ended w in if h = awt then callback_body start_fn r w1 else Some w1)"

text \<open>After an await that is over: the result of the sleep, and the end of its future.\<close>

definition coro_wakes ::
    "handle \<Rightarrow> int \<Rightarrow> ('v, 'e, 'u) sworld \<Rightarrow> (('e exc + unit reference) \<times> ('v, 'e, 'u) sworld) option" where
  "coro_wakes h tp w = do {
     fu \<leftarrow> fut_at (awt_of h) (sw_store w);
     r \<leftarrow> fut_value fu;
     st \<leftarrow> fut_destroy (awt_of h) (sw_store w);
     Some (r, w\<lparr>sw_store := st, sw_log := sw_log w @ [(h, tp, sw_now w)]\<rparr>) }"

text \<open>\<open>co_await sch.sleep_for(dur)\<close>: whether the coroutine suspends, and until when it sleeps.\<close>

definition coro_sleeps ::
    "sch_item heap_ops \<Rightarrow> (int \<Rightarrow> int) \<Rightarrow> handle \<Rightarrow> int \<Rightarrow> ('v, 'e, 'u) sworld \<Rightarrow> (bool \<times> int \<times> ('v, 'e, 'u) sworld) option" where
  "coro_sleeps H adv h dur w = do {
     let w1 = read_clock adv w;
     let f = awt_of h;
     let (_, xs, st) = sleep_for H f (sw_now w1) dur nullptr (sw_items w1) (sw_store w1);
     fu \<leftarrow> fut_at f st;
     (susp, fu', st') \<leftarrow> co_await (fut_ops []) f h fu (set_next f nullptr st);
     Some (susp, sw_now w1 + dur, w1\<lparr>sw_items := xs, sw_store := upd_fut f (Some fu') st'\<rparr>) }"

primrec coro_runs ::
    "int list \<Rightarrow> sch_item heap_ops \<Rightarrow> (int \<Rightarrow> int) \<Rightarrow> handle \<Rightarrow> handle \<Rightarrow> ('v, 'e, 'u) sworld \<Rightarrow> ('v, 'e, 'u) sworld option" where
  "coro_runs [] H adv awt h w = coro_ends awt h (sw_result w h) w"
| "coro_runs (d # ds) H adv awt h w = do {
     (susp, tp, w1) \<leftarrow> coro_sleeps H adv h d w;
     let w2 = w1\<lparr>sw_prog := (sw_prog w1)(h := ds)\<rparr>;
     if susp then Some (set_place_of h (Co_sleeps tp) w2)
     else do {
       (r, w3) \<leftarrow> coro_wakes h tp w2;
       case r of Inl e \<Rightarrow> coro_ends awt h (Inl e) w3 | Inr _ \<Rightarrow> coro_runs ds H adv awt h w3 } }"

definition coro_body :: "sch_item heap_ops \<Rightarrow> (int \<Rightarrow> int) \<Rightarrow> handle \<Rightarrow> handle \<Rightarrow> ('v, 'e, 'u) sworld \<Rightarrow> ('v, 'e, 'u) sworld option" where
  "coro_body H adv awt h w =
     (case sw_place w h of
        Co_start \<Rightarrow> coro_runs (sw_prog w h) H adv awt h w
      | Co_sleeps tp \<Rightarrow> do {
          (r, w1) \<leftarrow> coro_wakes h tp w;
          case r of Inl e \<Rightarrow> coro_ends awt h (Inl e) w1 | Inr _ \<Rightarrow> coro_runs (sw_prog w1 h) H adv awt h w1 }
      | Co_ended \<Rightarrow> None)"

subsection \<open>The worker coroutine\<close>

text \<open>The head of its loop; \<open>None\<close> as a transfer: it ends.\<close>

definition start_head :: "handle \<Rightarrow> ('v, 'e, 'u) sthread \<Rightarrow> (('v, 'e, 'u) sthread \<times> handle option) option" where
  "start_head me t =
     (if sw_stop (world t) then Some (t, None)
      else map_option (\<lambda>(h, t'). (t', Some h)) (pause_suspend me t))"

text \<open>
  What follows the pause. The wait gives the lock away, but there is no other thread that
  would notify: it ends at its time, or when the clock has passed it.
\<close>

definition start_round ::
    "sch_item heap_ops \<Rightarrow> (unit, 'e, 'u) fworld client_fn \<Rightarrow> (int \<Rightarrow> int) \<Rightarrow> ('v, 'e, 'u) sthread \<Rightarrow> ('v, 'e, 'u) sthread option" where
  "start_round H cl adv t = do {
     let w = read_clock adv (world t);
     (hs, wt, xs, st) \<leftarrow> worker_round H cl (sw_now w) (sw_items w) (sw_store w);
     let t1 = fold queue_push hs (t\<lparr>world := w\<lparr>sw_items := xs, sw_store := st\<rparr>\<rparr>);
     Some (case wt of
         None \<Rightarrow> t1
       | Some tp \<Rightarrow> if can_block t1 then t1\<lparr>world := (world t1)\<lparr>sw_now := max tp (adv (sw_now w))\<rparr>\<rparr> else t1) }"

definition sched_worker ::
    "sch_item heap_ops \<Rightarrow> (unit, 'e, 'u) fworld client_fn \<Rightarrow> (int \<Rightarrow> int) \<Rightarrow> handle \<Rightarrow> ('v, 'e, 'u) sthread \<Rightarrow>
      (('v, 'e, 'u) sthread \<times> handle option) option" where
  "sched_worker H cl adv me t =
     (if \<not> sw_begun (world t) then start_head me (t\<lparr>world := (world t)\<lparr>sw_begun := True\<rparr>\<rparr>)
      else if sw_stop (world t) then Some (t, None)
      else Option.bind (start_round H cl adv t) (start_head me))"

subsection \<open>start\<close>

definition start_body ::
    "sch_item heap_ops \<Rightarrow> (unit, 'e, 'u) fworld client_fn \<Rightarrow> (int \<Rightarrow> int) \<Rightarrow> handle \<Rightarrow> handle \<Rightarrow> ('v, 'e, 'u) sworld body" where
  "start_body H cl adv me awt h t =
     (if h = me then sched_worker H cl adv me t
      else map_option (\<lambda>w. (t\<lparr>world := w\<rparr>, None)) (coro_body H adv awt h (world t)))"

text \<open>The result: the exception is thrown, or the value of \<open>ret\<close> returned.\<close>

definition start_value :: "('v, 'e, 'u) sworld \<Rightarrow> ('e exc + 'v) option" where
  "start_value w = (case sw_exc w of Some e \<Rightarrow> Some (Inl e) | None \<Rightarrow> map_option Inr (sw_ret w))"

definition sched_start ::
    "sch_item heap_ops \<Rightarrow> (unit, 'e, 'u) fworld client_fn \<Rightarrow> (int \<Rightarrow> int) \<Rightarrow> handle \<Rightarrow> handle \<Rightarrow> ('v, 'e, 'u) sthread \<Rightarrow>
      (('e exc + 'v) \<times> ('v, 'e, 'u) sthread) option" where
  "sched_start H cl adv me awt t = do {
     let run = coro_resume (start_body H cl adv me awt);
     t1 \<leftarrow> discard_handles run [awt] t;
     (_, t2) \<leftarrow> install_queue_and_call run (\<lambda>u. map_option (Pair ()) (discard_handles run [me] u)) t1;
     r \<leftarrow> start_value (world t2);
     Some (r, t2) }"

text \<open>The coroutines that were detached before.\<close>

definition detach_all ::
    "sch_item heap_ops \<Rightarrow> (unit, 'e, 'u) fworld client_fn \<Rightarrow> (int \<Rightarrow> int) \<Rightarrow> handle \<Rightarrow> handle \<Rightarrow> handle list \<Rightarrow>
      ('v, 'e, 'u) sthread \<Rightarrow> ('v, 'e, 'u) sthread option" where
  "detach_all H cl adv me awt hs t =
     foldl (\<lambda>x h. Option.bind x (discard_handles (coro_resume (start_body H cl adv me awt)) [h])) (Some t) hs"

subsection \<open>The invariant of the program\<close>

text \<open>
  \<open>C\<close> are the coroutines of the program, \<open>R\<close> those that are ready to run. The others that
  wait are the sleepers of the schedule, each with its awaiter at its future.
\<close>

definition sleeping :: "handle set \<Rightarrow> handle set \<Rightarrow> ('v, 'e, 'u) sworld \<Rightarrow> handle set" where
  "sleeping C R w = {h \<in> C. h \<notin> R \<and> (\<exists>tp. sw_place w h = Co_sleeps tp)}"

definition slept_out :: "handle \<Rightarrow> ('v, 'e, 'u) sworld \<Rightarrow> bool" where
  "slept_out h w \<longleftrightarrow> (\<exists>tp. sw_place w h = Co_sleeps tp \<and> tp \<le> sw_now w \<and>
     fut_at (awt_of h) (sw_store w) = Some (stored (Arg_value ())))"

definition prog_ok :: "(sch_item list \<Rightarrow> bool) \<Rightarrow> handle set \<Rightarrow> handle set \<Rightarrow> ('v, 'e, 'u) sworld \<Rightarrow> bool" where
  "prog_ok heap C R w \<longleftrightarrow>
     heap (sw_items w) \<and> one_each (live (sw_items w)) \<and> awaited (\<lambda>f. [f]) (awt_of ` sleeping C R w) (sw_store w) \<and>
     (\<forall>h \<in> sleeping C R w. a_fn (sw_store w) (awt_of h) = Fn_coro \<and> a_haddr (sw_store w) (awt_of h) = h \<and>
       (\<exists>x. x \<in># live (sw_items w) \<and> i_p x = awt_of h)) \<and>
     (\<forall>x. x \<in># live (sw_items w) \<longrightarrow> (\<exists>h \<in> sleeping C R w. i_p x = awt_of h \<and> sw_place w h = Co_sleeps (i_tp x))) \<and>
     (\<forall>h \<in> R. sw_place w h = Co_start \<or> slept_out h w)"

lemma prog_okD:
  assumes "prog_ok heap C R w"
  shows "heap (sw_items w)" "one_each (live (sw_items w))" "awaited (\<lambda>f. [f]) (awt_of ` sleeping C R w) (sw_store w)"
    "h \<in> sleeping C R w \<Longrightarrow> a_fn (sw_store w) (awt_of h) = Fn_coro"
    "h \<in> sleeping C R w \<Longrightarrow> a_haddr (sw_store w) (awt_of h) = h"
    "h \<in> sleeping C R w \<Longrightarrow> \<exists>x. x \<in># live (sw_items w) \<and> i_p x = awt_of h"
    "x \<in># live (sw_items w) \<Longrightarrow> \<exists>h \<in> sleeping C R w. i_p x = awt_of h \<and> sw_place w h = Co_sleeps (i_tp x)"
    "h \<in> R \<Longrightarrow> sw_place w h = Co_start \<or> slept_out h w"
  using assms unfolding prog_ok_def by blast+

lemma prog_okI:
  assumes "heap (sw_items w)" "one_each (live (sw_items w))" "awaited (\<lambda>f. [f]) (awt_of ` sleeping C R w) (sw_store w)"
    "\<And>h. h \<in> sleeping C R w \<Longrightarrow> a_fn (sw_store w) (awt_of h) = Fn_coro"
    "\<And>h. h \<in> sleeping C R w \<Longrightarrow> a_haddr (sw_store w) (awt_of h) = h"
    "\<And>h. h \<in> sleeping C R w \<Longrightarrow> \<exists>x. x \<in># live (sw_items w) \<and> i_p x = awt_of h"
    "\<And>x. x \<in># live (sw_items w) \<Longrightarrow> \<exists>h \<in> sleeping C R w. i_p x = awt_of h \<and> sw_place w h = Co_sleeps (i_tp x)"
    "\<And>h. h \<in> R \<Longrightarrow> sw_place w h = Co_start \<or> slept_out h w"
  shows "prog_ok heap C R w"
  using assms unfolding prog_ok_def by blast

text \<open>What is printed and returned.\<close>

definition out_ok :: "handle \<Rightarrow> ('v, 'e, 'u) sworld \<Rightarrow> bool" where
  "out_ok awt w \<longleftrightarrow>
     (\<forall>e \<in> set (sw_log w). fst (snd e) \<le> snd (snd e)) \<and> (sw_stop w \<longleftrightarrow> sw_place w awt = Co_ended) \<and>
     (if sw_stop w then start_value w = Some (sw_result w awt) else sw_exc w = None \<and> sw_ret w = None)"

lemma sleeping_simps [simp]:
  "sleeping C R (w\<lparr>sw_items := xs\<rparr>) = sleeping C R w" "sleeping C R (w\<lparr>sw_store := st\<rparr>) = sleeping C R w"
  "sleeping C R (w\<lparr>sw_now := n\<rparr>) = sleeping C R w" "sleeping C R (w\<lparr>sw_prog := p\<rparr>) = sleeping C R w"
  "sleeping C R (w\<lparr>sw_log := l\<rparr>) = sleeping C R w"
  by (simp_all add: sleeping_def)

lemma start_value_simps [simp]:
  "start_value (w\<lparr>sw_items := xs\<rparr>) = start_value w" "start_value (w\<lparr>sw_store := st\<rparr>) = start_value w"
  "start_value (w\<lparr>sw_now := n\<rparr>) = start_value w" "start_value (w\<lparr>sw_prog := p\<rparr>) = start_value w"
  "start_value (w\<lparr>sw_log := l\<rparr>) = start_value w" "start_value (w\<lparr>sw_begun := b\<rparr>) = start_value w"
  by (simp_all add: start_value_def split: option.split)

lemma place_simps [simp]:
  "sw_items (set_place_of h p w) = sw_items w" "sw_store (set_place_of h p w) = sw_store w" "sw_now (set_place_of h p w) = sw_now w"
  "sw_prog (set_place_of h p w) = sw_prog w" "sw_result (set_place_of h p w) = sw_result w"
  "sw_place (set_place_of h p w) = (sw_place w)(h := p)" "sw_begun (set_place_of h p w) = sw_begun w"
  "sw_stop (set_place_of h p w) = sw_stop w" "sw_exc (set_place_of h p w) = sw_exc w" "sw_ret (set_place_of h p w) = sw_ret w"
  "sw_log (set_place_of h p w) = sw_log w" "start_value (set_place_of h p w) = start_value w"
  by (simp_all add: set_place_of_def start_value_def split: option.split)

lemma sleeping_asleep: "h \<in> C \<Longrightarrow> h \<notin> R \<Longrightarrow> sleeping C R (set_place_of h (Co_sleeps tp) w) = insert h (sleeping C R w)"
  by (auto simp: sleeping_def)

lemma sleeping_ended: "sleeping C R (set_place_of h Co_ended w) = sleeping C R w - {h}"
  by (auto simp: sleeping_def)

lemma sleeping_start: "sleeping C R (set_place_of h Co_start w) = sleeping C R w - {h}"
  by (auto simp: sleeping_def)

text \<open>A coroutine that runs is neither ready nor asleep.\<close>

lemma prog_ok_run:
  assumes ok: "prog_ok heap C R w" and h: "h \<in> R"
  shows "prog_ok heap C (R - {h}) (set_place_of h Co_ended w)"
proof -
  note D = prog_okD [OF ok]
  have s: "sleeping C (R - {h}) (set_place_of h Co_ended w) = sleeping C R w"
    using h by (auto simp: sleeping_def)
  have out: "h \<notin> sleeping C R w" using h by (simp add: sleeping_def)
  show ?thesis
  proof (rule prog_okI, unfold s place_simps)
    fix x assume "x \<in># live (sw_items w)"
    then obtain g where "g \<in> sleeping C R w" "i_p x = awt_of g \<and> sw_place w g = Co_sleeps (i_tp x)" using D(7) by blast
    then show "\<exists>g \<in> sleeping C R w. i_p x = awt_of g \<and> ((sw_place w)(h := Co_ended)) g = Co_sleeps (i_tp x)"
      using out by (intro bexI [of _ g]) auto
  next
    fix g assume "g \<in> R - {h}"
    then show "((sw_place w)(h := Co_ended)) g = Co_start \<or> slept_out g (set_place_of h Co_ended w)"
      using D(8) [of g] by (simp add: slept_out_def)
  qed (fact D)+
qed

text \<open>A later time.\<close>

lemma prog_ok_now:
  assumes ok: "prog_ok heap C R w" and n: "sw_now w \<le> n"
  shows "prog_ok heap C R (w\<lparr>sw_now := n\<rparr>)"
proof -
  note D = prog_okD [OF ok]
  have later: "slept_out g w \<Longrightarrow> slept_out g (w\<lparr>sw_now := n\<rparr>)" for g using n by (auto simp: slept_out_def)
  show ?thesis
  proof (rule prog_okI)
    fix g assume "g \<in> R"
    then show "sw_place (w\<lparr>sw_now := n\<rparr>) g = Co_start \<or> slept_out g (w\<lparr>sw_now := n\<rparr>)" using D(8) [of g] later [of g] by auto
  qed (simp_all add: D)
qed

lemma prog_ok_items:
  assumes ok: "prog_ok heap C R w" and "heap xs" and "live xs = live (sw_items w)"
  shows "prog_ok heap C R (w\<lparr>sw_items := xs\<rparr>)"
proof -
  note D = prog_okD [OF ok]
  have same: "slept_out g (w\<lparr>sw_items := xs\<rparr>) \<longleftrightarrow> slept_out g w" for g by (simp add: slept_out_def)
  show ?thesis
  proof (rule prog_okI)
    fix g assume "g \<in> R"
    then show "sw_place (w\<lparr>sw_items := xs\<rparr>) g = Co_start \<or> slept_out g (w\<lparr>sw_items := xs\<rparr>)" using D(8) [of g] same by simp
  qed (simp_all add: D assms)
qed

text \<open>A coroutine reads the result of its sleep, and its future ends.\<close>

lemma coro_wakes_ok:
  assumes ok: "prog_ok heap C R w" and h: "h \<in> R" and p: "sw_place w h = Co_sleeps tp"
  shows "\<exists>w'. coro_wakes h tp w = Some (Inr (Own ()), w') \<and> prog_ok heap C (R - {h}) (set_place_of h Co_ended w') \<and>
    w' = w\<lparr>sw_store := upd_fut (awt_of h) None (sw_store w), sw_log := sw_log w @ [(h, tp, sw_now w)]\<rparr> \<and> tp \<le> sw_now w"
proof -
  let ?v = "set_place_of h Co_ended w" and ?st = "upd_fut (awt_of h) None (sw_store w)"
  let ?w = "w\<lparr>sw_store := ?st, sw_log := sw_log w @ [(h, tp, sw_now w)]\<rparr>"
  have f: "fut_at (awt_of h) (sw_store w) = Some (stored (Arg_value ()))" "tp \<le> sw_now w"
    using prog_okD(8) [OF ok h] p by (auto simp: slept_out_def)
  have "coro_wakes h tp w = Some (Inr (Own ()), ?w)"
    using f(1) by (simp add: coro_wakes_def fut_destroy_def fut_value_def stored_def pending_def)
  moreover have "prog_ok heap C (R - {h}) (set_place_of h Co_ended ?w)"
  proof -
    note D = prog_okD [OF prog_ok_run [OF ok h]]
    have s: "sleeping C (R - {h}) (set_place_of h Co_ended ?w) = sleeping C (R - {h}) ?v" by (simp add: sleeping_def)
    have out: "g \<in> sleeping C (R - {h}) ?v \<Longrightarrow> g \<noteq> h" for g by (auto simp: sleeping_def)
    have "awaited (\<lambda>f. [f]) (awt_of ` sleeping C (R - {h}) ?v) ?st"
      using D(3) by (rule awaited_cong) (use out in auto)
    moreover have "sw_place (set_place_of h Co_ended ?w) g = Co_start \<or> slept_out g (set_place_of h Co_ended ?w)" if "g \<in> R - {h}" for g
      using that D(8) [OF that] by (auto simp: slept_out_def)
    ultimately show ?thesis by (intro prog_okI) (simp_all add: s D [simplified])
  qed
  ultimately show ?thesis using f(2) by blast
qed

text \<open>The end of a coroutine.\<close>

lemma start_fn_result:
  "\<exists>w'. callback_body start_fn r w = Some w' \<and>
     w' = (case r of Inl e \<Rightarrow> w\<lparr>sw_exc := Some e\<rparr> | Inr v \<Rightarrow> w\<lparr>sw_ret := Some v\<rparr>)\<lparr>sw_stop := True\<rparr>"
proof -
  let ?w = "(case r of Inl e \<Rightarrow> w\<lparr>sw_exc := Some e\<rparr> | Inr v \<Rightarrow> w\<lparr>sw_ret := Some v\<rparr>)\<lparr>sw_stop := True\<rparr>"
  have "start_fn (fst (seen_as r)) (snd (seen_as r)) w = Some (None, ?w)"
    using seen_as_get [of r "fst (seen_as r)" "snd (seen_as r)"] by (simp add: start_fn_def Let_def)
  then have "callback_body start_fn r w = Some ?w" by (rule callback_body_once)
  then show ?thesis by blast
qed

text \<open>What a run of \<open>h\<close> leaves alone.\<close>

definition others_same :: "handle \<Rightarrow> ('v, 'e, 'u) sworld \<Rightarrow> ('v, 'e, 'u) sworld \<Rightarrow> bool" where
  "others_same h w w' \<longleftrightarrow>
     (\<forall>g. g \<noteq> h \<longrightarrow> sw_place w' g = sw_place w g \<and> sw_prog w' g = sw_prog w g) \<and> sw_now w \<le> sw_now w' \<and>
     live (sw_items w) \<subseteq># live (sw_items w') \<and> sw_begun w' = sw_begun w \<and> sw_result w' = sw_result w"

lemma others_sameD:
  assumes "others_same h w w'"
  shows "g \<noteq> h \<Longrightarrow> sw_place w' g = sw_place w g" "g \<noteq> h \<Longrightarrow> sw_prog w' g = sw_prog w g" "sw_now w \<le> sw_now w'"
    "live (sw_items w) \<subseteq># live (sw_items w')" "sw_begun w' = sw_begun w" "sw_result w' = sw_result w"
  using assms by (simp_all add: others_same_def)

lemma others_same_trans:
  assumes "others_same h w w1" and "others_same h w1 w2"
  shows "others_same h w w2"
  using assms order_trans [of "sw_now w" "sw_now w1" "sw_now w2"]
    subset_mset.order_trans [of "live (sw_items w)" "live (sw_items w1)" "live (sw_items w2)"]
  unfolding others_same_def by simp

lemma prog_ok_cong:
  assumes "prog_ok heap C R v" and "sw_items w = sw_items v" "sw_store w = sw_store v" "sw_now w = sw_now v" "sw_place w = sw_place v"
  shows "prog_ok heap C R w"
proof -
  have "sleeping C R w = sleeping C R v" using assms(5) by (simp add: sleeping_def)
  moreover have "slept_out g w \<longleftrightarrow> slept_out g v" for g using assms by (simp add: slept_out_def)
  ultimately show ?thesis using assms unfolding prog_ok_def by simp
qed

lemma coro_ends_ok:
  assumes ok: "prog_ok heap C R (set_place_of h Co_ended w)" and out: "out_ok awt w" "sw_place w h \<noteq> Co_ended"
    and r: "h = awt \<Longrightarrow> r = sw_result w h"
  shows "\<exists>w'. coro_ends awt h r w = Some w' \<and> prog_ok heap C R w' \<and> out_ok awt w' \<and> others_same h w w' \<and>
    sw_log w' = sw_log w \<and> sw_place w' h = Co_ended \<and> sw_prog w' = sw_prog w"
proof (cases "h = awt")
  case False
  then have "out_ok awt (set_place_of h Co_ended w)" using out by (auto simp: out_ok_def)
  with False ok show ?thesis by (simp add: coro_ends_def others_same_def)
next
  case True
  let ?v = "set_place_of h Co_ended w"
  obtain w' where w': "callback_body start_fn r ?v = Some w'"
    "w' = (case r of Inl e \<Rightarrow> ?v\<lparr>sw_exc := Some e\<rparr> | Inr x \<Rightarrow> ?v\<lparr>sw_ret := Some x\<rparr>)\<lparr>sw_stop := True\<rparr>"
    using start_fn_result [of r ?v] by blast
  have "prog_ok heap C R w'" by (rule prog_ok_cong [OF ok]) (use w'(2) in \<open>auto split: sum.splits\<close>)
  moreover have "out_ok awt w'"
    using w'(2) out r True by (cases "sw_result w h") (auto simp: out_ok_def start_value_def)
  moreover have "others_same h w w'" "sw_place w' h = Co_ended" "sw_log w' = sw_log w" "sw_prog w' = sw_prog w"
    using w'(2) by (auto simp: others_same_def split: sum.splits)
  ultimately show ?thesis using True w'(1) by (simp add: coro_ends_def)
qed

context sch_heap
begin

lemma coro_sleeps_ok:
  assumes ok: "prog_ok heap C R (set_place_of h Co_ended w)" and h: "h \<in> C" "h \<notin> R" and adv: "sw_now w \<le> adv (sw_now w)"
  shows "\<exists>w' xs st. coro_sleeps H adv h d w = Some (True, sw_now w' + d, w') \<and>
    prog_ok heap C R (set_place_of h (Co_sleeps (sw_now w' + d)) w') \<and>
    w' = w\<lparr>sw_now := adv (sw_now w), sw_items := xs, sw_store := st\<rparr> \<and> live (sw_items w) \<subseteq># live xs"
proof -
  let ?v = "set_place_of h Co_ended w" and ?n = "adv (sw_now w)"
  let ?f = "awt_of h" and ?tp = "adv (sw_now w) + d" and ?st = "upd_fut (awt_of h) (Some fut_started) (sw_store w)"
  let ?S = "sleeping C R ?v"
  note D = prog_okD [OF ok, simplified]
  have S: "g \<in> ?S \<Longrightarrow> g \<noteq> h" for g by (auto simp: sleeping_def)
  then have f: "?f \<notin> awt_of ` ?S" by auto
  obtain ntf xs where sc: "schedule H 0 ?f ?tp (sw_items w) = (ntf, xs)" by (metis surj_pair)
  note X = schedule_ok [OF D(1), of ?f 0 ?tp, unfolded sc, simplified]
  let ?W = "(\<lambda>f. [f])(?f := [])"
  have "awaited ?W (insert ?f (awt_of ` ?S)) ?st"
    by (rule awaited_new [OF D(3) f]) simp
  moreover have "?f \<notin> set (?W g)" for g by simp
  moreover have "?W(?f := ?f # ?W ?f) = (\<lambda>f. [f])" by auto
  ultimately obtain fu fu' st' where c: "fut_at ?f ?st = Some fu"
    "co_await (fut_ops []) ?f h fu (set_next ?f 0 ?st) = Some (True, fu', st')"
    "awaited (\<lambda>f. [f]) (insert ?f (awt_of ` ?S)) (upd_fut ?f (Some fu') st')" "a_fn st' = (a_fn (sw_store w))(?f := Fn_coro)"
    "a_haddr st' = (a_haddr (sw_store w))(?f := h)" "\<forall>g. fut_at g st' = fut_at g ?st"
    using co_await_pending [of ?W "insert ?f (awt_of ` ?S)" ?st ?f ?f "[]" h] by auto
  let ?w = "w\<lparr>sw_now := ?n, sw_items := xs, sw_store := upd_fut ?f (Some fu') st'\<rparr>"
  have "coro_sleeps H adv h d w = Some (True, ?tp, ?w)"
    using sc c(1,2) by (simp add: coro_sleeps_def read_clock_def sleep_for_def sleep_until_def Let_def)
  moreover have "prog_ok heap C R (set_place_of h (Co_sleeps ?tp) ?w)"
  proof -
    have s: "sleeping C R (set_place_of h (Co_sleeps ?tp) ?w) = insert h ?S" using h by (auto simp: sleeping_def)
    have one: "one_each (live xs)"
      unfolding X(2)
    proof (rule one_each_add [OF D(2)])
      show "i_p \<lparr>i_tp = ?tp, i_p = ?f, i_ident = 0\<rparr> \<notin> i_p ` set_mset (live (sw_items w))"
        using D(7) S by fastforce
    qed
    have ready: "sw_place (set_place_of h (Co_sleeps ?tp) ?w) g = Co_start \<or> slept_out g (set_place_of h (Co_sleeps ?tp) ?w)" if "g \<in> R" for g
      using D(8) [OF that] h(2) that c(6) adv by (auto simp: slept_out_def)
    have items: "\<exists>g \<in> insert h ?S. i_p x = awt_of g \<and> ((sw_place w)(h := Co_sleeps ?tp)) g = Co_sleeps (i_tp x)" if "x \<in># live xs" for x
    proof (cases "x \<in># live (sw_items w)")
      case True
      with D(7) [OF this] S show ?thesis by fastforce
    next
      case False
      with that X(2) have "x = \<lparr>i_tp = ?tp, i_p = ?f, i_ident = 0\<rparr>" by simp
      then show ?thesis by simp
    qed
    have own: "\<exists>x. x \<in># live xs \<and> i_p x = awt_of g" if "g \<in> insert h ?S" for g
      using that D(6) [of g] X(2) by (cases "g = h") auto
    show ?thesis
      by (rule prog_okI, unfold s) (use X(1) one ready items own c(3-5) D(4,5) in \<open>simp_all, auto\<close>)
  qed
  ultimately show ?thesis using X(2) by (intro exI [of _ ?w] exI [of _ xs] exI [of _ "upd_fut ?f (Some fu') st'"]) simp
qed

lemma coro_runs_ok:
  assumes ok: "prog_ok heap C R (set_place_of h Co_ended w)" and h: "h \<in> C" "h \<notin> R"
    and out: "out_ok awt w" "sw_place w h \<noteq> Co_ended" and adv: "\<And>n. n \<le> adv n"
  shows "\<exists>w'. coro_runs ps H adv awt h w = Some w' \<and> prog_ok heap C R w' \<and> out_ok awt w' \<and> others_same h w w' \<and> sw_log w' = sw_log w \<and>
    (case ps of [] \<Rightarrow> sw_place w' h = Co_ended \<and> sw_prog w' = sw_prog w | d # ds \<Rightarrow> (\<exists>tp. sw_place w' h = Co_sleeps tp) \<and> sw_prog w' h = ds)"
proof (cases ps)
  case Nil
  with coro_ends_ok [OF ok out, of "sw_result w h"] show ?thesis by simp
next
  case (Cons d ds)
  obtain w1 xs st where w1: "coro_sleeps H adv h d w = Some (True, sw_now w1 + d, w1)"
    "prog_ok heap C R (set_place_of h (Co_sleeps (sw_now w1 + d)) w1)"
    "w1 = w\<lparr>sw_now := adv (sw_now w), sw_items := xs, sw_store := st\<rparr>" "live (sw_items w) \<subseteq># live xs"
    using coro_sleeps_ok [where adv = adv and d = d, OF ok h adv] by blast
  let ?w = "set_place_of h (Co_sleeps (sw_now w1 + d)) (w1\<lparr>sw_prog := (sw_prog w1)(h := ds)\<rparr>)"
  have "coro_runs ps H adv awt h w = Some ?w" using Cons w1(1) by (simp add: Let_def)
  moreover have "prog_ok heap C R ?w" by (rule prog_ok_cong [OF w1(2)]) simp_all
  moreover have "out_ok awt ?w" using out w1(3) by (auto simp: out_ok_def)
  moreover have "others_same h w ?w" using w1(3,4) adv by (simp add: others_same_def)
  moreover have "sw_log ?w = sw_log w" using w1(3) by simp
  ultimately show ?thesis using Cons by simp
qed

lemma coro_body_ok:
  assumes ok: "prog_ok heap C R w" and h: "h \<in> R" "R \<subseteq> C" and out: "out_ok awt w" and adv: "\<And>n. n \<le> adv n"
  shows "\<exists>w'. coro_body H adv awt h w = Some w' \<and> prog_ok heap C (R - {h}) w' \<and> out_ok awt w' \<and> others_same h w w' \<and>
    (\<exists>l. sw_log w' = sw_log w @ l \<and> map fst l = (if sw_place w h = Co_start then [] else [h])) \<and>
    (case sw_prog w h of [] \<Rightarrow> sw_place w' h = Co_ended \<and> sw_prog w' h = []
       | d # ds \<Rightarrow> (\<exists>tp. sw_place w' h = Co_sleeps tp) \<and> sw_prog w' h = ds)"
proof -
  have hC: "h \<in> C" "h \<notin> R - {h}" using h by auto
  show ?thesis
  proof (cases "sw_place w h")
    case Co_start
    with coro_runs_ok [OF prog_ok_run [OF ok h(1)] hC out _ adv, of "sw_prog w h"] show ?thesis
      by (auto simp: coro_body_def split: list.splits)
  next
    case (Co_sleeps tp)
    obtain w1 where w1: "coro_wakes h tp w = Some (Inr (Own ()), w1)" "prog_ok heap C (R - {h}) (set_place_of h Co_ended w1)"
      "w1 = w\<lparr>sw_store := upd_fut (awt_of h) None (sw_store w), sw_log := sw_log w @ [(h, tp, sw_now w)]\<rparr>" "tp \<le> sw_now w"
      using coro_wakes_ok [OF ok h(1) Co_sleeps] by blast
    have "out_ok awt w1" using out w1(3,4) by (auto simp: out_ok_def)
    moreover have "sw_place w1 h \<noteq> Co_ended" using w1(3) Co_sleeps by simp
    ultimately obtain w2 where w2: "coro_runs (sw_prog w h) H adv awt h w1 = Some w2" "prog_ok heap C (R - {h}) w2" "out_ok awt w2"
      "others_same h w1 w2" "sw_log w2 = sw_log w1" "case sw_prog w h of [] \<Rightarrow> sw_place w2 h = Co_ended \<and> sw_prog w2 = sw_prog w1
         | d # ds \<Rightarrow> (\<exists>tp. sw_place w2 h = Co_sleeps tp) \<and> sw_prog w2 h = ds"
      using coro_runs_ok [OF w1(2) hC _ _ adv, of awt "sw_prog w h"] by blast
    moreover have "others_same h w w1" using w1(3) by (simp add: others_same_def)
    then have "others_same h w w2" using w2(4) by (rule others_same_trans)
    moreover have "sw_prog w1 h = sw_prog w h" using w1(3) by simp
    moreover have "\<exists>l. sw_log w2 = sw_log w @ l \<and> map fst l = [h]"
      using w1(3) w2(5) by (intro exI [of _ "[(h, tp, sw_now w)]"]) simp
    ultimately show ?thesis using w1(1) Co_sleeps by (auto simp: coro_body_def split: list.splits)
  next
    case Co_ended
    with prog_okD(8) [OF ok h(1)] show ?thesis by (simp add: slept_out_def)
  qed
qed

text \<open>One round of the worker.\<close>

lemma start_round_ok:
  assumes ok: "prog_ok heap C (set (cq t)) (world t)" and a: "active t" and adv: "\<And>n. n \<le> adv n"
  shows "\<exists>t' n xs st hs. start_round H cl adv t = Some t' \<and> active t' \<and>
    world t' = (world t)\<lparr>sw_now := n, sw_items := xs, sw_store := st\<rparr> \<and> sw_now (world t) \<le> n \<and> cq t' = cq t @ hs \<and>
    prog_ok heap C (set (cq t')) (world t') \<and>
    ((\<exists>h \<in> sleeping C (set (cq t)) (world t). hs = [h]) \<or>
     hs = [] \<and> live xs = live (sw_items (world t)) \<and> (\<forall>x. x \<in># live xs \<longrightarrow> sw_now (world t) < i_tp x) \<and>
       (cq t = [] \<longrightarrow> live xs \<noteq> {#} \<longrightarrow> (\<exists>x. x \<in># live xs \<and> i_tp x \<le> n)))"
proof -
  let ?w = "world t"
  let ?n = "adv (sw_now ?w)" and ?R = "set (cq t)"
  let ?w1 = "?w\<lparr>sw_now := ?n\<rparr>"
  have n: "sw_now ?w \<le> ?n" by (rule adv)
  note ok1 = prog_ok_now [OF ok n]
  note D = prog_okD [OF ok1, simplified]
  obtain r ys where r: "get_expired_lk H ?n (sw_items ?w) = Some (r, ys)" "heap ys" "earliest ?n (live (sw_items ?w)) r (live ys)"
    using get_expired_ok [OF D(1)] by blast
  show ?thesis
  proof (cases r)
    case (Expired p)
    then obtain x where x: "x \<in># live (sw_items ?w)" "i_p x = p" "i_tp x \<le> ?n" "live ys = live (sw_items ?w) - {#x#}"
      using r(3) by (auto simp: earliest_def)
    then obtain h where h: "h \<in> sleeping C ?R ?w" "p = awt_of h" "sw_place ?w h = Co_sleeps (i_tp x)" using D(7) by blast
    have "awt_of h \<in> awt_of ` sleeping C ?R ?w" using h(1) by simp
    from D(3) this obtain fu where fu: "fut_at (awt_of h) (sw_store ?w) = Some fu" "f_state fu = Not_value"
      "linked (a_next (sw_store ?w)) (f_awaiter fu) [awt_of h] 0" "plain (sw_store ?w) [awt_of h]" by (rule awaitedE)
    let ?st = "resumed [awt_of h] (upd_fut (awt_of h) (Some (stored (Arg_value ()))) (sw_store ?w))"
    have call: "promise_call cl (awt_of h) (Arg_value ()) (sw_store ?w) = Some ([h], True, ?st)"
      using promise_call_result [OF _ fu] D(4,5) [OF h(1)] by (simp add: handles_of_def)
    let ?w' = "?w\<lparr>sw_now := ?n, sw_items := ys, sw_store := ?st\<rparr>"
    have "start_round H cl adv t = Some (t\<lparr>world := ?w', cq := cq t @ [h]\<rparr>)"
      using r(1) Expired h(2) call by (simp add: start_round_def read_clock_def worker_round_def Let_def queue_push_def)
    moreover have "prog_ok heap C (set (cq t @ [h])) ?w'"
    proof -
      let ?S = "sleeping C ?R ?w"
      have hR: "h \<notin> ?R" using h(1) by (simp add: sleeping_def)
      have s: "sleeping C (set (cq t @ [h])) ?w' = ?S - {h}" by (auto simp: sleeping_def)
      obtain st' where "promise_call cl (awt_of h) (Arg_value ()) (sw_store ?w) = Some (handles_of (sw_store ?w) [awt_of h], True, st')"
        "awaited (\<lambda>f. [f]) (awt_of ` ?S - {awt_of h}) st'"
        using awaited_call [OF D(3), of "awt_of h" cl "Arg_value ()"] h(1) by auto
      moreover have "awt_of ` ?S - {awt_of h} = awt_of ` (?S - {h})" by auto
      ultimately have aw: "awaited (\<lambda>f. [f]) (awt_of ` (?S - {h})) ?st" using call by simp
      have ready: "sw_place ?w' g = Co_start \<or> slept_out g ?w'" if "g \<in> set (cq t @ [h])" for g
        using that D(8) [of g] hR h(3) x(3) by (auto simp: slept_out_def)
      have own: "\<exists>y. y \<in># live ys \<and> i_p y = awt_of g" if g: "g \<in> ?S - {h}" for g
      proof -
        obtain y where "y \<in># live (sw_items ?w)" "i_p y = awt_of g" using D(6) [of g] g by auto
        moreover from this have "y \<noteq> x" using x(2) h(2) g by auto
        ultimately show ?thesis using x(4) by (metis in_diff_neq)
      qed
      have items: "\<exists>g \<in> ?S - {h}. i_p y = awt_of g \<and> sw_place ?w g = Co_sleeps (i_tp y)" if y: "y \<in># live ys" for y
      proof -
        have "i_p x \<noteq> i_p y" using D(2) x(1) y x(4) unfolding one_each_def by simp
        moreover obtain g where "g \<in> ?S" "i_p y = awt_of g \<and> sw_place ?w g = Co_sleeps (i_tp y)"
          using D(7) [of y] y x(4) by (auto dest: in_diffD)
        ultimately show ?thesis using x(2) h(2) by (intro bexI [of _ g]) auto
      qed
      have one: "one_each (live ys)" using one_each_remove [OF D(2)] x(4) by simp
      show ?thesis
        by (rule prog_okI, unfold s) (use r(2) one aw ready own items D(4,5) in \<open>simp_all\<close>)
    qed
    ultimately show ?thesis using a n h(1)
      by (intro exI [of _ "t\<lparr>world := ?w', cq := cq t @ [h]\<rparr>"] exI [of _ ?n] exI [of _ ys] exI [of _ ?st] exI [of _ "[h]"]) simp
  next
    case (Next_time tp)
    have l: "live ys = live (sw_items ?w)" "\<forall>x. x \<in># live ys \<longrightarrow> ?n < i_tp x"
      "live ys \<noteq> {#} \<Longrightarrow> \<exists>x. x \<in># live ys \<and> i_tp x = tp" using r(3) Next_time by (auto simp: earliest_def)
    let ?m = "if cq t = [] then max tp (adv ?n) else ?n"
    let ?w' = "?w\<lparr>sw_now := ?m, sw_items := ys, sw_store := sw_store ?w\<rparr>"
    have m: "?n \<le> ?m" using adv [of ?n] by (simp add: le_max_iff_disj)
    have "start_round H cl adv t = Some (t\<lparr>world := ?w'\<rparr>)"
      using r(1) Next_time a by (simp add: start_round_def read_clock_def worker_round_def Let_def can_block_def)
    moreover have "prog_ok heap C ?R (?w1\<lparr>sw_items := ys, sw_now := ?m\<rparr>)"
      by (rule prog_ok_now [OF prog_ok_items [OF ok1 r(2)]]) (use l(1) m in simp_all)
    then have "prog_ok heap C ?R ?w'" by (rule prog_ok_cong) simp_all
    moreover have "sw_now ?w < i_tp x" if "x \<in># live ys" for x using l(2) that n by fastforce
    moreover have "\<exists>x. x \<in># live ys \<and> i_tp x \<le> ?m" if "cq t = []" "live ys \<noteq> {#}"
      using l(3) [OF that(2)] that(1) by auto
    ultimately show ?thesis using a n m l(1)
      by (intro exI [of _ "t\<lparr>world := ?w'\<rparr>"] exI [of _ ?m] exI [of _ ys] exI [of _ "sw_store ?w"] exI [of _ "[]"]) simp
  qed
qed

lemma start_round_at:
  assumes "cq t = q" and "world t = w" and ok: "prog_ok heap C (set q) w" and a: "active t" and adv: "\<And>n. n \<le> adv n"
  shows "\<exists>t' n xs st hs. start_round H cl adv t = Some t' \<and> active t' \<and>
    world t' = w\<lparr>sw_now := n, sw_items := xs, sw_store := st\<rparr> \<and> sw_now w \<le> n \<and> cq t' = q @ hs \<and>
    prog_ok heap C (set (cq t')) (world t') \<and>
    ((\<exists>h \<in> sleeping C (set q) w. hs = [h]) \<or>
     hs = [] \<and> live xs = live (sw_items w) \<and> (\<forall>x. x \<in># live xs \<longrightarrow> sw_now w < i_tp x) \<and>
       (q = [] \<longrightarrow> live xs \<noteq> {#} \<longrightarrow> (\<exists>x. x \<in># live xs \<and> i_tp x \<le> n)))"
  using start_round_ok [OF _ a adv, of C cl, unfolded assms(1,2), OF ok] .

end

subsection \<open>Termination\<close>

text \<open>What the coroutines still have to do.\<close>

definition coro_work :: "handle set \<Rightarrow> ('v, 'e, 'u) sworld \<Rightarrow> handle \<Rightarrow> nat" where
  "coro_work R w h =
     (case sw_place w h of
        Co_start \<Rightarrow> 6 * length (sw_prog w h) + 3
      | Co_sleeps tp \<Rightarrow> 6 * length (sw_prog w h) + (if h \<in> R then 3 else 6)
      | Co_ended \<Rightarrow> 0)"

definition all_work :: "handle set \<Rightarrow> handle set \<Rightarrow> ('v, 'e, 'u) sworld \<Rightarrow> nat" where
  "all_work C R w = (\<Sum>h \<in> C. coro_work R w h)"

definition overdue :: "('v, 'e, 'u) sworld \<Rightarrow> bool" where
  "overdue w \<longleftrightarrow> (\<exists>x. x \<in># live (sw_items w) \<and> i_tp x \<le> sw_now w)"

definition worker_place :: "handle \<Rightarrow> handle list \<Rightarrow> nat" where
  "worker_place me q = (if me \<notin> set q then 0 else if hd q = me then 2 else 1)"

definition start_left :: "handle set \<Rightarrow> handle \<Rightarrow> ('v, 'e, 'u) sthread \<Rightarrow> nat" where
  "start_left C me t =
     all_work C (set (cq t) - {me}) (world t) + (if overdue (world t) then 0 else 1) + worker_place me (cq t) +
     (if sw_begun (world t) then 0 else 1)"

lemma all_work_less:
  assumes "finite C" and "h \<in> C" and "\<And>g. g \<in> C \<Longrightarrow> g \<noteq> h \<Longrightarrow> coro_work R' w' g = coro_work R w g"
    and "coro_work R' w' h + 3 \<le> coro_work R w h"
  shows "all_work C R' w' + 3 \<le> all_work C R w"
proof -
  have "all_work C R' w' = coro_work R' w' h + (\<Sum>g \<in> C - {h}. coro_work R' w' g)"
    unfolding all_work_def using assms(1,2) by (rule sum.remove)
  moreover have "all_work C R w = coro_work R w h + (\<Sum>g \<in> C - {h}. coro_work R w g)"
    unfolding all_work_def using assms(1,2) by (rule sum.remove)
  moreover have "(\<Sum>g \<in> C - {h}. coro_work R' w' g) = (\<Sum>g \<in> C - {h}. coro_work R w g)"
    by (rule sum.cong) (use assms(3) in auto)
  ultimately show ?thesis using assms(4) by linarith
qed

lemma all_work_cong:
  assumes "sw_place w' = sw_place w" and "sw_prog w' = sw_prog w"
  shows "all_work C R w' = all_work C R w"
  unfolding all_work_def coro_work_def assms ..

lemma work_run:
  assumes C: "finite C" "h \<in> C" and h: "h \<in> R" "sw_place w h \<noteq> Co_ended" and same: "others_same h w w'"
    and new: "case sw_prog w h of [] \<Rightarrow> sw_place w' h = Co_ended \<and> sw_prog w' h = []
       | d # ds \<Rightarrow> (\<exists>tp. sw_place w' h = Co_sleeps tp) \<and> sw_prog w' h = ds"
  shows "all_work C (R - {h}) w' + 3 \<le> all_work C R w"
proof (rule all_work_less [OF C])
  fix g assume g: "g \<noteq> h"
  then have "sw_place w' g = sw_place w g" "sw_prog w' g = sw_prog w g" by (rule others_sameD [OF same])+
  with g show "coro_work (R - {h}) w' g = coro_work R w g" by (simp add: coro_work_def split: coro_place.split)
next
  show "coro_work (R - {h}) w' h + 3 \<le> coro_work R w h"
    using h new by (cases "sw_prog w h"; cases "sw_place w h") (auto simp: coro_work_def)
qed

lemma work_wakes:
  assumes C: "finite C" and h: "h \<in> sleeping C R w" and same: "sw_place w' = sw_place w" "sw_prog w' = sw_prog w"
  shows "all_work C (insert h R) w' + 3 \<le> all_work C R w"
  by (rule all_work_less [OF C, of h]) (use h same in \<open>auto simp: sleeping_def coro_work_def split: coro_place.split\<close>)

text \<open>
  The invariant of the thread: \<open>D\<close> are the coroutines that were started, \<open>rs\<close> are the results
  and \<open>p0\<close> the programs at the begin. While \<open>awt\<close> has not ended (\<open>b\<close>), the worker is in the queue.
\<close>

definition slept_all :: "(handle \<Rightarrow> int list) \<Rightarrow> handle set \<Rightarrow> ('v, 'e, 'u) sworld \<Rightarrow> bool" where
  "slept_all p0 C w \<longleftrightarrow>
     (\<forall>h \<in> C. length (filter (\<lambda>g. g = h) (map fst (sw_log w))) + length (sw_prog w h) +
         (case sw_place w h of Co_sleeps tp \<Rightarrow> 1 | _ \<Rightarrow> 0) = length (p0 h) \<and>
       (sw_place w h = Co_ended \<longrightarrow> sw_prog w h = []))"

definition thread_ok ::
    "(sch_item list \<Rightarrow> bool) \<Rightarrow> handle set \<Rightarrow> handle \<Rightarrow> handle \<Rightarrow> handle set \<Rightarrow> bool \<Rightarrow> (handle \<Rightarrow> 'e exc + 'v) \<Rightarrow>
      (handle \<Rightarrow> int list) \<Rightarrow> ('v, 'e, 'u) sthread \<Rightarrow> bool" where
  "thread_ok heap C me awt D b rs p0 t \<longleftrightarrow>
     active t \<and> distinct (cq t) \<and> set (cq t) \<subseteq> insert me C \<and> prog_ok heap C (set (cq t) - {me}) (world t) \<and>
     out_ok awt (world t) \<and> slept_all p0 C (world t) \<and> sw_result (world t) = rs \<and>
     (\<forall>g \<in> D. sw_place (world t) g = Co_start \<longrightarrow> g \<in> set (cq t)) \<and> (b \<longrightarrow> me \<in> set (cq t) \<or> sw_stop (world t))"

lemma thread_okD:
  assumes "thread_ok heap C me awt D b rs p0 t"
  shows "active t" "distinct (cq t)" "set (cq t) \<subseteq> insert me C" "prog_ok heap C (set (cq t) - {me}) (world t)"
    "out_ok awt (world t)" "slept_all p0 C (world t)" "sw_result (world t) = rs"
    "g \<in> D \<Longrightarrow> sw_place (world t) g = Co_start \<Longrightarrow> g \<in> set (cq t)" "b \<Longrightarrow> me \<in> set (cq t) \<or> sw_stop (world t)"
  using assms unfolding thread_ok_def by blast+

lemma slept_all_run:
  assumes "slept_all p0 C w" and same: "others_same h w w'" and "h \<in> C" "sw_place w h \<noteq> Co_ended"
    and l: "sw_log w' = sw_log w @ l" "map fst l = (if sw_place w h = Co_start then [] else [h])"
    and new: "case sw_prog w h of [] \<Rightarrow> sw_place w' h = Co_ended \<and> sw_prog w' h = []
       | d # ds \<Rightarrow> (\<exists>tp. sw_place w' h = Co_sleeps tp) \<and> sw_prog w' h = ds"
  shows "slept_all p0 C w'"
  unfolding slept_all_def
proof
  fix g assume g: "g \<in> C"
  have old: "length (filter (\<lambda>k. k = g) (map fst (sw_log w))) + length (sw_prog w g) +
      (case sw_place w g of Co_sleeps tp \<Rightarrow> 1 | _ \<Rightarrow> 0) = length (p0 g)" "sw_place w g = Co_ended \<longrightarrow> sw_prog w g = []"
    using assms(1) g unfolding slept_all_def by blast+
  have f: "filter (\<lambda>k. k = g) (map fst (sw_log w')) =
      filter (\<lambda>k. k = g) (map fst (sw_log w)) @ (if g = h \<and> sw_place w h \<noteq> Co_start then [h] else [])"
    using l by simp
  show "length (filter (\<lambda>k. k = g) (map fst (sw_log w'))) + length (sw_prog w' g) +
      (case sw_place w' g of Co_sleeps tp \<Rightarrow> 1 | _ \<Rightarrow> 0) = length (p0 g) \<and> (sw_place w' g = Co_ended \<longrightarrow> sw_prog w' g = [])"
  proof (cases "g = h")
    case False
    with f old others_sameD(1,2) [OF same False] show ?thesis by simp
  next
    case True
    with f old new assms(4) show ?thesis
      by (cases "sw_prog w h"; cases "sw_place w h") auto
  qed
qed

text \<open>What the worker leaves alone: everything but the time, the schedule and the futures.\<close>

definition program_same :: "('v, 'e, 'u) sworld \<Rightarrow> ('v, 'e, 'u) sworld \<Rightarrow> bool" where
  "program_same w w' \<longleftrightarrow> sw_place w' = sw_place w \<and> sw_prog w' = sw_prog w \<and> sw_result w' = sw_result w \<and>
     sw_log w' = sw_log w \<and> sw_stop w' = sw_stop w \<and> sw_exc w' = sw_exc w \<and> sw_ret w' = sw_ret w"

lemma thread_ok_worker:
  assumes ok: "thread_ok heap C me awt D b rs p0 t" and t': "active t'" "distinct (cq t')" "set (cq t') \<subseteq> insert me C"
    "set (cq t) - {me} \<subseteq> set (cq t')" "prog_ok heap C (set (cq t') - {me}) (world t')" and same: "program_same (world t) (world t')"
    and me: "me \<in> set (cq t') \<or> sw_stop (world t')" "me \<notin> D"
  shows "thread_ok heap C me awt D b rs p0 t'"
proof -
  note T = thread_okD [OF ok]
  have w: "sw_place (world t') = sw_place (world t)" "sw_prog (world t') = sw_prog (world t)" "sw_result (world t') = rs"
    "sw_log (world t') = sw_log (world t)" "sw_stop (world t') = sw_stop (world t)" "sw_exc (world t') = sw_exc (world t)"
    "sw_ret (world t') = sw_ret (world t)"
    using same T(7) by (simp_all add: program_same_def)
  have "start_value (world t') = start_value (world t)" by (simp add: start_value_def w(6,7) split: option.split)
  then have "out_ok awt (world t')" using T(5,7) w unfolding out_ok_def by simp
  moreover have "slept_all p0 C (world t')" using T(6) w unfolding slept_all_def by simp
  moreover have "g \<in> set (cq t')" if "g \<in> D" "sw_place (world t') g = Co_start" for g
    using T(8) [OF that(1)] that w(1) t'(4) me(2) by auto
  ultimately show ?thesis using t' w(3) me unfolding thread_ok_def by blast
qed

lemma rotated: "active t \<Longrightarrow> \<exists>h t'. pause_suspend me t = Some (h, t') \<and> t'\<lparr>cq := [h] @ cq t'\<rparr> = t\<lparr>cq := cq t @ [me]\<rparr>"
  by (cases "cq t") (simp_all add: pause_suspend_def queue_rotate_def)

lemma start_head_ok:
  assumes "active t"
  shows "\<exists>t' nxt. start_head me t = Some (t', nxt) \<and>
    t'\<lparr>cq := case_option [] (\<lambda>h'. [h']) nxt @ cq t'\<rparr> = (if sw_stop (world t) then t else t\<lparr>cq := cq t @ [me]\<rparr>)"
  using rotated [OF assms, of me] by (auto simp: start_head_def)

context sch_heap
begin

lemma coro_step:
  assumes ok: "thread_ok heap C me awt D b rs p0 t" and q: "cq t = h # q" and h: "h \<noteq> me"
    and C: "finite C" and adv: "\<And>n. n \<le> adv n"
  shows "\<exists>w'. start_body H cl adv me awt h (t\<lparr>cq := q\<rparr>) = Some (t\<lparr>cq := q, world := w'\<rparr>, None) \<and>
    thread_ok heap C me awt D b rs p0 (t\<lparr>world := w', cq := q\<rparr>) \<and>
    start_left C me (t\<lparr>world := w', cq := q\<rparr>) < start_left C me t \<and> others_same h (world t) w'"
proof -
  let ?w = "world t" and ?R = "set (cq t) - {me}"
  note T = thread_okD [OF ok]
  have hR: "h \<in> ?R" "h \<in> C" "?R \<subseteq> C" using q h T(3) by auto
  have R: "set q - {me} = ?R - {h}" using q T(2) by auto
  obtain w' where w': "coro_body H adv awt h ?w = Some w'" "prog_ok heap C (?R - {h}) w'" "out_ok awt w'" "others_same h ?w w'"
    "\<exists>l. sw_log w' = sw_log ?w @ l \<and> map fst l = (if sw_place ?w h = Co_start then [] else [h])"
    "case sw_prog ?w h of [] \<Rightarrow> sw_place w' h = Co_ended \<and> sw_prog w' h = []
       | d # ds \<Rightarrow> (\<exists>tp. sw_place w' h = Co_sleeps tp) \<and> sw_prog w' h = ds"
    using coro_body_ok [OF T(4) hR(1,3) T(5) adv] by blast
  have pl: "sw_place ?w h \<noteq> Co_ended" using prog_okD(8) [OF T(4) hR(1)] by (auto simp: slept_out_def)
  note O = others_sameD [OF w'(4)]
  let ?t = "t\<lparr>world := w', cq := q\<rparr>"
  have "slept_all p0 C w'" using slept_all_run [OF T(6) w'(4) hR(2) pl _ _ w'(6)] w'(5) by blast
  moreover have "g \<in> set q" if g: "g \<in> D" "sw_place w' g = Co_start" for g
  proof -
    have "g \<noteq> h" using g(2) w'(6) by (auto split: list.splits)
    then show ?thesis using T(8) [OF g(1)] O(1) [of g] g(2) q by simp
  qed
  moreover have "sw_stop w'" if "sw_stop ?w"
  proof -
    have "sw_place ?w awt = Co_ended" using that T(5) by (simp add: out_ok_def)
    moreover from this have "awt \<noteq> h" using pl by auto
    ultimately show ?thesis using w'(3) O(1) [of awt] by (simp add: out_ok_def)
  qed
  then have "b \<longrightarrow> me \<in> set q \<or> sw_stop w'" using T(9) q h by auto
  ultimately have "thread_ok heap C me awt D b rs p0 ?t"
    using T(1-3,7) q w'(2,3) R O(6) unfolding thread_ok_def by auto
  moreover have "start_left C me ?t < start_left C me t"
  proof -
    have "all_work C (?R - {h}) w' + 3 \<le> all_work C ?R ?w" by (rule work_run [OF C hR(2,1) pl w'(4,6)])
    moreover have "worker_place me q \<le> worker_place me (cq t) + 1" using q h by (simp add: worker_place_def)
    ultimately show ?thesis using O(5) R unfolding start_left_def by auto
  qed
  ultimately show ?thesis using h w'(1,4) by (intro exI [of _ w']) (simp add: start_body_def)
qed

lemma begun_step:
  assumes ok: "thread_ok heap C me awt D b rs p0 t" and q: "cq t = me # q"
    and C: "finite C" "me \<notin> C" "awt \<in> C" "awt \<in> D" "me \<notin> D" and adv: "\<And>n. n \<le> adv n"
    and begun: "sw_begun (world t)" and stop: "\<not> sw_stop (world t)"
  shows "\<exists>t' nxt. sched_worker H cl adv me (t\<lparr>cq := q\<rparr>) = Some (t', nxt) \<and>
    thread_ok heap C me awt D b rs p0 (t'\<lparr>cq := case_option [] (\<lambda>h'. [h']) nxt @ cq t'\<rparr>) \<and>
    start_left C me (t'\<lparr>cq := case_option [] (\<lambda>h'. [h']) nxt @ cq t'\<rparr>) < start_left C me t"
proof -
  let ?w = "world t"
  note T = thread_okD [OF ok]
  have q': "me \<notin> set q" "distinct q" "set q \<subseteq> C" "set (cq t) - {me} = set q" using q T(2,3) by auto
  have p: "prog_ok heap C (set q) ?w" and at: "cq (t\<lparr>cq := q\<rparr>) = q" "world (t\<lparr>cq := q\<rparr>) = ?w" "active (t\<lparr>cq := q\<rparr>)"
    using T(1,4) q'(4) by simp_all
  obtain t1 n xs st hs where t1: "start_round H cl adv (t\<lparr>cq := q\<rparr>) = Some t1" "active t1"
    "world t1 = ?w\<lparr>sw_now := n, sw_items := xs, sw_store := st\<rparr>" "sw_now ?w \<le> n" "cq t1 = q @ hs"
    "prog_ok heap C (set (cq t1)) (world t1)"
    "(\<exists>h \<in> sleeping C (set q) ?w. hs = [h]) \<or>
     hs = [] \<and> live xs = live (sw_items ?w) \<and> (\<forall>x. x \<in># live xs \<longrightarrow> sw_now ?w < i_tp x) \<and>
       (q = [] \<longrightarrow> live xs \<noteq> {#} \<longrightarrow> (\<exists>x. x \<in># live xs \<and> i_tp x \<le> n))"
    using start_round_at [OF at(1,2) p at(3) adv, of cl] by blast
  let ?u = "t1\<lparr>cq := cq t1 @ [me]\<rparr>"
  have "sw_stop (world t1) = sw_stop ?w" using t1(3) by simp
  then obtain t2 nxt where r: "start_head me t1 = Some (t2, nxt)" "t2\<lparr>cq := case_option [] (\<lambda>h'. [h']) nxt @ cq t2\<rparr> = ?u"
    using start_head_ok [OF t1(2), of me] stop by auto
  have hs: "distinct (q @ hs)" "me \<notin> set (q @ hs)" "set (q @ hs) \<subseteq> C" using t1(7) q' C(2) by (auto simp: sleeping_def)
  then have R: "set (cq ?u) - {me} = set (q @ hs)" using t1(5) by auto
  have same: "program_same ?w (world ?u)" using t1(3) by (simp add: program_same_def)
  have "thread_ok heap C me awt D b rs p0 ?u"
    by (rule thread_ok_worker [OF ok]) (use t1(2,5,6) R hs q'(4) same C(5) in auto)
  moreover have "start_left C me ?u < start_left C me t"
  proof -
    have wp: "worker_place me (cq t) = 2" "worker_place me (cq ?u) = (if q @ hs = [] then 2 else 1)"
      using q hs(2) t1(5) by (auto simp: worker_place_def hd_append)
    have b': "sw_begun (world ?u)" using begun t1(3) by simp
    from t1(7) show ?thesis
    proof
      assume "\<exists>h \<in> sleeping C (set q) ?w. hs = [h]"
      then obtain h where h: "h \<in> sleeping C (set q) ?w" "hs = [h]" by blast
      have "all_work C (insert h (set q)) (world ?u) + 3 \<le> all_work C (set q) ?w"
        using C(1) h(1) by (rule work_wakes) (simp_all add: t1(3))
      moreover have e: "set (cq ?u) - {me} = insert h (set q)" using R h(2) by simp
      have "start_left C me ?u \<le> all_work C (insert h (set q)) (world ?u) + 1 + 2"
        unfolding start_left_def e using wp(2) b' by simp
      moreover have "all_work C (set q) ?w + 2 \<le> start_left C me t" unfolding start_left_def q'(4) wp(1) by simp
      ultimately show ?thesis by linarith
    next
      assume a: "hs = [] \<and> live xs = live (sw_items ?w) \<and> (\<forall>x. x \<in># live xs \<longrightarrow> sw_now ?w < i_tp x) \<and>
         (q = [] \<longrightarrow> live xs \<noteq> {#} \<longrightarrow> (\<exists>x. x \<in># live xs \<and> i_tp x \<le> n))"
      then have old: "\<not> overdue ?w" by (fastforce simp: overdue_def)
      have work: "all_work C (set (cq ?u) - {me}) (world ?u) = all_work C (set (cq t) - {me}) ?w"
      proof -
        have "set (cq ?u) - {me} = set (cq t) - {me}" using R q'(4) a by simp
        then show ?thesis by (simp only:) (rule all_work_cong, simp_all add: t1(3))
      qed
      have "overdue (world ?u)" if "q = []"
      proof -
        have "sw_place ?w awt \<noteq> Co_start" using T(8) [OF C(4)] q that C(2,3) by auto
        moreover have "sw_place ?w awt \<noteq> Co_ended" using T(5) stop by (simp add: out_ok_def)
        ultimately have "awt \<in> sleeping C (set q) ?w" using C(3) that by (cases "sw_place ?w awt") (auto simp: sleeping_def)
        then have "live xs \<noteq> {#}" using prog_okD(6) [OF p, of awt] a by auto
        with a that t1(3) show ?thesis by (auto simp: overdue_def)
      qed
      then show ?thesis unfolding start_left_def work wp using old a b' begun by (cases "q = []") simp_all
    qed
  qed
  ultimately show ?thesis using r t1(1) begun stop by (simp add: sched_worker_def)
qed

lemma worker_step:
  assumes ok: "thread_ok heap C me awt D b rs p0 t" and q: "cq t = me # q"
    and C: "finite C" "me \<notin> C" "awt \<in> C" "awt \<in> D" "me \<notin> D" and adv: "\<And>n. n \<le> adv n"
  shows "\<exists>t' nxt. sched_worker H cl adv me (t\<lparr>cq := q\<rparr>) = Some (t', nxt) \<and>
    thread_ok heap C me awt D b rs p0 (t'\<lparr>cq := case_option [] (\<lambda>h'. [h']) nxt @ cq t'\<rparr>) \<and>
    start_left C me (t'\<lparr>cq := case_option [] (\<lambda>h'. [h']) nxt @ cq t'\<rparr>) < start_left C me t"
proof -
  let ?w = "world t"
  note T = thread_okD [OF ok]
  have q': "me \<notin> set q" "distinct q" "set q \<subseteq> C" "set (cq t) - {me} = set q" using q T(2,3) by auto
  show ?thesis
  proof (cases "sw_begun ?w")
    case False
    let ?t = "t\<lparr>cq := q, world := ?w\<lparr>sw_begun := True\<rparr>\<rparr>"
    let ?u = "if sw_stop ?w then ?t else ?t\<lparr>cq := q @ [me]\<rparr>"
    obtain t' nxt where r: "start_head me ?t = Some (t', nxt)" "t'\<lparr>cq := case_option [] (\<lambda>h'. [h']) nxt @ cq t'\<rparr> = ?u"
      using start_head_ok [of ?t me] T(1) by auto
    have R: "set (cq ?u) - {me} = set q" using q' by auto
    have p: "prog_ok heap C (set q) (world ?u)" using T(4) q'(4) by (auto intro: prog_ok_cong)
    have "thread_ok heap C me awt D b rs p0 ?u"
      by (rule thread_ok_worker [OF ok]) (use T q' p R C(5) in \<open>auto simp: program_same_def\<close>)
    moreover have "start_left C me ?u < start_left C me t"
    proof -
      have "all_work C (set q) (world ?u) = all_work C (set q) ?w" by (rule all_work_cong) simp_all
      moreover have "worker_place me (cq ?u) \<le> worker_place me (cq t)" using q by (simp add: worker_place_def)
      moreover have "overdue (world ?u) = overdue ?w" "sw_begun (world ?u)" by (simp_all add: overdue_def)
      ultimately show ?thesis using False R q'(4) unfolding start_left_def by simp
    qed
    ultimately show ?thesis using r False by (simp add: sched_worker_def)
  next
    case begun: True
    show ?thesis
    proof (cases "sw_stop ?w")
      case True
      have "thread_ok heap C me awt D b rs p0 (t\<lparr>cq := q\<rparr>)"
        by (rule thread_ok_worker [OF ok]) (use T q' True C(5) in \<open>auto simp: program_same_def\<close>)
      moreover have "start_left C me (t\<lparr>cq := q\<rparr>) < start_left C me t"
        using q q' by (simp add: start_left_def worker_place_def)
      ultimately show ?thesis using begun True by (simp add: sched_worker_def)
    next
      case False
      with begun_step [OF ok q C adv begun] show ?thesis by blast
    qed
  qed
qed

text \<open>The queue of the thread drains: before the worker is in it, and with the worker.\<close>

lemma detached_flush:
  assumes "thread_ok heap C me awt D b rs p0 t" and "me \<notin> set (cq t)" and C: "finite C" and adv: "\<And>n. n \<le> adv n"
    and E: "\<forall>g \<in> E. sw_place (world t) g = Co_start \<and> g \<notin> set (cq t)"
  shows "\<exists>t'. flush_queue (coro_resume (start_body H cl adv me awt)) t = Some t' \<and> thread_ok heap C me awt D b rs p0 t' \<and>
    cq t' = [] \<and> sw_begun (world t') = sw_begun (world t) \<and> (\<forall>g \<in> E. sw_place (world t') g = Co_start)"
proof -
  let ?P = "\<lambda>u. thread_ok heap C me awt D b rs p0 u \<and> me \<notin> set (cq u) \<and> sw_begun (world u) = sw_begun (world t) \<and>
    (\<forall>g \<in> E. sw_place (world u) g = Co_start \<and> g \<notin> set (cq u))"
  have "\<exists>t'. flush_queue (coro_resume (start_body H cl adv me awt)) t = Some t' \<and> ?P t' \<and> cq t' = []"
  proof (rule flush_body_total [where \<mu> = "start_left C me"])
    fix h q and u :: "('b, 'a, 'c) sthread"
    assume P: "?P u" and q: "cq u = h # q"
    then have "h \<noteq> me" by auto
    from coro_step [OF conjunct1 [OF P] q this C adv, of cl] obtain w' where
      w': "start_body H cl adv me awt h (u\<lparr>cq := q\<rparr>) = Some (u\<lparr>cq := q, world := w'\<rparr>, None)"
      "thread_ok heap C me awt D b rs p0 (u\<lparr>world := w', cq := q\<rparr>)"
      "start_left C me (u\<lparr>world := w', cq := q\<rparr>) < start_left C me u" "others_same h (world u) w'" by blast
    have "sw_place w' g = Co_start" if "g \<in> E" for g
      using P q that others_sameD(1) [OF w'(4), of g] by auto
    then have "?P (u\<lparr>world := w', cq := q\<rparr>)" using P q w'(2) others_sameD(5) [OF w'(4)] by simp
    with w'(1,3) show "\<exists>t' nxt. start_body H cl adv me awt h (u\<lparr>cq := q\<rparr>) = Some (t', nxt) \<and>
        ?P (t'\<lparr>cq := case_option [] (\<lambda>h'. [h']) nxt @ cq t'\<rparr>) \<and>
        start_left C me (t'\<lparr>cq := case_option [] (\<lambda>h'. [h']) nxt @ cq t'\<rparr>) < start_left C me u"
      by (intro exI [of _ "u\<lparr>cq := q, world := w'\<rparr>"] exI [of _ None]) simp
  qed (use assms in auto)
  then show ?thesis by blast
qed

lemma program_flush:
  assumes "thread_ok heap C me awt D b rs p0 t" and C: "finite C" "me \<notin> C" "awt \<in> C" "awt \<in> D" "me \<notin> D"
    and adv: "\<And>n. n \<le> adv n"
  shows "\<exists>t'. flush_queue (coro_resume (start_body H cl adv me awt)) t = Some t' \<and> thread_ok heap C me awt D b rs p0 t' \<and> cq t' = []"
proof (rule flush_body_total [where \<mu> = "start_left C me"])
  fix h q and u :: "('b, 'a, 'c) sthread"
  assume u: "thread_ok heap C me awt D b rs p0 u" and q: "cq u = h # q"
  show "\<exists>t' nxt. start_body H cl adv me awt h (u\<lparr>cq := q\<rparr>) = Some (t', nxt) \<and>
      thread_ok heap C me awt D b rs p0 (t'\<lparr>cq := case_option [] (\<lambda>h'. [h']) nxt @ cq t'\<rparr>) \<and>
      start_left C me (t'\<lparr>cq := case_option [] (\<lambda>h'. [h']) nxt @ cq t'\<rparr>) < start_left C me u"
  proof (cases "h = me")
    case True
    with worker_step [OF u _ C adv, of q cl] q show ?thesis by (simp add: start_body_def)
  next
    case False
    from coro_step [OF u q False C(1) adv, of cl] obtain w' where
      "start_body H cl adv me awt h (u\<lparr>cq := q\<rparr>) = Some (u\<lparr>cq := q, world := w'\<rparr>, None)"
      "thread_ok heap C me awt D b rs p0 (u\<lparr>world := w', cq := q\<rparr>)"
      "start_left C me (u\<lparr>world := w', cq := q\<rparr>) < start_left C me u" by blast
    then show ?thesis by (intro exI [of _ "u\<lparr>cq := q, world := w'\<rparr>"] exI [of _ None]) simp
  qed
qed (use assms in auto)

end

lemma discard_inactive:
  assumes "\<not> active t" and "cq t = []"
  shows "discard_handles run [h] t = map_option (\<lambda>u. u\<lparr>active := False\<rparr>) (flush_queue run (t\<lparr>active := True, cq := [h]\<rparr>))"
proof -
  have "t\<lparr>active := True, cq := []\<rparr> = t\<lparr>active := True\<rparr>" using assms(2) by simp
  then have "flush_queue run (t\<lparr>active := True, cq := [h]\<rparr>) = Option.bind (run h (t\<lparr>active := True\<rparr>)) (flush_queue run)"
    by (simp add: flush_queue_Cons)
  then show ?thesis using assms(1)
    by (cases "run h (t\<lparr>active := True\<rparr>)")
      (auto simp: discard_handles_def is_active_def install_queue_and_call_def Let_def split: bind_split)
qed

subsection \<open>From the start to the end\<close>

definition program_init :: "handle set \<Rightarrow> ('v, 'e, 'u) sworld \<Rightarrow> bool" where
  "program_init C w \<longleftrightarrow>
     (\<forall>h \<in> C. sw_place w h = Co_start) \<and> sw_items w = [] \<and> sw_log w = [] \<and> \<not> sw_begun w \<and> \<not> sw_stop w \<and>
     sw_exc w = None \<and> sw_ret w = None"

text \<open>Between the calls of the thread its queue is empty and not installed.\<close>

definition idle_ok ::
    "(sch_item list \<Rightarrow> bool) \<Rightarrow> handle set \<Rightarrow> handle \<Rightarrow> handle \<Rightarrow> handle set \<Rightarrow> (handle \<Rightarrow> 'e exc + 'v) \<Rightarrow>
      (handle \<Rightarrow> int list) \<Rightarrow> ('v, 'e, 'u) sthread \<Rightarrow> bool" where
  "idle_ok heap C me awt D rs p0 t \<longleftrightarrow> \<not> active t \<and> cq t = [] \<and> thread_ok heap C me awt D False rs p0 (t\<lparr>active := True\<rparr>)"

text \<open>A coroutine is put in the queue of an idle thread.\<close>

lemma thread_ok_queue:
  assumes ok: "idle_ok heap C me awt D rs p0 t" and h: "h \<in> C \<and> sw_place (world t) h = Co_start \<or> h = me"
  shows "thread_ok heap C me awt (if h = me then D else insert h D) (h = me) rs p0 (t\<lparr>active := True, cq := [h]\<rparr>)"
proof -
  have T: "thread_ok heap C me awt D False rs p0 (t\<lparr>active := True\<rparr>)" and e: "cq t = []"
    using ok by (simp_all add: idle_ok_def)
  note T = thread_okD [OF T, simplified]
  have p: "prog_ok heap C {} (world t)" using T(4) e by simp
  note D = prog_okD [OF p]
  have "prog_ok heap C ({h} - {me}) (world t)"
  proof (cases "h = me")
    case False
    then have s: "sleeping C ({h} - {me}) (world t) = sleeping C {} (world t)" using h by (auto simp: sleeping_def)
    show ?thesis by (rule prog_okI, unfold s) (use D h False in auto)
  qed (use p in simp)
  then show ?thesis using T h e unfolding thread_ok_def by auto
qed

context sch_heap
begin

lemma detach_ok:
  assumes ok: "idle_ok heap C me awt D rs p0 t" and h: "h \<in> C" "h \<noteq> me" "sw_place (world t) h = Co_start"
    and C: "finite C" and adv: "\<And>n. n \<le> adv n" and E: "\<forall>g \<in> E. sw_place (world t) g = Co_start" "h \<notin> E"
  shows "\<exists>t'. discard_handles (coro_resume (start_body H cl adv me awt)) [h] t = Some t' \<and>
    idle_ok heap C me awt (insert h D) rs p0 t' \<and> sw_begun (world t') = sw_begun (world t) \<and>
    (\<forall>g \<in> E. sw_place (world t') g = Co_start)"
proof -
  let ?u = "t\<lparr>active := True, cq := [h]\<rparr>"
  have i: "\<not> active t" "cq t = []" using ok by (simp_all add: idle_ok_def)
  have u: "thread_ok heap C me awt (insert h D) False rs p0 ?u"
    using thread_ok_queue [OF ok, of h] h by simp
  obtain u' where u': "flush_queue (coro_resume (start_body H cl adv me awt)) ?u = Some u'"
    "thread_ok heap C me awt (insert h D) False rs p0 u'" "cq u' = []" "sw_begun (world u') = sw_begun (world t)"
    "\<forall>g \<in> E. sw_place (world u') g = Co_start"
    using detached_flush [OF u _ C adv, of E cl] h(2) E by auto
  have "active u'" using thread_okD(1) [OF u'(2)] .
  then have "u'\<lparr>active := True\<rparr> = u'" by simp
  then have "idle_ok heap C me awt (insert h D) rs p0 (u'\<lparr>active := False\<rparr>)"
    using u'(2,3) by (simp add: idle_ok_def)
  with u'(1,4,5) show ?thesis by (simp add: discard_inactive [OF i])
qed

lemma detach_all_ok:
  assumes "idle_ok heap C me awt D rs p0 t" and "distinct hs" "set hs \<subseteq> C" "me \<notin> C" "finite C"
    and "\<And>n. n \<le> adv n" and "\<forall>g \<in> set hs \<union> E. sw_place (world t) g = Co_start" "set hs \<inter> E = {}"
  shows "\<exists>t'. detach_all H cl adv me awt hs t = Some t' \<and> idle_ok heap C me awt (set hs \<union> D) rs p0 t' \<and>
    sw_begun (world t') = sw_begun (world t) \<and> (\<forall>g \<in> E. sw_place (world t') g = Co_start)"
  using assms
proof (induction hs arbitrary: t D)
  case Nil
  then show ?case by (simp add: detach_all_def)
next
  case (Cons h hs)
  have h: "h \<in> C" "h \<noteq> me" "sw_place (world t) h = Co_start" using Cons.prems(3,4,7) by auto
  have "\<forall>g \<in> set hs \<union> E. sw_place (world t) g = Co_start" "h \<notin> set hs \<union> E" using Cons.prems(2,7,8) by auto
  from detach_ok [OF Cons.prems(1) h Cons.prems(5,6) this, of cl] obtain t1 where
    t1: "discard_handles (coro_resume (start_body H cl adv me awt)) [h] t = Some t1"
    "idle_ok heap C me awt (insert h D) rs p0 t1" "sw_begun (world t1) = sw_begun (world t)"
    "\<forall>g \<in> set hs \<union> E. sw_place (world t1) g = Co_start" by blast
  have "\<exists>t'. detach_all H cl adv me awt hs t1 = Some t' \<and> idle_ok heap C me awt (set hs \<union> insert h D) rs p0 t' \<and>
      sw_begun (world t') = sw_begun (world t1) \<and> (\<forall>g \<in> E. sw_place (world t') g = Co_start)"
    by (rule Cons.IH) (use t1 Cons.prems in auto)
  then show ?case using t1(1,3) by (simp add: detach_all_def)
qed

lemma sched_start_ok:
  assumes ok: "idle_ok heap C me awt D rs p0 t" and awt: "awt \<in> C" "sw_place (world t) awt = Co_start"
    and C: "finite C" "me \<notin> C" "D \<subseteq> C" and adv: "\<And>n. n \<le> adv n" and begun: "\<not> sw_begun (world t)"
  shows "\<exists>t'. sched_start H cl adv me awt t = Some (rs awt, t') \<and> cq t' = [] \<and> \<not> active t' \<and>
    (\<forall>e \<in> set (sw_log (world t')). fst (snd e) \<le> snd (snd e)) \<and>
    length (filter (\<lambda>g. g = awt) (map fst (sw_log (world t')))) = length (p0 awt)"
proof -
  let ?run = "coro_resume (start_body H cl adv me awt)"
  have ne: "awt \<noteq> me" using awt C by auto
  obtain t1 where t1: "discard_handles ?run [awt] t = Some t1" "idle_ok heap C me awt (insert awt D) rs p0 t1"
    using detach_ok [OF ok awt(1) ne awt(2) C(1) adv, of "{}" cl] by auto
  have i: "\<not> active t1" "cq t1 = []" using t1(2) by (simp_all add: idle_ok_def)
  have u: "thread_ok heap C me awt (insert awt D) True rs p0 (t1\<lparr>active := True, cq := [me]\<rparr>)"
    using thread_ok_queue [OF t1(2), of me] by simp
  have me: "me \<notin> insert awt D" using C ne by auto
  obtain t2 where t2: "flush_queue ?run (t1\<lparr>active := True, cq := [me]\<rparr>) = Some t2"
    "thread_ok heap C me awt (insert awt D) True rs p0 t2" "cq t2 = []"
    using program_flush [OF u C(1,2) awt(1) insertI1 me adv, of cl] by blast
  note T = thread_okD [OF t2(2)]
  have stop: "sw_stop (world t2)" using T(9) t2(3) by simp
  then have v: "start_value (world t2) = Some (rs awt)" "sw_place (world t2) awt = Co_ended"
    using T(5,7) by (simp_all add: out_ok_def)
  have "length (filter (\<lambda>g. g = awt) (map fst (sw_log (world t2)))) + length (sw_prog (world t2) awt) +
      (case sw_place (world t2) awt of Co_sleeps tp \<Rightarrow> 1 | _ \<Rightarrow> 0) = length (p0 awt) \<and>
      (sw_place (world t2) awt = Co_ended \<longrightarrow> sw_prog (world t2) awt = [])"
    using T(6) awt(1) unfolding slept_all_def by blast
  then have n: "length (filter (\<lambda>g. g = awt) (map fst (sw_log (world t2)))) = length (p0 awt)" using v(2) by auto
  have "sched_start H cl adv me awt t = Some (rs awt, t2\<lparr>active := False\<rparr>)"
    using t1(1) t2(1) i v(1)
    by (simp add: sched_start_def install_queue_and_call_def discard_handles_def [of _ "[me]"] is_active_def queue_push_def Let_def)
  moreover have "\<forall>e \<in> set (sw_log (world t2)). fst (snd e) \<le> snd (snd e)" using T(5) unfolding out_ok_def by blast
  ultimately show ?thesis using n t2(3) by (intro exI [of _ "t2\<lparr>active := False\<rparr>"]) simp
qed

lemma program_idle:
  assumes "program_init C (world t)" and "\<not> active t" "cq t = []" "awt \<in> C"
  shows "idle_ok heap C me awt {} (sw_result (world t)) (sw_prog (world t)) t"
proof -
  have s: "sleeping C {} (world t) = {}" using assms(1) by (auto simp: program_init_def sleeping_def)
  have "prog_ok heap C {} (world t)"
    by (rule prog_okI, unfold s) (use assms(1) heap_nil in \<open>simp_all add: program_init_def live_def one_each_def awaited_def\<close>)
  moreover have "out_ok awt (world t)" using assms(1,4) by (simp add: program_init_def out_ok_def)
  moreover have "slept_all (sw_prog (world t)) C (world t)" using assms(1) by (simp add: program_init_def slept_all_def)
  ultimately show ?thesis using assms(2,3) by (simp add: idle_ok_def thread_ok_def)
qed

end

subsection \<open>Properties\<close>

text \<open>
  C8. \<open>start\<close> comes back: for any program of coroutines that were detached before, and any
  clock that does not run backwards, it runs the scheduler until the coroutine it awaits
  has slept for each of its durations, and returns that coroutine's result or throws its
  exception. No sleep of any coroutine ended before its time, and nothing is left in
  the queue of the thread.
\<close>

theorem scheduler_start_returns:
  assumes "distinct (me # awt # hs)" and "\<And>n. n \<le> adv n" and "program_init (insert awt (set hs)) (world t)"
    and "\<not> active t" and "cq t = []"
  shows "\<exists>t1 t2. detach_all (bin_heap i_tp) cl adv me awt hs t = Some t1 \<and>
    sched_start (bin_heap i_tp) cl adv me awt t1 = Some (sw_result (world t) awt, t2) \<and> cq t2 = [] \<and> \<not> active t2 \<and>
    (\<forall>e \<in> set (sw_log (world t2)). fst (snd e) \<le> snd (snd e)) \<and>
    length (filter (\<lambda>g. g = awt) (map fst (sw_log (world t2)))) = length (sw_prog (world t) awt)"
proof -
  let ?C = "insert awt (set hs)" and ?rs = "sw_result (world t)" and ?p = "sw_prog (world t)"
  have start: "\<forall>g \<in> set hs \<union> {awt}. sw_place (world t) g = Co_start" and begun: "\<not> sw_begun (world t)"
    using assms(3) by (simp_all add: program_init_def)
  have idle: "idle_ok (\<lambda>xs. heap_n i_tp xs (length xs)) ?C me awt {} ?rs ?p t"
    by (rule sch.program_idle [OF assms(3-5)]) simp
  obtain t1 where t1: "detach_all (bin_heap i_tp) cl adv me awt hs t = Some t1"
    "idle_ok (\<lambda>xs. heap_n i_tp xs (length xs)) ?C me awt (set hs \<union> {}) ?rs ?p t1" "\<not> sw_begun (world t1)"
    "\<forall>g \<in> {awt}. sw_place (world t1) g = Co_start"
    using sch.detach_all_ok [OF idle _ _ _ _ assms(2) start, of cl] assms(1) begun by auto
  obtain t2 where "sched_start (bin_heap i_tp) cl adv me awt t1 = Some (?rs awt, t2) \<and> cq t2 = [] \<and> \<not> active t2 \<and>
      (\<forall>e \<in> set (sw_log (world t2)). fst (snd e) \<le> snd (snd e)) \<and>
      length (filter (\<lambda>g. g = awt) (map fst (sw_log (world t2)))) = length (?p awt)"
    using sch.sched_start_ok [OF t1(2) _ _ _ _ _ assms(2) t1(3), of cl] t1(4) assms(1) by auto
  with t1(1) show ?thesis by blast
qed

text \<open>The coroutine 1 sleeps twice and returns 42; the coroutine 2 was detached before.\<close>

definition two_coroutines :: "(nat, unit, unit) sthread" where
  "two_coroutines = \<lparr>active = False, cq = [],
     world = \<lparr>sw_items = [], sw_store = sleep_store, sw_now = 0, sw_prog = (\<lambda>_. [])(1 := [5, 3], 2 := [6]),
       sw_result = \<lambda>_. Inr 42, sw_place = \<lambda>_. Co_start, sw_begun = False, sw_stop = False, sw_exc = None, sw_ret = None,
       sw_log = []\<rparr>\<rparr>"

theorem scheduler_start_returns_witness:
  "\<exists>t1 t2. detach_all (bin_heap i_tp) (\<lambda>_ _ _ w. ([], w)) (\<lambda>n. n + 1) 9 1 [2] two_coroutines = Some t1 \<and>
    sched_start (bin_heap i_tp) (\<lambda>_ _ _ w. ([], w)) (\<lambda>n. n + 1) 9 1 t1 = Some (Inr 42, t2) \<and>
    length (filter (\<lambda>g. g = 1) (map fst (sw_log (world t2)))) = 2"
  using scheduler_start_returns [of 9 1 "[2]" "\<lambda>n. n + 1" two_coroutines "\<lambda>_ _ _ w. ([], w)"]
  by (auto simp: two_coroutines_def program_init_def)

end
