(* ===== verification/Generator.thy ===== *)
theory Generator
  imports Future
begin

section \<open>generator: a coroutine that yields values\<close>

text \<open>
  \<open>generator.h\<close> and \<open>iterator.h\<close>. The body of a generator is the client's coroutine, a parameter
  of the model: from a state, and what the \<open>co_yield\<close> it stopped at returned, it goes on to
  its next \<open>co_yield\<close>, \<open>co_await\<close>, return or exception. The promise object has the address
  \<open>this\<close>; so have its internal awaiter and the promise \<open>_awaiting\<close> in the store of futures.

  A pointer to a value (\<open>_arg\<close>, \<open>_ret\<close>) is the value, or \<open>None\<close> for null; reading null is
  undefined. The handles that a resumption yields are a result, as everywhere else: the
  first of them is resumed by symmetric transfer, the rest by the suspend point.
\<close>

subsection \<open>State\<close>

datatype ('b, 'v, 'e) gstep =
    Co_yield 'v 'b
  | Co_yield_null 'b
  | Co_await 'b
  | Co_return
  | Co_throw "'e exc"

type_synonym ('a, 'b, 'v, 'e) gbody = "'a option \<Rightarrow> 'b \<Rightarrow> ('b, 'v, 'e) gstep"

datatype 'b gcoro =
    At_start 'b
  | At_yield 'b
  | At_await 'b
  | At_end

record ('a, 'b, 'v, 'e) gen =
  g_coro :: "'b gcoro"
  g_caller :: ptr
  g_arg :: "'a option"
  g_ret :: "'v option"
  g_exp :: "'e exc option"
  g_done :: bool
  g_block :: bool

definition gen_new :: "'b \<Rightarrow> ('a, 'b, 'v, 'e) gen" where
  "gen_new b = \<lparr>g_coro = At_start b, g_caller = nullptr, g_arg = None, g_ret = None, g_exp = None,
     g_done = False, g_block = False\<rparr>"

definition frame_done :: "('a, 'b, 'v, 'e) gen \<Rightarrow> bool" where
  "frame_done g \<longleftrightarrow> g_coro g = At_end"

text \<open>The two functions of the internal awaiter; the numbers name them.\<close>

definition fn_sync :: resume_fn where
  "fn_sync = Fn_client 100"

definition fn_future :: resume_fn where
  "fn_future = Fn_client 101"

subsection \<open>Back to the caller\<close>

definition unblock_sync :: "('a, 'b, 'v, 'e) gen \<Rightarrow> ('a, 'b, 'v, 'e) gen" where
  "unblock_sync g = g\<lparr>g_block := True\<rparr>"

definition unblock_future ::
    "('v, 'e, 'u) fworld client_fn \<Rightarrow> ptr \<Rightarrow> ('a, 'b, 'v, 'e) gen \<Rightarrow> ('v, 'e, 'u) fstore \<Rightarrow>
      (handle list \<times> ('v, 'e, 'u) fstore) option" where
  "unblock_future cl this g s =
     map_option (\<lambda>(hs, b, s'). (hs, s'))
       (if g_done g then promise_drop cl this s
        else
          (case g_exp g of
             Some e \<Rightarrow> promise_set cl this (Arg_exc e) s
           | None \<Rightarrow> (case g_ret g of None \<Rightarrow> None | Some v \<Rightarrow> promise_set cl this (Arg_value v) s)))"

definition caller_resume ::
    "('v, 'e, 'u) fworld client_fn \<Rightarrow> ptr \<Rightarrow> ptr \<Rightarrow> ('a, 'b, 'v, 'e) gen \<Rightarrow> ('v, 'e, 'u) fstore \<Rightarrow>
      (handle list \<times> ('a, 'b, 'v, 'e) gen \<times> ('v, 'e, 'u) fstore) option" where
  "caller_resume cl this caller g s =
     (if caller = nullptr then None
      else if a_fn s caller = fn_sync then Some ([], unblock_sync g, s)
      else if a_fn s caller = fn_future then map_option (\<lambda>(hs, s'). (hs, g, s')) (unblock_future cl this g s)
      else (case resume_awaiter cl caller s of (hs, s') \<Rightarrow> Some (hs, g, s')))"

text \<open>\<open>yield_suspend::await_suspend\<close>, at every \<open>co_yield\<close> of a value and at the end.\<close>

definition yield_suspend ::
    "('v, 'e, 'u) fworld client_fn \<Rightarrow> ptr \<Rightarrow> ('a, 'b, 'v, 'e) gen \<Rightarrow> ('v, 'e, 'u) fstore \<Rightarrow>
      (handle list \<times> ('a, 'b, 'v, 'e) gen \<times> ('v, 'e, 'u) fstore) option" where
  "yield_suspend cl this g s = caller_resume cl this (g_caller g) (g\<lparr>g_arg := None, g_caller := nullptr\<rparr>) s"

definition yield_value :: "'v \<Rightarrow> ('a, 'b, 'v, 'e) gen \<Rightarrow> ('a, 'b, 'v, 'e) gen" where
  "yield_value v g = g\<lparr>g_ret := Some v\<rparr>"

definition return_void :: "('a, 'b, 'v, 'e) gen \<Rightarrow> ('a, 'b, 'v, 'e) gen" where
  "return_void g = g\<lparr>g_done := True\<rparr>"

definition unhandled_exception :: "'e exc \<Rightarrow> ('a, 'b, 'v, 'e) gen \<Rightarrow> ('a, 'b, 'v, 'e) gen" where
  "unhandled_exception e g = g\<lparr>g_exp := Some e\<rparr>"

definition final_suspend :: "('a, 'b, 'v, 'e) gen \<Rightarrow> ('a, 'b, 'v, 'e) gen" where
  "final_suspend g = g\<lparr>g_ret := None, g_coro := At_end\<rparr>"

text \<open>
  What a \<open>co_yield\<close> returns: the caller's argument, or nothing when the generator takes none
  (\<open>takes\<close> is false). The outer option is the null pointer.
\<close>

definition read_arg :: "bool \<Rightarrow> ('a, 'b, 'v, 'e) gen \<Rightarrow> 'a option option" where
  "read_arg takes g = (if takes then (case g_arg g of None \<Rightarrow> None | Some a \<Rightarrow> Some (Some a)) else Some None)"

text \<open>The body runs until it leaves the coroutine. \<open>co_yield nullptr\<close> does not suspend it.\<close>

partial_function (option) run_body ::
    "('v, 'e, 'u) fworld client_fn \<Rightarrow> ('a, 'b, 'v, 'e) gbody \<Rightarrow> bool \<Rightarrow> ptr \<Rightarrow> 'a option \<Rightarrow> 'b \<Rightarrow>
      ('a, 'b, 'v, 'e) gen \<Rightarrow> ('v, 'e, 'u) fstore \<Rightarrow>
      (handle list \<times> ('a, 'b, 'v, 'e) gen \<times> ('v, 'e, 'u) fstore) option" where
  "run_body cl body takes this inp b g s =
     (case body inp b of
        Co_await b' \<Rightarrow> Some ([], g\<lparr>g_coro := At_await b'\<rparr>, s)
      | Co_yield_null b' \<Rightarrow>
          (case read_arg takes g of None \<Rightarrow> None | Some i \<Rightarrow> run_body cl body takes this i b' g s)
      | Co_yield v b' \<Rightarrow> yield_suspend cl this (yield_value v (g\<lparr>g_coro := At_yield b'\<rparr>)) s
      | Co_return \<Rightarrow> yield_suspend cl this (final_suspend (return_void g)) s
      | Co_throw e \<Rightarrow> yield_suspend cl this (final_suspend (unhandled_exception e g)) s)"

text \<open>\<open>h.resume()\<close>: from the start, from a \<open>co_yield\<close>, or when what the body awaits is ready.\<close>

definition gen_resume ::
    "('v, 'e, 'u) fworld client_fn \<Rightarrow> ('a, 'b, 'v, 'e) gbody \<Rightarrow> bool \<Rightarrow> ptr \<Rightarrow>
      ('a, 'b, 'v, 'e) gen \<Rightarrow> ('v, 'e, 'u) fstore \<Rightarrow>
      (handle list \<times> ('a, 'b, 'v, 'e) gen \<times> ('v, 'e, 'u) fstore) option" where
  "gen_resume cl body takes this g s =
     (case g_coro g of
        At_start b \<Rightarrow> run_body cl body takes this None b g s
      | At_yield b \<Rightarrow>
          (case read_arg takes g of None \<Rightarrow> None | Some i \<Rightarrow> run_body cl body takes this i b g s)
      | At_await b \<Rightarrow> run_body cl body takes this None b g s
      | At_end \<Rightarrow> None)"

subsection \<open>The three ways to ask for a value\<close>

definition set_arg :: "'a \<Rightarrow> ('a, 'b, 'v, 'e) gen \<Rightarrow> ('a, 'b, 'v, 'e) gen" where
  "set_arg a g = g\<lparr>g_arg := Some a\<rparr>"

text \<open>
  \<open>next_async\<close>: the awaiter becomes the caller, also when the function then throws. An
  asynchronous access suspends the awaiting coroutine and transfers to the generator.
\<close>

definition next_async ::
    "ptr \<Rightarrow> ('a, 'b, 'v, 'e) gen \<Rightarrow> ('e exc option \<times> ('a, 'b, 'v, 'e) gen) option" where
  "next_async caller g =
     (if g_caller g \<noteq> nullptr then None
      else
        (let g1 = g\<lparr>g_caller := caller\<rparr>
         in Some (if frame_done g1 then Some No_more_values else None, g1)))"

definition next_sync ::
    "('v, 'e, 'u) fworld client_fn \<Rightarrow> ('a, 'b, 'v, 'e) gbody \<Rightarrow> bool \<Rightarrow> ptr \<Rightarrow>
      ('a, 'b, 'v, 'e) gen \<Rightarrow> ('v, 'e, 'u) fstore \<Rightarrow>
      ('e exc option \<times> handle list \<times> ('a, 'b, 'v, 'e) gen \<times> ('v, 'e, 'u) fstore) option" where
  "next_sync cl body takes this g s =
     (if g_caller g \<noteq> nullptr then None
      else if frame_done g then Some (Some No_more_values, [], g, s)
      else map_option (Pair None)
        (gen_resume cl body takes this (g\<lparr>g_block := False, g_caller := this\<rparr>) (set_resume_fn this fn_sync this s)))"

text \<open>The future is at \<open>f\<close>, the promise its constructor makes at \<open>p\<close>.\<close>

definition next_future ::
    "('v, 'e, 'u) fworld client_fn \<Rightarrow> ('a, 'b, 'v, 'e) gbody \<Rightarrow> bool \<Rightarrow> ptr \<Rightarrow> ptr \<Rightarrow> ptr \<Rightarrow>
      ('a, 'b, 'v, 'e) gen \<Rightarrow> ('v, 'e, 'u) fstore \<Rightarrow>
      ('e exc option \<times> handle list \<times> ('a, 'b, 'v, 'e) gen \<times> ('v, 'e, 'u) fstore) option" where
  "next_future cl body takes this f p g s =
     (if g_caller g \<noteq> nullptr then None
      else do {
        s1 \<leftarrow> fut_construct (\<lambda>_. Some) f p s;
        if frame_done g then do {
          (hs, s2) \<leftarrow> promise_destroy cl p s1;
          Some (Some No_more_values, hs, g, upd_fut f None s2) }
        else do {
          (hs0, s2) \<leftarrow> promise_assign cl this p s1;
          (hs, g', s3) \<leftarrow> gen_resume cl body takes this (g\<lparr>g_caller := this\<rparr>) (set_resume_fn this fn_future this s2);
          (hs', s4) \<leftarrow> promise_destroy cl p s3;
          Some (None, hs0 @ hs @ hs', g', s4) } })"

definition gen_done :: "('a, 'b, 'v, 'e) gen \<Rightarrow> bool" where
  "gen_done g = g_done g"

definition gen_value :: "('a, 'b, 'v, 'e) gen \<Rightarrow> 'e exc + 'v" where
  "gen_value g =
     (case g_exp g of
        Some e \<Rightarrow> Inl e
      | None \<Rightarrow> (case g_ret g of Some v \<Rightarrow> Inr v | None \<Rightarrow> Inl Value_not_ready))"

text \<open>
  \<open>next_awt\<close>: \<open>await_ready\<close>, \<open>await_suspend\<close> (the handle of the generator is resumed when no
  exception is thrown), \<open>subscribe\<close> and \<open>await_resume\<close>, which also sets \<open>_state\<close>.
\<close>

definition awt_ready :: "('a, 'b, 'v, 'e) gen \<Rightarrow> bool" where
  "awt_ready g = gen_done g"

definition awt_suspend ::
    "('v, 'e, 'u) fworld client_fn \<Rightarrow> ('a, 'b, 'v, 'e) gbody \<Rightarrow> bool \<Rightarrow> ptr \<Rightarrow> ptr \<Rightarrow> handle \<Rightarrow>
      ('a, 'b, 'v, 'e) gen \<Rightarrow> ('v, 'e, 'u) fstore \<Rightarrow>
      ('e exc option \<times> handle list \<times> ('a, 'b, 'v, 'e) gen \<times> ('v, 'e, 'u) fstore) option" where
  "awt_suspend cl body takes this awt h g s =
     (case next_async awt g of
        None \<Rightarrow> None
      | Some (Some e, g1) \<Rightarrow> Some (Some e, [], g1, set_handle awt h s)
      | Some (None, g1) \<Rightarrow> map_option (Pair None) (gen_resume cl body takes this g1 (set_handle awt h s)))"

definition awt_subscribe ::
    "('v, 'e, 'u) fworld client_fn \<Rightarrow> ('a, 'b, 'v, 'e) gbody \<Rightarrow> bool \<Rightarrow> ptr \<Rightarrow> ptr \<Rightarrow>
      ('a, 'b, 'v, 'e) gen \<Rightarrow> ('v, 'e, 'u) fstore \<Rightarrow>
      ('e exc option \<times> handle list \<times> ('a, 'b, 'v, 'e) gen \<times> ('v, 'e, 'u) fstore) option" where
  "awt_subscribe cl body takes this awt g s =
     (case next_async awt g of
        None \<Rightarrow> None
      | Some (Some e, g1) \<Rightarrow> Some (Some e, [], g1, s)
      | Some (None, g1) \<Rightarrow> map_option (Pair None) (gen_resume cl body takes this g1 s))"

definition awt_resume :: "('a, 'b, 'v, 'e) gen \<Rightarrow> bool" where
  "awt_resume g = (\<not> gen_done g)"

text \<open>
  A thread that has to wait in \<open>next_sync\<close>, or a coroutine or future that waits, goes on when
  the body has reached its next \<open>co_yield\<close>: whoever resumes what the body awaits does this.
\<close>

partial_function (option) settle ::
    "('v, 'e, 'u) fworld client_fn \<Rightarrow> ('a, 'b, 'v, 'e) gbody \<Rightarrow> bool \<Rightarrow> ptr \<Rightarrow> handle list \<Rightarrow>
      ('a, 'b, 'v, 'e) gen \<Rightarrow> ('v, 'e, 'u) fstore \<Rightarrow>
      (handle list \<times> ('a, 'b, 'v, 'e) gen \<times> ('v, 'e, 'u) fstore) option" where
  "settle cl body takes this hs g s =
     (case g_coro g of
        At_await b \<Rightarrow>
          Option.bind (gen_resume cl body takes this g s) (\<lambda>(hs', g', s'). settle cl body takes this (hs @ hs') g' s')
      | _ \<Rightarrow> Some (hs, g, s))"

text \<open>\<open>operator bool\<close> of \<open>next_awt\<close>, which waits for the generator.\<close>

definition awt_bool ::
    "('v, 'e, 'u) fworld client_fn \<Rightarrow> ('a, 'b, 'v, 'e) gbody \<Rightarrow> bool \<Rightarrow> ptr \<Rightarrow> bool \<Rightarrow>
      ('a, 'b, 'v, 'e) gen \<Rightarrow> ('v, 'e, 'u) fstore \<Rightarrow>
      (('e exc + bool) \<times> ('a, 'b, 'v, 'e) gen \<times> ('v, 'e, 'u) fstore) option" where
  "awt_bool cl body takes this state g s =
     (if state then Some (Inr True, g, s)
      else if gen_done g then Some (Inr False, g, s)
      else do {
        (thrown, hs, g1, s1) \<leftarrow> next_sync cl body takes this g s;
        case thrown of
          Some e \<Rightarrow> Some (Inl e, g1, s1)
        | None \<Rightarrow> do {
            (hs', g2, s2) \<leftarrow> settle cl body takes this hs g1 s1;
            if g_block g2 then Some (Inr (awt_resume g2), g2, s2) else None } })"

text \<open>
  The generator object: its functions set the argument, if the generator takes one, and go to
  the promise object; a default-constructed one has none (\<open>None\<close>) and is done. \<open>next\<close> gives an
  awaiter, which \<open>gen_next\<close> then asks with its \<open>operator bool\<close>.
\<close>

definition with_arg :: "'a option \<Rightarrow> ('a, 'b, 'v, 'e) gen \<Rightarrow> ('a, 'b, 'v, 'e) gen" where
  "with_arg arg g = (case arg of None \<Rightarrow> g | Some a \<Rightarrow> set_arg a g)"

definition gen_next ::
    "('v, 'e, 'u) fworld client_fn \<Rightarrow> ('a, 'b, 'v, 'e) gbody \<Rightarrow> ptr \<Rightarrow> 'a option \<Rightarrow>
      ('a, 'b, 'v, 'e) gen \<Rightarrow> ('v, 'e, 'u) fstore \<Rightarrow>
      (('e exc + bool) \<times> ('a, 'b, 'v, 'e) gen \<times> ('v, 'e, 'u) fstore) option" where
  "gen_next cl body this arg g s = awt_bool cl body (arg \<noteq> None) this False (with_arg arg g) s"

definition gen_call ::
    "('v, 'e, 'u) fworld client_fn \<Rightarrow> ('a, 'b, 'v, 'e) gbody \<Rightarrow> ptr \<Rightarrow> 'a option \<Rightarrow> ptr \<Rightarrow> ptr \<Rightarrow>
      ('a, 'b, 'v, 'e) gen \<Rightarrow> ('v, 'e, 'u) fstore \<Rightarrow>
      ('e exc option \<times> handle list \<times> ('a, 'b, 'v, 'e) gen \<times> ('v, 'e, 'u) fstore) option" where
  "gen_call cl body this arg f p g s = next_future cl body (arg \<noteq> None) this f p (with_arg arg g) s"

definition generator_done :: "('a, 'b, 'v, 'e) gen option \<Rightarrow> bool" where
  "generator_done obj = (case obj of None \<Rightarrow> True | Some g \<Rightarrow> gen_done g)"

subsection \<open>The iterator\<close>

text \<open>An iterator of the one generator is its flag \<open>_next\<close>; \<open>end()\<close> is the flag false.\<close>

definition iter_begin ::
    "('v, 'e, 'u) fworld client_fn \<Rightarrow> ('a, 'b, 'v, 'e) gbody \<Rightarrow> ptr \<Rightarrow>
      ('a, 'b, 'v, 'e) gen \<Rightarrow> ('v, 'e, 'u) fstore \<Rightarrow>
      (('e exc + bool) \<times> ('a, 'b, 'v, 'e) gen \<times> ('v, 'e, 'u) fstore) option" where
  "iter_begin cl body this g s = awt_bool cl body False this False g s"

definition iter_end :: bool where
  "iter_end = False"

definition iter_next ::
    "('v, 'e, 'u) fworld client_fn \<Rightarrow> ('a, 'b, 'v, 'e) gbody \<Rightarrow> ptr \<Rightarrow>
      ('a, 'b, 'v, 'e) gen \<Rightarrow> ('v, 'e, 'u) fstore \<Rightarrow>
      (('e exc + bool) \<times> ('a, 'b, 'v, 'e) gen \<times> ('v, 'e, 'u) fstore) option" where
  "iter_next cl body this g s = awt_bool cl body False this False g s"

definition iter_deref :: "('a, 'b, 'v, 'e) gen \<Rightarrow> 'e exc + 'v" where
  "iter_deref g = gen_value g"

definition iter_equal :: "bool \<Rightarrow> bool \<Rightarrow> bool" where
  "iter_equal a b = (a = b)"

text \<open>The post-increment keeps the value it moves out; then it steps.\<close>

definition iter_postfix ::
    "('v, 'e, 'u) fworld client_fn \<Rightarrow> ('a, 'b, 'v, 'e) gbody \<Rightarrow> ptr \<Rightarrow>
      ('a, 'b, 'v, 'e) gen \<Rightarrow> ('v, 'e, 'u) fstore \<Rightarrow>
      (('e exc + 'v \<times> bool) \<times> ('a, 'b, 'v, 'e) gen \<times> ('v, 'e, 'u) fstore) option" where
  "iter_postfix cl body this g s =
     (case gen_value g of
        Inl e \<Rightarrow> Some (Inl e, g, s)
      | Inr v \<Rightarrow>
          map_option (\<lambda>(r, g', s'). (case r of Inl e \<Rightarrow> Inl e | Inr n \<Rightarrow> Inr (v, n), g', s'))
            (awt_bool cl body False this False g s))"

text \<open>The language's loop \<open>for (auto &x: gen)\<close>: the values it sees and the exception that ends it.\<close>

partial_function (option) range_for ::
    "('v, 'e, 'u) fworld client_fn \<Rightarrow> ('a, 'b, 'v, 'e) gbody \<Rightarrow> ptr \<Rightarrow> ('e exc + bool) \<Rightarrow>
      ('a, 'b, 'v, 'e) gen \<Rightarrow> ('v, 'e, 'u) fstore \<Rightarrow> 'v list \<Rightarrow> ('v list \<times> 'e exc option) option" where
  "range_for cl body this it g s seen =
     (case it of
        Inl e \<Rightarrow> Some (seen, Some e)
      | Inr flag \<Rightarrow>
          if iter_equal flag iter_end then Some (seen, None)
          else
            (case iter_deref g of
               Inl e \<Rightarrow> Some (seen, Some e)
             | Inr v \<Rightarrow>
                 Option.bind (iter_next cl body this g s) (\<lambda>(it', g', s').
                   range_for cl body this it' g' s' (seen @ [v]))))"

definition for_each ::
    "('v, 'e, 'u) fworld client_fn \<Rightarrow> ('a, 'b, 'v, 'e) gbody \<Rightarrow> ptr \<Rightarrow>
      ('a, 'b, 'v, 'e) gen \<Rightarrow> ('v, 'e, 'u) fstore \<Rightarrow> ('v list \<times> 'e exc option) option" where
  "for_each cl body this g s =
     Option.bind (iter_begin cl body this g s) (\<lambda>(it, g', s'). range_for cl body this it g' s' [])"


section \<open>What a body produces\<close>

text \<open>
  The reference: what the body itself comes to next, whatever it awaits on the way, and
  however the caller asks for it.
\<close>

datatype ('b, 'v, 'e) outcome =
    Got 'v 'b
  | Ended
  | Failed "'e exc"

inductive reaches ::
    "('a, 'b, 'v, 'e) gbody \<Rightarrow> bool \<Rightarrow> 'a option \<Rightarrow> 'a option \<Rightarrow> 'b \<Rightarrow> ('b, 'v, 'e) outcome \<Rightarrow> bool"
    for body takes arg where
  yields: "body inp b = Co_yield v b' \<Longrightarrow> reaches body takes arg inp b (Got v b')"
| returns: "body inp b = Co_return \<Longrightarrow> reaches body takes arg inp b Ended"
| throws: "body inp b = Co_throw e \<Longrightarrow> reaches body takes arg inp b (Failed e)"
| awaits: "body inp b = Co_await b' \<Longrightarrow> reaches body takes arg None b' out \<Longrightarrow> reaches body takes arg inp b out"
| reads: "body inp b = Co_yield_null b' \<Longrightarrow> takes \<longrightarrow> arg \<noteq> None \<Longrightarrow>
    reaches body takes arg (if takes then arg else None) b' out \<Longrightarrow> reaches body takes arg inp b out"

definition gen_reaches ::
    "('a, 'b, 'v, 'e) gbody \<Rightarrow> bool \<Rightarrow> ('a, 'b, 'v, 'e) gen \<Rightarrow> ('b, 'v, 'e) outcome \<Rightarrow> bool" where
  "gen_reaches body takes g out =
     (case g_coro g of
        At_start b \<Rightarrow> reaches body takes (g_arg g) None b out
      | At_yield b \<Rightarrow> (case read_arg takes g of None \<Rightarrow> False | Some i \<Rightarrow> reaches body takes (g_arg g) i b out)
      | _ \<Rightarrow> False)"

fun after :: "('b, 'v, 'e) outcome \<Rightarrow> ('a, 'b, 'v, 'e) gen \<Rightarrow> ('a, 'b, 'v, 'e) gen" where
  "after (Got v b) g = yield_value v (g\<lparr>g_coro := At_yield b\<rparr>)"
| "after Ended g = final_suspend (return_void g)"
| "after (Failed e) g = final_suspend (unhandled_exception e g)"

lemmas after_defs = yield_value_def return_void_def unhandled_exception_def final_suspend_def

lemma after_simps [simp]:
  "after out (g\<lparr>g_coro := c\<rparr>) = after out g" "g_caller (after out g) = g_caller g" "g_arg (after out g) = g_arg g"
  "g_block (after out g) = g_block g"
  by (cases out; simp add: after_defs)+

text \<open>Either the body gets to its next outcome at once, or it stops at a \<open>co_await\<close> on the way.\<close>

lemma run_body_cases:
  assumes "reaches body takes arg inp b out" and "g_arg g = arg"
  shows "run_body cl body takes this inp b g s = yield_suspend cl this (after out g) s \<or>
    (\<exists>b'. run_body cl body takes this inp b g s = Some ([], g\<lparr>g_coro := At_await b'\<rparr>, s) \<and>
      reaches body takes arg None b' out)"
  using assms
proof (induction arbitrary: g rule: reaches.induct)
  case (reads inp b b' out)
  then have "read_arg takes g = Some (if takes then arg else None)" by (auto simp: read_arg_def)
  then have "run_body cl body takes this inp b g s = run_body cl body takes this (if takes then arg else None) b' g s"
    using reads(1) by (subst run_body.simps) simp
  with reads.IH [OF reads.prems] show ?case by simp
next
  case (awaits inp b b' out)
  then have "run_body cl body takes this inp b g s = Some ([], g\<lparr>g_coro := At_await b'\<rparr>, s)"
    by (subst run_body.simps) simp
  with awaits(2) show ?case by blast
qed (subst run_body.simps; simp)+

text \<open>With what it awaits completed, it gets there.\<close>

lemma settle_yield:
  assumes "yield_suspend cl this (after out g) s = Some (hs, g', s')"
  shows "settle cl body takes this hs' g' s' = Some (hs', g', s')"
proof -
  have "g_coro g' = g_coro (after out g)"
    using assms by (auto simp: yield_suspend_def caller_resume_def unblock_sync_def split: if_splits prod.splits)
  then show ?thesis by (subst settle.simps) (cases out; simp add: after_defs)
qed

lemma settle_at_await:
  assumes "run_body cl body takes this None b g s = Some (hs1, g1, s1)" and "g_coro g = At_await b"
  shows "settle cl body takes this hs0 g s = settle cl body takes this (hs0 @ hs1) g1 s1"
  using assms by (subst settle.simps) (simp add: gen_resume_def)

lemma run_body_settles:
  assumes "reaches body takes arg inp b out" and "g_arg g = arg"
    and "yield_suspend cl this (after out g) s = Some (hs, g', s')"
  shows "\<exists>hs1 g1 s1. run_body cl body takes this inp b g s = Some (hs1, g1, s1) \<and>
    (\<forall>hs0. settle cl body takes this (hs0 @ hs1) g1 s1 = Some (hs0 @ hs, g', s'))"
  using assms
proof (induction arbitrary: g rule: reaches.induct)
  case (awaits inp b b' out)
  have "run_body cl body takes this inp b g s = Some ([], g\<lparr>g_coro := At_await b'\<rparr>, s)"
    using awaits(1) by (subst run_body.simps) simp
  moreover obtain hs1 g1 s1 where "run_body cl body takes this None b' (g\<lparr>g_coro := At_await b'\<rparr>) s = Some (hs1, g1, s1)"
    "\<forall>hs0. settle cl body takes this (hs0 @ hs1) g1 s1 = Some (hs0 @ hs, g', s')"
    using awaits.IH [of "g\<lparr>g_coro := At_await b'\<rparr>"] awaits.prems by auto
  ultimately show ?case using settle_at_await by fastforce
next
  case (reads inp b b' out)
  then have "read_arg takes g = Some (if takes then arg else None)" by (auto simp: read_arg_def)
  then have "run_body cl body takes this inp b g s = run_body cl body takes this (if takes then arg else None) b' g s"
    using reads(1) by (subst run_body.simps) simp
  with reads.IH [OF reads.prems] show ?case by simp
next
  case (yields inp b v b')
  then have "run_body cl body takes this inp b g s = Some (hs, g', s')" by (subst run_body.simps) simp
  with settle_yield [OF yields(3)] show ?case by blast
next
  case (returns inp b)
  then have "run_body cl body takes this inp b g s = Some (hs, g', s')" by (subst run_body.simps) simp
  with settle_yield [OF returns(3)] show ?case by blast
next
  case (throws inp b e)
  then have "run_body cl body takes this inp b g s = Some (hs, g', s')" by (subst run_body.simps) simp
  with settle_yield [OF throws(3)] show ?case by blast
qed

lemma gen_resume_settles:
  assumes "gen_reaches body takes g out" and "yield_suspend cl this (after out g) s = Some (hs, g', s')"
  shows "\<exists>hs1 g1 s1. gen_resume cl body takes this g s = Some (hs1, g1, s1) \<and>
    settle cl body takes this hs1 g1 s1 = Some (hs, g', s')"
proof -
  obtain inp b where "reaches body takes (g_arg g) inp b out"
    "gen_resume cl body takes this g s = run_body cl body takes this inp b g s"
    using assms(1) by (auto simp: gen_reaches_def gen_resume_def split: gcoro.splits option.splits)
  with run_body_settles [OF this(1) refl assms(2)] show ?thesis
    by (metis append_Nil)
qed

subsection \<open>The three ways agree\<close>

text \<open>An idle generator that has not ended, and its awaiting promise.\<close>

definition gen_idle :: "('a, 'b, 'v, 'e) gen \<Rightarrow> bool" where
  "gen_idle g \<longleftrightarrow> g_caller g = nullptr \<and> \<not> g_done g \<and> g_exp g = None"

fun got :: "('b, 'v, 'e) outcome \<Rightarrow> bool" where
  "got Ended = False"
| "got _ = True"

fun outcome_value :: "('b, 'v, 'e) outcome \<Rightarrow> 'e exc + 'v" where
  "outcome_value (Got v b) = Inr v"
| "outcome_value Ended = Inl Value_not_ready"
| "outcome_value (Failed e) = Inl e"

fun future_outcome :: "('b, 'v, 'e) outcome \<Rightarrow> 'e exc + 'v reference" where
  "future_outcome (Got v b) = Inr (Own v)"
| "future_outcome Ended = Inl Await_canceled"
| "future_outcome (Failed e) = Inl e"

text \<open>The generator after the outcome, idle again.\<close>

definition stepped :: "('b, 'v, 'e) outcome \<Rightarrow> bool \<Rightarrow> ('a, 'b, 'v, 'e) gen \<Rightarrow> ('a, 'b, 'v, 'e) gen" where
  "stepped out blk g = (after out g)\<lparr>g_arg := None, g_caller := nullptr, g_block := blk\<rparr>"

lemma settle_stepped: "settle cl body takes this hs (stepped out k g) s = Some (hs, stepped out k g, s)"
  by (subst settle.simps) (cases out; simp add: stepped_def after_defs)

lemma stepped_value:
  assumes "gen_idle g"
  shows "gen_value (stepped out blk g) = outcome_value out" "awt_resume (stepped out blk g) = got out"
  using assms by (cases out; simp add: stepped_def after_defs gen_value_def awt_resume_def gen_done_def gen_idle_def)+

lemma after_mode:
  "(after out (g\<lparr>g_caller := c\<rparr>))\<lparr>g_arg := None, g_caller := nullptr\<rparr> = stepped out (g_block g) g"
  "(after out (g\<lparr>g_block := k, g_caller := c\<rparr>))\<lparr>g_arg := None, g_caller := nullptr\<rparr> = stepped out k g"
  by (cases out; simp add: stepped_def after_defs)+

lemma gen_reaches_caller [simp]:
  "gen_reaches body takes (g\<lparr>g_caller := c\<rparr>) out = gen_reaches body takes g out"
  "gen_reaches body takes (g\<lparr>g_block := k\<rparr>) out = gen_reaches body takes g out"
  by (simp_all add: gen_reaches_def read_arg_def cong: gcoro.case_cong option.case_cong)

lemma gen_reaches_not_done: "gen_reaches body takes g out \<Longrightarrow> \<not> frame_done g"
  by (auto simp: gen_reaches_def frame_done_def split: gcoro.splits)

lemma sync_access:
  assumes idle: "gen_idle g" and r: "gen_reaches body takes g out" and "proper this"
  shows "awt_bool cl body takes this False g s =
    Some (Inr (got out), stepped out True g, set_resume_fn this fn_sync this s)"
proof -
  let ?g = "g\<lparr>g_block := False, g_caller := this\<rparr>" and ?s = "set_resume_fn this fn_sync this s"
  have "yield_suspend cl this (after out ?g) ?s = Some ([], stepped out True g, ?s)"
    using assms(3) by (simp add: yield_suspend_def caller_resume_def unblock_sync_def after_mode)
      (cases out; simp add: stepped_def after_defs)
  moreover have "gen_reaches body takes ?g out" using r by simp
  ultimately obtain hs1 g1 s1 where "gen_resume cl body takes this ?g ?s = Some (hs1, g1, s1)"
    "settle cl body takes this hs1 g1 s1 = Some ([], stepped out True g, ?s)"
    using gen_resume_settles by blast
  moreover have "g_block (stepped out True g)" by (simp add: stepped_def)
  ultimately show ?thesis using idle gen_reaches_not_done [OF r] stepped_value(2) [OF idle]
    by (simp add: awt_bool_def next_sync_def gen_idle_def gen_done_def)
qed

lemma async_access:
  assumes idle: "gen_idle g" and r: "gen_reaches body takes g out" and "proper awt"
  shows "\<exists>hs1 g1 s1. awt_suspend cl body takes this awt h g s = Some (None, hs1, g1, s1) \<and>
    settle cl body takes this hs1 g1 s1 = Some ([h], stepped out (g_block g) g, set_handle awt h s)"
proof -
  let ?g = "g\<lparr>g_caller := awt\<rparr>" and ?s = "set_handle awt h s"
  have "yield_suspend cl this (after out ?g) ?s = Some ([h], stepped out (g_block g) g, ?s)"
    using assms(3) by (simp add: yield_suspend_def caller_resume_def fn_sync_def fn_future_def resume_awaiter_def after_mode)
  with r have "\<exists>hs1 g1 s1. gen_resume cl body takes this ?g ?s = Some (hs1, g1, s1) \<and>
      settle cl body takes this hs1 g1 s1 = Some ([h], stepped out (g_block g) g, ?s)"
    using gen_resume_settles [of body takes ?g out cl this ?s] by simp
  moreover have "next_async awt g = Some (None, ?g)"
    using idle gen_reaches_not_done [OF r] by (simp add: next_async_def gen_idle_def frame_done_def)
  ultimately show ?thesis by (auto simp: awt_suspend_def)
qed


text \<open>Resolving the future of an idle promise that nobody awaits yet.\<close>

fun outcome_future :: "('b, 'v, 'e) outcome \<Rightarrow> ('v, 'e) future" where
  "outcome_future (Got v b) = stored (Arg_value v)"
| "outcome_future Ended = fut_started\<lparr>f_awaiter := awaiter_disabled\<rparr>"
| "outcome_future (Failed e) = stored (Arg_exc e)"

lemma outcome_future_value: "fut_value (outcome_future out) = Some (future_outcome out)"
  by (cases out) (auto simp: fut_value_def stored_def fut_started_def pending_def)

lemma resumed_nothing [simp]: "resumed [] s = s"
  by (auto intro!: aworld.equality)

lemma unblock_future_result:
  assumes "gen_idle g0" and "prom_at this s = Some f" and "f \<noteq> nullptr" and "fut_at f s = Some fut_started"
    and "g = (after out g0)\<lparr>g_arg := a, g_caller := c\<rparr>"
  shows "unblock_future cl this g s =
    Some ([], upd_fut f (Some (outcome_future out)) (upd_prom this (Some nullptr) s))"
proof -
  have l: "linked (a_next s) (f_awaiter fut_started) [] 0" "plain s []" "f_state fut_started = Not_value"
    by (simp_all add: fut_started_def plain_def)
  have "handles_of s [] = []" by (simp add: handles_of_def)
  then show ?thesis using assms promise_set_result [OF assms(2,3,4) l(3,1,2), of cl]
      promise_drop_result [OF assms(2,3,4) l(1,2), of cl]
    by (cases out) (auto simp: unblock_future_def after_defs gen_idle_def settled_def)
qed

lemma yield_to_future:
  assumes "gen_idle g0" and "prom_at this s = Some f" and "f \<noteq> nullptr" and "fut_at f s = Some fut_started"
    and "proper this" and "a_fn s this = fn_future"
  shows "yield_suspend cl this (after out (g0\<lparr>g_caller := this\<rparr>)) s =
    Some ([], stepped out (g_block g0) g0, upd_fut f (Some (outcome_future out)) (upd_prom this (Some nullptr) s))"
proof -
  have i: "gen_idle (g0\<lparr>g_caller := 0\<rparr>)" using assms(1) by (simp add: gen_idle_def)
  have "unblock_future cl this (stepped out (g_block g0) g0) s =
      Some ([], upd_fut f (Some (outcome_future out)) (upd_prom this (Some nullptr) s))"
    by (rule unblock_future_result [OF assms(1-4), where a = None and c = 0]) (cases out; simp add: stepped_def after_defs)
  then show ?thesis using assms(5,6) by (simp add: yield_suspend_def caller_resume_def after_mode fn_sync_def fn_future_def)
qed

lemma future_access:
  assumes idle: "gen_idle g" and r: "gen_reaches body takes g out" and "proper this"
    and pr: "prom_at this s = Some nullptr" and f: "f \<noteq> nullptr" and p: "p \<noteq> this"
  shows "\<exists>hs1 g1 s1 s2. next_future cl body takes this f p g s = Some (None, hs1, g1, s1) \<and>
    settle cl body takes this hs1 g1 s1 = Some ([], stepped out (g_block g) g, s2) \<and>
    fut_at f s2 = Some (outcome_future out) \<and> prom_at this s2 = Some nullptr"
proof -
  let ?g = "g\<lparr>g_caller := this\<rparr>"
  let ?start = "upd_prom p (Some f) (upd_fut f (Some fut_started) s)"
  let ?moved = "upd_prom this (Some f) (upd_prom p (Some nullptr) ?start)"
  let ?s = "set_resume_fn this fn_future this ?moved"
  let ?fin = "\<lambda>t. upd_fut f (Some (outcome_future out)) (upd_prom this (Some nullptr) t)"
  have asg: "promise_assign cl this p ?start = Some ([], ?moved)"
    using p pr promise_empty_result(2) [where p = this and s = ?start and cl = cl] by (simp add: promise_assign_def claim_def)
  have ys: "yield_suspend cl this (after out ?g) s' = Some ([], stepped out (g_block g) g, ?fin s')"
    if "s' = ?s \<or> s' = upd_prom p None ?s" for s'
    by (rule yield_to_future [OF idle]) (use that f p assms(3) in auto)
  obtain inp b where b: "reaches body takes (g_arg ?g) inp b out"
    "gen_resume cl body takes this ?g ?s = run_body cl body takes this inp b ?g ?s"
    using r by (auto simp: gen_reaches_def gen_resume_def read_arg_def split: gcoro.splits option.splits if_splits)
  have dest: "promise_destroy cl p s' = Some ([], upd_prom p None s')" if "prom_at p s' = Some 0" for s'
    using promise_empty_result(3) [OF that] .
  have nf: "next_future cl body takes this f p g s = Some (None, hs1, g1, upd_prom p None s1)"
    if "gen_resume cl body takes this ?g ?s = Some (hs1, g1, s1)" "prom_at p s1 = Some 0" for hs1 g1 s1
    using idle gen_reaches_not_done [OF r] asg that dest [OF that(2)]
    by (simp add: next_future_def fut_construct_def gen_idle_def)
  from run_body_cases [OF b(1) refl, of cl this ?s] show ?thesis
  proof
    assume "run_body cl body takes this inp b ?g ?s = yield_suspend cl this (after out ?g) ?s"
    then have res: "gen_resume cl body takes this ?g ?s = Some ([], stepped out (g_block g) g, ?fin ?s)" using b(2) ys by simp
    have "prom_at p (?fin ?s) = Some 0" using p by simp
    from nf [OF res this] settle_stepped [of cl body "takes" this "[]" out "g_block g" g] show ?thesis
      by (intro exI [of _ "[]"] exI [of _ "stepped out (g_block g) g"] exI [of _ "upd_prom p None (?fin ?s)"])
        (use p in simp)
  next
    assume "\<exists>b'. run_body cl body takes this inp b ?g ?s = Some ([], ?g\<lparr>g_coro := At_await b'\<rparr>, ?s) \<and>
      reaches body takes (g_arg ?g) None b' out"
    then obtain b' where b': "run_body cl body takes this inp b ?g ?s = Some ([], ?g\<lparr>g_coro := At_await b'\<rparr>, ?s)"
      "reaches body takes (g_arg ?g) None b' out" by blast
    have n: "next_future cl body takes this f p g s = Some (None, [], ?g\<lparr>g_coro := At_await b'\<rparr>, upd_prom p None ?s)"
      by (rule nf) (use b(2) b'(1) p in auto)
    have yd: "yield_suspend cl this (after out (?g\<lparr>g_coro := At_await b'\<rparr>)) (upd_prom p None ?s) =
        Some ([], stepped out (g_block g) g, ?fin (upd_prom p None ?s))" using ys [OF disjI2 [OF refl]] by simp
    have ga: "g_arg (?g\<lparr>g_coro := At_await b'\<rparr>) = g_arg ?g" by simp
    from run_body_settles [OF b'(2) ga yd] obtain hs1 g1 t1 where
      "run_body cl body takes this None b' (?g\<lparr>g_coro := At_await b'\<rparr>) (upd_prom p None ?s) = Some (hs1, g1, t1)"
      "\<forall>hs0. settle cl body takes this (hs0 @ hs1) g1 t1 = Some (hs0 @ [], stepped out (g_block g) g, ?fin (upd_prom p None ?s))"
      by blast
    then have "settle cl body takes this [] (?g\<lparr>g_coro := At_await b'\<rparr>) (upd_prom p None ?s) =
        Some ([], stepped out (g_block g) g, ?fin (upd_prom p None ?s))"
      using settle_at_await by fastforce
    with n show ?thesis by auto
  qed
qed


subsection \<open>Iteration\<close>

text \<open>The argument of a call is what the \<open>co_yield\<close> returns to which the body comes back.\<close>

lemma gen_call_argument:
  assumes "gen_idle g" and "g_coro g = At_yield b" and "reaches body True (Some a) (Some a) b out"
    and "proper this" and "prom_at this s = Some nullptr" and "f \<noteq> nullptr" and "p \<noteq> this"
  shows "\<exists>hs1 g1 s1 s2. gen_call cl body this (Some a) f p g s = Some (None, hs1, g1, s1) \<and>
    settle cl body True this hs1 g1 s1 = Some ([], stepped out (g_block g) (set_arg a g), s2) \<and>
    fut_at f s2 = Some (outcome_future out) \<and> prom_at this s2 = Some nullptr"
proof -
  have "gen_idle (set_arg a g)" using assms(1) by (simp add: gen_idle_def set_arg_def)
  moreover have "gen_reaches body True (set_arg a g) out"
    using assms(2,3) by (simp add: gen_reaches_def set_arg_def read_arg_def)
  ultimately show ?thesis
    using future_access [OF _ _ assms(4-7), of "set_arg a g" body True out cl]
    by (simp add: gen_call_def with_arg_def set_arg_def)
qed

text \<open>\<open>produces body b vs en\<close>: from \<open>b\<close> the body yields the values \<open>vs\<close> and then ends, with \<open>en\<close>.\<close>

inductive produces :: "('a, 'b, 'v, 'e) gbody \<Rightarrow> 'b \<Rightarrow> 'v list \<Rightarrow> 'e exc option \<Rightarrow> bool" for body where
  ends: "reaches body False None None b Ended \<Longrightarrow> produces body b [] None"
| fails: "reaches body False None None b (Failed e) \<Longrightarrow> produces body b [] (Some e)"
| gives: "reaches body False None None b (Got v b') \<Longrightarrow> produces body b' vs en \<Longrightarrow> produces body b (v # vs) en"

lemma stepped_got_idle: "gen_idle g \<Longrightarrow> gen_idle (stepped (Got v b) k g)"
  by (simp add: gen_idle_def stepped_def after_defs)

lemma stepped_got_reaches:
  "reaches body False None None b out \<Longrightarrow> gen_reaches body False (stepped (Got v b) k g) out"
  by (simp add: gen_reaches_def stepped_def after_defs read_arg_def)

lemma set_resume_fn_again [simp]: "set_resume_fn a fn c (set_resume_fn a fn c w) = set_resume_fn a fn c w"
  by (simp add: set_resume_fn_def)

text \<open>The loop, entered with the result of a step from \<open>b\<close>.\<close>

lemma range_for_result:
  assumes "produces body b vs en" and "gen_idle g" and "\<And>out. reaches body False None None b out \<Longrightarrow> gen_reaches body False g out"
    and "proper this"
  shows "Option.bind (awt_bool cl body False this False g s)
    (\<lambda>(it, g', s'). range_for cl body this it g' s' seen) = Some (seen @ vs, en)"
  using assms
proof (induction arbitrary: g s seen rule: produces.induct)
  case (ends b)
  have "awt_bool cl body False this False g s = Some (Inr False, stepped Ended True g, set_resume_fn this fn_sync this s)"
    using sync_access [OF ends(2) ends(3) [OF ends(1)] ends(4), of cl s] by simp
  then show ?case by (simp add: range_for.simps iter_equal_def iter_end_def)
next
  case (fails b e)
  have "awt_bool cl body False this False g s =
      Some (Inr True, stepped (Failed e) True g, set_resume_fn this fn_sync this s)"
    using sync_access [OF fails(2) fails(3) [OF fails(1)] fails(4), of cl s] by simp
  then show ?case using stepped_value(1) [OF fails(2), of "Failed e" True]
    by (simp add: range_for.simps iter_equal_def iter_end_def iter_deref_def)
next
  case (gives b v b' vs en)
  let ?g = "stepped (Got v b') True g" and ?s = "set_resume_fn this fn_sync this s"
  have a: "awt_bool cl body False this False g s = Some (Inr True, ?g, ?s)"
    using sync_access [OF gives.prems(1) gives.prems(2) [OF gives.hyps(1)] gives.prems(3), of cl s] by simp
  have "Option.bind (awt_bool cl body False this False ?g ?s)
      (\<lambda>(it, g', s'). range_for cl body this it g' s' (seen @ [v])) = Some ((seen @ [v]) @ vs, en)"
    by (rule gives.IH) (use gives.prems stepped_got_idle stepped_got_reaches in auto)
  moreover have "range_for cl body this (Inr True) ?g ?s seen = Option.bind (awt_bool cl body False this False ?g ?s)
      (\<lambda>(it, g', s'). range_for cl body this it g' s' (seen @ [v]))"
    using stepped_value(1) [OF gives.prems(1), of "Got v b'" True]
    by (subst range_for.simps) (simp add: iter_equal_def iter_end_def iter_deref_def iter_next_def)
  ultimately show ?case using a by simp
qed

text \<open>
  After the body has thrown, \<open>done()\<close> is still false. An awaited access then throws, but it has
  already made its awaiter the caller: every later access finds the generator busy.
\<close>

theorem generator_busy_after_failure:
  assumes "g_caller g = nullptr" and "proper awt" and "proper awt'"
  shows "\<exists>g' s'. awt_suspend cl body takes this awt h (stepped (Failed e) k g) s = Some (Some No_more_values, [], g', s') \<and>
    next_async awt' g' = None"
  using assms by (simp add: awt_suspend_def next_async_def stepped_def after_defs frame_done_def)

section \<open>Properties\<close>

text \<open>
  C16. The three ways to ask a generator for its next value agree with what the body comes to
  next, and with each other, also when the body awaits something on the way: a thread that
  uses \<open>next()\<close> as a condition, a coroutine that awaits \<open>next()\<close>, which is resumed exactly
  once, and a call, whose future gets the value, the exception or no value. Each of them
  leaves the generator in the same state, idle again and with the argument forgotten.
\<close>

theorem generator_accesses_agree:
  assumes "gen_idle g" and "gen_reaches body takes g out" and "proper this" and "proper awt"
    and "prom_at this s = Some nullptr" and "f \<noteq> nullptr" and "p \<noteq> this"
  shows "\<exists>gs ss ga sa gf sf hs1 g1 s1 hs2 g2 s2.
    awt_bool cl body takes this False g s = Some (Inr (got out), gs, ss) \<and> gen_value gs = outcome_value out \<and>
    awt_suspend cl body takes this awt h g s = Some (None, hs1, g1, s1) \<and>
    settle cl body takes this hs1 g1 s1 = Some ([h], ga, sa) \<and> awt_resume ga = got out \<and> gen_value ga = outcome_value out \<and>
    next_future cl body takes this f p g s = Some (None, hs2, g2, s2) \<and> settle cl body takes this hs2 g2 s2 = Some ([], gf, sf) \<and>
    Option.bind (fut_at f sf) fut_value = Some (future_outcome out) \<and>
    gs = ga\<lparr>g_block := True\<rparr> \<and> gf = ga \<and> g_caller ga = nullptr \<and> g_arg ga = None"
proof -
  let ?ga = "stepped out (g_block g) g"
  have st: "stepped out True g = ?ga\<lparr>g_block := True\<rparr>" "g_caller ?ga = nullptr" "g_arg ?ga = None"
    by (simp_all add: stepped_def)
  obtain hs1 g1 s1 where a: "awt_suspend cl body takes this awt h g s = Some (None, hs1, g1, s1)"
    "settle cl body takes this hs1 g1 s1 = Some ([h], ?ga, set_handle awt h s)"
    using async_access [OF assms(1,2,4)] by blast
  obtain hs2 g2 s2 s3 where n: "next_future cl body takes this f p g s = Some (None, hs2, g2, s2)"
    "settle cl body takes this hs2 g2 s2 = Some ([], ?ga, s3)" "fut_at f s3 = Some (outcome_future out)"
    using future_access [OF assms(1,2,3,5,6,7)] by blast
  note sy = sync_access [OF assms(1-3), of cl s]
  note v = stepped_value [OF assms(1), of out]
  have "Option.bind (fut_at f s3) fut_value = Some (future_outcome out)" by (simp add: n(3) outcome_future_value)
  with sy a n(1,2) st v v(1) [of True, unfolded st(1)] show ?thesis
    by - (rule exI [of _ "stepped out True g"], rule exI [of _ "set_resume_fn this fn_sync this s"], rule exI [of _ ?ga],
        rule exI [of _ "set_handle awt h s"], rule exI [of _ ?ga], rule exI [of _ s3], rule exI [of _ hs1], rule exI [of _ g1],
        rule exI [of _ s1], rule exI [of _ hs2], rule exI [of _ g2], rule exI [of _ s2], simp only: simp_thms)
qed

definition sample_body :: "(unit, nat, nat, unit) gbody" where
  "sample_body inp b = (if b = 0 then Co_await 1 else if b = 4 then Co_return else Co_yield (10 * b) (b + 1))"

theorem generator_accesses_agree_witness:
  "\<exists>gs ss gf sf hs2 g2 s2.
    awt_bool (\<lambda>_ _ _ w. ([], w)) sample_body False 5 False (gen_new 0) (upd_prom 5 (Some 0) empty_store) = Some (Inr True, gs, ss) \<and>
    gen_value gs = Inr 10 \<and>
    next_future (\<lambda>_ _ _ w. ([], w)) sample_body False 5 90 91 (gen_new 0) (upd_prom 5 (Some 0) empty_store) = Some (None, hs2, g2, s2) \<and>
    settle (\<lambda>_ _ _ w. ([], w)) sample_body False 5 hs2 g2 s2 = Some ([], gf, sf) \<and>
    Option.bind (fut_at 90 sf) fut_value = Some (Inr (Own 10))"
proof -
  have "reaches sample_body False None None 1 (Got 10 2)" by (rule reaches.yields) (simp add: sample_body_def)
  then have "reaches sample_body False None None 0 (Got 10 2)" by (rule reaches.awaits [rotated]) (simp add: sample_body_def)
  then have r: "gen_reaches sample_body False (gen_new 0) (Got 10 2)" by (simp add: gen_reaches_def gen_new_def)
  have i: "gen_idle (gen_new 0 :: (unit, nat, nat, unit) gen)" by (simp add: gen_idle_def gen_new_def)
  from generator_accesses_agree [OF i r, of 5 6 "upd_prom 5 (Some 0) empty_store" 90 91 "\<lambda>_ _ _ w. ([], w)" 60]
  show ?thesis by (simp add: proper_def) blast
qed

text \<open>
  A range-based loop over a generator sees exactly the values its body yields, in order,
  ends when the body returns, and passes on the exception that the body throws; also when the
  body awaits between its values.
\<close>

theorem generator_for_each:
  assumes "produces body b vs en" and "proper this"
  shows "for_each cl body this (gen_new b) s = Some (vs, en)"
  using range_for_result [OF assms(1) _ _ assms(2), of "gen_new b" cl s "[]"]
  by (simp add: for_each_def iter_begin_def gen_idle_def gen_reaches_def gen_new_def)

theorem generator_for_each_witness:
  "for_each (\<lambda>_ _ _ w. ([], w)) sample_body 5 (gen_new 0) empty_store = Some ([10, 20, 30], None)"
proof (rule generator_for_each)
  have y: "reaches sample_body False None None b (Got (10 * b) (b + 1))" if "b \<in> {1, 2, 3}" for b
    using that by (intro reaches.yields) (auto simp: sample_body_def)
  have "produces sample_body 4 [] None" by (intro produces.ends reaches.returns) (simp add: sample_body_def)
  then have "produces sample_body 3 [30] None" using produces.gives [of sample_body 3 30 4] y [of 3] by simp
  then have "produces sample_body 2 [20, 30] None" using produces.gives [of sample_body 2 20 3] y [of 2] by simp
  moreover have "reaches sample_body False None None 0 (Got 10 2)"
    using reaches.awaits [of sample_body None 0 1] y [of 1] by (simp add: sample_body_def numeral_2_eq_2)
  ultimately show "produces sample_body 0 [10, 20, 30] None" by (rule produces.gives [rotated])
qed (simp add: proper_def)

end
