(* ===== verification/Scheduler_Interval.thy ===== *)
theory Scheduler_Interval
  imports Scheduler Generator
begin

section \<open>scheduler::interval: a generator of ticks\<close>

text \<open>
  \<open>interval\<close> of \<open>scheduler.h\<close>: a coroutine that sleeps in the scheduler and yields numbers.
  It is the body of a generator (theory \<open>Generator\<close>) over a scheduler (theory \<open>Scheduler\<close>);
  one activation of the coroutine reads the clock once at most. The stop token may be stopped at
  any time. The counter is not initialised
  by the code, so what it holds at the start is a parameter of the frame.

  The objects of the frame have addresses: the future \<open>waiter\<close>, the variable \<open>tag\<close> whose
  address is the identifier of the sleeps, and the awaiter of the one \<open>co_await\<close>.
\<close>

subsection \<open>The coroutine\<close>

datatype iv_pc =
    Iv_start
  | Iv_sleeping
  | Iv_yielded

record interval =
  iv_pc :: iv_pc
  iv_counter :: "64 word"
  iv_next :: int

record iv_frame =
  iv_dur :: int
  iv_waiter :: ptr
  iv_tag :: ptr
  iv_awt :: ptr
  iv_handle :: handle

definition interval_new :: "64 word \<Rightarrow> interval" where
  "interval_new counter = \<lparr>iv_pc = Iv_start, iv_counter = counter, iv_next = 0\<rparr>"

text \<open>
  \<open>waiter << [&]{return sleep_until(next, &tag);}\<close> destroys the old future and constructs the
  new one in its place; the log \<open>slept\<close> of the scheduler goes on with the new one. Then
  the coroutine awaits it.
\<close>

definition forget_sleep :: "ptr \<Rightarrow> ('e, 'u) sched \<Rightarrow> ('e, 'u) sched" where
  "forget_sleep f s = s\<lparr>slept := filter (\<lambda>p. fst p \<noteq> f) (slept s)\<rparr>"

definition iv_sleep ::
    "sch_item heap_ops \<Rightarrow> (unit, 'e, 'u) fworld client_fn \<Rightarrow> iv_frame \<Rightarrow> int \<Rightarrow> ('e, 'u) sched \<Rightarrow>
      ('e, 'u) sched option" where
  "iv_sleep H cl P t s = do {
     st \<leftarrow> fut_destroy (iv_waiter P) (sst s);
     s1 \<leftarrow> sexec H cl (Sleep (iv_waiter P) t (iv_tag P)) (forget_sleep (iv_waiter P) (s\<lparr>sst := st\<rparr>));
     sexec H cl (Await_sleep (iv_waiter P) (iv_awt P) (iv_handle P)) s1 }"

text \<open>The loop, from the test of the token to the next suspension.\<close>

definition iv_loop ::
    "sch_item heap_ops \<Rightarrow> (unit, 'e, 'u) fworld client_fn \<Rightarrow> iv_frame \<Rightarrow> bool \<Rightarrow> interval \<Rightarrow> ('e, 'u) sched \<Rightarrow>
      ((interval, 64 word, 'e) gstep \<times> ('e, 'u) sched) option" where
  "iv_loop H cl P stop b s =
     (if stop then Some (Co_return, s)
      else map_option (Pair (Co_await (b\<lparr>iv_pc := Iv_sleeping\<rparr>))) (iv_sleep H cl P (iv_next b) s))"

text \<open>After the sleep: a value goes on, a cancellation ends the loop, another exception leaves it.\<close>

definition iv_woken ::
    "iv_frame \<Rightarrow> int \<Rightarrow> interval \<Rightarrow> ('e, 'u) sched \<Rightarrow> ((interval, 64 word, 'e) gstep \<times> ('e, 'u) sched) option" where
  "iv_woken P now b s = do {
     fu \<leftarrow> fut_at (iv_waiter P) (sst s);
     v \<leftarrow> fut_value fu;
     case v of
       Inr r \<Rightarrow> Some (Co_yield (iv_counter b) (b\<lparr>iv_pc := Iv_yielded, iv_next := now + iv_dur P\<rparr>), s)
     | Inl e \<Rightarrow> (if e = Await_canceled then Some (Co_return, s) else Some (Co_throw e, s)) }"

text \<open>
  The stop callback runs in the thread that requests the stop, or in the constructor of
  \<open>stop_callback\<close> when the token has been stopped before. It holds the lock when it calls
  \<open>cancel\<close>, whose \<open>remove\<close> takes the lock once more: the mutex is not recursive.
\<close>

definition mx_lock :: "bool \<Rightarrow> bool option" where
  "mx_lock mine = (if mine then None else Some True)"

definition remove_locked ::
    "sch_item heap_ops \<Rightarrow> bool \<Rightarrow> ptr \<Rightarrow> sch_item list \<Rightarrow> (ptr \<times> sch_item list) option" where
  "remove_locked H mine idt xs = do {
     _ \<leftarrow> mx_lock mine;
     remove H idt xs }"

definition iv_stop_callback ::
    "sch_item heap_ops \<Rightarrow> (unit, 'e, 'u) fworld client_fn \<Rightarrow> iv_frame \<Rightarrow> ('e, 'u) sched \<Rightarrow>
      (handle list \<times> bool \<times> ('e, 'u) sched) option" where
  "iv_stop_callback H cl P s = do {
     mine \<leftarrow> mx_lock False;
     (p, xs) \<leftarrow> remove_locked H mine (iv_tag P) (sitems s);
     if p \<noteq> nullptr then do {
       (hs, _, st) \<leftarrow> promise_call cl p (Arg_exc Await_canceled) (sst s);
       Some (hs, True, s\<lparr>sitems := xs, sst := st\<rparr>) }
     else Some ([], False, s\<lparr>sitems := xs\<rparr>) }"

lemma interval_stop_never_returns: "iv_stop_callback H cl P s = None"
  by (simp add: iv_stop_callback_def remove_locked_def mx_lock_def)

text \<open>
  The coroutine up to its next suspension, where \<open>stop\<close> is what the token says. At the start the
  constructor of \<open>stop_callback\<close> runs the callback if the token has been stopped.
\<close>

definition iv_run ::
    "sch_item heap_ops \<Rightarrow> (unit, 'e, 'u) fworld client_fn \<Rightarrow> iv_frame \<Rightarrow> int \<Rightarrow> bool \<Rightarrow> interval \<Rightarrow> ('e, 'u) sched \<Rightarrow>
      ((interval, 64 word, 'e) gstep \<times> ('e, 'u) sched) option" where
  "iv_run H cl P now stop b s =
     (case iv_pc b of
        Iv_start \<Rightarrow> do {
          (_, _, s1) \<leftarrow> (if stop then iv_stop_callback H cl P s else Some ([], False, s));
          iv_loop H cl P stop (b\<lparr>iv_next := now + iv_dur P\<rparr>)
            (s1\<lparr>sst := upd_fut (iv_waiter P) (Some fut_default) (sst s1)\<rparr>) }
      | Iv_sleeping \<Rightarrow> iv_woken P now b s
      | Iv_yielded \<Rightarrow> iv_loop H cl P stop (b\<lparr>iv_counter := iv_counter b + 1\<rparr>) s)"

subsection \<open>The generator in use\<close>

text \<open>
  The generator at the address \<open>this\<close>, whose consumer is a coroutine, beside the other users
  of the scheduler. \<open>iv_ticks\<close> records when a tick was yielded and its number, \<open>iv_began\<close> when the
  generator was asked for the first one; \<open>tk_stop\<close> is the state of the stop token.
\<close>

record ('e, 'u, 'w) ticker =
  tk_gen :: "(unit, interval, 64 word, 'e) gen"
  tk_store :: "(64 word, 'e, 'w) fstore"
  tk_sched :: "('e, 'u) sched"
  tk_ticks :: "(int \<times> 64 word) list"
  tk_began :: int
  tk_stop :: bool

definition ticker_new :: "64 word \<Rightarrow> (64 word, 'e, 'w) fstore \<Rightarrow> ('e, 'u) sched \<Rightarrow> ('e, 'u, 'w) ticker" where
  "ticker_new counter st s =
     \<lparr>tk_gen = gen_new (interval_new counter), tk_store = st, tk_sched = s, tk_ticks = [], tk_began = 0, tk_stop = False\<rparr>"

definition coro_frame :: "interval gcoro \<Rightarrow> interval option" where
  "coro_frame c = (case c of At_start b \<Rightarrow> Some b | At_yield b \<Rightarrow> Some b | At_await b \<Rightarrow> Some b | At_end \<Rightarrow> None)"

text \<open>The consumer co-awaits \<open>next()\<close>: its awaiter is at \<open>c\<close>.\<close>

definition tick_ask ::
    "sch_item heap_ops \<Rightarrow> (unit, 'e, 'u) fworld client_fn \<Rightarrow> (64 word, 'e, 'w) fworld client_fn \<Rightarrow> iv_frame \<Rightarrow> ptr \<Rightarrow>
      ptr \<Rightarrow> handle \<Rightarrow> int \<Rightarrow> ('e, 'u, 'w) ticker \<Rightarrow> (handle list \<times> ('e, 'u, 'w) ticker) option" where
  "tick_ask H cl gcl P this c h now t = do {
     b \<leftarrow> coro_frame (g_coro (tk_gen t));
     (r, s) \<leftarrow> iv_run H cl P now (tk_stop t) b (tk_sched t);
     (_, hs, g, st) \<leftarrow> awt_suspend gcl (\<lambda>_ _. r) False this c h (tk_gen t) (tk_store t);
     Some (hs, t\<lparr>tk_gen := g, tk_store := st, tk_sched := s\<lparr>clock := now\<rparr>,
       tk_began := (if iv_pc b = Iv_start then now else tk_began t)\<rparr>) }"

text \<open>The scheduler resumes the coroutine of the generator.\<close>

definition tick_wake ::
    "sch_item heap_ops \<Rightarrow> (unit, 'e, 'u) fworld client_fn \<Rightarrow> (64 word, 'e, 'w) fworld client_fn \<Rightarrow> iv_frame \<Rightarrow> ptr \<Rightarrow>
      int \<Rightarrow> ('e, 'u, 'w) ticker \<Rightarrow> (handle list \<times> ('e, 'u, 'w) ticker) option" where
  "tick_wake H cl gcl P this now t = do {
     b \<leftarrow> coro_frame (g_coro (tk_gen t));
     (r, s) \<leftarrow> iv_run H cl P now (tk_stop t) b (tk_sched t);
     (hs, g, st) \<leftarrow> gen_resume gcl (\<lambda>_ _. r) False this (tk_gen t) (tk_store t);
     Some (hs, t\<lparr>tk_gen := g, tk_store := st, tk_sched := s\<lparr>clock := now\<rparr>,
       tk_ticks := tk_ticks t @ (case r of Co_yield v _ \<Rightarrow> [(now, v)] | _ \<Rightarrow> [])\<rparr>) }"

text \<open>
  \<open>request_stop()\<close> on the token: it is marked as stopped, and then the callback is called if it is
  registered, which it is from the start of the coroutine to its end.
\<close>

definition tick_stop ::
    "sch_item heap_ops \<Rightarrow> (unit, 'e, 'u) fworld client_fn \<Rightarrow> iv_frame \<Rightarrow> ('e, 'u, 'w) ticker \<Rightarrow>
      (handle list \<times> ('e, 'u, 'w) ticker) option" where
  "tick_stop H cl P t =
     (case g_coro (tk_gen t) of
        At_start b \<Rightarrow> Some ([], t\<lparr>tk_stop := True\<rparr>)
      | At_end \<Rightarrow> Some ([], t\<lparr>tk_stop := True\<rparr>)
      | _ \<Rightarrow> do {
          (hs, _, s) \<leftarrow> iv_stop_callback H cl P (tk_sched t);
          Some (hs, t\<lparr>tk_stop := True, tk_sched := s\<rparr>) })"

text \<open>What others do; the objects of the coroutine's frame are its own.\<close>

fun iv_other :: "iv_frame \<Rightarrow> 'e scmd \<Rightarrow> bool" where
  "iv_other P (Sleep f tp idt) \<longleftrightarrow> f \<noteq> iv_waiter P"
| "iv_other P (Await_sleep f a h) \<longleftrightarrow> f \<noteq> iv_waiter P \<and> a \<noteq> iv_awt P"
| "iv_other P (Cancel idt e) \<longleftrightarrow> True"
| "iv_other P (Round now) \<longleftrightarrow> True"

definition waiter_ready :: "iv_frame \<Rightarrow> ('e, 'u) sched \<Rightarrow> bool" where
  "waiter_ready P s \<longleftrightarrow> (case fut_at (iv_waiter P) (sst s) of None \<Rightarrow> False | Some fu \<Rightarrow> fut_ready fu)"

definition frame_ok :: "iv_frame \<Rightarrow> bool" where
  "frame_ok P \<longleftrightarrow> iv_waiter P \<noteq> nullptr \<and> proper (iv_awt P)"

inductive ticker_reach ::
    "sch_item heap_ops \<Rightarrow> (unit, 'e, 'u) fworld client_fn \<Rightarrow> (64 word, 'e, 'w) fworld client_fn \<Rightarrow> iv_frame \<Rightarrow> ptr \<Rightarrow>
      64 word \<Rightarrow> ('e, 'u, 'w) ticker \<Rightarrow> bool" for H cl gcl P this counter where
  tk_start: "frame_ok P \<Longrightarrow> sched_reach H cl s \<Longrightarrow> iv_waiter P \<notin> fst ` set (slept s) \<Longrightarrow>
    unlinked (iv_awt P) (sst s) \<Longrightarrow> ticker_reach H cl gcl P this counter (ticker_new counter st s)"
| tk_other: "ticker_reach H cl gcl P this counter t \<Longrightarrow> iv_other P c \<Longrightarrow> scmd_ok c (tk_sched t) \<Longrightarrow>
    sexec H cl c (tk_sched t) = Some s \<Longrightarrow> ticker_reach H cl gcl P this counter (t\<lparr>tk_sched := s\<rparr>)"
| tk_ask: "ticker_reach H cl gcl P this counter t \<Longrightarrow> g_caller (tk_gen t) = nullptr \<Longrightarrow>
    g_coro (tk_gen t) \<noteq> At_end \<Longrightarrow> proper c \<Longrightarrow> clock (tk_sched t) \<le> now \<Longrightarrow>
    tick_ask H cl gcl P this c h now t = Some (hs, t') \<Longrightarrow> ticker_reach H cl gcl P this counter t'"
| tk_wake: "ticker_reach H cl gcl P this counter t \<Longrightarrow> g_coro (tk_gen t) = At_await b \<Longrightarrow>
    waiter_ready P (tk_sched t) \<Longrightarrow> clock (tk_sched t) \<le> now \<Longrightarrow>
    tick_wake H cl gcl P this now t = Some (hs, t') \<Longrightarrow> ticker_reach H cl gcl P this counter t'"
| tk_stop: "ticker_reach H cl gcl P this counter t \<Longrightarrow> tick_stop H cl P t = Some (hs, t') \<Longrightarrow>
    ticker_reach H cl gcl P this counter t'"

subsection \<open>The scheduler beside the generator\<close>

text \<open>The awaiter of the coroutine waits for nothing but its own future.\<close>

definition alone :: "iv_frame \<Rightarrow> (ptr \<Rightarrow> ptr list) \<Rightarrow> ('e, 'u) sched \<Rightarrow> bool" where
  "alone P W s \<longleftrightarrow> (\<forall>g \<in> sleepers (sitems s). g \<noteq> iv_waiter P \<longrightarrow> iv_awt P \<notin> set (W g))"

context sch_heap
begin

lemma other_step:
  assumes inv: "sched_inv heap W s" and ok: "scmd_ok c s" "iv_other P c" and ex: "sexec H cl c s = Some s'"
    and al: "alone P W s"
  shows "\<exists>W'. sched_inv heap W' s' \<and> alone P W' s' \<and>
    (iv_waiter P \<in> sleepers (sitems s') \<longrightarrow> iv_waiter P \<in> sleepers (sitems s) \<and> W' (iv_waiter P) = W (iv_waiter P)) \<and>
    (\<forall>x. (iv_waiter P, x) \<in> set (slept s') \<longleftrightarrow> (iv_waiter P, x) \<in> set (slept s)) \<and> clock s \<le> clock s'"
proof (cases c)
  case (Sleep f tp idt)
  then show ?thesis
    using inv_sleep_new [OF inv, of f tp idt cl] ok ex al
    by (intro exI [of _ "W(f := [])"]) (auto simp: alone_def simp del: sexec.simps)
next
  case (Await_sleep f a h)
  have aw: "awaited W (sleepers (sitems s)) (sst s)" using inv by (simp add: sched_inv_def)
  obtain W' where "sched_inv heap W' s'" "W' = (if f \<in> sleepers (sitems s) then W(f := a # W f) else W)"
    "sitems s' = sitems s" "slept s' = slept s" "clock s' = clock s"
    using inv_await_joins [OF inv, of f a cl h] awaited_unlinked [OF aw] ok ex Await_sleep
    by (auto simp del: sexec.simps)
  then show ?thesis using ok al Await_sleep by (intro exI [of _ W']) (auto simp: alone_def)
next
  case (Cancel idt e)
  then show ?thesis using sexec_sleepers [OF inv ex] sexec_slept [OF ex] al
    by (intro exI [of _ W]) (auto simp: alone_def)
next
  case (Round now)
  then show ?thesis using sexec_sleepers [OF inv ex] sexec_slept [OF ex] al ok
    by (intro exI [of _ W]) (auto simp: alone_def)
qed

text \<open>The coroutine itself goes to sleep.\<close>

lemma inv_forget:
  assumes inv: "sched_inv heap W s" and f: "f \<notin> sleepers (sitems s)"
  shows "sched_inv heap W (forget_sleep f (s\<lparr>sst := upd_fut f x (sst s)\<rparr>))"
proof -
  let ?s = "forget_sleep f (s\<lparr>sst := upd_fut f x (sst s)\<rparr>)"
  have "awaited W (sleepers (sitems s)) (upd_fut f x (sst s))"
  proof (rule awaited_cong)
    show "awaited W (sleepers (sitems s)) (sst s)" using inv by (simp add: sched_inv_def)
  qed (use f in auto)
  moreover have "sleep_state ?s p" if "p \<in> set (slept s)" "fst p \<noteq> f" for p
    using inv that unfolding sched_inv_def sleep_state_def forget_sleep_def by auto
  moreover have "sleepers (sitems s) \<subseteq> fst ` {p \<in> set (slept s). fst p \<noteq> f}"
    using inv f unfolding sched_inv_def by force
  ultimately show ?thesis using inv by (simp add: sched_inv_def forget_sleep_def)
qed

lemma iv_sleep_ok:
  assumes inv: "sched_inv heap W s" and P: "frame_ok P" and al: "alone P W s"
    and w: "iv_waiter P \<notin> sleepers (sitems s)"
    and fu: "fut_at (iv_waiter P) (sst s) = Some fu" "\<not> Future.pending fu"
  shows "\<exists>s' W'. iv_sleep H cl P t s = Some s' \<and> sched_inv heap W' s' \<and> alone P W' s' \<and>
    W' (iv_waiter P) = [iv_awt P] \<and> (\<forall>x. (iv_waiter P, x) \<in> set (slept s') \<longleftrightarrow> x = t) \<and> clock s' = clock s"
proof -
  let ?f = "iv_waiter P" and ?a = "iv_awt P"
  let ?st = "upd_fut ?f None (sst s)"
  let ?s = "forget_sleep ?f (s\<lparr>sst := ?st\<rparr>)"
  have d: "fut_destroy ?f (sst s) = Some ?st" using fu by (simp add: fut_destroy_def)
  have ok: "scmd_ok (Sleep ?f t (iv_tag P)) ?s" using P by (auto simp: frame_ok_def forget_sleep_def)
  obtain s1 where s1: "sexec H cl (Sleep ?f t (iv_tag P)) ?s = Some s1" "sched_inv heap (W(?f := [])) s1"
    "sleepers (sitems s1) = insert ?f (sleepers (sitems s))" "slept s1 = slept ?s @ [(?f, t)]" "clock s1 = clock s"
    using inv_sleep_new [OF inv_forget [OF inv w] ok, of cl] by (auto simp: forget_sleep_def simp del: sexec.simps)
  have "\<And>g. g \<in> sleepers (sitems s1) \<Longrightarrow> ?a \<notin> set ((W(?f := [])) g)"
    using al s1(3) by (auto simp: alone_def)
  then obtain s2 W' where s2: "sexec H cl (Await_sleep ?f ?a (iv_handle P)) s1 = Some s2" "sched_inv heap W' s2"
    "W' = W(?f := [?a])" "sitems s2 = sitems s1" "slept s2 = slept s1" "clock s2 = clock s1"
    using inv_await_joins [OF s1(2), of ?f ?a cl "iv_handle P"] P s1(3,4)
    by (auto simp: frame_ok_def simp del: sexec.simps)
  have "iv_sleep H cl P t s = Some s2" using d s1(1) s2(1) by (simp add: iv_sleep_def del: sexec.simps)
  moreover have "alone P W' s2" using al s2(3,4) s1(3) by (auto simp: alone_def)
  moreover have "(?f, x) \<in> set (slept s2) \<longleftrightarrow> x = t" for x using s1(4) s2(5) by (auto simp: forget_sleep_def)
  ultimately show ?thesis using s2 s1(5) by auto
qed

end

subsection \<open>The invariant\<close>

text \<open>When the next tick is due, and what the ticks are so far.\<close>

definition tick_due :: "iv_frame \<Rightarrow> ('e, 'u, 'w) ticker \<Rightarrow> int" where
  "tick_due P t = (if tk_ticks t = [] then tk_began t else fst (last (tk_ticks t))) + iv_dur P"

definition ticks_ok :: "int \<Rightarrow> int \<Rightarrow> 64 word \<Rightarrow> (int \<times> 64 word) list \<Rightarrow> bool" where
  "ticks_ok dur began counter ticks \<longleftrightarrow>
     (\<forall>k < length ticks. snd (ticks ! k) = counter + of_nat k \<and>
        (if k = 0 then began else fst (ticks ! (k - 1))) + dur \<le> fst (ticks ! k))"

lemma ticks_ok_snoc:
  assumes "ticks_ok dur began counter ticks" and "snd x = counter + of_nat (length ticks)"
    and "(if ticks = [] then began else fst (last ticks)) + dur \<le> fst x"
  shows "ticks_ok dur began counter (ticks @ [x])"
  using assms by (auto simp: ticks_ok_def nth_append less_Suc_eq last_conv_nth)

definition frame_at :: "iv_frame \<Rightarrow> 64 word \<Rightarrow> (ptr \<Rightarrow> ptr list) \<Rightarrow> ('e, 'u, 'w) ticker \<Rightarrow> bool" where
  "frame_at P counter W t \<longleftrightarrow>
     (let s = tk_sched t; f = iv_waiter P; c = g_caller (tk_gen t); n = of_nat (length (tk_ticks t)) in
      case g_coro (tk_gen t) of
        At_start b \<Rightarrow> b = interval_new counter \<and> c = nullptr \<and> tk_ticks t = [] \<and> f \<notin> fst ` set (slept s)
      | At_await b \<Rightarrow> iv_pc b = Iv_sleeping \<and> c \<noteq> nullptr \<and> a_fn (tk_store t) c = Fn_coro \<and>
          iv_counter b = counter + n \<and> iv_next b = tick_due P t \<and>
          (\<forall>x. (f, x) \<in> set (slept s) \<longleftrightarrow> x = iv_next b) \<and> (f \<in> sleepers (sitems s) \<longrightarrow> W f = [iv_awt P])
      | At_yield b \<Rightarrow> iv_pc b = Iv_yielded \<and> c = nullptr \<and> iv_counter b + 1 = counter + n \<and>
          iv_next b = tick_due P t \<and> tk_ticks t \<noteq> [] \<and> f \<in> fst ` set (slept s) \<and> f \<notin> sleepers (sitems s)
      | At_end \<Rightarrow> c = nullptr)"

definition ticker_inv ::
    "(sch_item list \<Rightarrow> bool) \<Rightarrow> iv_frame \<Rightarrow> 64 word \<Rightarrow> (ptr \<Rightarrow> ptr list) \<Rightarrow> ('e, 'u, 'w) ticker \<Rightarrow> bool" where
  "ticker_inv heap P counter W t \<longleftrightarrow>
     frame_ok P \<and> sched_inv heap W (tk_sched t) \<and> alone P W (tk_sched t) \<and>
     ticks_ok (iv_dur P) (tk_began t) counter (tk_ticks t) \<and> frame_at P counter W t \<and>
     (tk_stop t \<longrightarrow> (\<exists>b. g_coro (tk_gen t) = At_start b) \<or> g_coro (tk_gen t) = At_end)"

text \<open>Activations of the coroutine, through the generator.\<close>

lemma resume_awaits:
  "g_coro g = At_start b \<or> g_coro g = At_yield b \<Longrightarrow>
    gen_resume gcl (\<lambda>_ _. Co_await b') False this g st = Some ([], g\<lparr>g_coro := At_await b'\<rparr>, st)"
  by (auto simp: gen_resume_def read_arg_def run_body.simps)

lemma ask_awaits:
  assumes "g_coro g = At_start b \<or> g_coro g = At_yield b" and "g_caller g = nullptr"
  shows "awt_suspend gcl (\<lambda>_ _. Co_await b') False this c h g st =
    Some (None, [], g\<lparr>g_caller := c, g_coro := At_await b'\<rparr>, set_handle c h st)"
proof -
  have "next_async c g = Some (None, g\<lparr>g_caller := c\<rparr>)"
    using assms by (auto simp: next_async_def frame_done_def)
  moreover have "g_coro (g\<lparr>g_caller := c\<rparr>) = At_start b \<or> g_coro (g\<lparr>g_caller := c\<rparr>) = At_yield b"
    using assms(1) by simp
  ultimately show ?thesis using resume_awaits [of "g\<lparr>g_caller := c\<rparr>"] by (simp add: awt_suspend_def)
qed

text \<open>After a sleep the coroutine comes to a \<open>co_yield\<close> or to its end; the consumer is resumed.\<close>

lemma wake_resumes:
  assumes c: "g_coro g = At_await b" "g_caller g \<noteq> nullptr" "a_fn st (g_caller g) = Fn_coro"
    and r: "(\<exists>v b'. r = Co_yield v b') \<or> r = Co_return \<or> (\<exists>e. r = Co_throw e)"
  shows "\<exists>g'. gen_resume gcl (\<lambda>_ _. r) False this g st = Some ([a_haddr st (g_caller g)], g', st) \<and>
    g_caller g' = nullptr \<and> g_coro g' = (case r of Co_yield v b' \<Rightarrow> At_yield b' | _ \<Rightarrow> At_end)"
proof -
  have "fn_sync \<noteq> Fn_coro" "fn_future \<noteq> Fn_coro" by (simp_all add: fn_sync_def fn_future_def)
  with c r show ?thesis
    by (auto simp: gen_resume_def run_body.simps yield_suspend_def caller_resume_def resume_awaiter_def
      yield_value_def return_void_def final_suspend_def unhandled_exception_def)
qed

lemma waiter_value:
  assumes inv: "sched_inv heap W s" and sl: "(iv_waiter P, x) \<in> set (slept s)" and rdy: "waiter_ready P s"
  shows "(fut_at (iv_waiter P) (sst s) = Some (stored (Arg_value ())) \<and> x \<le> clock s) \<or>
    (\<exists>e. fut_at (iv_waiter P) (sst s) = Some (stored (Arg_exc e)))"
    and "iv_waiter P \<notin> sleepers (sitems s)"
proof -
  show nin: "iv_waiter P \<notin> sleepers (sitems s)"
  proof
    assume "iv_waiter P \<in> sleepers (sitems s)"
    moreover have "awaited W (sleepers (sitems s)) (sst s)" using inv by (simp add: sched_inv_def)
    ultimately obtain fu where "fut_at (iv_waiter P) (sst s) = Some fu" "Future.pending fu" by (metis awaitedE)
    with rdy show False by (auto simp: waiter_ready_def Future.pending_def fut_ready_def)
  qed
  have "sleep_state s (iv_waiter P, x)" using inv sl by (auto simp: sched_inv_def)
  moreover have "i_p y \<noteq> iv_waiter P" if "y \<in># live (sitems s)" for y
    using nin that by (auto simp: sleepers_def image_iff)
  ultimately show "(fut_at (iv_waiter P) (sst s) = Some (stored (Arg_value ())) \<and> x \<le> clock s) \<or>
    (\<exists>e. fut_at (iv_waiter P) (sst s) = Some (stored (Arg_exc e)))"
    unfolding sleep_state_def by auto
qed

lemma iv_woken_result:
  assumes "iv_pc b = Iv_sleeping"
  shows "fut_at (iv_waiter P) (sst s) = Some (stored (Arg_value ())) \<Longrightarrow>
      iv_run H cl P now stop b s = Some (Co_yield (iv_counter b) (b\<lparr>iv_pc := Iv_yielded, iv_next := now + iv_dur P\<rparr>), s)"
    and "fut_at (iv_waiter P) (sst s) = Some (stored (Arg_exc e)) \<Longrightarrow>
      iv_run H cl P now stop b s = Some (if e = Await_canceled then Co_return else Co_throw e, s)"
  using assms by (simp_all add: iv_run_def iv_woken_def stored_def fut_value_def)

subsection \<open>The steps keep the invariant\<close>

lemma set_handle_fn: "a_fn (set_handle c h st) c = Fn_coro"
  by (simp add: set_handle_def)

context sch_heap
begin

lemma inv_clock: "sched_inv heap W s \<Longrightarrow> clock s \<le> now \<Longrightarrow> sched_inv heap W (s\<lparr>clock := now\<rparr>)"
  using inv_same_live [of W s "sitems s" now] by (simp add: sched_inv_def)

lemma ticker_start:
  assumes P: "frame_ok P" and s: "sched_reach H cl s" and w: "iv_waiter P \<notin> fst ` set (slept s)"
    and un: "unlinked (iv_awt P) (sst s)"
  shows "\<exists>W. ticker_inv heap P counter W (ticker_new counter st s)"
proof -
  obtain W where W: "sched_inv heap W s" using inv_reach [OF s] by blast
  then have "awaited W (sleepers (sitems s)) (sst s)" by (simp add: sched_inv_def)
  from awaited_unlinked [OF this un] have "alone P W s" by (simp add: alone_def)
  with P W w show ?thesis
    by (intro exI [of _ W]) (simp add: ticker_inv_def ticker_new_def gen_new_def frame_at_def ticks_ok_def)
qed

lemma ticker_other:
  assumes inv: "ticker_inv heap P counter W t" and ok: "iv_other P c" "scmd_ok c (tk_sched t)"
    and ex: "sexec H cl c (tk_sched t) = Some s"
  shows "\<exists>W'. ticker_inv heap P counter W' (t\<lparr>tk_sched := s\<rparr>)"
proof -
  let ?f = "iv_waiter P"
  have I: "sched_inv heap W (tk_sched t)" "alone P W (tk_sched t)" "frame_at P counter W t"
    using inv by (simp_all add: ticker_inv_def)
  obtain W' where W': "sched_inv heap W' s" "alone P W' s"
    "?f \<in> sleepers (sitems s) \<Longrightarrow> ?f \<in> sleepers (sitems (tk_sched t)) \<and> W' ?f = W ?f"
    "\<And>x. (?f, x) \<in> set (slept s) \<longleftrightarrow> (?f, x) \<in> set (slept (tk_sched t))"
    using other_step [OF I(1) ok(2,1) ex I(2)] by blast
  have "?f \<in> fst ` set (slept s) \<longleftrightarrow> ?f \<in> fst ` set (slept (tk_sched t))" using W'(4) by force
  then have "frame_at P counter W' (t\<lparr>tk_sched := s\<rparr>)"
    using I(3) W'(3,4) unfolding frame_at_def Let_def tick_due_def by (cases "g_coro (tk_gen t)") auto
  with inv W' show ?thesis by (auto simp: ticker_inv_def)
qed

lemma iv_starts:
  assumes inv: "sched_inv heap W s" and P: "frame_ok P" and al: "alone P W s"
    and b: "b = interval_new counter" "iv_waiter P \<notin> fst ` set (slept s)"
  shows "\<exists>s' W' b'. iv_run H cl P now False b s = Some (Co_await b', s') \<and>
    b' = b\<lparr>iv_pc := Iv_sleeping, iv_next := now + iv_dur P\<rparr> \<and>
    sched_inv heap W' s' \<and> alone P W' s' \<and> W' (iv_waiter P) = [iv_awt P] \<and>
    (\<forall>x. (iv_waiter P, x) \<in> set (slept s') \<longleftrightarrow> x = iv_next b') \<and> clock s' = clock s"
proof -
  let ?s = "s\<lparr>sst := upd_fut (iv_waiter P) (Some fut_default) (sst s)\<rparr>"
  have w: "iv_waiter P \<notin> sleepers (sitems s)" using inv b(2) by (auto simp: sched_inv_def)
  have "forget_sleep (iv_waiter P) ?s = ?s"
    using b(2) by (force simp: forget_sleep_def intro!: sched.equality filter_True)
  then have "sched_inv heap W ?s" using inv_forget [OF inv w, of "Some fut_default"] by simp
  moreover have "alone P W ?s" using al by (simp add: alone_def)
  moreover have "\<not> Future.pending fut_default" by (simp add: fut_default_def Future.pending_def)
  ultimately obtain s' W' where "iv_sleep H cl P (now + iv_dur P) ?s = Some s'" "sched_inv heap W' s'" "alone P W' s'"
    "W' (iv_waiter P) = [iv_awt P]" "\<forall>x. (iv_waiter P, x) \<in> set (slept s') \<longleftrightarrow> x = now + iv_dur P" "clock s' = clock s"
    using iv_sleep_ok [of W ?s P fut_default cl "now + iv_dur P"] P w by auto
  then show ?thesis using b(1) by (auto simp: iv_run_def iv_loop_def interval_new_def)
qed

lemma iv_goes_on:
  assumes inv: "sched_inv heap W s" and P: "frame_ok P" and al: "alone P W s"
    and b: "iv_pc b = Iv_yielded" "iv_waiter P \<in> fst ` set (slept s)" "iv_waiter P \<notin> sleepers (sitems s)"
  shows "\<exists>s' W' b'. iv_run H cl P now False b s = Some (Co_await b', s') \<and>
    b' = b\<lparr>iv_pc := Iv_sleeping, iv_counter := iv_counter b + 1\<rparr> \<and>
    sched_inv heap W' s' \<and> alone P W' s' \<and> W' (iv_waiter P) = [iv_awt P] \<and>
    (\<forall>x. (iv_waiter P, x) \<in> set (slept s') \<longleftrightarrow> x = iv_next b') \<and> clock s' = clock s"
proof -
  obtain x where "(iv_waiter P, x) \<in> set (slept s)" using b(2) by auto
  then have "sleep_state s (iv_waiter P, x)" using inv by (auto simp: sched_inv_def)
  moreover have "i_p y \<noteq> iv_waiter P" if "y \<in># live (sitems s)" for y
    using b(3) that by (auto simp: sleepers_def image_iff)
  ultimately obtain q where q: "fut_at (iv_waiter P) (sst s) = Some (stored q)" unfolding sleep_state_def by auto
  have "\<not> Future.pending (stored q)" using stored_ready [of q] by (simp add: Future.pending_def fut_ready_def)
  from iv_sleep_ok [OF inv P al b(3) q this, of cl "iv_next b"] show ?thesis
    using b(1) by (auto simp: iv_run_def iv_loop_def)
qed

lemma ask_sleeps:
  assumes inv: "ticker_inv heap P counter W t" and c: "g_caller (tk_gen t) = nullptr" "g_coro (tk_gen t) \<noteq> At_end"
    and now: "clock (tk_sched t) \<le> now" and p: "proper c" and ns: "\<not> tk_stop t"
  shows "\<exists>t' W'. tick_ask H cl gcl P this c h now t = Some ([], t') \<and> ticker_inv heap P counter W' t'"
proof -
  have I: "frame_ok P" "sched_inv heap W (tk_sched t)" "alone P W (tk_sched t)" "frame_at P counter W t"
    "ticks_ok (iv_dur P) (tk_began t) counter (tk_ticks t)"
    using inv by (simp_all add: ticker_inv_def)
  have "\<exists>b. (g_coro (tk_gen t) = At_start b \<or> g_coro (tk_gen t) = At_yield b)"
    using I(4) c by (cases "g_coro (tk_gen t)") (auto simp: frame_at_def)
  then obtain b where b: "g_coro (tk_gen t) = At_start b \<or> g_coro (tk_gen t) = At_yield b" by blast
  have "\<exists>s' W' b'. iv_run H cl P now False b (tk_sched t) = Some (Co_await b', s') \<and>
      iv_pc b' = Iv_sleeping \<and> iv_counter b' = counter + of_nat (length (tk_ticks t)) \<and>
      iv_next b' = (if iv_pc b = Iv_start then now + iv_dur P else tick_due P t) \<and>
      (iv_pc b = Iv_start \<longrightarrow> tk_ticks t = []) \<and>
      sched_inv heap W' s' \<and> alone P W' s' \<and> W' (iv_waiter P) = [iv_awt P] \<and>
      (\<forall>x. (iv_waiter P, x) \<in> set (slept s') \<longleftrightarrow> x = iv_next b') \<and> clock s' = clock (tk_sched t)"
    using b
  proof
    assume at: "g_coro (tk_gen t) = At_start b"
    with I(4) have "b = interval_new counter" "iv_waiter P \<notin> fst ` set (slept (tk_sched t))" "tk_ticks t = []"
      by (auto simp: frame_at_def)
    with iv_starts [OF I(2,1,3), of b counter cl now] show ?thesis by (fastforce simp: interval_new_def)
  next
    assume at: "g_coro (tk_gen t) = At_yield b"
    with I(4) have "iv_pc b = Iv_yielded" "iv_waiter P \<in> fst ` set (slept (tk_sched t))"
      "iv_waiter P \<notin> sleepers (sitems (tk_sched t))" "iv_counter b + 1 = counter + of_nat (length (tk_ticks t))"
      "iv_next b = tick_due P t" by (auto simp: frame_at_def Let_def)
    with iv_goes_on [OF I(2,1,3), of b cl now] show ?thesis by fastforce
  qed
  then obtain s' W' b' where r: "iv_run H cl P now False b (tk_sched t) = Some (Co_await b', s')"
    "iv_pc b' = Iv_sleeping" "iv_counter b' = counter + of_nat (length (tk_ticks t))"
    "iv_next b' = (if iv_pc b = Iv_start then now + iv_dur P else tick_due P t)" "iv_pc b = Iv_start \<longrightarrow> tk_ticks t = []"
    "sched_inv heap W' s'" "alone P W' s'" "W' (iv_waiter P) = [iv_awt P]"
    "\<forall>x. (iv_waiter P, x) \<in> set (slept s') \<longleftrightarrow> x = iv_next b'" "clock s' = clock (tk_sched t)" by blast
  let ?t = "t\<lparr>tk_gen := (tk_gen t)\<lparr>g_caller := c, g_coro := At_await b'\<rparr>, tk_store := set_handle c h (tk_store t),
    tk_sched := s'\<lparr>clock := now\<rparr>, tk_began := (if iv_pc b = Iv_start then now else tk_began t)\<rparr>"
  have "coro_frame (g_coro (tk_gen t)) = Some b" using b by (auto simp: coro_frame_def)
  then have "tick_ask H cl gcl P this c h now t = Some ([], ?t)"
    using r(1) ns ask_awaits [OF b c(1), of gcl b' this c h "tk_store t"] by (simp add: tick_ask_def)
  moreover have "frame_at P counter W' ?t"
    using r p by (auto simp: frame_at_def Let_def tick_due_def set_handle_fn)
  moreover have "ticks_ok (iv_dur P) (tk_began ?t) counter (tk_ticks ?t)"
    using I(5) r(5) by (auto simp: ticks_ok_def)
  moreover have "sched_inv heap W' (s'\<lparr>clock := now\<rparr>)" using inv_clock [OF r(6)] r(10) now by simp
  moreover have "alone P W' (s'\<lparr>clock := now\<rparr>)" using r(7) by (simp add: alone_def)
  ultimately show ?thesis using I(1) ns by (auto simp: ticker_inv_def)
qed

text \<open>A generator that was stopped before it began never gets to its first suspension.\<close>

lemma ask_stopped:
  assumes inv: "ticker_inv heap P counter W t" and s: "tk_stop t" "g_coro (tk_gen t) \<noteq> At_end"
  shows "tick_ask H cl gcl P this c h now t = None"
proof -
  obtain b where b: "g_coro (tk_gen t) = At_start b" using inv s by (auto simp: ticker_inv_def)
  then have "b = interval_new counter" using inv by (simp add: ticker_inv_def frame_at_def Let_def)
  then show ?thesis using b s(1)
    by (simp add: tick_ask_def coro_frame_def iv_run_def interval_new_def interval_stop_never_returns)
qed

lemma stop_result:
  "tick_stop H cl P t =
    (if g_coro (tk_gen t) = At_end \<or> (\<exists>b. g_coro (tk_gen t) = At_start b) then Some ([], t\<lparr>tk_stop := True\<rparr>) else None)"
  by (auto simp: tick_stop_def interval_stop_never_returns split: gcoro.split)

lemma ticker_stopped: "ticker_inv heap P counter W t \<Longrightarrow> tick_stop H cl P t = Some (hs, t') \<Longrightarrow> ticker_inv heap P counter W t'"
  by (auto simp: stop_result ticker_inv_def frame_at_def Let_def tick_due_def split: if_splits)

lemma wake_ticks:
  assumes inv: "ticker_inv heap P counter W t" and at: "g_coro (tk_gen t) = At_await b"
    and rdy: "waiter_ready P (tk_sched t)" and now: "clock (tk_sched t) \<le> now"
  shows "\<exists>t'. tick_wake H cl gcl P this now t = Some ([a_haddr (tk_store t) (g_caller (tk_gen t))], t') \<and>
    ticker_inv heap P counter W t'"
proof -
  let ?s = "tk_sched t" and ?g = "tk_gen t"
  have I: "frame_ok P" "sched_inv heap W ?s" "alone P W ?s" "frame_at P counter W t"
    "ticks_ok (iv_dur P) (tk_began t) counter (tk_ticks t)"
    using inv by (simp_all add: ticker_inv_def)
  have b: "iv_pc b = Iv_sleeping" "g_caller ?g \<noteq> nullptr" "a_fn (tk_store t) (g_caller ?g) = Fn_coro"
    "iv_counter b = counter + of_nat (length (tk_ticks t))" "iv_next b = tick_due P t"
    "(iv_waiter P, iv_next b) \<in> set (slept ?s)"
    using I(4) at by (auto simp: frame_at_def Let_def)
  have ns: "\<not> tk_stop t" using inv at by (auto simp: ticker_inv_def)
  note V = waiter_value [OF I(2) b(6) rdy]
  have sl: "iv_waiter P \<in> fst ` set (slept ?s)" using b(6) by force
  have fr: "coro_frame (g_coro ?g) = Some b" using at by (simp add: coro_frame_def)
  have clk: "sched_inv heap W (?s\<lparr>clock := now\<rparr>)" "alone P W (?s\<lparr>clock := now\<rparr>)"
    using inv_clock [OF I(2) now] I(3) by (simp_all add: alone_def)
  from V(1) show ?thesis
  proof (elim disjE exE conjE)
    assume v: "fut_at (iv_waiter P) (sst ?s) = Some (stored (Arg_value ()))" and due: "iv_next b \<le> clock ?s"
    let ?b = "b\<lparr>iv_pc := Iv_yielded, iv_next := now + iv_dur P\<rparr>"
    obtain g' where g': "gen_resume gcl (\<lambda>_ _. Co_yield (iv_counter b) ?b) False this ?g (tk_store t) =
        Some ([a_haddr (tk_store t) (g_caller ?g)], g', tk_store t)" "g_caller g' = nullptr" "g_coro g' = At_yield ?b"
      using wake_resumes [OF at b(2,3), of "Co_yield (iv_counter b) ?b" gcl this] by auto
    let ?t = "t\<lparr>tk_gen := g', tk_sched := ?s\<lparr>clock := now\<rparr>, tk_ticks := tk_ticks t @ [(now, iv_counter b)]\<rparr>"
    have "tick_wake H cl gcl P this now t = Some ([a_haddr (tk_store t) (g_caller ?g)], ?t)"
      using fr iv_woken_result(1) [OF b(1) v] g'(1) by (simp add: tick_wake_def)
    moreover have "ticks_ok (iv_dur P) (tk_began ?t) counter (tk_ticks ?t)"
      using ticks_ok_snoc [OF I(5), of "(now, iv_counter b)"] b(4,5) due now by (simp add: tick_due_def)
    moreover have "frame_at P counter W ?t"
      using g' b(4) sl V(2) by (simp add: frame_at_def tick_due_def)
    ultimately show ?thesis using I(1) clk ns by (auto simp: ticker_inv_def)
  next
    fix e assume v: "fut_at (iv_waiter P) (sst ?s) = Some (stored (Arg_exc e))"
    let ?r = "if e = Await_canceled then Co_return else Co_throw e"
    obtain g' where g': "gen_resume gcl (\<lambda>_ _. ?r) False this ?g (tk_store t) =
        Some ([a_haddr (tk_store t) (g_caller ?g)], g', tk_store t)" "g_caller g' = nullptr" "g_coro g' = At_end"
      using wake_resumes [OF at b(2,3), of ?r gcl this] by (cases "e = Await_canceled") auto
    let ?t = "t\<lparr>tk_gen := g', tk_sched := ?s\<lparr>clock := now\<rparr>\<rparr>"
    have "tick_wake H cl gcl P this now t = Some ([a_haddr (tk_store t) (g_caller ?g)], ?t)"
      using fr iv_woken_result(2) [OF b(1) v] g'(1) by (cases "e = Await_canceled") (simp_all add: tick_wake_def)
    moreover have "frame_at P counter W ?t" using g' by (simp add: frame_at_def)
    ultimately show ?thesis using I clk ns by (auto simp: ticker_inv_def)
  qed
qed

lemma ticker_reach_inv: "ticker_reach H cl gcl P this counter t \<Longrightarrow> \<exists>W. ticker_inv heap P counter W t"
proof (induction rule: ticker_reach.induct)
  case (tk_start s st)
  then show ?case by (intro ticker_start)
next
  case (tk_other t c s)
  then show ?case using ticker_other by blast
next
  case (tk_ask t c now h hs t')
  then obtain W where W: "ticker_inv heap P counter W t" by blast
  then have "\<not> tk_stop t" using ask_stopped [OF W, of cl gcl this c h now] tk_ask(3,6) by auto
  then show ?case using ask_sleeps [OF W, of now c cl gcl this h] tk_ask by fastforce
next
  case (tk_stop t hs t')
  then show ?case using ticker_stopped by blast
next
  case (tk_wake t b now hs t')
  then show ?case using wake_ticks [of P counter _ t b now cl gcl this] by fastforce
qed

end

subsection \<open>Properties\<close>

text \<open>
  C30. The generator of \<open>interval\<close>, asked for a tick at any time and beside any other users of
  the scheduler and of the stop token: its ticks are numbered one after the other from what the
  counter held (modulo \<open>2 ^ 64\<close>), each comes at least the duration after the one before, and the
  first after it was asked for. Every resumption goes through and resumes the consumer, and so
  does every request, unless the token was stopped before the first one: then the request never
  returns. A request to stop returns exactly when the coroutine has not begun or has ended; from
  its first request to its end the stop deadlocks.
\<close>

theorem interval_ticks:
  assumes "ticker_reach (bin_heap i_tp) cl gcl P this counter t"
  shows "(\<forall>k < length (tk_ticks t). snd (tk_ticks t ! k) = counter + of_nat k \<and>
      (if k = 0 then tk_began t else fst (tk_ticks t ! (k - 1))) + iv_dur P \<le> fst (tk_ticks t ! k)) \<and>
    (\<forall>c h now. g_caller (tk_gen t) = nullptr \<and> g_coro (tk_gen t) \<noteq> At_end \<and> proper c \<and> clock (tk_sched t) \<le> now \<longrightarrow>
      (if tk_stop t then tick_ask (bin_heap i_tp) cl gcl P this c h now t = None
       else \<exists>t'. tick_ask (bin_heap i_tp) cl gcl P this c h now t = Some ([], t'))) \<and>
    (\<forall>b now. g_coro (tk_gen t) = At_await b \<and> waiter_ready P (tk_sched t) \<and> clock (tk_sched t) \<le> now \<longrightarrow>
      (\<exists>t'. tick_wake (bin_heap i_tp) cl gcl P this now t = Some ([a_haddr (tk_store t) (g_caller (tk_gen t))], t'))) \<and>
    (tk_stop t \<and> g_coro (tk_gen t) \<noteq> At_end \<longrightarrow> tk_ticks t = []) \<and>
    tick_stop (bin_heap i_tp) cl P t =
      (if g_coro (tk_gen t) = At_end \<or> (\<exists>b. g_coro (tk_gen t) = At_start b) then Some ([], t\<lparr>tk_stop := True\<rparr>) else None)"
proof -
  obtain W where inv: "ticker_inv (\<lambda>xs. heap_n i_tp xs (length xs)) P counter W t"
    using sch.ticker_reach_inv [OF assms] by blast
  then have "ticks_ok (iv_dur P) (tk_began t) counter (tk_ticks t)" by (simp add: ticker_inv_def)
  moreover have "tk_stop t \<and> g_coro (tk_gen t) \<noteq> At_end \<longrightarrow> tk_ticks t = []"
    using inv by (auto simp: ticker_inv_def frame_at_def Let_def)
  moreover have "if tk_stop t then tick_ask (bin_heap i_tp) cl gcl P this c h now t = None
      else \<exists>t'. tick_ask (bin_heap i_tp) cl gcl P this c h now t = Some ([], t')"
    if "g_caller (tk_gen t) = nullptr \<and> g_coro (tk_gen t) \<noteq> At_end \<and> proper c \<and> clock (tk_sched t) \<le> now" for c h now
    using sch.ask_sleeps [OF inv, of now c cl gcl this h] sch.ask_stopped [OF inv, of cl gcl this c h now] that by auto
  ultimately show ?thesis
    using sch.wake_ticks [OF inv] sch.stop_result [of cl P t] unfolding ticks_ok_def by meson
qed

definition sample_frame :: iv_frame where
  "sample_frame = \<lparr>iv_dur = 10, iv_waiter = 50, iv_tag = 51, iv_awt = 60, iv_handle = 70\<rparr>"

definition no_sleeps :: "(unit, unit) sched" where
  "no_sleeps = \<lparr>sitems = [], sst = sleep_store, clock = 0, slept = []\<rparr>"

definition tick_store :: "(64 word, unit, unit) fstore" where
  "tick_store = \<lparr>a_next = \<lambda>_. 0, a_fn = \<lambda>_. Fn_coro, a_haddr = \<lambda>_. 0, a_flag = \<lambda>_. False,
     client = \<lparr>futs = Map.empty, proms = Map.empty, user = ()\<rparr>\<rparr>"

text \<open>Asked at time 5, the sleep is served at 15 and the coroutine runs at 17.\<close>

definition first_asked :: "(unit, unit, unit) ticker option" where
  "first_asked = map_option snd (tick_ask (bin_heap i_tp) (\<lambda>_ _ _ w. ([], w)) (\<lambda>_ _ _ w. ([], w)) sample_frame 90 80 81 5
     (ticker_new (- 1) tick_store no_sleeps))"

definition first_served :: "(unit, unit) sched option" where
  "first_served = Option.bind first_asked (\<lambda>t. sexec (bin_heap i_tp) (\<lambda>_ _ _ w. ([], w)) (Round 15) (tk_sched t))"

definition first_tick :: "(unit, unit, unit) ticker option" where
  "first_tick = Option.bind first_asked (\<lambda>t. Option.bind first_served (\<lambda>s.
     map_option snd (tick_wake (bin_heap i_tp) (\<lambda>_ _ _ w. ([], w)) (\<lambda>_ _ _ w. ([], w)) sample_frame 90 17 (t\<lparr>tk_sched := s\<rparr>))))"

declare run_body.simps [code] get_expired_lk.simps [code] resume_chain_loop.simps [code]

lemma first_tick_computed:
  "map_option (\<lambda>t. (clock (tk_sched t), case g_coro (tk_gen t) of At_await b \<Rightarrow> True | _ \<Rightarrow> False)) first_asked = Some (5, True)"
  "map_option (\<lambda>s. (waiter_ready sample_frame s, clock s)) first_served = Some (True, 15)"
  "map_option tk_ticks first_tick = Some [(17, - 1)]"
  by code_simp+

lemma first_tick_reach:
  "\<exists>t. first_tick = Some t \<and>
    ticker_reach (bin_heap i_tp) (\<lambda>_ _ _ w. ([], w)) (\<lambda>_ _ _ w. ([], w)) sample_frame 90 (- 1) t"
proof -
  let ?reach = "ticker_reach (bin_heap i_tp) (\<lambda>_ _ _ w. ([], w)) (\<lambda>_ _ _ w. ([], w)) sample_frame 90 (- 1)"
  have "sched_reach (bin_heap i_tp) (\<lambda>_ _ _ w. ([], w)) no_sleeps" unfolding no_sleeps_def by (rule sched_start)
  then have 0: "?reach (ticker_new (- 1) tick_store no_sleeps)"
    by (intro tk_start) (simp_all add: frame_ok_def sample_frame_def no_sleeps_def unlinked_def sleep_store_def fut_at_def proper_def)
  obtain t where t1: "first_asked = Some t" using first_tick_computed(1) by auto
  then have t: "first_asked = Some t" "clock (tk_sched t) = 5" "\<exists>b. g_coro (tk_gen t) = At_await b"
    using first_tick_computed(1) unfolding t1 by (cases "g_coro (tk_gen t)"; simp)+
  obtain hs where "tick_ask (bin_heap i_tp) (\<lambda>_ _ _ w. ([], w)) (\<lambda>_ _ _ w. ([], w)) sample_frame 90 80 81 5
      (ticker_new (- 1) tick_store no_sleeps) = Some (hs, t)"
    using t(1) unfolding first_asked_def by auto
  from tk_ask [OF 0 _ _ _ _ this] have 1: "?reach t"
    by (simp add: ticker_new_def gen_new_def no_sleeps_def proper_def)
  obtain s where s: "first_served = Some s" "waiter_ready sample_frame s" "clock s = 15"
    using first_tick_computed(2) by auto
  then have "sexec (bin_heap i_tp) (\<lambda>_ _ _ w. ([], w)) (Round 15) (tk_sched t) = Some s"
    unfolding first_served_def t(1) by (simp del: sexec.simps)
  from tk_other [OF 1 _ _ this] have 2: "?reach (t\<lparr>tk_sched := s\<rparr>)" using t(2) by simp
  obtain u where u: "first_tick = Some u" using first_tick_computed(3) by auto
  then obtain hs' where "tick_wake (bin_heap i_tp) (\<lambda>_ _ _ w. ([], w)) (\<lambda>_ _ _ w. ([], w)) sample_frame 90 17
      (t\<lparr>tk_sched := s\<rparr>) = Some (hs', u)"
    using u unfolding first_tick_def t(1) s(1) by auto
  from tk_wake [OF 2 _ _ _ this] have "?reach u" using t(3) s(2,3) by auto
  with u show ?thesis by blast
qed

theorem interval_ticks_witness:
  "\<exists>t. first_tick = Some t \<and> tk_ticks t = [(17, - 1)] \<and> snd (tk_ticks t ! 0) = - 1 \<and> tk_began t + 10 \<le> 17"
proof -
  obtain t where t: "first_tick = Some t"
    "ticker_reach (bin_heap i_tp) (\<lambda>_ _ _ w. ([], w)) (\<lambda>_ _ _ w. ([], w)) sample_frame 90 (- 1) t"
    using first_tick_reach by blast
  moreover have "tk_ticks t = [(17, - 1)]" using first_tick_computed(3) unfolding t(1) by simp
  ultimately show ?thesis
    using conjunct1 [OF interval_ticks [OF t(2)]] by (auto simp: sample_frame_def)
qed

end
