(* ===== verification/Thread_Pool.thy ===== *)
theory Thread_Pool
  imports Awaiter
begin

section \<open>thread_pool: workers that take items from a queue\<close>

text \<open>
  \<open>thread_pool.h\<close>. Every critical section of the pool's mutex is one operation on the
  state, and the threads' interleavings are the runs of a step relation. A worker that waits for
  the condition variable may go on whenever the predicate of its wait holds; \<open>notify_one\<close> and
  \<open>notify_all\<close> have no model of their own. A worker is where
  its thread is in \<open>worker()\<close>; a \<open>stop()\<close> that has released the mutex, with the threads and
  the items it has taken out of the pool, is an entry of \<open>stops\<close>. The item of the queue
  is one of the closures the header builds: a coroutine that awaits the pool, a handle out of
  a suspend point, a function of the client, and a function whose result resolves a promise.

  What the closures do to the rest of the program is a list of events. Items hold resources:
  an item that is destroyed without being called still resumes its coroutine or breaks its
  promise. The result of a client's function is a parameter of the step that calls it, and a
  detached function that throws terminates the program, which is \<open>None\<close>.
\<close>

subsection \<open>State\<close>

datatype 'f pitem =
    Awaiting ptr
  | Resuming handle
  | Calling 'f
  | Running 'f ptr

datatype ('f, 'e, 'r) pevent =
    E_resume handle
  | E_call 'f
  | E_resolve ptr "'e exc + 'r"
  | E_broken ptr

datatype 'f wpc =
    W_loop
  | W_run "'f pitem"
  | W_ran
  | W_done

text \<open>\<open>w_current\<close>: the thread-local \<open>_current\<close> of the worker's thread points to the pool.\<close>

record 'f worker =
  w_pc :: "'f wpc"
  w_current :: bool

text \<open>The caller of \<open>stop\<close> is a worker, by its number, or another thread.\<close>

record 'f stopping =
  st_caller :: "nat option"
  st_threads :: "nat list"
  st_items :: "'f pitem list"

record 'f pool =
  p_queue :: "'f pitem list"
  p_exit :: bool
  p_threads :: "nat list"
  p_handle :: "ptr \<Rightarrow> handle"
  workers :: "'f worker list"
  stops :: "'f stopping list"

subsection \<open>Operations\<close>

definition start_worker :: "'f pool \<Rightarrow> 'f pool" where
  "start_worker s = s\<lparr>workers := workers s @ [\<lparr>w_pc = W_loop, w_current = True\<rparr>]\<rparr>"

definition pool_new :: "32 word \<Rightarrow> 32 word \<Rightarrow> 'f pool" where
  "pool_new threads hardware =
     (let n = unat (if threads = 0 then hardware else threads) in
      \<lparr>p_queue = [], p_exit = False, p_threads = [0..<n], p_handle = \<lambda>_. nullptr,
       workers = replicate n \<lparr>w_pc = W_loop, w_current = True\<rparr>, stops = []\<rparr>)"

definition enqueue :: "'f pitem \<Rightarrow> 'f pool \<Rightarrow> bool \<times> 'f pool" where
  "enqueue it s = (if \<not> p_exit s then (True, s\<lparr>p_queue := p_queue s @ [it]\<rparr>) else (False, s))"

text \<open>Calling an item, given the result of the function in it.\<close>

fun exec_item :: "'f pitem \<Rightarrow> 'e exc + 'r \<Rightarrow> 'f pool \<Rightarrow> (('f, 'e, 'r) pevent list \<times> 'f pool) option" where
  "exec_item (Awaiting a) out s =
     (let h = p_handle s a in Some ([E_resume h], s\<lparr>p_handle := (p_handle s)(a := nullptr)\<rparr>))"
| "exec_item (Resuming h) out s = Some ([E_resume h], s)"
| "exec_item (Calling f) out s = (case out of Inl e \<Rightarrow> None | Inr r \<Rightarrow> Some ([E_call f], s))"
| "exec_item (Running f p) out s = Some ([E_call f, E_resolve p out], s)"

text \<open>Destroying an item that was not called: the deleter \<open>fin\<close>, the promise's destructor.\<close>

fun drop_item :: "'f pitem \<Rightarrow> 'f pool \<Rightarrow> ('f, 'e, 'r) pevent list" where
  "drop_item (Awaiting a) s = [E_resume (p_handle s a)]"
| "drop_item (Resuming h) s = []"
| "drop_item (Calling f) s = []"
| "drop_item (Running f p) s = [E_broken p]"

text \<open>An item that the pool does not accept is destroyed by its caller.\<close>

definition submit :: "'f pitem \<Rightarrow> 'f pool \<Rightarrow> bool \<times> ('f, 'e, 'r) pevent list \<times> 'f pool" where
  "submit it s = (case enqueue it s of (ok, s') \<Rightarrow> (ok, if ok then [] else drop_item it s', s'))"

definition run_detached :: "'f \<Rightarrow> 'f pool \<Rightarrow> bool \<times> ('f, 'e, 'r) pevent list \<times> 'f pool" where
  "run_detached f s = submit (Calling f) s"

definition run_function :: "'f \<Rightarrow> ptr \<Rightarrow> 'f pool \<Rightarrow> bool \<times> ('f, 'e, 'r) pevent list \<times> 'f pool" where
  "run_function f promise s = submit (Running f promise) s"

text \<open>\<open>resume\<close> of a suspend point, whose \<open>pop\<close> takes the last of its handles.\<close>

function resume_spt :: "handle list \<Rightarrow> 'f pool \<Rightarrow> 'f pool" where
  "resume_spt spt s =
     (if spt = [] then s else resume_spt (butlast spt) (snd (enqueue (Resuming (last spt)) s)))"
  by pat_completeness auto
termination by (relation "measure (\<lambda>(spt, s). length spt)") auto

declare resume_spt.simps [simp del]

text \<open>\<open>co_await pool\<close>: \<open>co_awaiter\<close> at the address \<open>a\<close>; \<open>run\<close> of a started coroutine.\<close>

definition pool_await_ready :: bool where
  "pool_await_ready = False"

definition pool_await_suspend ::
    "ptr \<Rightarrow> handle \<Rightarrow> 'f pool \<Rightarrow> bool \<times> ('f, 'e, 'r) pevent list \<times> 'f pool" where
  "pool_await_suspend a h s = submit (Awaiting a) (s\<lparr>p_handle := (p_handle s)(a := h)\<rparr>)"

definition pool_await_resume :: "ptr \<Rightarrow> 'f pool \<Rightarrow> unit exc + unit" where
  "pool_await_resume a s = (if p_handle s a \<noteq> nullptr then Inl Await_canceled else Inr ())"

definition run_async :: "handle list \<Rightarrow> 'f pool \<Rightarrow> 'f pool" where
  "run_async started s = resume_spt started s"

text \<open>
  \<open>enqueue_awaiter\<close>: the inner awaitable calls \<open>perform_resume\<close>, which resumes the awaiter
  and hands what it yields to the pool.
\<close>

definition perform_resume :: "'w client_fn \<Rightarrow> ptr \<Rightarrow> 'w aworld \<Rightarrow> 'f pool \<Rightarrow> 'w aworld \<times> 'f pool" where
  "perform_resume cl a w s = (let (spt, w') = resume_awaiter cl a w in (w', resume_spt spt s))"

definition is_stopped :: "'f pool \<Rightarrow> bool" where
  "is_stopped s = p_exit s"

definition any_enqueued :: "'f pool \<Rightarrow> bool" where
  "any_enqueued s = (p_exit s \<or> p_queue s \<noteq> [])"

text \<open>\<open>current\<close>: the pool of the current thread, if it has one.\<close>

definition current_ready :: "'f pool option \<Rightarrow> bool" where
  "current_ready c = (case c of None \<Rightarrow> True | Some s \<Rightarrow> p_exit s)"

definition current_is_stopped :: "'f pool option \<Rightarrow> bool" where
  "current_is_stopped c = (case c of None \<Rightarrow> True | Some s \<Rightarrow> is_stopped s)"

definition current_any_enqueued :: "'f pool option \<Rightarrow> bool" where
  "current_any_enqueued c = (case c of None \<Rightarrow> False | Some s \<Rightarrow> any_enqueued s)"

subsection \<open>The threads\<close>

definition set_pc :: "nat \<Rightarrow> 'f wpc \<Rightarrow> 'f pool \<Rightarrow> 'f pool" where
  "set_pc i pc s = s\<lparr>workers := (workers s)[i := (workers s ! i)\<lparr>w_pc := pc\<rparr>]\<rparr>"

text \<open>The loop of \<open>worker\<close>, from the wait up to the call; \<open>None\<close> while the thread waits.\<close>

definition worker_take :: "nat \<Rightarrow> 'f pool \<Rightarrow> 'f pool option" where
  "worker_take i s =
     (if p_queue s = [] \<and> \<not> p_exit s then None
      else if p_exit s then Some (set_pc i W_done s)
      else Some (set_pc i (W_run (hd (p_queue s))) (s\<lparr>p_queue := tl (p_queue s)\<rparr>)))"

text \<open>After the call: the pool may have been destroyed by the function.\<close>

definition worker_return :: "nat \<Rightarrow> 'f pool \<Rightarrow> 'f pool" where
  "worker_return i s = set_pc i (if w_current (workers s ! i) then W_loop else W_done) s"

definition stop_begin :: "nat option \<Rightarrow> 'f pool \<Rightarrow> 'f pool" where
  "stop_begin me s =
     s\<lparr>p_exit := True, p_threads := [], p_queue := [],
       stops := stops s @ [\<lparr>st_caller = me, st_threads = p_threads s, st_items = p_queue s\<rparr>]\<rparr>"

text \<open>One iteration of the loop over the threads: detach oneself, join another; \<open>None\<close> blocks.\<close>

definition stop_join :: "nat \<Rightarrow> 'f pool \<Rightarrow> 'f pool option" where
  "stop_join k s =
     (let st = stops s ! k; t = hd (st_threads st);
          s1 = s\<lparr>stops := (stops s)[k := st\<lparr>st_threads := tl (st_threads st)\<rparr>]\<rparr> in
      if st_caller st = Some t then
        Some (s1\<lparr>workers := (workers s)[t := (workers s ! t)\<lparr>w_current := False\<rparr>]\<rparr>)
      else if w_pc (workers s ! t) = W_done then Some s1
      else None)"

text \<open>At the end of \<open>stop\<close> the local queue is destroyed, item by item.\<close>

definition stop_drop :: "nat \<Rightarrow> 'f pool \<Rightarrow> ('f, 'e, 'r) pevent list \<times> 'f pool" where
  "stop_drop k s =
     (let st = stops s ! k in
      (drop_item (hd (st_items st)) s, s\<lparr>stops := (stops s)[k := st\<lparr>st_items := tl (st_items st)\<rparr>]\<rparr>))"

definition stop_end :: "nat \<Rightarrow> 'f pool \<Rightarrow> 'f pool" where
  "stop_end k s = s\<lparr>stops := take k (stops s) @ drop (Suc k) (stops s)\<rparr>"


subsection \<open>The runs\<close>

text \<open>
  A label says what a step does with an item. Client code may do anything at any time, with
  two rules of the language: a coroutine awaits the pool with an awaiter that is not already
  in use (it is suspended as long as it is), and a worker's thread leaves the function it
  calls only after the \<open>stop\<close>s it calls in it have returned.
\<close>

datatype ('f, 'e, 'r) label =
    L_accept "'f pitem"
  | L_refuse "'f pitem" "('f, 'e, 'r) pevent list"
  | L_take "'f pitem"
  | L_ran "'f pitem" "('f, 'e, 'r) pevent list"
  | L_flush "'f pitem list"
  | L_drop "'f pitem" "('f, 'e, 'r) pevent list"
  | L_internal

definition run_item :: "'f worker \<Rightarrow> 'f pitem list" where
  "run_item w = (case w_pc w of W_run it \<Rightarrow> [it] | _ \<Rightarrow> [])"

definition running :: "'f pool \<Rightarrow> 'f pitem multiset" where
  "running s = mset (concat (map run_item (workers s)))"

definition stopped_items :: "'f pool \<Rightarrow> 'f pitem multiset" where
  "stopped_items s = mset (concat (map st_items (stops s)))"

definition pending :: "'f pool \<Rightarrow> 'f pitem multiset" where
  "pending s = running s + mset (p_queue s) + stopped_items s"

definition submitted :: "'f pitem \<Rightarrow> bool \<times> ('f, 'e, 'r) pevent list \<times> 'f pool \<Rightarrow> ('f, 'e, 'r) label" where
  "submitted it r = (case r of (ok, evs, s) \<Rightarrow> if ok then L_accept it else L_refuse it evs)"

inductive pool_step :: "'f pool \<Rightarrow> ('f, 'e, 'r) label \<Rightarrow> 'f pool \<Rightarrow> bool" where
  await: "h \<noteq> nullptr \<Longrightarrow> Awaiting a \<notin># pending s \<Longrightarrow> r = pool_await_suspend a h s \<Longrightarrow>
    pool_step s (submitted (Awaiting a) r) (snd (snd r))"
| submit: "(\<forall>a. it \<noteq> Awaiting a) \<Longrightarrow> r = submit it s \<Longrightarrow> pool_step s (submitted it r) (snd (snd r))"
| become_worker: "pool_step s L_internal (start_worker s)"
| wake: "i < length (workers s) \<Longrightarrow> w_pc (workers s ! i) = W_loop \<Longrightarrow> p_exit s \<Longrightarrow> worker_take i s = Some s' \<Longrightarrow>
    pool_step s L_internal s'"
| take: "i < length (workers s) \<Longrightarrow> w_pc (workers s ! i) = W_loop \<Longrightarrow> \<not> p_exit s \<Longrightarrow> worker_take i s = Some s' \<Longrightarrow>
    pool_step s (L_take (hd (p_queue s))) s'"
| exec: "i < length (workers s) \<Longrightarrow> w_pc (workers s ! i) = W_run it \<Longrightarrow> exec_item it out s = Some (evs, s') \<Longrightarrow>
    pool_step s (L_ran it evs) (set_pc i W_ran s')"
| return: "i < length (workers s) \<Longrightarrow> w_pc (workers s ! i) = W_ran \<Longrightarrow>
    (\<forall>st \<in> set (stops s). st_caller st \<noteq> Some i) \<Longrightarrow> pool_step s L_internal (worker_return i s)"
| stop: "(\<forall>i. me = Some i \<longrightarrow> i < length (workers s) \<and> w_pc (workers s ! i) \<in> {W_ran} \<union> range W_run) \<Longrightarrow>
    pool_step s (L_flush (p_queue s)) (stop_begin me s)"
| join: "k < length (stops s) \<Longrightarrow> st_threads (stops s ! k) \<noteq> [] \<Longrightarrow> stop_join k s = Some s' \<Longrightarrow>
    pool_step s L_internal s'"
| drop: "k < length (stops s) \<Longrightarrow> st_threads (stops s ! k) = [] \<Longrightarrow> st_items (stops s ! k) \<noteq> [] \<Longrightarrow>
    stop_drop k s = (evs, s') \<Longrightarrow> pool_step s (L_drop (hd (st_items (stops s ! k))) evs) s'"
| stopped: "k < length (stops s) \<Longrightarrow> st_threads (stops s ! k) = [] \<Longrightarrow> st_items (stops s ! k) = [] \<Longrightarrow>
    pool_step s L_internal (stop_end k s)"

text \<open>Which steps accept, run or destroy an item.\<close>

inductive_cases step_acceptE: "pool_step s (L_accept it) s'"
inductive_cases step_ranE: "pool_step s (L_ran it evs) s'"
inductive_cases step_dropE: "pool_step s (L_drop it evs) s'"

inductive pool_run :: "'f pool \<Rightarrow> ('f, 'e, 'r) label list \<Rightarrow> 'f pool \<Rightarrow> bool" where
  start: "pool_run s [] s"
| more: "pool_run s ls s' \<Longrightarrow> pool_step s' l s'' \<Longrightarrow> pool_run s (ls @ [l]) s''"

text \<open>What a run has accepted, taken, called, taken out by \<open>stop\<close> and destroyed.\<close>

fun accepted :: "('f, 'e, 'r) label \<Rightarrow> 'f pitem list" where
  "accepted (L_accept it) = [it]"
| "accepted _ = []"

fun taken :: "('f, 'e, 'r) label \<Rightarrow> 'f pitem list" where
  "taken (L_take it) = [it]"
| "taken _ = []"

fun called :: "('f, 'e, 'r) label \<Rightarrow> 'f pitem list" where
  "called (L_ran it evs) = [it]"
| "called _ = []"

fun flushed :: "('f, 'e, 'r) label \<Rightarrow> 'f pitem list" where
  "flushed (L_flush its) = its"
| "flushed _ = []"

fun dropped :: "('f, 'e, 'r) label \<Rightarrow> 'f pitem list" where
  "dropped (L_drop it evs) = [it]"
| "dropped _ = []"

abbreviation (input) along :: "(('f, 'e, 'r) label \<Rightarrow> 'b list) \<Rightarrow> ('f, 'e, 'r) label list \<Rightarrow> 'b list" where
  "along f ls \<equiv> concat (map f ls)"

subsection \<open>What one step does to the items\<close>

lemma mset_concat_update:
  assumes "i < length xs"
  shows "mset (concat (map f (xs[i := x]))) + mset (f (xs ! i)) = mset (concat (map f xs)) + mset (f x)"
proof -
  have "xs = take i xs @ xs ! i # drop (Suc i) xs" using assms by (rule id_take_nth_drop)
  then have "mset (concat (map f xs)) = mset (concat (map f (take i xs @ xs ! i # drop (Suc i) xs)))" by simp
  then show ?thesis using assms by (simp add: upd_conv_take_nth_drop)
qed

lemma running_set_pc:
  "i < length (workers s) \<Longrightarrow>
    running (set_pc i pc s) + mset (run_item (workers s ! i)) = running s + mset (case pc of W_run it \<Rightarrow> [it] | _ \<Rightarrow> [])"
  using mset_concat_update [of i "workers s" run_item "(workers s ! i)\<lparr>w_pc := pc\<rparr>"]
  by (simp add: running_def set_pc_def run_item_def)

lemma set_pc_simps [simp]:
  "p_queue (set_pc i pc s) = p_queue s" "p_exit (set_pc i pc s) = p_exit s" "p_threads (set_pc i pc s) = p_threads s"
  "p_handle (set_pc i pc s) = p_handle s" "stops (set_pc i pc s) = stops s"
  "length (workers (set_pc i pc s)) = length (workers s)"
  by (simp_all add: set_pc_def)

lemma running_cong: "workers s' = workers s \<Longrightarrow> running s' = running s"
  by (simp add: running_def)

lemma stopped_cong: "stops s' = stops s \<Longrightarrow> stopped_items s' = stopped_items s"
  by (simp add: stopped_items_def)

lemma exec_item_frame:
  assumes "exec_item it out s = Some (evs, s')"
  shows "p_queue s' = p_queue s" "p_exit s' = p_exit s" "p_threads s' = p_threads s" "workers s' = workers s"
    "stops s' = stops s"
  using assms by (cases it; auto simp: Let_def split: sum.splits)+

lemma submit_cases:
  "submit it s = (if p_exit s then (False, drop_item it s, s) else (True, [], s\<lparr>p_queue := p_queue s @ [it]\<rparr>))"
  by (simp add: submit_def enqueue_def)

text \<open>The changes of the three places an item can be in, by the label of the step.\<close>

definition items_step :: "'f pool \<Rightarrow> ('f, 'e, 'r) label \<Rightarrow> 'f pool \<Rightarrow> bool" where
  "items_step s l s' \<longleftrightarrow>
     p_queue s @ accepted l = taken l @ flushed l @ p_queue s' \<and>
     running s' + mset (called l) = running s + mset (taken l) \<and>
     stopped_items s' + mset (dropped l) = stopped_items s + mset (flushed l) \<and>
     (p_exit s \<longrightarrow> p_exit s') \<and> ((\<exists>its. l = L_flush its) \<longrightarrow> p_exit s' \<and> p_queue s' = []) \<and>
     (p_exit s \<longrightarrow> accepted l = [] \<and> taken l = [])"

lemma worker_take_exit: "worker_take i s = Some s' \<Longrightarrow> p_exit s \<Longrightarrow> s' = set_pc i W_done s"
  by (auto simp: worker_take_def split: if_splits)

lemma worker_take_item:
  "worker_take i s = Some s' \<Longrightarrow> \<not> p_exit s \<Longrightarrow>
    p_queue s \<noteq> [] \<and> s' = set_pc i (W_run (hd (p_queue s))) (s\<lparr>p_queue := tl (p_queue s)\<rparr>)"
  by (auto simp: worker_take_def split: if_splits)

lemma running_current: "running (s\<lparr>workers := (workers s)[t := (workers s ! t)\<lparr>w_current := False\<rparr>]\<rparr>) = running s"
proof (cases "t < length (workers s)")
  case True
  then show ?thesis using mset_concat_update [of t "workers s" run_item "(workers s ! t)\<lparr>w_current := False\<rparr>"]
    by (simp add: running_def run_item_def)
qed (simp add: running_def list_update_beyond)

lemma running_upd [simp]:
  "running (s\<lparr>p_queue := q\<rparr>) = running s" "running (s\<lparr>p_exit := e\<rparr>) = running s" "running (s\<lparr>p_threads := ts\<rparr>) = running s"
  "running (s\<lparr>p_handle := h\<rparr>) = running s" "running (s\<lparr>stops := st\<rparr>) = running s"
  by (simp_all add: running_def)

lemma stopped_upd [simp]:
  "stopped_items (s\<lparr>p_queue := q\<rparr>) = stopped_items s" "stopped_items (s\<lparr>p_exit := e\<rparr>) = stopped_items s"
  "stopped_items (s\<lparr>p_threads := ts\<rparr>) = stopped_items s" "stopped_items (s\<lparr>p_handle := h\<rparr>) = stopped_items s"
  "stopped_items (s\<lparr>workers := ws\<rparr>) = stopped_items s" "stopped_items (set_pc i pc s) = stopped_items s"
  by (simp_all add: stopped_items_def)

lemma stopped_set:
  "k < length (stops s) \<Longrightarrow>
    stopped_items (s\<lparr>stops := (stops s)[k := st]\<rparr>) + mset (st_items (stops s ! k)) = stopped_items s + mset (st_items st)"
  using mset_concat_update [of k "stops s" st_items st] by (simp add: stopped_items_def)

lemma stop_join_cases:
  assumes "stop_join k s = Some s'" and "k < length (stops s)"
  shows "\<exists>ws. s' = s\<lparr>stops := (stops s)[k := (stops s ! k)\<lparr>st_threads := tl (st_threads (stops s ! k))\<rparr>], workers := ws\<rparr> \<and>
    running s' = running s \<and> length ws = length (workers s) \<and> (\<forall>i. w_pc (ws ! i) = w_pc (workers s ! i))"
proof (cases "st_caller (stops s ! k) = Some (hd (st_threads (stops s ! k)))")
  case True
  let ?t = "hd (st_threads (stops s ! k))"
  let ?ws = "(workers s)[?t := (workers s ! ?t)\<lparr>w_current := False\<rparr>]"
  have "w_pc (?ws ! i) = w_pc (workers s ! i)" for i by (cases "?t < length (workers s)") (auto simp: nth_list_update list_update_beyond)
  moreover have "running s' = running s" using running_current [of s ?t] True assms(1)
    by (auto simp: stop_join_def Let_def running_def)
  ultimately show ?thesis using True assms(1) by (auto simp: stop_join_def Let_def intro!: exI [of _ ?ws])
next
  case False
  then show ?thesis using assms(1) by (auto simp: stop_join_def Let_def split: if_splits intro!: exI [of _ "workers s"])
qed


lemma items_step: "pool_step s l s' \<Longrightarrow> items_step s l s'"
proof (induction rule: pool_step.induct)
  case (await h a s r)
  then show ?case
    by (cases "p_exit s") (simp_all add: items_step_def pool_await_suspend_def submit_cases submitted_def)
next
  case (submit it r s)
  then show ?case by (cases "p_exit s") (simp_all add: items_step_def submit_cases submitted_def)
next
  case (become_worker s)
  then show ?case by (simp add: items_step_def start_worker_def running_def run_item_def)
next
  case (wake i s s')
  then have "s' = set_pc i W_done s" by (simp add: worker_take_exit)
  with wake running_set_pc [of i s W_done] show ?case by (simp add: items_step_def run_item_def)
next
  case (take i s s')
  then have "p_queue s \<noteq> []" "s' = set_pc i (W_run (hd (p_queue s))) (s\<lparr>p_queue := tl (p_queue s)\<rparr>)"
    using worker_take_item by blast+
  with take running_set_pc [of i "s\<lparr>p_queue := tl (p_queue s)\<rparr>" "W_run (hd (p_queue s))"] show ?case
    by (simp add: items_step_def run_item_def)
next
  case (exec i s it out evs s')
  note f = exec_item_frame [OF exec(3)]
  from exec running_set_pc [of i s' W_ran] f show ?case
    by (simp add: items_step_def run_item_def running_cong [OF f(4)] stopped_cong [OF f(5)])
next
  case (return i s)
  then show ?case
    using running_set_pc [of i s "if w_current (workers s ! i) then W_loop else W_done"]
    by (auto simp: items_step_def run_item_def worker_return_def split: if_splits)
next
  case (stop me s)
  then show ?case by (simp add: items_step_def stop_begin_def running_def stopped_items_def)
next
  case (join k s s')
  then obtain ws where "s' = s\<lparr>stops := (stops s)[k := (stops s ! k)\<lparr>st_threads := tl (st_threads (stops s ! k))\<rparr>], workers := ws\<rparr>"
    "running s' = running s" using stop_join_cases by blast
  with join(1) stopped_set [of k s "(stops s ! k)\<lparr>st_threads := tl (st_threads (stops s ! k))\<rparr>"] show ?case
    by (simp add: items_step_def)
next
  case (drop k s evs s')
  then obtain it its where it: "st_items (stops s ! k) = it # its" by (cases "st_items (stops s ! k)") auto
  have "s' = s\<lparr>stops := (stops s)[k := (stops s ! k)\<lparr>st_items := its\<rparr>]\<rparr>" using drop(4) it by (auto simp: stop_drop_def Let_def)
  with drop(1) it stopped_set [of k s "(stops s ! k)\<lparr>st_items := its\<rparr>"] show ?case by (simp add: items_step_def)
next
  case (stopped k s)
  have "stops s = List.take k (stops s) @ stops s ! k # List.drop (Suc k) (stops s)" using stopped(1) by (rule id_take_nth_drop)
  then have "stopped_items s = mset (concat (map st_items (List.take k (stops s) @ stops s ! k # List.drop (Suc k) (stops s))))"
    unfolding stopped_items_def by (rule arg_cong)
  with stopped show ?case by (simp add: items_step_def stop_end_def stopped_items_def running_def)
qed

text \<open>Along a run from a pool without items.\<close>

lemma items_run:
  assumes "pool_run s0 ls s" and "pending s0 = {#}" and "\<not> p_exit s0"
  shows "along accepted ls = along taken ls @ along flushed ls @ p_queue s \<and>
    mset (along taken ls) = mset (along called ls) + running s \<and>
    mset (along flushed ls) = mset (along dropped ls) + stopped_items s \<and> (p_exit s \<or> along flushed ls = [])"
  using assms
proof (induction rule: pool_run.induct)
  case (start s)
  then show ?case by (simp add: pending_def)
next
  case (more s ls s' l s'')
  have st: "items_step s' l s''" using more.hyps(2) by (rule items_step)
  have fl: "flushed l = [] \<or> (\<exists>its. l = L_flush its)" by (cases l) auto
  have q: "p_queue s' @ accepted l = taken l @ flushed l @ p_queue s''" using st by (simp add: items_step_def)
  have IH: "along accepted ls = along taken ls @ along flushed ls @ p_queue s'" using more.IH more.prems by blast
  have "accepted l = [] \<and> taken l = [] \<or> along flushed ls = []"
    using st more.IH more.prems by (auto simp: items_step_def)
  then have "along accepted (ls @ [l]) = along taken (ls @ [l]) @ along flushed (ls @ [l]) @ p_queue s''"
  proof
    assume "accepted l = [] \<and> taken l = []"
    then show ?thesis using IH q by simp
  next
    assume "along flushed ls = []"
    then have "along accepted (ls @ [l]) = along taken ls @ (p_queue s' @ accepted l)" using IH by simp
    then show ?thesis using \<open>along flushed ls = []\<close> by (simp add: q)
  qed
  moreover have "mset (along taken (ls @ [l])) = mset (along called (ls @ [l])) + running s''"
    using more.IH more.prems st by (simp add: items_step_def union_ac)
  moreover have "mset (along flushed (ls @ [l])) = mset (along dropped (ls @ [l])) + stopped_items s''"
    using more.IH more.prems st by (simp add: items_step_def union_ac)
  moreover have "p_exit s'' \<or> along flushed (ls @ [l]) = []"
    using more.IH more.prems st fl by (auto simp: items_step_def)
  ultimately show ?case by blast
qed


subsection \<open>The awaiting coroutines\<close>

lemma pending_step:
  assumes "pool_step s l s'"
  shows "pending s' + mset (called l) + mset (dropped l) = pending s + mset (accepted l)"
proof -
  have i: "p_queue s @ accepted l = taken l @ flushed l @ p_queue s'"
      "running s' + mset (called l) = running s + mset (taken l)"
      "stopped_items s' + mset (dropped l) = stopped_items s + mset (flushed l)"
    using items_step [OF assms] by (simp_all add: items_step_def)
  have q: "count (mset (p_queue s)) x + count (mset (accepted l)) x
      = count (mset (taken l)) x + count (mset (flushed l)) x + count (mset (p_queue s')) x" for x
    using arg_cong [OF i(1), of "\<lambda>ys. count (mset ys) x"] by simp
  have r: "count (running s') x + count (mset (called l)) x = count (running s) x + count (mset (taken l)) x" for x
    using arg_cong [OF i(2), of "\<lambda>M. count M x"] by simp
  have t: "count (stopped_items s') x + count (mset (dropped l)) x = count (stopped_items s) x + count (mset (flushed l)) x" for x
    using arg_cong [OF i(3), of "\<lambda>M. count M x"] by simp
  show ?thesis
  proof (rule multiset_eqI)
    fix x
    show "count (pending s' + mset (called l) + mset (dropped l)) x = count (pending s + mset (accepted l)) x"
      using q [of x] r [of x] t [of x] by (simp add: pending_def)
  qed
qed

lemma accept_fresh: "pool_step s (L_accept (Awaiting a)) s' \<Longrightarrow> Awaiting a \<notin># pending s"
  by (erule step_acceptE) (auto simp: submitted_def split: prod.splits if_splits)

lemma handle_frame:
  assumes "pool_step s l s'" and "l \<noteq> L_accept (Awaiting b)" and "\<And>evs. l \<noteq> L_refuse (Awaiting b) evs"
    and "\<And>evs. l \<noteq> L_ran (Awaiting b) evs"
  shows "p_handle s' b = p_handle s b"
  using assms(1)
proof (cases rule: pool_step.cases)
  case (exec i it out evs s1)
  then have "it \<noteq> Awaiting b" using assms(4) by blast
  then show ?thesis using exec by (cases it) (auto simp: Let_def split: sum.splits)
next
  case (await h a r)
  have "a \<noteq> b" using await assms(2,3) by (auto simp: submitted_def split: prod.splits if_splits)
  with await show ?thesis by (auto simp: pool_await_suspend_def submit_cases)
qed (auto simp: submit_cases start_worker_def worker_take_def worker_return_def stop_begin_def
      stop_join_def stop_drop_def stop_end_def Let_def split: if_splits)

lemma ran_events:
  "pool_step s (L_ran (Awaiting a) evs) s' \<Longrightarrow> evs = [E_resume (p_handle s a)] \<and> p_handle s' a = nullptr"
  by (erule step_ranE) (auto simp: submitted_def Let_def split: prod.splits if_splits)

lemma drop_events:
  "pool_step s (L_drop (Awaiting a) evs) s' \<Longrightarrow> evs = [E_resume (p_handle s a)]"
  by (erule step_dropE)
    (auto simp: submitted_def stop_drop_def Let_def simp flip: drop_item.simps(1) split: prod.splits if_splits)

text \<open>No awaiter is in the pool twice.\<close>

lemma awaiting_once:
  assumes "pool_run s0 ls s" and "pending s0 = {#}"
  shows "count (pending s) (Awaiting a) \<le> 1"
  using assms
proof (induction rule: pool_run.induct)
  case (more s ls s' l s'')
  have c: "count (pending s'' + mset (called l) + mset (dropped l)) (Awaiting a) =
      count (pending s' + mset (accepted l)) (Awaiting a)"
    by (rule arg_cong [OF pending_step [OF more.hyps(2)], of "\<lambda>M. count M (Awaiting a)"])
  show ?case
  proof (cases "l = L_accept (Awaiting a)")
    case True
    with accept_fresh more.hyps(2) have "count (pending s') (Awaiting a) = 0" by (auto simp: not_in_iff)
    with c True show ?thesis by simp
  next
    case False
    then have "count (mset (accepted l)) (Awaiting a) = 0" by (cases l) auto
    with c more show ?thesis by simp
  qed
qed simp

fun resumptions :: "ptr \<Rightarrow> ('f, 'e, 'r) label \<Rightarrow> ('f, 'e, 'r) pevent list" where
  "resumptions a (L_ran it evs) = (if it = Awaiting a then evs else [])"
| "resumptions a (L_drop it evs) = (if it = Awaiting a then evs else [])"
| "resumptions a (L_refuse it evs) = (if it = Awaiting a then evs else [])"
| "resumptions a _ = []"

definition awaits_again :: "ptr \<Rightarrow> ('f, 'e, 'r) label \<Rightarrow> bool" where
  "awaits_again a l \<longleftrightarrow> l = L_accept (Awaiting a) \<or> (\<exists>evs. l = L_refuse (Awaiting a) evs)"

lemma awaiting_run:
  assumes "pool_run s ls s'" and "count (pending s) (Awaiting a) = 1" and "p_handle s a = h" and "h \<noteq> nullptr"
    and "\<And>l. l \<in> set ls \<Longrightarrow> \<not> awaits_again a l"
  shows "count (pending s') (Awaiting a) = 1 \<and> p_handle s' a = h \<and> along (resumptions a) ls = [] \<and>
      Awaiting a \<notin> set (along called ls) \<or>
    count (pending s') (Awaiting a) = 0 \<and> along (resumptions a) ls = [E_resume h] \<and>
      p_handle s' a = (if Awaiting a \<in> set (along called ls) then nullptr else h)"
  using assms
proof (induction rule: pool_run.induct)
  case (more s ls s' l s'')
  have again: "l \<noteq> L_accept (Awaiting a)" "\<And>evs. l \<noteq> L_refuse (Awaiting a) evs"
    using more.prems(4) [of l] by (auto simp: awaits_again_def)
  have c: "count (pending s'' + mset (called l) + mset (dropped l)) (Awaiting a) =
      count (pending s' + mset (accepted l)) (Awaiting a)"
    by (rule arg_cong [OF pending_step [OF more.hyps(2)], of "\<lambda>M. count M (Awaiting a)"])
  have acc: "count (mset (accepted l)) (Awaiting a) = 0" using again by (cases l) auto
  consider (ran) evs where "l = L_ran (Awaiting a) evs" | (drop) evs where "l = L_drop (Awaiting a) evs"
    | (other) "Awaiting a \<notin> set (called l)" "Awaiting a \<notin> set (dropped l)"
    by (cases l) auto
  then show ?case
  proof cases
    case ran
    with ran_events more.hyps(2) have "evs = [E_resume (p_handle s' a)]" "p_handle s'' a = nullptr" by blast+
    with ran c acc more show ?thesis by (auto simp: not_in_iff)
  next
    case drop
    with drop_events more.hyps(2) have "evs = [E_resume (p_handle s' a)]" by blast
    moreover have "p_handle s'' a = p_handle s' a" using handle_frame [OF more.hyps(2)] drop by blast
    ultimately show ?thesis using drop c acc more by (auto simp: not_in_iff)
  next
    case other
    have "p_handle s'' a = p_handle s' a" by (rule handle_frame [OF more.hyps(2)]) (use other again in auto)
    moreover have "along (resumptions a) (ls @ [l]) = along (resumptions a) ls" using other again by (cases l) auto
    moreover have "Awaiting a \<in> set (along called (ls @ [l])) \<longleftrightarrow> Awaiting a \<in> set (along called ls)"
      using other by simp
    moreover have "count (pending s'') (Awaiting a) = count (pending s') (Awaiting a)"
    proof -
      have z: "count (mset (called l)) (Awaiting a) = 0" "count (mset (dropped l)) (Awaiting a) = 0"
        using other by simp_all
      show ?thesis using c unfolding count_union z acc by simp
    qed
    ultimately show ?thesis using more.IH more.prems by (simp only:) simp
  qed
qed simp


subsection \<open>stop() does not block forever\<close>

text \<open>
  What keeps \<open>stop\<close> from waiting in a circle: the first call takes all threads out of the
  pool, so only one call ever has threads to join.
\<close>

definition stops_ok :: "'f pool \<Rightarrow> bool" where
  "stops_ok s \<longleftrightarrow>
     (p_exit s \<longrightarrow> p_threads s = [] \<and> p_queue s = []) \<and> (stops s \<noteq> [] \<longrightarrow> p_exit s) \<and>
     (\<forall>st \<in> set (tl (stops s)). st_threads st = []) \<and>
     (\<forall>t \<in> set (p_threads s). t < length (workers s)) \<and>
     (\<forall>st \<in> set (stops s). \<forall>t \<in> set (st_threads st). t < length (workers s))"

lemma stops_ok_cong:
  assumes "stops_ok s" and "p_exit s' = p_exit s" and "p_threads s' = p_threads s" and "stops s' = stops s"
    and "length (workers s) \<le> length (workers s')" and "p_exit s \<longrightarrow> p_queue s' = []"
  shows "stops_ok s'"
  unfolding stops_ok_def assms(2-4) using assms(1,5,6) unfolding stops_ok_def by (meson less_le_trans)

text \<open>Replacing one stop by one with fewer threads, or removing it.\<close>

lemma stops_ok_set:
  assumes ok: "stops_ok s" and k: "k < length (stops s)" and st: "set (st_threads st) \<subseteq> set (st_threads (stops s ! k))"
    and eq: "p_exit s' = p_exit s" "p_threads s' = p_threads s" "p_queue s' = p_queue s"
      "length (workers s') = length (workers s)" "stops s' = (stops s)[k := st]"
  shows "stops_ok s'"
proof -
  have th: "\<forall>t \<in> set (st_threads st). t < length (workers s)" using ok k st nth_mem [OF k] unfolding stops_ok_def by blast
  have sub: "set ((stops s)[k := st]) \<subseteq> insert st (set (stops s))" by (rule set_update_subset_insert)
  have "\<forall>st' \<in> set (tl ((stops s)[k := st])). st_threads st' = []"
  proof (cases k)
    case 0
    with k ok show ?thesis by (cases "stops s") (auto simp: stops_ok_def)
  next
    case (Suc j)
    then have j: "j < length (tl (stops s))" and tl: "tl ((stops s)[k := st]) = (tl (stops s))[j := st]"
      and nth: "stops s ! k = tl (stops s) ! j" using k by (cases "stops s"; auto)+
    have "st_threads (stops s ! k) = []" using ok nth_mem [OF j] nth by (simp add: stops_ok_def)
    with st have "st_threads st = []" by simp
    with ok tl set_update_subset_insert [of "tl (stops s)" j st] show ?thesis unfolding stops_ok_def by auto
  qed
  moreover have "stops s \<noteq> []" using k by auto
  ultimately show ?thesis using ok th sub unfolding stops_ok_def eq by blast
qed

lemma set_tl_remove: "set (tl (take k xs @ drop (Suc k) xs)) \<subseteq> set (tl xs)"
  by (cases xs; cases "tl xs"; cases k) (auto dest: in_set_takeD in_set_dropD)

lemma stops_ok_end:
  assumes "stops_ok s" and "k < length (stops s)"
  shows "stops_ok (stop_end k s)"
proof -
  have "set (take k (stops s) @ drop (Suc k) (stops s)) \<subseteq> set (stops s)"
    by (auto dest: in_set_takeD in_set_dropD)
  moreover have "stops s \<noteq> []" using assms(2) by auto
  ultimately show ?thesis using assms(1) set_tl_remove [of k "stops s"] unfolding stops_ok_def stop_end_def by auto
qed

lemma stops_ok_begin:
  assumes "stops_ok s"
  shows "stops_ok (stop_begin me s)"
proof -
  have "st_threads (\<lparr>st_caller = me, st_threads = p_threads s, st_items = p_queue s\<rparr>) = []" if "stops s \<noteq> []"
    using that assms by (simp add: stops_ok_def)
  then have "\<forall>st \<in> set (tl (stops (stop_begin me s))). st_threads st = []"
    using assms by (cases "stops s") (auto simp: stops_ok_def stop_begin_def)
  then show ?thesis using assms by (auto simp: stops_ok_def stop_begin_def)
qed

lemma stops_ok_step: "pool_step s l s' \<Longrightarrow> stops_ok s \<Longrightarrow> stops_ok s'"
proof (induction rule: pool_step.induct)
  case (await h a s r)
  from await(4) show ?case
    by (rule stops_ok_cong) (use await in \<open>auto simp: pool_await_suspend_def submit_cases stops_ok_def\<close>)
next
  case (submit it r s)
  from submit(3) show ?case by (rule stops_ok_cong) (use submit in \<open>auto simp: submit_cases stops_ok_def\<close>)
next
  case (become_worker s)
  then show ?case by (rule stops_ok_cong) (use become_worker in \<open>auto simp: start_worker_def stops_ok_def\<close>)
next
  case (wake i s s')
  then have "s' = set_pc i W_done s" by (simp add: worker_take_exit)
  with wake(5) show ?case using stops_ok_cong [of s "set_pc i W_done s"] by (auto simp: stops_ok_def)
next
  case (take i s s')
  from take(5) show ?case by (rule stops_ok_cong) (use take worker_take_item [OF take(4,3)] in auto)
next
  case (exec i s it out evs s')
  note f = exec_item_frame [OF exec(3)]
  from exec(4) show ?case by (rule stops_ok_cong) (use f exec(4) in \<open>auto simp: stops_ok_def\<close>)
next
  case (return i s)
  from return(4) show ?case by (rule stops_ok_cong) (use return in \<open>auto simp: worker_return_def stops_ok_def\<close>)
next
  case (stop me s)
  then show ?case by (simp add: stops_ok_begin)
next
  case (join k s s')
  then obtain ws where s': "s' = s\<lparr>stops := (stops s)[k := (stops s ! k)\<lparr>st_threads := tl (st_threads (stops s ! k))\<rparr>], workers := ws\<rparr>"
    "length ws = length (workers s)" using stop_join_cases by blast
  from join(4,1) show ?case
    by (rule stops_ok_set [where st = "(stops s ! k)\<lparr>st_threads := tl (st_threads (stops s ! k))\<rparr>"])
      (use s' join(2) in \<open>auto dest: list.set_sel(2)\<close>)
next
  case (drop k s evs s')
  from drop(5,1) show ?case
    by (rule stops_ok_set [where st = "(stops s ! k)\<lparr>st_items := tl (st_items (stops s ! k))\<rparr>"])
      (use drop(4) in \<open>auto simp: stop_drop_def Let_def\<close>)
next
  case (stopped k s)
  then show ?case by (simp add: stops_ok_end)
qed


text \<open>After \<open>stop\<close>, every step but new calls of the client brings the pool nearer to its end.\<close>

fun pc_rank :: "'f wpc \<Rightarrow> nat" where
  "pc_rank W_loop = 1"
| "pc_rank (W_run it) = 3"
| "pc_rank W_ran = 2"
| "pc_rank W_done = 0"

definition stop_rank :: "'f stopping \<Rightarrow> nat" where
  "stop_rank st = Suc (length (st_threads st) + length (st_items st))"

definition remaining :: "'f pool \<Rightarrow> nat" where
  "remaining s = sum_list (map (pc_rank \<circ> w_pc) (workers s)) + sum_list (map stop_rank (stops s))"

lemma sum_list_set:
  fixes f :: "'a \<Rightarrow> nat"
  assumes "i < length xs"
  shows "sum_list (map f (xs[i := x])) + f (xs ! i) = sum_list (map f xs) + f x"
proof -
  have "xs = take i xs @ xs ! i # drop (Suc i) xs" using assms by (rule id_take_nth_drop)
  then have "sum_list (map f xs) = sum_list (map f (take i xs @ xs ! i # drop (Suc i) xs))" by simp
  then show ?thesis using assms by (simp add: upd_conv_take_nth_drop)
qed

lemma remaining_set_pc:
  assumes "i < length (workers s)" and "pc_rank pc < pc_rank (w_pc (workers s ! i))"
  shows "remaining (set_pc i pc s) < remaining s"
  using sum_list_set [OF assms(1), of "pc_rank \<circ> w_pc" "(workers s ! i)\<lparr>w_pc := pc\<rparr>"] assms(2)
  by (simp add: remaining_def set_pc_def)

lemma remaining_set_stop:
  assumes "k < length (stops s)" and "stop_rank st < stop_rank (stops s ! k)" and "stops s' = (stops s)[k := st]"
    and "map w_pc (workers s') = map w_pc (workers s)"
  shows "remaining s' < remaining s"
proof -
  have "map (pc_rank \<circ> w_pc) (workers s') = map (pc_rank \<circ> w_pc) (workers s)"
    using arg_cong [OF assms(4), of "map pc_rank"] by simp
  then show ?thesis using sum_list_set [OF assms(1), of stop_rank st] assms(2,3) by (simp add: remaining_def)
qed

lemma remaining_stop_end:
  assumes "k < length (stops s)"
  shows "remaining (stop_end k s) < remaining s"
proof -
  have "stops s = take k (stops s) @ stops s ! k # drop (Suc k) (stops s)" using assms by (rule id_take_nth_drop)
  then have "sum_list (map stop_rank (stops s)) =
      sum_list (map stop_rank (take k (stops s) @ stops s ! k # drop (Suc k) (stops s)))" by simp
  then show ?thesis by (simp add: remaining_def stop_end_def stop_rank_def)
qed

definition quiet :: "('f, 'e, 'r) label \<Rightarrow> bool" where
  "quiet l \<longleftrightarrow> (case l of L_internal \<Rightarrow> True | L_ran it evs \<Rightarrow> True | L_drop it evs \<Rightarrow> True | _ \<Rightarrow> False)"

text \<open>The worker \<open>i\<close> can go on unless it waits inside a \<open>stop\<close> of its own.\<close>

lemma worker_progress:
  assumes i: "i < length (workers s)" and pc: "w_pc (workers s ! i) \<noteq> W_done" and e: "p_exit s"
    and st: "\<forall>st \<in> set (stops s). st_caller st \<noteq> Some i"
  shows "\<exists>(l :: ('f, 'e, 'r) label) s'. pool_step s l s' \<and> quiet l \<and> p_exit s' \<and> remaining s' < remaining s"
proof (cases "w_pc (workers s ! i)")
  case W_loop
  have "worker_take i s = Some (set_pc i W_done s)" using e by (simp add: worker_take_def)
  from pool_step.wake [OF i W_loop e this] show ?thesis
    using remaining_set_pc [OF i, of W_done] W_loop e by (intro exI conjI) (auto simp: quiet_def)
next
  case (W_run it)
  obtain evs :: "('f, 'e, 'r) pevent list" and s1 where x: "exec_item it (Inr undefined) s = Some (evs, s1)"
    by (cases it) (auto simp: Let_def)
  note f = exec_item_frame [OF x]
  have "remaining (set_pc i W_ran s1) < remaining s1" using i W_run f by (intro remaining_set_pc) simp_all
  moreover have "remaining s1 = remaining s" using f by (simp add: remaining_def)
  ultimately show ?thesis using pool_step.exec [OF i W_run x] e f by (intro exI conjI) (auto simp: quiet_def)
next
  case W_ran
  have "remaining (worker_return i s) < remaining s"
    unfolding worker_return_def by (rule remaining_set_pc) (use i W_ran in auto)
  with pool_step.return [OF i W_ran st] e show ?thesis by (intro exI conjI) (auto simp: quiet_def worker_return_def)
qed (use pc in simp)

text \<open>A \<open>stop\<close> without threads to join goes on by itself.\<close>

lemma stop_progress:
  assumes k: "k < length (stops s)" and t: "st_threads (stops s ! k) = []" and e: "p_exit s"
  shows "\<exists>(l :: ('f, 'e, 'r) label) s'. pool_step s l s' \<and> quiet l \<and> p_exit s' \<and> remaining s' < remaining s"
proof (cases "st_items (stops s ! k) = []")
  case True
  from pool_step.stopped [OF k t True] remaining_stop_end [OF k] e show ?thesis
    by (intro exI conjI) (auto simp: quiet_def stop_end_def)
next
  case False
  let ?st = "(stops s ! k)\<lparr>st_items := tl (st_items (stops s ! k))\<rparr>"
  let ?s' = "s\<lparr>stops := (stops s)[k := ?st]\<rparr>"
  have "stop_drop k s = (drop_item (hd (st_items (stops s ! k))) s :: ('f, 'e, 'r) pevent list, ?s')"
    by (simp add: stop_drop_def Let_def)
  from pool_step.drop [OF k t False this] show ?thesis
    using remaining_set_stop [OF k, of ?st ?s'] False e by (intro exI conjI) (auto simp: quiet_def stop_rank_def)
qed

lemma join_progress:
  assumes k: "k < length (stops s)" and t: "st_threads (stops s ! k) \<noteq> []" and e: "p_exit s"
    and j: "stop_join k s = Some s'"
  shows "\<exists>(l :: ('f, 'e, 'r) label) s'. pool_step s l s' \<and> quiet l \<and> p_exit s' \<and> remaining s' < remaining s"
proof -
  let ?st = "(stops s ! k)\<lparr>st_threads := tl (st_threads (stops s ! k))\<rparr>"
  obtain ws where ws: "s' = s\<lparr>stops := (stops s)[k := ?st], workers := ws\<rparr>" "length ws = length (workers s)"
    "\<forall>i. w_pc (ws ! i) = w_pc (workers s ! i)" using stop_join_cases [OF j k] by blast
  then have "map w_pc ws = map w_pc (workers s)" by (simp add: list_eq_iff_nth_eq)
  then have "remaining s' < remaining s"
    using remaining_set_stop [OF k, of ?st s'] ws(1) t by (cases "st_threads (stops s ! k)") (auto simp: stop_rank_def)
  with pool_step.join [OF k t j] ws(1) e show ?thesis by (intro exI conjI) (auto simp: quiet_def)
qed


lemma stop_not_stuck:
  assumes ok: "stops_ok s" and e: "p_exit s" and r: "remaining s \<noteq> 0"
  shows "\<exists>(l :: ('f, 'e, 'r) label) s'. pool_step s l s' \<and> quiet l \<and> p_exit s' \<and> remaining s' < remaining s"
proof (cases "stops s")
  case Nil
  with r obtain i where "i < length (workers s)" "w_pc (workers s ! i) \<noteq> W_done"
    by (auto simp: remaining_def in_set_conv_nth) (metis pc_rank.simps(4) less_numeral_extra(3))
  with worker_progress e Nil show ?thesis by fastforce
next
  case (Cons st rest)
  show ?thesis
  proof (cases rest)
    case (Cons st1 rest1)
    with \<open>stops s = st # rest\<close> ok have "st_threads (stops s ! 1) = []" "1 < length (stops s)"
      by (auto simp: stops_ok_def)
    with stop_progress e show ?thesis by blast
  next
    case Nil
    with Cons have k: "0 < length (stops s)" "stops s ! 0 = st" "set (stops s) = {st}" by simp_all
    show ?thesis
    proof (cases "st_threads st")
      case Nil
      with stop_progress [OF k(1)] k(2) e show ?thesis by simp
    next
      case (Cons t ts)
      then have t: "t < length (workers s)" using ok k(3) by (simp add: stops_ok_def)
      show ?thesis
      proof (cases "st_caller st = Some t \<or> w_pc (workers s ! t) = W_done")
        case True
        then have "\<exists>s'. stop_join 0 s = Some s'"
          using k Cons by (cases "st_caller st = Some t") (simp_all add: stop_join_def Let_def)
        then obtain s' where "stop_join 0 s = Some s'" by blast
        with join_progress [OF k(1) _ e] k(2) Cons show ?thesis by simp
      next
        case False
        with worker_progress [OF t _ e] k(3) show ?thesis by simp
      qed
    qed
  qed
qed

lemma remaining_0: "remaining s = 0 \<Longrightarrow> stops s = [] \<and> (\<forall>w \<in> set (workers s). w_pc w = W_done)"
proof -
  assume r: "remaining s = 0"
  have "w_pc w = W_done" if "w \<in> set (workers s)" for w
    using r that by (cases "w_pc w") (auto simp: remaining_def)
  with r show ?thesis by (cases "stops s") (auto simp: remaining_def stop_rank_def)
qed

lemma stops_ok_run: "pool_run s ls s' \<Longrightarrow> stops_ok s \<Longrightarrow> stops_ok s'"
  by (induction rule: pool_run.induct) (auto intro: stops_ok_step)

lemma pool_run_quiet:
  fixes ls :: "('f, 'e, 'r) label list"
  assumes "pool_run s0 ls s" and "stops_ok s0" and "p_exit s"
  shows "\<exists>ls' s'. pool_run s0 (ls @ ls') s' \<and> (\<forall>l \<in> set ls'. quiet l) \<and> p_exit s' \<and> remaining s' = 0"
  using assms
proof (induction "remaining s" arbitrary: s ls rule: less_induct)
  case less
  show ?case
  proof (cases "remaining s = 0")
    case True
    with less.prems show ?thesis by (intro exI [of _ "[]"] exI [of _ s]) simp
  next
    case False
    have "stops_ok s" using stops_ok_run less.prems by blast
    with stop_not_stuck False less.prems(3) obtain l s1
      where l: "pool_step s (l :: ('f, 'e, 'r) label) s1" "quiet l" "p_exit s1" "remaining s1 < remaining s" by blast
    from less.hyps [OF l(4) pool_run.more [OF less.prems(1) l(1)] less.prems(2) l(3)] obtain ls' s' where
      "pool_run s0 (ls @ (l # ls')) s'" "\<forall>l \<in> set ls'. quiet l" "p_exit s'" "remaining s' = 0" by auto
    with l(2) show ?thesis by (intro exI [of _ "l # ls'"] exI [of _ s']) simp
  qed
qed

lemma pool_new_simps [simp]:
  "pending (pool_new n h) = {#}" "\<not> p_exit (pool_new n h)" "stops_ok (pool_new n h)"
  by (auto simp: pool_new_def pending_def running_def stopped_items_def run_item_def stops_ok_def Let_def)

subsection \<open>A sample run\<close>

definition sample_pool :: "handle \<Rightarrow> nat pool" where
  "sample_pool h = \<lparr>p_queue = [], p_exit = False, p_threads = [0], p_handle = (\<lambda>_. 0)(5 := h),
     workers = [\<lparr>w_pc = W_loop, w_current = True\<rparr>], stops = []\<rparr>"

lemma sample_new: "pool_new 0 1 = sample_pool 0"
  by (simp add: sample_pool_def pool_new_def fun_eq_iff)

lemma sample_pending [simp]: "pending (sample_pool h) = {#}"
  by (simp add: sample_pool_def pending_def running_def stopped_items_def run_item_def)

lemma sample_await: "pool_await_suspend 5 50 (sample_pool 0) = (True, [], (sample_pool 50)\<lparr>p_queue := [Awaiting 5]\<rparr>)"
  by (simp add: pool_await_suspend_def submit_cases sample_pool_def fun_eq_iff)

lemma sample_step: "pool_step (sample_pool 0) (L_accept (Awaiting 5)) ((sample_pool 50)\<lparr>p_queue := [Awaiting 5]\<rparr>)"
  using pool_step.await [of 50 5 "sample_pool 0", OF _ _ refl] by (simp add: submitted_def sample_await)

lemma sample_more:
  "\<exists>s. pool_run ((sample_pool 50)\<lparr>p_queue := [Awaiting 5]\<rparr>)
     [L_accept (Calling 7), L_take (Awaiting 5), L_ran (Awaiting 5) [E_resume 50], L_flush [Calling 7]] s \<and> p_exit s"
proof -
  let ?w = "\<lambda>pc. [\<lparr>w_pc = pc, w_current = True\<rparr>]"
  let ?s1 = "(sample_pool 50)\<lparr>p_queue := [Awaiting 5]\<rparr>"
  let ?s2 = "(sample_pool 50)\<lparr>p_queue := [Awaiting 5, Calling 7]\<rparr>"
  let ?s3 = "(sample_pool 50)\<lparr>p_queue := [Calling 7], workers := ?w (W_run (Awaiting 5))\<rparr>"
  let ?s4 = "?s3\<lparr>p_handle := (p_handle ?s3)(5 := 0), workers := ?w W_ran\<rparr>"
  have 1: "pool_step ?s1 (L_accept (Calling 7)) ?s2"
    using pool_step.submit [of "Calling 7" _ ?s1] by (simp add: submit_cases submitted_def sample_pool_def)
  have 2: "pool_step ?s2 (L_take (Awaiting 5)) ?s3"
    using pool_step.take [of 0 ?s2 ?s3] by (simp add: worker_take_def set_pc_def sample_pool_def)
  have 3: "pool_step ?s3 (L_ran (Awaiting 5) [E_resume 50]) ?s4"
    using pool_step.exec [of 0 ?s3 "Awaiting 5" undefined] by (simp add: set_pc_def sample_pool_def)
  have 4: "pool_step ?s4 (L_flush [Calling 7]) (stop_begin None ?s4)"
    using pool_step.stop [of None ?s4] by simp
  have "pool_run ?s1 ((((([] @ [L_accept (Calling 7)]) @ [L_take (Awaiting 5)]) @ [L_ran (Awaiting 5) [E_resume 50]]) @
      [L_flush [Calling 7]])) (stop_begin None ?s4)"
    by (rule pool_run.more pool_run.start 1 2 3 4)+
  then show ?thesis by (intro exI [of _ "stop_begin None ?s4"]) (simp add: stop_begin_def)
qed

lemma pool_run_Cons: "pool_run s1 ls s2 \<Longrightarrow> pool_step s l s1 \<Longrightarrow> pool_run s (l # ls) s2"
proof (induction rule: pool_run.induct)
  case (start s1)
  then show ?case using pool_run.more [OF pool_run.start] by fastforce
next
  case (more s1 ls s' l' s'')
  then show ?case using pool_run.more [of s "l # ls" s'] by simp
qed

lemma sample_run:
  "\<exists>s. pool_run (pool_new 0 1) [L_accept (Awaiting 5), L_accept (Calling 7), L_take (Awaiting 5),
     L_ran (Awaiting 5) [E_resume 50], L_flush [Calling 7]] (s :: nat pool) \<and> p_exit s"
  using sample_more pool_run_Cons sample_step unfolding sample_new by blast

section \<open>Properties\<close>

text \<open>
  C12. In every interleaving of the workers, the clients and \<open>stop\<close>, the workers take the
  accepted items in the order of submission, and each item they take is called exactly once.
  What a \<open>stop\<close> takes out of the queue is the rest, each item of which is destroyed exactly
  once by the \<open>stop\<close>; nothing is accepted afterwards. So an item is called, destroyed, or
  still where \<open>running\<close>, the queue or a \<open>stop\<close> hold it, and only one of these.
\<close>

theorem pool_runs_or_drops_once:
  assumes "pool_run (pool_new n hardware) ls s"
  shows "along accepted ls = along taken ls @ along flushed ls @ p_queue s \<and>
    mset (along taken ls) = mset (along called ls) + running s \<and>
    mset (along flushed ls) = mset (along dropped ls) + stopped_items s \<and>
    (along flushed ls \<noteq> [] \<longrightarrow> p_exit s \<and> p_queue s = [])"
proof -
  have q: "p_exit s \<longrightarrow> p_queue s = []"
    using stops_ok_run [OF assms pool_new_simps(3)] unfolding stops_ok_def by blast
  note i = items_run [OF assms pool_new_simps(1,2)]
  then have "p_exit s \<or> along flushed ls = []" by (elim conjE)
  with q have e: "along flushed ls \<noteq> [] \<longrightarrow> p_exit s \<and> p_queue s = []" by (elim disjE) simp_all
  from i show ?thesis by (elim conjE) (intro conjI e)
qed

theorem pool_runs_or_drops_once_witness:
  "\<exists>s :: nat pool. mset [Awaiting 5] = mset [Awaiting 5] + running s \<and> mset [Calling 7] = stopped_items s \<and> p_queue s = []"
proof -
  obtain s :: "nat pool" where "pool_run (pool_new 0 1) [L_accept (Awaiting 5), L_accept (Calling 7), L_take (Awaiting 5),
     L_ran (Awaiting 5) [E_resume 50], L_flush [Calling 7] :: (nat, nat, nat) label] s" using sample_run by blast
  from pool_runs_or_drops_once [OF this] show ?thesis by (intro exI [of _ s]) auto
qed

text \<open>
  C25. A coroutine that awaits the pool is resumed exactly once, whatever happens then: either
  at once, since the pool has been stopped, or when a worker calls its item or a \<open>stop\<close>
  destroys it, and until then it is in the pool. Its \<open>await_resume\<close> throws the cancelation
  exactly when no worker has called the item.
\<close>

theorem pool_await_resumes_once:
  assumes "pool_run (pool_new n hardware) ls0 s" and "Awaiting a \<notin># pending s" and "h \<noteq> nullptr"
    and "pool_await_suspend a h s = (ok, evs, s1)" and "pool_run s1 ls s2" and "\<And>l. l \<in> set ls \<Longrightarrow> \<not> awaits_again a l"
  shows "if ok then
      Awaiting a \<in># pending s2 \<and> along (resumptions a) ls = [] \<or>
      Awaiting a \<notin># pending s2 \<and> along (resumptions a) ls = [E_resume h] \<and>
      (pool_await_resume a s2 = Inl Await_canceled \<longleftrightarrow> Awaiting a \<notin> set (along called ls))
    else evs = [E_resume h] \<and> pool_await_resume a s1 = Inl Await_canceled"
proof (cases "p_exit s")
  case True
  with assms(3,4) show ?thesis by (auto simp: pool_await_suspend_def submit_cases pool_await_resume_def)
next
  case False
  then have s1: "s1 = s\<lparr>p_handle := (p_handle s)(a := h), p_queue := p_queue s @ [Awaiting a]\<rparr>" "ok"
    using assms(4) by (auto simp: pool_await_suspend_def submit_cases)
  have "count (pending s) (Awaiting a) = 0" using assms(2) by (simp add: not_in_iff)
  then have "count (pending s1) (Awaiting a) = 1" "p_handle s1 a = h" using s1 by (simp_all add: pending_def)
  from awaiting_run [OF assms(5) this assms(3,6)] show ?thesis
  proof
    assume "count (pending s2) (Awaiting a) = 1 \<and> p_handle s2 a = h \<and> along (resumptions a) ls = [] \<and>
      Awaiting a \<notin> set (along called ls)"
    then have "Awaiting a \<in># pending s2" "along (resumptions a) ls = []" by (auto simp: count_inI)
    with s1(2) show ?thesis by simp
  next
    assume "count (pending s2) (Awaiting a) = 0 \<and> along (resumptions a) ls = [E_resume h] \<and>
      p_handle s2 a = (if Awaiting a \<in> set (along called ls) then nullptr else h)"
    then have "Awaiting a \<notin># pending s2" "along (resumptions a) ls = [E_resume h]"
      "p_handle s2 a = nullptr \<longleftrightarrow> Awaiting a \<in> set (along called ls)"
      using assms(3) by (simp_all only: not_in_iff split: if_split) auto
    with s1(2) show ?thesis by (simp add: pool_await_resume_def)
  qed
qed

theorem pool_await_resumes_once_witness:
  "\<exists>s :: nat pool. Awaiting 5 \<notin># pending s \<and> pool_await_resume 5 s = Inr ()"
proof -
  obtain s :: "nat pool" where s: "pool_run ((sample_pool 50)\<lparr>p_queue := [Awaiting 5]\<rparr>)
     [L_accept (Calling 7), L_take (Awaiting 5), L_ran (Awaiting 5) [E_resume 50], L_flush [Calling 7] :: (nat, nat, nat) label] s"
    using sample_more by blast
  have "pool_run (pool_new 0 1) [] (sample_pool 0)" using pool_run.start sample_new by metis
  moreover have "Awaiting 5 \<notin># pending (sample_pool 0)" by simp
  moreover have "\<not> awaits_again 5 l" if "l \<in> set [L_accept (Calling 7), L_take (Awaiting 5),
      L_ran (Awaiting 5) [E_resume 50], L_flush [Calling 7] :: (nat, nat, nat) label]" for l
    using that by (auto simp: awaits_again_def)
  ultimately have "Awaiting 5 \<notin># pending s \<and> pool_await_resume 5 s \<noteq> Inl Await_canceled"
    using pool_await_resumes_once [OF _ _ _ sample_await s] by fastforce
  then show ?thesis by (intro exI [of _ s]) (auto simp: pool_await_resume_def split: if_splits)
qed

text \<open>
  C26. \<open>stop\<close> never waits for ever: in every state a run can reach after some \<open>stop\<close> began,
  whoever called it and however many are under way (also from the workers themselves, nested
  or at once), the threads can go on by themselves until every \<open>stop\<close> has returned, every
  worker has left its loop and no item is left.
\<close>

theorem pool_stop_completes:
  assumes "pool_run (pool_new n hardware) ls s" and "p_exit s"
  shows "\<exists>ls' s'. pool_run (pool_new n hardware) (ls @ ls') s' \<and> (\<forall>l \<in> set ls'. quiet l) \<and>
    stops s' = [] \<and> (\<forall>w \<in> set (workers s'). w_pc w = W_done) \<and> pending s' = {#}"
proof -
  obtain ls' s' where r: "pool_run (pool_new n hardware) (ls @ ls') s'" "\<forall>l \<in> set ls'. quiet l" "p_exit s'" "remaining s' = 0"
    using pool_run_quiet [OF assms(1) _ assms(2)] by auto
  from remaining_0 [OF r(4)] have d: "stops s' = []" "\<forall>w \<in> set (workers s'). w_pc w = W_done" by auto
  have "p_queue s' = []" using stops_ok_run [OF r(1) pool_new_simps(3)] r(3) by (simp add: stops_ok_def)
  then have "pending s' = {#}" using d by (auto simp: pending_def running_def stopped_items_def run_item_def)
  with r d show ?thesis by blast
qed

theorem pool_stop_completes_witness:
  "\<exists>ls' (s' :: nat pool). pool_run (pool_new 0 1) ([L_accept (Awaiting 5), L_accept (Calling 7), L_take (Awaiting 5),
     L_ran (Awaiting 5) [E_resume 50], L_flush [Calling 7] :: (nat, nat, nat) label] @ ls') s' \<and>
     (\<forall>l \<in> set ls'. quiet l) \<and> stops s' = [] \<and> (\<forall>w \<in> set (workers s'). w_pc w = W_done) \<and> pending s' = {#}"
proof -
  obtain s :: "nat pool" where s: "pool_run (pool_new 0 1) [L_accept (Awaiting 5), L_accept (Calling 7), L_take (Awaiting 5),
     L_ran (Awaiting 5) [E_resume 50], L_flush [Calling 7] :: (nat, nat, nat) label] s" "p_exit s" using sample_run by (elim exE conjE) (rule that)
  show ?thesis by (rule pool_stop_completes [OF s])
qed

end
