(* ===== verification/Scheduler_Pool.thy ===== *)
theory Scheduler_Pool
  imports Scheduler_Threads Thread_Pool
begin

section \<open>scheduler: the worker in a thread pool\<close>

text \<open>
  \<open>worker_coro<true>\<close> and \<open>start_in(thread_pool &)\<close> of \<open>scheduler.h\<close>. In every round the
  worker suspends itself in the pool and goes on in any of its threads, and the coroutines it
  resumes are handed to the pool. The state puts the pool of \<open>Thread_Pool\<close> and the scheduler
  of \<open>Scheduler\<close> together; sections under the lock are steps as in \<open>Scheduler_Threads\<close>.

  \<open>me\<close> is the handle of the worker's frame and \<open>a\<close> the address of the \<open>co_awaiter\<close> in it; the
  worker is an item of the pool, or runs in the call of such an item. While it runs, the queue
  of its thread (theory \<open>Coro_Queue\<close>) is active and empty: the call installed it.
\<close>

subsection \<open>State\<close>

datatype pw_pc =
    Pw_queued
  | Pw_register
  | Pw_enter
  | Pw_head
  | Pw_suspend
  | Pw_awoken
  | Pw_relock
  | Pw_check
  | Pw_round
  | Pw_wait int
  | Pw_sleep int
  | Pw_leave "unit exc option"
  | Pw_done "unit exc option"
  | Pw_lost

text \<open>
  \<open>pt_at\<close> is the pool's thread that runs the worker, if it is one. \<open>Pw_lost\<close>: the item with the
  new coroutine was destroyed without being called. The argument of \<open>Pw_leave\<close> is the
  exception that leaves the coroutine, that of \<open>Pw_done\<close> what \<open>_fut\<close> holds.
\<close>

record ('f, 'e, 'u) spool =
  pt_pool :: "'f pool"
  pt_sched :: "('e, 'u) sched"
  pt_now :: int
  pt_pc :: pw_pc
  pt_at :: "nat option"
  pt_notified :: bool
  pt_stop :: bool
  pt_callback :: bool
  pt_destr :: destructor_pc

text \<open>\<open>start_in\<close>: the suspend point with the started coroutine is resumed by the pool.\<close>

definition pool_start :: "handle \<Rightarrow> 'f pool \<Rightarrow> ('e, 'u) sched \<Rightarrow> ('f, 'e, 'u) spool" where
  "pool_start me p sd =
     \<lparr>pt_pool = run_async [me] p, pt_sched = sd, pt_now = clock sd, pt_pc = (if p_exit p then Pw_lost else Pw_queued),
      pt_at = None, pt_notified = False, pt_stop = False, pt_callback = False, pt_destr = De_idle\<rparr>"

definition pw_goto :: "pw_pc \<Rightarrow> ('f, 'e, 'u) spool \<Rightarrow> ('f, 'e, 'u) spool" where
  "pw_goto pc s = s\<lparr>pt_pc := pc\<rparr>"

definition pw_locked :: "pw_pc \<Rightarrow> bool" where
  "pw_locked pc \<longleftrightarrow> pc = Pw_head \<or> pc = Pw_check \<or> pc = Pw_round \<or> (\<exists>t. pc = Pw_wait t)"

definition pw_running :: "pw_pc \<Rightarrow> bool" where
  "pw_running pc \<longleftrightarrow> pc \<noteq> Pw_queued \<and> pc \<noteq> Pw_lost \<and> (\<forall>r. pc \<noteq> Pw_done r)"

definition pw_notify :: "bool \<Rightarrow> ('f, 'e, 'u) spool \<Rightarrow> ('f, 'e, 'u) spool" where
  "pw_notify b s = s\<lparr>pt_notified := pt_notified s \<or> b\<rparr>"

subsection \<open>The steps of the worker\<close>

definition pw_register :: "('f, 'e, 'u) spool \<Rightarrow> ('f, 'e, 'u) spool" where
  "pw_register s = pw_goto Pw_enter (s\<lparr>pt_callback := \<not> pt_stop s\<rparr>)"

text \<open>
  \<open>co_await *pool\<close>. If the pool has been stopped the item is destroyed by \<open>enqueue\<close>'s caller,
  which resumes the coroutine through the queue of the thread: it goes on where it is.
\<close>

definition pw_suspend :: "handle \<Rightarrow> ptr \<Rightarrow> ('f, 'e, 'u) spool \<Rightarrow> ('f, 'e, 'u) spool" where
  "pw_suspend me a s =
     (case pool_await_suspend a me (pt_pool s) :: bool \<times> ('f, 'e, unit) pevent list \<times> 'f pool of
        (ok, evs, p) \<Rightarrow>
          if ok then pw_goto Pw_queued (s\<lparr>pt_pool := p, pt_at := None\<rparr>) else pw_goto Pw_awoken (s\<lparr>pt_pool := p\<rparr>))"

text \<open>The exception of \<open>await_resume\<close> leaves the coroutine; the lock is not held then.\<close>

definition pw_awake :: "ptr \<Rightarrow> ('f, 'e, 'u) spool \<Rightarrow> ('f, 'e, 'u) spool" where
  "pw_awake a s =
     (case pool_await_resume a (pt_pool s) of Inl e \<Rightarrow> pw_goto (Pw_leave (Some e)) s | Inr _ \<Rightarrow> pw_goto Pw_relock s)"

definition pw_check :: "pw_pc \<Rightarrow> ('f, 'e, 'u) spool \<Rightarrow> ('f, 'e, 'u) spool" where
  "pw_check pc s = pw_goto (if pt_stop s then Pw_leave None else pc) s"

definition pw_round ::
    "sch_item heap_ops \<Rightarrow> (unit, 'e, 'u) fworld client_fn \<Rightarrow> ('f, 'e, 'u) spool \<Rightarrow> ('f, 'e, 'u) spool option" where
  "pw_round H cl s = do {
     let sd = pt_sched s;
     (hs, wt, xs, st) \<leftarrow> worker_round H cl (pt_now s) (sitems sd) (sst sd);
     let s1 = s\<lparr>pt_sched := sd\<lparr>sitems := xs, sst := st, clock := pt_now s\<rparr>\<rparr>;
     Some (case wt of
         None \<Rightarrow> pw_goto Pw_head (s1\<lparr>pt_pool := resume_spt hs (pt_pool s1)\<rparr>)
       | Some t \<Rightarrow> pw_goto (if \<not> any_enqueued (pt_pool s1) \<and> can_block \<lparr>active = True, cq = [], world = ()\<rparr>
           then Pw_wait t else Pw_head) s1) }"

definition pw_wait :: "int \<Rightarrow> ('f, 'e, 'u) spool \<Rightarrow> ('f, 'e, 'u) spool" where
  "pw_wait t s = pw_goto (Pw_sleep t) (s\<lparr>pt_notified := False\<rparr>)"

definition pw_leave :: "unit exc option \<Rightarrow> ('f, 'e, 'u) spool \<Rightarrow> ('f, 'e, 'u) spool" where
  "pw_leave r s = pw_goto (Pw_done r) (s\<lparr>pt_callback := False, pt_at := None\<rparr>)"

fun pw_can :: "bool \<Rightarrow> ('f, 'e, 'u) spool \<Rightarrow> pw_pc \<Rightarrow> bool" where
  "pw_can spur s (Pw_sleep t) \<longleftrightarrow> spur \<or> pt_notified s \<or> t \<le> pt_now s"
| "pw_can spur s pc \<longleftrightarrow> pw_running pc"

fun pw_go ::
    "sch_item heap_ops \<Rightarrow> (unit, 'e, 'u) fworld client_fn \<Rightarrow> handle \<Rightarrow> ptr \<Rightarrow> pw_pc \<Rightarrow> ('f, 'e, 'u) spool \<Rightarrow>
      ('f, 'e, 'u) spool option" where
  "pw_go H cl me a Pw_register s = Some (pw_register s)"
| "pw_go H cl me a Pw_enter s = Some (pw_goto Pw_head s)"
| "pw_go H cl me a Pw_head s = Some (pw_check Pw_suspend s)"
| "pw_go H cl me a Pw_suspend s = Some (pw_suspend me a s)"
| "pw_go H cl me a Pw_awoken s = Some (pw_awake a s)"
| "pw_go H cl me a Pw_relock s = Some (pw_goto Pw_check s)"
| "pw_go H cl me a Pw_check s = Some (pw_check Pw_round s)"
| "pw_go H cl me a Pw_round s = pw_round H cl s"
| "pw_go H cl me a (Pw_wait t) s = Some (pw_wait t s)"
| "pw_go H cl me a (Pw_sleep t) s = Some (pw_goto Pw_head s)"
| "pw_go H cl me a (Pw_leave r) s = Some (pw_leave r s)"
| "pw_go H cl me a pc s = None"

subsection \<open>The pool, the clients and the destructor\<close>

text \<open>An item of the worker is called by a thread of the pool, or destroyed by a \<open>stop\<close>.\<close>

definition pw_item :: "handle \<Rightarrow> ptr \<Rightarrow> 'f pitem \<Rightarrow> bool" where
  "pw_item me a it \<longleftrightarrow> it = Resuming me \<or> it = Awaiting a"

definition pw_called :: "handle \<Rightarrow> nat \<Rightarrow> 'f pitem \<Rightarrow> 'f pool \<Rightarrow> ('f, 'e, 'u) spool \<Rightarrow> ('f, 'e, 'u) spool" where
  "pw_called me i it p s = pw_goto (if it = Resuming me then Pw_register else Pw_awoken) (s\<lparr>pt_pool := p, pt_at := Some i\<rparr>)"

definition pw_dropped :: "handle \<Rightarrow> 'f pitem \<Rightarrow> 'f pool \<Rightarrow> ('f, 'e, 'u) spool \<Rightarrow> ('f, 'e, 'u) spool" where
  "pw_dropped me it p s = pw_goto (if it = Resuming me then Pw_lost else Pw_awoken) (s\<lparr>pt_pool := p\<rparr>)"

text \<open>
  The destructor waits for \<open>_fut\<close> with \<open>wait()\<close>, which throws what the future holds; an
  exception that leaves a destructor terminates the program.
\<close>

fun pdestr_can :: "('f, 'e, 'u) spool \<Rightarrow> destructor_pc \<Rightarrow> bool" where
  "pdestr_can s De_wait \<longleftrightarrow> (case pt_pc s of Pw_done r \<Rightarrow> True | _ \<Rightarrow> False)"
| "pdestr_can s De_done \<longleftrightarrow> False"
| "pdestr_can s d \<longleftrightarrow> True"

fun pdestr_go :: "destructor_pc \<Rightarrow> ('f, 'e, 'u) spool \<Rightarrow> ('f, 'e, 'u) spool option" where
  "pdestr_go De_idle s = Some (s\<lparr>pt_stop := True, pt_destr := De_notify\<rparr>)"
| "pdestr_go De_notify s = Some ((pw_notify (pt_callback s) s)\<lparr>pt_destr := De_wait\<rparr>)"
| "pdestr_go d s = (case pt_pc s of Pw_done None \<Rightarrow> Some (s\<lparr>pt_destr := De_done\<rparr>) | _ \<Rightarrow> None)"

text \<open>The coroutine that awaits a sleep is not the worker.\<close>

fun pcmd_can :: "handle \<Rightarrow> 'e scmd \<Rightarrow> ('f, 'e, 'u) spool \<Rightarrow> bool" where
  "pcmd_can me (Round now) s \<longleftrightarrow> False"
| "pcmd_can me (Await_sleep f a h) s \<longleftrightarrow> h \<noteq> me \<and> scmd_ok (Await_sleep f a h) (pt_sched s)"
| "pcmd_can me c s \<longleftrightarrow> \<not> pw_locked (pt_pc s) \<and> scmd_ok c (pt_sched s)"

text \<open>The items a label of the pool names; the others leave the worker's alone.\<close>

fun named :: "('f, 'e, 'r) label \<Rightarrow> 'f pitem list" where
  "named (L_refuse it evs) = [it]"
| "named l = accepted l @ called l @ dropped l"

definition pool_others :: "handle \<Rightarrow> ptr \<Rightarrow> ('f, unit, unit) label \<Rightarrow> bool" where
  "pool_others me a l \<longleftrightarrow> (\<forall>it \<in> set (named l). \<not> pw_item me a it)"

inductive spool_step ::
    "sch_item heap_ops \<Rightarrow> (unit, 'e, 'u) fworld client_fn \<Rightarrow> handle \<Rightarrow> ptr \<Rightarrow> ('f, 'e, 'u) spool \<Rightarrow>
      ('f, 'e, 'u) spool \<Rightarrow> bool" for H cl me a where
  sw_worker: "pw_can spur s (pt_pc s) \<Longrightarrow> pw_go H cl me a (pt_pc s) s = Some s' \<Longrightarrow> spool_step H cl me a s s'"
| sw_call: "i < length (workers (pt_pool s)) \<Longrightarrow> w_pc (workers (pt_pool s) ! i) = W_run it \<Longrightarrow> pw_item me a it \<Longrightarrow>
    exec_item it (res :: unit exc + unit) (pt_pool s) = Some (evs, p) \<Longrightarrow>
    spool_step H cl me a s (pw_called me i it (set_pc i W_ran p) s)"
| sw_drop: "k < length (stops (pt_pool s)) \<Longrightarrow> st_threads (stops (pt_pool s) ! k) = [] \<Longrightarrow>
    st_items (stops (pt_pool s) ! k) = it # its \<Longrightarrow> pw_item me a it \<Longrightarrow>
    stop_drop k (pt_pool s) = (evs :: ('f, unit, unit) pevent list, p) \<Longrightarrow>
    spool_step H cl me a s (pw_dropped me it p s)"
| sw_pool: "pool_step (pt_pool s) l p \<Longrightarrow> pool_others me a l \<Longrightarrow>
    (\<forall>i. pt_at s = Some i \<longrightarrow> w_pc (workers p ! i) = W_ran) \<Longrightarrow> spool_step H cl me a s (s\<lparr>pt_pool := p\<rparr>)"
| sw_client: "pcmd_can me c s \<Longrightarrow> sexec H cl c (pt_sched s) = Some sd \<Longrightarrow>
    spool_step H cl me a s (pw_notify (cmd_notifies H c (pt_sched s)) (s\<lparr>pt_sched := sd\<rparr>))"
| sw_destr: "pdestr_can s (pt_destr s) \<Longrightarrow> pdestr_go (pt_destr s) s = Some s' \<Longrightarrow> spool_step H cl me a s s'"
| sw_time: "pt_now s \<le> now \<Longrightarrow> spool_step H cl me a s (s\<lparr>pt_now := now\<rparr>)"

text \<open>A pool whose items are of others.\<close>

definition worker_items :: "handle \<Rightarrow> ptr \<Rightarrow> 'f pool \<Rightarrow> nat" where
  "worker_items me a p = count (Thread_Pool.pending p) (Resuming me) + count (Thread_Pool.pending p) (Awaiting a)"

inductive spool_reach ::
    "sch_item heap_ops \<Rightarrow> (unit, 'e, 'u) fworld client_fn \<Rightarrow> handle \<Rightarrow> ptr \<Rightarrow> ('f, 'e, 'u) spool \<Rightarrow> bool" for H cl me a where
  sp_start: "me \<noteq> nullptr \<Longrightarrow> worker_items me a p = 0 \<Longrightarrow>
    spool_reach H cl me a (pool_start me p \<lparr>sitems = [], sst = st, clock = c, slept = []\<rparr>)"
| sp_step: "spool_reach H cl me a s \<Longrightarrow> spool_step H cl me a s s' \<Longrightarrow> spool_reach H cl me a s'"

subsection \<open>The invariant\<close>

text \<open>
  The worker is in one place: either one item of the pool is its, or it runs, in at most one of
  the pool's threads, or it has ended; and it does not sleep past what is scheduled.
\<close>

definition one_place :: "handle \<Rightarrow> ptr \<Rightarrow> ('f, 'e, 'u) spool \<Rightarrow> bool" where
  "one_place me a s \<longleftrightarrow>
     worker_items me a (pt_pool s) = (if pt_pc s = Pw_queued then 1 else 0) \<and>
     (Awaiting a \<in># Thread_Pool.pending (pt_pool s) \<longrightarrow> p_handle (pt_pool s) a = me) \<and>
     (\<forall>i. pt_at s = Some i \<longrightarrow> pw_running (pt_pc s) \<and> i < length (workers (pt_pool s)) \<and>
       w_pc (workers (pt_pool s) ! i) = W_ran)"

definition pt_watching :: "('f, 'e, 'u) spool \<Rightarrow> bool" where
  "pt_watching s \<longleftrightarrow>
     (\<forall>t. pt_pc s = Pw_wait t \<or> pt_pc s = Pw_sleep t \<and> \<not> pt_notified s \<longrightarrow>
       (\<forall>x \<in> set (sitems (pt_sched s)). t \<le> i_tp x))"

definition spool_ok ::
    "sch_item heap_ops \<Rightarrow> (unit, 'e, 'u) fworld client_fn \<Rightarrow> (sch_item list \<Rightarrow> bool) \<Rightarrow> handle \<Rightarrow> ptr \<Rightarrow>
      (ptr \<Rightarrow> ptr list) \<Rightarrow> ('f, 'e, 'u) spool \<Rightarrow> bool" where
  "spool_ok H cl heap me a W s \<longleftrightarrow>
     me \<noteq> nullptr \<and> sched_reach H cl (pt_sched s) \<and> sched_inv heap W (pt_sched s) \<and> me \<notin> waiting W (pt_sched s) \<and>
     clock (pt_sched s) \<le> pt_now s \<and> one_place me a s \<and> pt_watching s \<and> (pt_destr s \<noteq> De_idle \<longrightarrow> pt_stop s)"

lemma spool_okD:
  assumes "spool_ok H cl heap me a W s"
  shows "me \<noteq> 0" "sched_reach H cl (pt_sched s)" "sched_inv heap W (pt_sched s)" "me \<notin> waiting W (pt_sched s)"
    "clock (pt_sched s) \<le> pt_now s" "one_place me a s" "pt_watching s" "pt_destr s \<noteq> De_idle \<Longrightarrow> pt_stop s"
  using assms unfolding spool_ok_def by blast+

lemma pt_simps [simp]:
  "pt_pool (pw_goto pc s) = pt_pool s" "pt_sched (pw_goto pc s) = pt_sched s" "pt_now (pw_goto pc s) = pt_now s"
  "pt_pc (pw_goto pc s) = pc" "pt_at (pw_goto pc s) = pt_at s" "pt_notified (pw_goto pc s) = pt_notified s"
  "pt_stop (pw_goto pc s) = pt_stop s" "pt_callback (pw_goto pc s) = pt_callback s" "pt_destr (pw_goto pc s) = pt_destr s"
  "pt_pool (pw_notify b s) = pt_pool s" "pt_sched (pw_notify b s) = pt_sched s" "pt_now (pw_notify b s) = pt_now s"
  "pt_pc (pw_notify b s) = pt_pc s" "pt_at (pw_notify b s) = pt_at s"
  "pt_notified (pw_notify b s) \<longleftrightarrow> pt_notified s \<or> b" "pt_stop (pw_notify b s) = pt_stop s"
  "pt_callback (pw_notify b s) = pt_callback s" "pt_destr (pw_notify b s) = pt_destr s"
  by (simp_all add: pw_goto_def pw_notify_def)

text \<open>Handing coroutines to the pool.\<close>

lemma resume_spt_simps:
  "p_exit (resume_spt hs p) = p_exit p" "p_handle (resume_spt hs p) = p_handle p" "workers (resume_spt hs p) = workers p"
  by (induction hs p rule: resume_spt.induct; subst resume_spt.simps; simp add: enqueue_def)+

lemma resume_spt_pending:
  "Thread_Pool.pending (resume_spt hs p) = Thread_Pool.pending p + (if p_exit p then {#} else mset (map Resuming hs))"
proof (induction hs p rule: resume_spt.induct)
  case (1 hs p)
  show ?case
  proof (cases "hs = []")
    case False
    then obtain h hs' where "hs = hs' @ [h]" by (cases hs rule: rev_cases) auto
    with 1 [OF False] show ?thesis
      by (subst resume_spt.simps) (simp add: enqueue_def Thread_Pool.pending_def)
  qed (simp add: resume_spt.simps)
qed

lemma worker_items_resume: "me \<notin> set hs \<Longrightarrow> worker_items me a (resume_spt hs p) = worker_items me a p"
  by (auto simp: worker_items_def resume_spt_pending count_eq_zero_iff)

lemma awaiting_resume:
  "Awaiting a \<in># Thread_Pool.pending (resume_spt hs p) \<longleftrightarrow> Awaiting a \<in># Thread_Pool.pending p"
  by (auto simp: resume_spt_pending)

lemma resuming_me: "worker_items me a (resume_spt [me] p) = worker_items me a p + (if p_exit p then 0 else 1)"
  by (simp add: worker_items_def resume_spt_pending)

lemma items_zero:
  "worker_items me a p = 0 \<Longrightarrow> Resuming me \<notin># Thread_Pool.pending p \<and> Awaiting a \<notin># Thread_Pool.pending p"
  by (simp add: worker_items_def not_in_iff)

text \<open>A step of the pool, as far as the worker's items are concerned.\<close>

lemma worker_items_step:
  assumes "pool_step p l p'"
  shows "worker_items me a p' + length (filter (pw_item me a) (called l @ dropped l)) =
    worker_items me a p + length (filter (pw_item me a) (accepted l))"
proof -
  have c: "length (filter (pw_item me a) xs) = count (mset xs) (Resuming me) + count (mset xs) (Awaiting a)" for xs
    by (induction xs) (auto simp: pw_item_def)
  have "count (Thread_Pool.pending p') x + count (mset (called l)) x + count (mset (dropped l)) x =
      count (Thread_Pool.pending p) x + count (mset (accepted l)) x" for x
    using arg_cong [OF pending_step [OF assms], of "\<lambda>M. count M x"] by simp
  from this [of "Resuming me"] this [of "Awaiting a"] show ?thesis by (simp add: worker_items_def c)
qed

lemma pool_workers:
  assumes "pool_step p l p'" and "i < length (workers p)"
  shows "i < length (workers p')"
  using assms
  by (cases rule: pool_step.cases)
    (auto simp: submit_cases pool_await_suspend_def start_worker_def worker_take_def worker_return_def stop_begin_def
      stop_drop_def stop_end_def exec_item_frame Let_def dest: stop_join_cases split: if_splits)

text \<open>Steps of the worker that touch neither the pool nor the schedule.\<close>

lemma ok_goto:
  assumes ok: "spool_ok H cl heap me a W s" and "pw_running (pt_pc s)" "pw_running pc"
    and "\<And>t. pc \<noteq> Pw_wait t" "\<And>t. pc \<noteq> Pw_sleep t"
  shows "spool_ok H cl heap me a W (pw_goto pc s)"
  using assms spool_okD [OF ok] unfolding spool_ok_def one_place_def pt_watching_def by (auto simp: pw_running_def)

lemma ok_suspend:
  assumes ok: "spool_ok H cl heap me a W s" and pc: "pt_pc s = Pw_suspend"
  shows "spool_ok H cl heap me a W (pw_suspend me a s)"
proof -
  note D = spool_okD [OF ok]
  have z: "worker_items me a (pt_pool s) = 0" using D(6) pc by (simp add: one_place_def)
  let ?q = "(pt_pool s)\<lparr>p_handle := (p_handle (pt_pool s))(a := me)\<rparr>"
  have z': "worker_items me a ?q = 0" using z by (simp add: worker_items_def Thread_Pool.pending_def)
  show ?thesis
  proof (cases "p_exit (pt_pool s)")
    case True
    then have "pw_suspend me a s = pw_goto Pw_awoken (s\<lparr>pt_pool := ?q\<rparr>)"
      by (simp add: pw_suspend_def pool_await_suspend_def submit_cases)
    moreover have "one_place me a (pw_goto Pw_awoken (s\<lparr>pt_pool := ?q\<rparr>))"
      using D(6) z' items_zero [OF z'] pc by (auto simp: one_place_def pw_running_def)
    ultimately show ?thesis using D by (simp add: spool_ok_def pt_watching_def)
  next
    case False
    let ?p = "?q\<lparr>p_queue := p_queue (pt_pool s) @ [Awaiting a]\<rparr>"
    have "pw_suspend me a s = pw_goto Pw_queued (s\<lparr>pt_pool := ?p, pt_at := None\<rparr>)"
      using False by (simp add: pw_suspend_def pool_await_suspend_def submit_cases)
    moreover have "worker_items me a ?p = 1" using z by (simp add: worker_items_def Thread_Pool.pending_def)
    then have "one_place me a (pw_goto Pw_queued (s\<lparr>pt_pool := ?p, pt_at := None\<rparr>))" by (simp add: one_place_def)
    ultimately show ?thesis using D by (simp add: spool_ok_def pt_watching_def)
  qed
qed

context sch_heap
begin

lemma ok_round:
  assumes ok: "spool_ok H cl heap me a W s" and pc: "pt_pc s = Pw_round"
  shows "\<exists>s'. pw_round H cl s = Some s' \<and> spool_ok H cl heap me a W s'"
proof -
  let ?sd = "pt_sched s"
  note D = spool_okD [OF ok]
  have h: "heap (sitems ?sd)" using D(3) by (simp add: sched_inv_def)
  obtain sd' where sd': "sexec H cl (Round (pt_now s)) ?sd = Some sd'" "sched_inv heap W sd'"
    using inv_round [OF D(3,5), of cl] by blast
  then obtain hs wt xs st where r: "worker_round H cl (pt_now s) (sitems ?sd) (sst ?sd) = Some (hs, wt, xs, st)"
    and sd: "sd' = ?sd\<lparr>sitems := xs, sst := st, clock := pt_now s\<rparr>" by auto
  have reach: "sched_reach H cl sd'" by (rule sched_step [OF D(2) _ sd'(1)]) (use D(5) in simp)
  note R = round_handles [OF D(3) r]
  have me: "me \<notin> set hs" using R D(4) by blast
  have "waiting W sd' \<subseteq> waiting W ?sd"
    using sexec_sleepers [OF D(3) sd'(1)] D(5) R by (auto simp: waiting_def sd)
  with D(4) have wt': "me \<notin> waiting W sd'" by blast
  have first: "wt = Some t \<Longrightarrow> \<forall>x \<in> set xs. t \<le> i_tp x" for t using round_times [OF h] r by simp
  let ?s = "s\<lparr>pt_sched := sd'\<rparr>"
  show ?thesis
  proof (cases wt)
    case None
    let ?s' = "pw_goto Pw_head (?s\<lparr>pt_pool := resume_spt hs (pt_pool s)\<rparr>)"
    have "pw_round H cl s = Some ?s'" using r sd None by (simp add: pw_round_def Let_def)
    moreover have "one_place me a ?s'"
      using D(6) pc by (auto simp: one_place_def worker_items_resume [OF me] resume_spt_simps awaiting_resume pw_running_def)
    ultimately show ?thesis using D reach sd'(2) wt' by (simp add: spool_ok_def sd pt_watching_def)
  next
    case (Some t)
    let ?pc = "if \<not> any_enqueued (pt_pool s) \<and> can_block \<lparr>active = True, cq = [], world = ()\<rparr> then Pw_wait t else Pw_head"
    have "pw_round H cl s = Some (pw_goto ?pc ?s)" using r sd Some by (simp add: pw_round_def Let_def)
    moreover have "one_place me a (pw_goto ?pc ?s)" using D(6) pc by (auto simp: one_place_def pw_running_def)
    moreover have "pt_watching (pw_goto ?pc ?s)" using first [OF Some] by (simp add: pt_watching_def sd)
    ultimately show ?thesis using D reach sd'(2) wt' by (simp add: spool_ok_def sd)
  qed
qed

lemma ok_worker:
  assumes ok: "spool_ok H cl heap me a W s" and can: "pw_can spur s (pt_pc s)"
  shows "\<exists>s'. pw_go H cl me a (pt_pc s) s = Some s' \<and> spool_ok H cl heap me a W s'"
proof -
  note D = spool_okD [OF ok]
  show ?thesis
  proof (cases "pt_pc s")
    case Pw_register
    have "spool_ok H cl heap me a W (s\<lparr>pt_callback := \<not> pt_stop s\<rparr>)"
      using ok by (simp add: spool_ok_def one_place_def pt_watching_def)
    from ok_goto [OF this, of Pw_enter] Pw_register show ?thesis by (simp add: pw_register_def pw_running_def)
  next
    case Pw_enter
    with ok_goto [OF ok, of Pw_head] show ?thesis by (simp add: pw_running_def)
  next
    case Pw_head
    with ok_goto [OF ok, of "Pw_leave None"] ok_goto [OF ok, of Pw_suspend] show ?thesis
      by (simp add: pw_check_def pw_running_def)
  next
    case Pw_suspend
    with ok_suspend [OF ok] show ?thesis by simp
  next
    case Pw_awoken
    with ok_goto [OF ok, of "Pw_leave (Some e)" for e] ok_goto [OF ok, of Pw_relock] show ?thesis
      by (simp add: pw_awake_def pw_running_def split: sum.split)
  next
    case Pw_relock
    with ok_goto [OF ok, of Pw_check] show ?thesis by (simp add: pw_running_def)
  next
    case Pw_check
    with ok_goto [OF ok, of "Pw_leave None"] ok_goto [OF ok, of Pw_round] show ?thesis
      by (simp add: pw_check_def pw_running_def)
  next
    case Pw_round
    with ok_round [OF ok] show ?thesis by simp
  next
    case (Pw_wait t)
    have "spool_ok H cl heap me a W (pw_wait t s)"
      using D Pw_wait unfolding spool_ok_def one_place_def pt_watching_def pw_wait_def by (simp add: pw_running_def)
    with Pw_wait show ?thesis by simp
  next
    case (Pw_sleep t)
    with ok_goto [OF ok, of Pw_head] show ?thesis by (simp add: pw_running_def)
  next
    case (Pw_leave r)
    have "spool_ok H cl heap me a W (pw_leave r s)"
      using D Pw_leave unfolding spool_ok_def one_place_def pt_watching_def pw_leave_def by simp
    with Pw_leave show ?thesis by simp
  qed (use can in \<open>auto simp: pw_running_def\<close>)
qed

lemma ok_client:
  assumes ok: "spool_ok H cl heap me a W s" and can: "pcmd_can me c s" and sd: "sexec H cl c (pt_sched s) = Some sd"
  shows "\<exists>W'. spool_ok H cl heap me a W' (pw_notify (cmd_notifies H c (pt_sched s)) (s\<lparr>pt_sched := sd\<rparr>))"
proof -
  let ?sd = "pt_sched s" and ?s = "pw_notify (cmd_notifies H c (pt_sched s)) (s\<lparr>pt_sched := sd\<rparr>)"
  note D = spool_okD [OF ok]
  have h: "heap (sitems ?sd)" using D(3) by (simp add: sched_inv_def)
  have sc: "scmd_ok c ?sd" using can by (cases c) simp_all
  have "\<And>now. c \<noteq> Round now" using can by auto
  note T = cmd_times [OF h sd this]
  obtain W' where W': "sched_inv heap W' sd" "waiting W' sd \<subseteq> waiting W ?sd \<union> joins c"
    using sexec_waiting [OF D(3) sc sd] by blast
  have me: "me \<notin> waiting W' sd" using W'(2) D(4) can by (cases c) auto
  have "pt_watching ?s"
  proof (cases "cmd_notifies H c ?sd")
    case True
    then obtain f tp idt where "c = Sleep f tp idt" by (cases c) auto
    with True can show ?thesis by (auto simp: pt_watching_def pw_locked_def)
  next
    case False
    with T D(7) show ?thesis unfolding pt_watching_def by fastforce
  qed
  moreover have "one_place me a ?s" using D(6) by (simp add: one_place_def)
  ultimately show ?thesis using D T W'(1) me sched_step [OF D(2) sc sd] by (auto simp: spool_ok_def)
qed

end

lemma ok_destr:
  assumes ok: "spool_ok H cl heap me a W s" and go: "pdestr_go (pt_destr s) s = Some s'"
  shows "spool_ok H cl heap me a W s'"
proof -
  have "pt_pool s' = pt_pool s" "pt_sched s' = pt_sched s" "pt_now s' = pt_now s" "pt_pc s' = pt_pc s" "pt_at s' = pt_at s"
    "pt_notified s \<longrightarrow> pt_notified s'" "pt_stop s \<or> pt_destr s = De_idle \<longrightarrow> pt_stop s'"
    using go by (cases "pt_destr s"; auto split: pw_pc.splits option.splits)+
  with spool_okD [OF ok] show ?thesis unfolding spool_ok_def one_place_def pt_watching_def by auto
qed

text \<open>Steps of the pool.\<close>

lemma filter_others:
  "pool_others me a l \<Longrightarrow> filter (pw_item me a) (accepted l) = [] \<and> filter (pw_item me a) (called l @ dropped l) = []"
  by (cases l) (auto simp: pool_others_def)

lemma ok_pool:
  assumes ok: "spool_ok H cl heap me a W s" and st: "pool_step (pt_pool s) l p" and ot: "pool_others me a l"
    and at: "\<forall>i. pt_at s = Some i \<longrightarrow> w_pc (workers p ! i) = W_ran"
  shows "spool_ok H cl heap me a W (s\<lparr>pt_pool := p\<rparr>)"
proof -
  note D = spool_okD [OF ok]
  have "worker_items me a p = worker_items me a (pt_pool s)"
    using worker_items_step [OF st, of me a] filter_others [OF ot] by simp
  moreover have "Awaiting a \<in># Thread_Pool.pending (pt_pool s)" if "Awaiting a \<in># Thread_Pool.pending p"
  proof -
    have "Awaiting a \<in># Thread_Pool.pending (pt_pool s) + mset (accepted l)"
      using pending_step [OF st] that by (metis union_iff)
    moreover have "Awaiting a \<notin> set (accepted l)" using ot by (cases l) (auto simp: pool_others_def pw_item_def)
    ultimately show ?thesis by simp
  qed
  moreover have "p_handle p a = p_handle (pt_pool s) a"
    by (rule handle_frame [OF st]) (use ot in \<open>auto simp: pool_others_def pw_item_def\<close>)
  moreover have "i < length (workers p)" if "pt_at s = Some i" for i
    using pool_workers [OF st] D(6) that by (simp add: one_place_def)
  ultimately have "one_place me a (s\<lparr>pt_pool := p\<rparr>)" using D(6) at unfolding one_place_def by auto
  with D show ?thesis by (simp add: spool_ok_def pt_watching_def)
qed

text \<open>The item of the worker leaves the pool: it is called, or destroyed.\<close>

lemma item_leaves:
  assumes ok: "spool_ok H cl heap me a W s" and st: "pool_step (pt_pool s) l p" and it: "pw_item me a it"
    and l: "called l @ dropped l = [it]" "accepted l = []"
  shows "pt_pc s = Pw_queued \<and> worker_items me a p = 0 \<and> pt_at s = None"
proof -
  have o: "one_place me a s" using spool_okD(6) [OF ok] .
  have "worker_items me a p + 1 = worker_items me a (pt_pool s)"
    using worker_items_step [OF st, of me a] l it by simp
  then have q: "pt_pc s = Pw_queued" "worker_items me a p = 0" using o by (auto simp: one_place_def split: if_splits)
  with o show ?thesis by (cases "pt_at s") (auto simp: one_place_def pw_running_def)
qed

lemma ok_moved:
  assumes ok: "spool_ok H cl heap me a W s" and z: "worker_items me a p = 0"
    and pc: "pc = Pw_register \<or> pc = Pw_awoken \<or> pc = Pw_lost \<and> at = None"
    and at: "\<And>i. at = Some i \<Longrightarrow> i < length (workers p) \<and> w_pc (workers p ! i) = W_ran"
  shows "spool_ok H cl heap me a W (pw_goto pc (s\<lparr>pt_pool := p, pt_at := at\<rparr>))"
proof -
  have "one_place me a (pw_goto pc (s\<lparr>pt_pool := p, pt_at := at\<rparr>))"
    using z items_zero [OF z] pc at by (auto simp: one_place_def pw_running_def)
  with spool_okD [OF ok] pc show ?thesis by (auto simp: spool_ok_def pt_watching_def)
qed

lemma ok_call:
  assumes ok: "spool_ok H cl heap me a W s"
    and i: "i < length (workers (pt_pool s))" "w_pc (workers (pt_pool s) ! i) = W_run it" "pw_item me a it"
    and ex: "exec_item it (res :: unit exc + unit) (pt_pool s) = Some (evs, p)"
  shows "spool_ok H cl heap me a W (pw_called me i it (set_pc i W_ran p) s)"
proof -
  have st: "pool_step (pt_pool s) (L_ran it evs) (set_pc i W_ran p)" using exec [OF i(1,2) ex] .
  have z: "worker_items me a (set_pc i W_ran p) = 0" using item_leaves [OF ok st i(3)] by simp
  have "i < length (workers (set_pc i W_ran p)) \<and> w_pc (workers (set_pc i W_ran p) ! i) = W_ran"
    using i(1) exec_item_frame(4) [OF ex] by (simp add: set_pc_def)
  with ok_moved [OF ok z, of _ "Some i"] show ?thesis by (simp add: pw_called_def)
qed

lemma ok_drop:
  assumes ok: "spool_ok H cl heap me a W s"
    and k: "k < length (stops (pt_pool s))" "st_threads (stops (pt_pool s) ! k) = []"
      "st_items (stops (pt_pool s) ! k) = it # its" "pw_item me a it"
    and dr: "stop_drop k (pt_pool s) = (evs :: ('f, unit, unit) pevent list, p)"
  shows "spool_ok H cl heap me a W (pw_dropped me it p (s :: ('f, 'e, 'u) spool))"
proof -
  have "pool_step (pt_pool s) (L_drop (hd (st_items (stops (pt_pool s) ! k))) evs) p"
    by (rule drop [OF k(1,2) _ dr]) (simp add: k(3))
  then have st: "pool_step (pt_pool s) (L_drop it evs) p" by (simp add: k(3))
  note I = item_leaves [OF ok st k(4)]
  then have "s\<lparr>pt_pool := p, pt_at := None\<rparr> = s\<lparr>pt_pool := p\<rparr>" by simp
  with ok_moved [OF ok, of p _ None] I show ?thesis by (auto simp: pw_dropped_def)
qed

context sch_heap
begin

lemma ok_start:
  assumes "me \<noteq> nullptr" and z: "worker_items me a p = 0"
  shows "spool_ok H cl heap me a (\<lambda>_. []) (pool_start me p \<lparr>sitems = [], sst = st, clock = c, slept = []\<rparr>)"
proof -
  have "sched_inv heap (\<lambda>_. []) \<lparr>sitems = [], sst = st, clock = c, slept = []\<rparr>"
    using heap_nil by (simp add: sched_inv_def live_def sleepers_def awaited_def one_each_def)
  moreover have "one_place me a (pool_start me p \<lparr>sitems = [], sst = st, clock = c, slept = []\<rparr>)"
    using z items_zero [OF z] by (auto simp: one_place_def pool_start_def run_async_def resuming_me awaiting_resume)
  ultimately show ?thesis
    using assms(1) by (simp add: spool_ok_def pool_start_def pt_watching_def waiting_def sched_start)
qed

lemma spool_reach_ok: "spool_reach H cl me a s \<Longrightarrow> \<exists>W. spool_ok H cl heap me a W s"
proof (induction rule: spool_reach.induct)
  case (sp_start p st c)
  then show ?case using ok_start by blast
next
  case (sp_step s s')
  then obtain W where ok: "spool_ok H cl heap me a W s" by blast
  from sp_step.hyps(2) show ?case
  proof (cases rule: spool_step.cases)
    case (sw_worker spur)
    with ok_worker [OF ok, of spur] show ?thesis by auto
  next
    case (sw_call i it res evs p)
    with ok_call [OF ok] show ?thesis by blast
  next
    case (sw_drop k it its evs p)
    with ok_drop [OF ok] show ?thesis by blast
  next
    case (sw_pool l p)
    with ok_pool [OF ok] show ?thesis by blast
  next
    case (sw_client c sd)
    with ok_client [OF ok] show ?thesis by blast
  next
    case sw_destr
    with ok_destr [OF ok] show ?thesis by blast
  next
    case (sw_time now)
    with ok show ?thesis by (auto simp: spool_ok_def one_place_def pt_watching_def)
  qed
qed

end

subsection \<open>What a stopped or a busy pool does to the scheduler\<close>

text \<open>
  A pool that was stopped before the scheduler was started destroys the new coroutine's item: the
  coroutine never runs, and the destructor of the scheduler waits for ever.
\<close>

lemma stopped_pool_loses_worker:
  assumes "spool_step H cl me a s s'" and "pt_pc s = Pw_lost" and "worker_items me a (pt_pool s) = 0"
    and "pt_destr s \<noteq> De_done"
  shows "pt_pc s' = Pw_lost \<and> worker_items me a (pt_pool s') = 0 \<and> pt_destr s' \<noteq> De_done"
  using assms(1)
proof (cases rule: spool_step.cases)
  case (sw_call i it res evs p)
  have st: "pool_step (pt_pool s) (L_ran it evs) (set_pc i W_ran p)" using exec [OF sw_call(2,3,5)] .
  have "filter (pw_item me a) [it] = [it]" using sw_call(4) by simp
  with worker_items_step [OF st, of me a] assms(3) show ?thesis by simp
next
  case (sw_drop k it its evs p)
  have "pool_step (pt_pool s) (L_drop (hd (st_items (stops (pt_pool s) ! k))) evs) p"
    by (rule drop [OF sw_drop(2,3) _ sw_drop(6)]) (simp add: sw_drop(4))
  then have st: "pool_step (pt_pool s) (L_drop it evs) p" by (simp add: sw_drop(4))
  have "filter (pw_item me a) [it] = [it]" using sw_drop(5) by simp
  with worker_items_step [OF st, of me a] assms(3) show ?thesis by simp
next
  case (sw_pool l p)
  with worker_items_step [OF sw_pool(2), of me a] filter_others [OF sw_pool(3)] assms show ?thesis by simp
next
  case sw_destr
  then show ?thesis using assms(2-4) by (cases "pt_destr s") auto
qed (use assms in \<open>auto simp: pw_running_def\<close>)

text \<open>
  A pool that is stopped later cancels the worker that waits in it: the worker ends with the
  exception, and the destructor of the scheduler throws it.
\<close>

lemma stopped_pool_ends_worker:
  assumes "p_handle (pt_pool s) a = me" and "me \<noteq> nullptr"
  shows "\<exists>s1 s2. pw_go H cl me a Pw_awoken s = Some s1 \<and> pw_go H cl me a (pt_pc s1) s1 = Some s2 \<and>
    pt_pc s2 = Pw_done (Some Await_canceled) \<and> pdestr_go De_wait s2 = None"
  using assms by (simp add: pw_awake_def pool_await_resume_def pw_leave_def)

text \<open>
  What may happen in a pool whose only thread sleeps in the worker: everything but a wake-up for
  no reason, a new sleep, the end of the scheduler, a stop of the pool, and another thread that
  joins it. Notifications are not excluded.
\<close>

definition spurious :: "('f, 'e, 'u) spool \<Rightarrow> ('f, 'e, 'u) spool \<Rightarrow> bool" where
  "spurious s s' \<longleftrightarrow> (\<exists>t. pt_pc s = Pw_sleep t \<and> pt_pc s' \<noteq> Pw_sleep t \<and> \<not> pt_notified s \<and> pt_now s < t)"

definition patient :: "('f, 'e, 'u) spool \<Rightarrow> ('f, 'e, 'u) spool \<Rightarrow> bool" where
  "patient s s' \<longleftrightarrow>
     \<not> spurious s s' \<and> pt_now s' < tp_max \<and> slept (pt_sched s') = slept (pt_sched s) \<and> pt_destr s' = pt_destr s \<and>
     \<not> p_exit (pt_pool s') \<and> length (workers (pt_pool s')) = length (workers (pt_pool s))"

inductive patient_run ::
    "sch_item heap_ops \<Rightarrow> (unit, 'e, 'u) fworld client_fn \<Rightarrow> handle \<Rightarrow> ptr \<Rightarrow> ('f, 'e, 'u) spool \<Rightarrow>
      ('f, 'e, 'u) spool \<Rightarrow> bool" for H cl me a s where
  pr_start: "patient_run H cl me a s s"
| pr_step: "patient_run H cl me a s s1 \<Longrightarrow> spool_step H cl me a s1 s2 \<Longrightarrow> patient s1 s2 \<Longrightarrow> patient_run H cl me a s s2"

definition blocks_pool :: "('f, 'e, 'u) spool \<Rightarrow> bool" where
  "blocks_pool s \<longleftrightarrow>
     pt_pc s = Pw_sleep tp_max \<and> pt_at s = Some 0 \<and> length (workers (pt_pool s)) = 1 \<and>
     \<not> pt_notified s \<and> pt_now s < tp_max"

lemma no_take:
  assumes "pool_step p l p'" and "\<And>i. i < length (workers p) \<Longrightarrow> w_pc (workers p ! i) \<noteq> W_loop"
  shows "taken l = []"
  using assms(1)
proof (cases rule: pool_step.cases)
  case (take i)
  with assms(2) show ?thesis by auto
qed (auto simp: submitted_def split: prod.splits)

lemma patient_step_blocks:
  assumes ok: "spool_ok H cl heap me a W s" and st: "spool_step H cl me a s s'" and p: "patient s s'"
    and b: "blocks_pool s"
  shows "blocks_pool s' \<and> (\<exists>new. p_queue (pt_pool s') = p_queue (pt_pool s) @ new)"
proof -
  have B: "pt_pc s = Pw_sleep tp_max" "pt_at s = Some 0" "length (workers (pt_pool s)) = 1" "\<not> pt_notified s"
    "pt_now s < tp_max" using b by (simp_all add: blocks_pool_def)
  have P: "pt_now s' < tp_max" "slept (pt_sched s') = slept (pt_sched s)" "pt_destr s' = pt_destr s"
    "\<not> p_exit (pt_pool s')" "length (workers (pt_pool s')) = 1"
    using p B(3) by (simp_all add: patient_def)
  have w: "w_pc (workers (pt_pool s) ! 0) = W_ran" using spool_okD(6) [OF ok] B(2) by (simp add: one_place_def)
  have pc': "pt_pc s' = Pw_sleep tp_max" using p B(1,4,5) by (auto simp: patient_def spurious_def)
  have same: "blocks_pool s'" if "pt_at s' = Some 0" "\<not> pt_notified s'" using that pc' P by (simp add: blocks_pool_def)
  from st show ?thesis
  proof (cases rule: spool_step.cases)
    case (sw_worker spur)
    then have "pt_pc s' = Pw_head" using B(1) by auto
    with pc' show ?thesis by simp
  next
    case (sw_call i it res evs q)
    with B(3) w show ?thesis by simp
  next
    case (sw_drop k it its evs q)
    with pc' show ?thesis by (simp add: pw_dropped_def split: if_splits)
  next
    case (sw_pool l q)
    have i: "items_step (pt_pool s) l q" by (rule items_step [OF sw_pool(2)])
    have "\<forall>its. l \<noteq> L_flush its" using i P(4) sw_pool(1) by (auto simp: items_step_def)
    then have "flushed l = []" by (cases l) auto
    moreover have "taken l = []" by (rule no_take [OF sw_pool(2)]) (use B(3) w in simp)
    ultimately have "p_queue q = p_queue (pt_pool s) @ accepted l" using i by (simp add: items_step_def)
    with same sw_pool(1) B(2,4) show ?thesis by simp
  next
    case (sw_client c sd)
    have "slept sd = slept (pt_sched s)" using P(2) sw_client(1) by simp
    then have "\<not> cmd_notifies H c (pt_sched s)" using sexec_slept(1) [OF sw_client(3)] by (cases c) auto
    with same sw_client(1) B(2,4) show ?thesis by simp
  next
    case sw_destr
    then have "pt_destr s' \<noteq> pt_destr s" by (cases "pt_destr s"; auto split: pw_pc.splits option.splits)
    with P(3) show ?thesis by simp
  next
    case (sw_time now)
    with same B(2,4) show ?thesis by simp
  qed
qed

lemma patient_run_blocks:
  assumes reach: "spool_reach (bin_heap i_tp) cl me a s" and b: "blocks_pool s"
    and run: "patient_run (bin_heap i_tp) cl me a s s'"
  shows "spool_reach (bin_heap i_tp) cl me a s' \<and> blocks_pool s' \<and> (\<exists>new. p_queue (pt_pool s') = p_queue (pt_pool s) @ new)"
  using run
proof induction
  case pr_start
  then show ?case using reach b by simp
next
  case (pr_step s1 s2)
  then obtain W where "spool_ok (bin_heap i_tp) cl (\<lambda>xs. heap_n i_tp xs (length xs)) me a W s1"
    using sch.spool_reach_ok by blast
  from patient_step_blocks [OF this pr_step.hyps(2,3)] pr_step sp_step show ?case by auto
qed

text \<open>How the worker comes to sleep: it looks at the queue of the pool once, and then waits.\<close>

lemma idle_round:
  assumes "sitems (pt_sched s) = []"
  shows "pw_go H cl me a Pw_round s = Some (pw_goto (if any_enqueued (pt_pool s) then Pw_head else Pw_wait tp_max)
    (s\<lparr>pt_sched := (pt_sched s)\<lparr>clock := pt_now s\<rparr>\<rparr>))"
proof -
  have "get_expired_lk H (pt_now s) [] = Some (Next_time tp_max, [])" by (subst get_expired_lk.simps) simp
  with assms show ?thesis by (auto simp: pw_round_def worker_round_def can_block_def)
qed

lemma idle_blocks:
  assumes reach: "spool_reach H cl me a s" and pc: "pt_pc s = Pw_round" "pt_at s = Some 0" "length (workers (pt_pool s)) = 1"
    and idle: "sitems (pt_sched s) = []" "pt_now s < tp_max" "\<not> any_enqueued (pt_pool s)"
  shows "\<exists>s1 s2. pw_go H cl me a Pw_round s = Some s1 \<and> pw_go H cl me a (pt_pc s1) s1 = Some s2 \<and>
    spool_reach H cl me a s2 \<and> blocks_pool s2"
proof -
  let ?s1 = "pw_goto (Pw_wait tp_max) (s\<lparr>pt_sched := (pt_sched s)\<lparr>clock := pt_now s\<rparr>\<rparr>)"
  have 1: "pw_go H cl me a Pw_round s = Some ?s1" using idle_round [OF idle(1), of H cl me a] idle(3) by simp
  have "spool_step H cl me a s ?s1"
    by (rule sw_worker [where spur = False]) (use pc 1 in \<open>simp_all add: pw_running_def\<close>)
  from sp_step [OF reach this] have r1: "spool_reach H cl me a ?s1" .
  have 2: "pw_go H cl me a (pt_pc ?s1) ?s1 = Some (pw_wait tp_max ?s1)" by simp
  have "spool_step H cl me a ?s1 (pw_wait tp_max ?s1)"
    by (rule sw_worker [where spur = False]) (use 2 in \<open>simp_all add: pw_running_def\<close>)
  from sp_step [OF r1 this] have "spool_reach H cl me a (pw_wait tp_max ?s1)" .
  moreover have "blocks_pool (pw_wait tp_max ?s1)" using pc idle(2) by (simp add: blocks_pool_def pw_wait_def)
  ultimately show ?thesis using 1 2 by blast
qed

subsection \<open>Properties\<close>

text \<open>
  C10. A worker in a thread pool is in one place, however the threads are interleaved: while it
  waits, one item of the pool is its, with its handle, and while it runs, none is and at most
  one thread runs it. It never sleeps past what is scheduled, unless a notification is under way.
\<close>

theorem scheduler_pool_one_place:
  assumes "spool_reach (bin_heap i_tp) cl me a s"
  shows "count (Thread_Pool.pending (pt_pool s)) (Resuming me) + count (Thread_Pool.pending (pt_pool s)) (Awaiting a) =
      (if pt_pc s = Pw_queued then 1 else 0) \<and>
    (Awaiting a \<in># Thread_Pool.pending (pt_pool s) \<longrightarrow> p_handle (pt_pool s) a = me) \<and>
    (\<forall>i. pt_at s = Some i \<longrightarrow> pw_running (pt_pc s) \<and> w_pc (workers (pt_pool s) ! i) = W_ran) \<and>
    (\<forall>t x. pt_pc s = Pw_sleep t \<and> \<not> pt_notified s \<and> x \<in># live (sitems (pt_sched s)) \<longrightarrow> t \<le> i_tp x)"
proof -
  obtain W where ok: "spool_ok (bin_heap i_tp) cl (\<lambda>xs. heap_n i_tp xs (length xs)) me a W s"
    using sch.spool_reach_ok [OF assms] by blast
  show ?thesis
    using spool_okD(6,7) [OF ok] by (auto simp: one_place_def worker_items_def pt_watching_def live_iff)
qed

text \<open>A pool of one thread, from the start of the scheduler until its worker sleeps.\<close>

definition one_thread ::
    "nat pitem list \<Rightarrow> handle \<Rightarrow> nat wpc \<Rightarrow> pw_pc \<Rightarrow> nat option \<Rightarrow> bool \<Rightarrow> (nat, unit, unit) spool" where
  "one_thread q h w pc i cb =
     \<lparr>pt_pool = \<lparr>p_queue = q, p_exit = False, p_threads = [0], p_handle = (\<lambda>_. nullptr)(5 := h),
        workers = [\<lparr>w_pc = w, w_current = True\<rparr>], stops = []\<rparr>,
      pt_sched = \<lparr>sitems = [], sst = sleep_store, clock = 0, slept = []\<rparr>, pt_now = 0, pt_pc = pc, pt_at = i,
      pt_notified = False, pt_stop = False, pt_callback = cb, pt_destr = De_idle\<rparr>"

abbreviation (input) demo_step :: "(nat, unit, unit) spool \<Rightarrow> (nat, unit, unit) spool \<Rightarrow> bool" where
  "demo_step \<equiv> spool_step (bin_heap i_tp) no_client 7 5"

lemma demo_take:
  "demo_step (one_thread (it # q) h W_loop pc None cb) (one_thread q h (W_run it) pc None cb)"
proof -
  let ?p = "pt_pool (one_thread (it # q) h W_loop pc None cb)"
  have "pool_step ?p (L_take (hd (p_queue ?p)) :: (nat, unit, unit) label) (pt_pool (one_thread q h (W_run it) pc None cb))"
    by (rule pool_step.take [where i = 0]) (simp_all add: one_thread_def worker_take_def set_pc_def)
  from sw_pool [OF this] show ?thesis by (simp add: one_thread_def pool_others_def)
qed

lemma demo_return:
  "demo_step (one_thread q h W_ran pc None cb) (one_thread q h W_loop pc None cb)"
proof -
  let ?p = "pt_pool (one_thread q h W_ran pc None cb)"
  have "pool_step ?p (L_internal :: (nat, unit, unit) label) (worker_return 0 ?p)"
    by (rule pool_step.return) (simp_all add: one_thread_def)
  moreover have "worker_return 0 ?p = pt_pool (one_thread q h W_loop pc None cb)"
    by (simp add: one_thread_def worker_return_def set_pc_def)
  ultimately have "pool_step ?p (L_internal :: (nat, unit, unit) label) (pt_pool (one_thread q h W_loop pc None cb))" by simp
  from sw_pool [OF this] show ?thesis by (simp add: one_thread_def pool_others_def)
qed

lemma demo_submit:
  assumes "i = None \<or> i = Some 0 \<and> w = W_ran"
  shows "demo_step (one_thread q h w pc i cb) (one_thread (q @ [Calling f]) h w pc i cb)"
proof -
  let ?p = "pt_pool (one_thread q h w pc i cb)" and ?p' = "pt_pool (one_thread (q @ [Calling f]) h w pc i cb)"
  let ?r = "submit (Calling f) ?p :: bool \<times> (nat, unit, unit) pevent list \<times> nat pool"
  have r: "?r = (True, [], ?p')" by (simp add: one_thread_def submit_cases)
  have "pool_step ?p (submitted (Calling f) ?r) (snd (snd ?r))" by (rule pool_step.submit) simp_all
  then have "pool_step ?p (L_accept (Calling f) :: (nat, unit, unit) label) ?p'" by (simp only: r) (simp add: submitted_def)
  from sw_pool [OF this] assms show ?thesis
    by (auto simp: one_thread_def pool_others_def pw_item_def)
qed

lemma demo_call:
  "demo_step (one_thread q h (W_run (Resuming 7)) Pw_queued None cb) (one_thread q h W_ran Pw_register (Some 0) cb)"
  "demo_step (one_thread q h (W_run (Awaiting 5)) Pw_queued None cb) (one_thread q 0 W_ran Pw_awoken (Some 0) cb)"
proof -
  let ?s = "one_thread q h (W_run (Resuming 7)) Pw_queued None cb" and ?t = "one_thread q h (W_run (Awaiting 5)) Pw_queued None cb"
  have "exec_item (Resuming 7) (Inr () :: unit exc + unit) (pt_pool ?s) = Some ([E_resume 7], pt_pool ?s)" by simp
  from sw_call [where s = ?s and i = 0, OF _ _ _ this, of 7 5] have
    "demo_step ?s (pw_called 7 0 (Resuming 7) (set_pc 0 W_ran (pt_pool ?s)) ?s)"
    by (simp add: one_thread_def pw_item_def)
  then show "demo_step ?s (one_thread q h W_ran Pw_register (Some 0) cb)"
    by (simp add: one_thread_def pw_called_def pw_goto_def set_pc_def)
  have "exec_item (Awaiting 5) (Inr () :: unit exc + unit) (pt_pool ?t) =
      Some ([E_resume (p_handle (pt_pool ?t) 5)], (pt_pool ?t)\<lparr>p_handle := (p_handle (pt_pool ?t))(5 := nullptr)\<rparr>)"
    by (simp add: Let_def)
  from sw_call [where s = ?t and i = 0, OF _ _ _ this, of 7 5] have
    "demo_step ?t (pw_called 7 0 (Awaiting 5) (set_pc 0 W_ran ((pt_pool ?t)\<lparr>p_handle := (p_handle (pt_pool ?t))(5 := nullptr)\<rparr>)) ?t)"
    by (simp add: one_thread_def pw_item_def)
  then show "demo_step ?t (one_thread q 0 W_ran Pw_awoken (Some 0) cb)"
    by (simp add: one_thread_def pw_called_def pw_goto_def set_pc_def)
qed

lemma demo_worker:
  assumes "pw_can False (one_thread q h w pc i cb) pc"
    and "pw_go (bin_heap i_tp) no_client 7 5 pc (one_thread q h w pc i cb) = Some s'"
  shows "demo_step (one_thread q h w pc i cb) s'"
  by (rule sw_worker [where spur = False]) (use assms in \<open>simp_all add: one_thread_def\<close>)

lemma demo_reach:
  shows "spool_reach (bin_heap i_tp) no_client 7 5 (one_thread [] 0 W_ran Pw_round (Some 0) True)"
    and "spool_reach (bin_heap i_tp) no_client 7 5 (one_thread [Calling 3] 0 W_ran (Pw_sleep tp_max) (Some 0) True)"
proof -
  let ?R = "spool_reach (bin_heap i_tp) no_client 7 5" and ?o = "Some (0 :: nat)"
  note D = one_thread_def pw_register_def pw_goto_def pw_check_def pw_suspend_def pool_await_suspend_def submit_cases
    pw_awake_def pool_await_resume_def pw_wait_def pw_running_def
  have e: "get_expired_lk (bin_heap i_tp) now [] = Some (Next_time tp_max, [])" for now by (subst get_expired_lk.simps) simp
  have "pool_start 7 (sample_pool 0) \<lparr>sitems = [], sst = sleep_store, clock = 0, slept = []\<rparr> =
      one_thread [Resuming 7] 0 W_loop Pw_queued None False"
    by (simp add: pool_start_def run_async_def one_thread_def sample_pool_def resume_spt.simps enqueue_def)
  moreover have "worker_items 7 5 (sample_pool 0) = 0" by (simp add: worker_items_def)
  ultimately have "?R (one_thread [Resuming 7] 0 W_loop Pw_queued None False)"
    using sp_start [of 7 5 "sample_pool 0" "bin_heap i_tp" no_client sleep_store 0] by simp
  from sp_step [OF this demo_take] have "?R (one_thread [] 0 (W_run (Resuming 7)) Pw_queued None False)" .
  from sp_step [OF this demo_call(1)] have "?R (one_thread [] 0 W_ran Pw_register ?o False)" .
  from sp_step [OF this demo_worker] have "?R (one_thread [] 0 W_ran Pw_enter ?o True)" by (simp add: D)
  from sp_step [OF this demo_worker] have "?R (one_thread [] 0 W_ran Pw_head ?o True)" by (simp add: D)
  from sp_step [OF this demo_worker] have "?R (one_thread [] 0 W_ran Pw_suspend ?o True)" by (simp add: D)
  from sp_step [OF this demo_worker] have "?R (one_thread [Awaiting 5] 7 W_ran Pw_queued None True)" by (simp add: D)
  from sp_step [OF this demo_return] have "?R (one_thread [Awaiting 5] 7 W_loop Pw_queued None True)" .
  from sp_step [OF this demo_take] have "?R (one_thread [] 7 (W_run (Awaiting 5)) Pw_queued None True)" .
  from sp_step [OF this demo_call(2)] have "?R (one_thread [] 0 W_ran Pw_awoken ?o True)" .
  from sp_step [OF this demo_worker] have "?R (one_thread [] 0 W_ran Pw_relock ?o True)" by (simp add: D)
  from sp_step [OF this demo_worker] have "?R (one_thread [] 0 W_ran Pw_check ?o True)" by (simp add: D)
  from sp_step [OF this demo_worker] show round: "?R (one_thread [] 0 W_ran Pw_round ?o True)" by (simp add: D)
  from sp_step [OF round demo_worker] have "?R (one_thread [] 0 W_ran (Pw_wait tp_max) ?o True)"
    by (simp add: D pw_round_def worker_round_def e any_enqueued_def can_block_def)
  from sp_step [OF this demo_worker] have "?R (one_thread [] 0 W_ran (Pw_sleep tp_max) ?o True)" by (simp add: D)
  from sp_step [OF this demo_submit [of ?o]] show "?R (one_thread [Calling 3] 0 W_ran (Pw_sleep tp_max) ?o True)" by simp
qed

theorem scheduler_pool_one_place_witness:
  "count (Thread_Pool.pending (pt_pool (one_thread [Calling 3] 0 W_ran (Pw_sleep tp_max) (Some 0) True))) (Resuming 7) = 0 \<and>
    pw_running (Pw_sleep tp_max)"
  using scheduler_pool_one_place [OF demo_reach(2)] by (auto simp: one_thread_def)

text \<open>
  C40. A scheduler can block its pool. When the only thread of the pool runs the worker and nothing
  is scheduled, the worker looks at the queue of the pool once: if something waits there it goes
  back to suspend itself in the pool, and otherwise it sleeps until \<open>time_point::max()\<close>. From then
  on nothing that is handed to the pool notifies it: unless a sleep is scheduled, the scheduler
  is destroyed, the pool is stopped or gets another thread, or the wait ends for no reason, the
  worker sleeps on and whatever is in the queue stays there for ever.
\<close>

theorem scheduler_pool_starves:
  assumes "spool_reach (bin_heap i_tp) cl me a s" and "pt_pc s = Pw_round" and "pt_at s = Some 0"
    and "length (workers (pt_pool s)) = 1" and "sitems (pt_sched s) = []" and "pt_now s < tp_max"
  shows "if any_enqueued (pt_pool s) then
      \<exists>s1. pw_go (bin_heap i_tp) cl me a Pw_round s = Some s1 \<and> pt_pc s1 = Pw_head \<and> pt_pool s1 = pt_pool s
    else
      \<exists>s1 s2. pw_go (bin_heap i_tp) cl me a Pw_round s = Some s1 \<and> pw_go (bin_heap i_tp) cl me a (pt_pc s1) s1 = Some s2 \<and>
        pt_pc s2 = Pw_sleep tp_max \<and>
        (\<forall>s' s''. patient_run (bin_heap i_tp) cl me a s2 s' \<longrightarrow> patient_run (bin_heap i_tp) cl me a s' s'' \<longrightarrow>
           pt_pc s'' = Pw_sleep tp_max \<and> \<not> pt_notified s'' \<and>
           (\<exists>new. p_queue (pt_pool s'') = p_queue (pt_pool s') @ new))"
proof (cases "any_enqueued (pt_pool s)")
  case True
  with idle_round [OF assms(5), of "bin_heap i_tp" cl me a] show ?thesis by simp
next
  case False
  obtain s1 s2 where s2: "pw_go (bin_heap i_tp) cl me a Pw_round s = Some s1" "pw_go (bin_heap i_tp) cl me a (pt_pc s1) s1 = Some s2"
    "spool_reach (bin_heap i_tp) cl me a s2" "blocks_pool s2"
    using idle_blocks [OF assms False] by blast
  have "pt_pc s'' = Pw_sleep tp_max \<and> \<not> pt_notified s'' \<and> (\<exists>new. p_queue (pt_pool s'') = p_queue (pt_pool s') @ new)"
    if runs: "patient_run (bin_heap i_tp) cl me a s2 s'" "patient_run (bin_heap i_tp) cl me a s' s''" for s' s''
  proof -
    have "spool_reach (bin_heap i_tp) cl me a s'" "blocks_pool s'" using patient_run_blocks [OF s2(3,4) runs(1)] by simp_all
    from patient_run_blocks [OF this runs(2)] show ?thesis by (simp add: blocks_pool_def)
  qed
  with s2 False show ?thesis by (auto simp: blocks_pool_def)
qed

text \<open>A function is handed to the sleeping pool, and then another one: both stay in the queue.\<close>

theorem scheduler_pool_starves_witness:
  "\<exists>s2 s'. pw_go (bin_heap i_tp) no_client 7 5 (Pw_wait tp_max) (one_thread [] 0 W_ran (Pw_wait tp_max) (Some 0) True) = Some s2 \<and>
    patient_run (bin_heap i_tp) no_client 7 5 s2 s' \<and> p_queue (pt_pool s') = [Calling 3, Calling 4] \<and> \<not> pt_notified s'"
proof -
  let ?s = "\<lambda>q. one_thread q 0 W_ran (Pw_sleep tp_max) (Some 0) True" and ?run = "patient_run (bin_heap i_tp) no_client 7 5"
  have p: "patient (?s q) (?s (q @ [Calling f]))" for q f by (simp add: patient_def spurious_def one_thread_def tp_max_def)
  have 1: "?run (?s []) (?s ([] @ [Calling 3]))" by (rule pr_step [OF pr_start demo_submit p]) simp
  have 2: "?run (?s ([] @ [Calling 3])) (?s (([] @ [Calling 3]) @ [Calling 4]))" by (rule pr_step [OF pr_start demo_submit p]) simp
  have 3: "?run (?s []) (?s (([] @ [Calling 3]) @ [Calling 4]))" by (rule pr_step [OF 1 demo_submit p]) simp
  have w: "pw_go (bin_heap i_tp) no_client 7 5 Pw_round (one_thread [] 0 W_ran Pw_round (Some 0) True) =
      Some (one_thread [] 0 W_ran (Pw_wait tp_max) (Some 0) True)"
    by (subst idle_round) (simp_all add: one_thread_def any_enqueued_def pw_goto_def)
  have g: "pw_go (bin_heap i_tp) no_client 7 5 (Pw_wait tp_max) (one_thread [] 0 W_ran (Pw_wait tp_max) (Some 0) True) = Some (?s [])"
    by (simp add: one_thread_def pw_wait_def pw_goto_def)
  have pc: "pt_pc (one_thread [] 0 W_ran (Pw_wait tp_max) (Some 0) True) = Pw_wait tp_max" by (simp add: one_thread_def)
  have "pt_pc (one_thread [] 0 W_ran Pw_round (Some 0) True) = Pw_round" "pt_at (one_thread [] 0 W_ran Pw_round (Some 0) True) = Some 0"
    "length (workers (pt_pool (one_thread [] 0 W_ran Pw_round (Some 0) True))) = 1"
    "sitems (pt_sched (one_thread [] 0 W_ran Pw_round (Some 0) True)) = []" "pt_now (one_thread [] 0 W_ran Pw_round (Some 0) True) < tp_max"
    "\<not> any_enqueued (pt_pool (one_thread [] 0 W_ran Pw_round (Some 0) True))"
    by (simp_all add: one_thread_def tp_max_def any_enqueued_def)
  from scheduler_pool_starves [OF demo_reach(1) this(1-5)] this(6) w g pc 1 2
  have "\<not> pt_notified (?s (([] @ [Calling 3]) @ [Calling 4]))" by (metis option.inject)
  with g 3 show ?thesis by (intro exI [of _ "?s []"] exI [of _ "?s (([] @ [Calling 3]) @ [Calling 4])"]) (simp add: one_thread_def)
qed

end
