(* ===== verification/Publisher.thy ===== *)
theory Publisher
  imports Awaiter "HOL-Library.Monad_Syntax"
begin

section \<open>publisher and subscriber: one stream of values, many readers\<close>

text \<open>
  \<open>publisher.h\<close>. The shared queue keeps the newest values first; \<open>_pos\<close> is the position of
  the next value to come, and every subscriber has a registration with the position of the
  value it read last. Positions, lengths and slots are 64-bit numbers (\<open>std::size_t\<close>), so
  their differences wrap around. The slots of subscribers that left form a free list through
  their \<open>_pos\<close>. What runs under the lock is one step, up to the resumptions of \<open>push_lk\<close> and
  \<open>kick_lk\<close>, which come last; an awaited read is three of them. Reading \<open>_regs\<close> or \<open>_q\<close> out of bounds is \<open>None\<close>.
\<close>

subsection \<open>State\<close>

datatype subscription_type =
    All_values
  | Skip_if_behind
  | Skip_to_recent

record subreg =
  r_pos :: "64 word"
  r_sub :: ptr
  r_awt :: ptr
  r_used :: bool
  r_kicked :: bool

record 'v pqueue =
  max_len :: "64 word"
  min_len :: "64 word"
  regs :: "subreg list"
  next_free :: "64 word"
  p_q :: "'v list"
  p_pos :: "64 word"
  p_closed :: bool


definition pq_default :: "'v pqueue" where
  "pq_default = \<lparr>max_len = - 1, min_len = 1, regs = [], next_free = 0, p_q = [], p_pos = 1, p_closed = False\<rparr>"

definition reg_at :: "nat \<Rightarrow> 'v pqueue \<Rightarrow> subreg option" where
  "reg_at h q = (if h < length (regs q) then Some (regs q ! h) else None)"

definition set_reg :: "nat \<Rightarrow> subreg \<Rightarrow> 'v pqueue \<Rightarrow> 'v pqueue" where
  "set_reg h r q = q\<lparr>regs := (regs q)[h := r]\<rparr>"

subsection \<open>Registration\<close>

definition subscribe_lk :: "ptr \<Rightarrow> 64 word \<Rightarrow> 'v pqueue \<Rightarrow> nat \<times> 'v pqueue" where
  "subscribe_lk sub pos q =
     (if of_nat (length (regs q)) \<le> next_free q then
        (let rs = regs q @ [\<lparr>r_pos = pos, r_sub = sub, r_awt = nullptr, r_used = True, r_kicked = False\<rparr>] in
         (length (regs q), q\<lparr>regs := rs, next_free := of_nat (length rs)\<rparr>))
      else
        (let h = unat (next_free q); l = regs q ! h in
         (h, set_reg h \<lparr>r_pos = pos, r_sub = sub, r_awt = nullptr, r_used = True, r_kicked = False\<rparr>
            (q\<lparr>next_free := r_pos l\<rparr>))))"

definition subscribe_recent :: "ptr \<Rightarrow> 'v pqueue \<Rightarrow> nat \<times> 'v pqueue" where
  "subscribe_recent sub q = subscribe_lk sub (p_pos q - 1) q"

definition subscribe_copy :: "nat \<Rightarrow> ptr \<Rightarrow> 'v pqueue \<Rightarrow> (nat \<times> 'v pqueue) option" where
  "subscribe_copy h sub q = map_option (\<lambda>r. subscribe_lk sub (r_pos r) q) (reg_at h q)"

definition leave_lk :: "nat \<Rightarrow> 'v pqueue \<Rightarrow> 'v pqueue option" where
  "leave_lk h q = do {
     l \<leftarrow> reg_at h q;
     if \<not> r_used l then None
     else Some (set_reg h (l\<lparr>r_pos := next_free q, r_used := False\<rparr>) (q\<lparr>next_free := of_nat h\<rparr>)) }"

definition position :: "nat \<Rightarrow> 'v pqueue \<Rightarrow> 64 word option" where
  "position h q = map_option r_pos (reg_at h q)"

subsection \<open>Reading\<close>

definition q_len :: "'v pqueue \<Rightarrow> 64 word" where
  "q_len q = of_nat (length (p_q q))"

definition advance_lk :: "nat \<Rightarrow> subscription_type \<Rightarrow> 'v pqueue \<Rightarrow> (bool \<times> 'v pqueue) option" where
  "advance_lk h t q = do {
     l \<leftarrow> reg_at h q;
     if r_kicked l then Some (False, q)
     else if r_pos l + 1 = p_pos q \<and> \<not> p_closed q then Some (False, q)
     else Some (True, set_reg h (l\<lparr>r_pos :=
       (case t of
          All_values \<Rightarrow> r_pos l + 1
        | Skip_if_behind \<Rightarrow> max (r_pos l + 1) (p_pos q - q_len q)
        | Skip_to_recent \<Rightarrow> max (r_pos l + 1) (p_pos q - 1))\<rparr>) q) }"

definition advance_suspend_lk :: "nat \<Rightarrow> ptr \<Rightarrow> 'v pqueue \<Rightarrow> (bool \<times> 'v pqueue) option" where
  "advance_suspend_lk h awt q = do {
     l \<leftarrow> reg_at h q;
     if r_kicked l \<or> p_closed q then Some (False, q)
     else
       (let l1 = l\<lparr>r_pos := r_pos l + 1\<rparr> in
        if r_pos l1 = p_pos q then Some (True, set_reg h (l1\<lparr>r_awt := awt\<rparr>) q)
        else Some (False, set_reg h l1 q)) }"

definition q_nth :: "64 word \<Rightarrow> 'v pqueue \<Rightarrow> 'v option" where
  "q_nth i q = (if unat i < length (p_q q) then Some (p_q q ! unat i) else None)"

text \<open>The outer option is undefined behaviour, the inner one the result.\<close>

definition get_value_lk :: "nat \<Rightarrow> subscription_type \<Rightarrow> 'v pqueue \<Rightarrow> 'v option option" where
  "get_value_lk h t q = do {
     l \<leftarrow> reg_at h q;
     if r_kicked l \<or> r_pos l = p_pos q then Some None
     else
       (let relpos = p_pos q - r_pos l - 1 in
        case t of
          All_values \<Rightarrow> if q_len q \<le> relpos then Some None else map_option Some (q_nth relpos q)
        | Skip_if_behind \<Rightarrow> map_option Some (q_nth (if q_len q \<le> relpos then q_len q - 1 else relpos) q)
        | Skip_to_recent \<Rightarrow> map_option Some (q_nth 0 q)) }"

subsection \<open>Publishing\<close>

text \<open>\<open>push_lk\<close> up to the unlock: the awaiters to wake and the trimmed queue.\<close>

definition need_len :: "'v pqueue \<Rightarrow> 64 word" where
  "need_len q = foldl (\<lambda>n r. if r_used r then max n (p_pos q - r_pos r) else n) (min_len q) (regs q)"

definition clear_awt :: "subreg \<Rightarrow> subreg" where
  "clear_awt r = (if r_used r then r\<lparr>r_awt := nullptr\<rparr> else r)"

definition wakeup_buffer :: "subreg list \<Rightarrow> ptr list" where
  "wakeup_buffer rs = map r_awt (filter (\<lambda>r. r_used r \<and> r_awt r \<noteq> nullptr) rs)"

definition push_lk :: "64 word \<Rightarrow> 'v pqueue \<Rightarrow> ptr list \<times> 'v pqueue" where
  "push_lk cnt q =
     (let q1 = q\<lparr>p_pos := p_pos q + cnt\<rparr>;
          len = min (need_len q1) (min (max_len q1) (q_len q1)) in
      (wakeup_buffer (regs q1),
       q1\<lparr>regs := map clear_awt (regs q1), p_q := take (unat len) (p_q q1)\<rparr>))"

text \<open>The resumptions after the unlock; their suspend points are dropped, so they run.\<close>

fun wake_all :: "'w client_fn \<Rightarrow> ptr list \<Rightarrow> 'w aworld \<Rightarrow> handle list \<times> 'w aworld" where
  "wake_all cl [] w = ([], w)"
| "wake_all cl (a # as) w =
     (let (hs, w1) = resume_awaiter cl a w; (hs', w2) = wake_all cl as w1 in (hs @ hs', w2))"



definition close_pq :: "'w client_fn \<Rightarrow> 'v pqueue \<Rightarrow> 'w aworld \<Rightarrow> handle list \<times> 'v pqueue \<times> 'w aworld" where
  "close_pq cl q w =
     (if p_closed q then ([], q, w)
      else
        (let (wk, q1) = push_lk 0 (q\<lparr>p_closed := True\<rparr>); (hs, w1) = wake_all cl wk w in (hs, q1, w1)))"

fun find_sub :: "ptr \<Rightarrow> subreg list \<Rightarrow> nat option" where
  "find_sub sub [] = None"
| "find_sub sub (r # rs) = (if r_used r \<and> r_sub r = sub then Some 0 else map_option Suc (find_sub sub rs))"

definition kick_lk :: "'w client_fn \<Rightarrow> ptr \<Rightarrow> 'v pqueue \<Rightarrow> 'w aworld \<Rightarrow> handle list \<times> 'v pqueue \<times> 'w aworld" where
  "kick_lk cl sub q w =
     (case find_sub sub (regs q) of
        None \<Rightarrow> ([], q, w)
      | Some h \<Rightarrow>
          (let l = regs q ! h; awt = r_awt l;
               q1 = set_reg h (l\<lparr>r_awt := nullptr, r_kicked := True\<rparr>) q;
               (hs, w1) = (if awt \<noteq> nullptr then resume_awaiter cl awt w else ([], w))
           in (hs, q1, w1)))"

subsection \<open>The subscriber\<close>

record 'v subscriber =
  s_h :: nat
  s_t :: subscription_type
  s_val :: "'v option"

definition sub_ready :: "'v subscriber \<Rightarrow> 'v pqueue \<Rightarrow> (bool \<times> 'v pqueue) option" where
  "sub_ready s q = advance_lk (s_h s) (s_t s) q"

definition sub_subscribe :: "ptr \<Rightarrow> 'v subscriber \<Rightarrow> 'v pqueue \<Rightarrow> (bool \<times> 'v pqueue) option" where
  "sub_subscribe awt s q = advance_suspend_lk (s_h s) awt q"

definition check_next :: "'v subscriber \<Rightarrow> 'v pqueue \<Rightarrow> (bool \<times> 'v subscriber) option" where
  "check_next s q = map_option (\<lambda>v. (v \<noteq> None, s\<lparr>s_val := v\<rparr>)) (get_value_lk (s_h s) (s_t s) q)"

definition next_ready :: "'v subscriber \<Rightarrow> 'v pqueue \<Rightarrow> (bool \<times> 'v subscriber \<times> 'v pqueue) option" where
  "next_ready s q = do {
     (ok, q1) \<leftarrow> sub_ready s q;
     if \<not> ok then Some (False, s, q1)
     else do { (b, s1) \<leftarrow> check_next s q1; Some (b, s1, q1) } }"

text \<open>
  \<open>co_await sub.next()\<close> when nothing comes between its steps: \<open>None\<close> as the result means that
  the coroutine is suspended. Each step takes the lock for itself, so in the runs below they are
  steps of their own.
\<close>

definition sub_next :: "ptr \<Rightarrow> 'v subscriber \<Rightarrow> 'v pqueue \<Rightarrow> (bool option \<times> 'v subscriber \<times> 'v pqueue) option" where
  "sub_next awt s q = do {
     (ok, q1) \<leftarrow> sub_ready s q;
     (susp, q2) \<leftarrow> (if ok then Some (False, q1) else sub_subscribe awt s q1);
     if susp then Some (None, s, q2)
     else do { (b, s1) \<leftarrow> check_next s q2; Some (Some b, s1, q2) } }"

text \<open>
  The constructors and the destructor of a subscriber: \<open>this\<close> is the address it is kicked by.
  \<open>kick_me()\<close> and \<open>publisher::kick\<close> look the address up. The operations of the publisher are
  those of its queue; its destructor closes.
\<close>

definition sub_new :: "ptr \<Rightarrow> subscription_type \<Rightarrow> 'v pqueue \<Rightarrow> 'v subscriber \<times> 'v pqueue" where
  "sub_new this t q = (let (h, q1) = subscribe_recent this q in (\<lparr>s_h = h, s_t = t, s_val = None\<rparr>, q1))"


definition sub_copy :: "ptr \<Rightarrow> 'v subscriber \<Rightarrow> 'v pqueue \<Rightarrow> ('v subscriber \<times> 'v pqueue) option" where
  "sub_copy this other q =
     map_option (\<lambda>(h, q1). (\<lparr>s_h = h, s_t = s_t other, s_val = None\<rparr>, q1)) (subscribe_copy (s_h other) this q)"

definition sub_destroy :: "'v subscriber \<Rightarrow> 'v pqueue \<Rightarrow> 'v pqueue option" where
  "sub_destroy s q = leave_lk (s_h s) q"

definition sub_position :: "'v subscriber \<Rightarrow> 'v pqueue \<Rightarrow> 64 word option" where
  "sub_position s q = position (s_h s) q"

definition kick_me :: "'w client_fn \<Rightarrow> ptr \<Rightarrow> 'v pqueue \<Rightarrow> 'w aworld \<Rightarrow> handle list \<times> 'v pqueue \<times> 'w aworld" where
  "kick_me cl this q w = kick_lk cl this q w"





definition publisher_destroy :: "'w client_fn \<Rightarrow> 'v pqueue \<Rightarrow> 'w aworld \<Rightarrow> handle list \<times> 'v pqueue \<times> 'w aworld" where
  "publisher_destroy cl q w = close_pq cl q w"

subsection \<open>Positions\<close>

lemma pos_rel:
  assumes "k \<le> N" and "N + 1 < 2 ^ 64"
  shows "unat (of_nat (N + 1) - of_nat k - 1 :: 64 word) = N - k"
proof -
  have "(of_nat (N + 1) - of_nat k - 1 :: 64 word) = of_nat (N - k)"
    using assms(1) by (simp add: of_nat_diff)
  then have "unat (of_nat (N + 1) - of_nat k - 1 :: 64 word) = unat (of_nat (N - k) :: 64 word)" by (simp only:)
  then show ?thesis using assms by (simp only: unat_of_nat) simp
qed

lemma pos_eq:
  assumes "k < 2 ^ 64" and "N + 1 < 2 ^ 64"
  shows "(of_nat k = (of_nat (N + 1) :: 64 word)) \<longleftrightarrow> k = N + 1"
proof
  assume "of_nat k = (of_nat (N + 1) :: 64 word)"
  then have "unat (of_nat k :: 64 word) = unat (of_nat (N + 1) :: 64 word)" by simp
  then show "k = N + 1" using assms by (simp add: unat_of_nat del: of_nat_Suc of_nat_add)
qed simp

lemma pos_far:
  assumes "N + 1 < k" and "k < 2 ^ 64" and "n \<le> N" and "N + 1 < 2 ^ 64"
  shows "(of_nat n :: 64 word) \<le> of_nat (N + 1) - of_nat k - 1"
proof -
  have "(of_nat (2 ^ 64 + N - k) :: 64 word) = of_nat (2 ^ 64 + N) - of_nat k"
    using assms by (intro of_nat_diff) simp
  also have "\<dots> = of_nat (N + 1) - of_nat k - 1" by simp
  finally have "unat (of_nat (N + 1) - of_nat k - 1 :: 64 word) = unat (of_nat (2 ^ 64 + N - k) :: 64 word)" by simp
  also have "\<dots> = 2 ^ 64 + N - k" using assms by (simp only: unat_of_nat) simp
  finally show ?thesis using assms by (simp add: word_le_nat_alt unat_of_nat)
qed


text \<open>The queue holds the newest \<open>n\<close> of the values published so far, newest first.\<close>

definition stream_ok :: "'v list \<Rightarrow> 'v pqueue \<Rightarrow> bool" where
  "stream_ok xs q \<longleftrightarrow>
     length xs + 1 < 2 ^ 64 \<and> p_pos q = of_nat (length xs + 1) \<and>
     length (p_q q) \<le> length xs \<and> p_q q = take (length (p_q q)) (rev xs)"

lemma q_nth_stream:
  assumes "stream_ok xs q" and "0 < k" and "k \<le> length xs" and "length xs - k < length (p_q q)"
  shows "q_nth (p_pos q - of_nat k - 1) q = Some (xs ! (k - 1))"
proof -
  let ?n = "length (p_q q)" and ?N = "length xs"
  have u: "unat (p_pos q - of_nat k - 1) = ?N - k" using assms pos_rel [of k ?N] by (simp add: stream_ok_def)
  have "p_q q ! (?N - k) = take ?n (rev xs) ! (?N - k)" using assms(1) by (metis stream_ok_def)
  also have "\<dots> = xs ! (k - 1)" using assms(2-4) by (simp add: rev_nth)
  finally show ?thesis using u assms(4) by (simp add: q_nth_def)
qed

lemma get_value_all:
  assumes ok: "stream_ok xs q" and l: "reg_at h q = Some r" "\<not> r_kicked r" and k: "r_pos r = of_nat k" "0 < k" "k < 2 ^ 64"
  shows "get_value_lk h All_values q =
    Some (if k \<le> length xs \<and> length xs - k < length (p_q q) then Some (xs ! (k - 1)) else None)"
proof -
  let ?N = "length xs" and ?n = "length (p_q q)"
  have N: "?N + 1 < 2 ^ 64" "p_pos q = of_nat (?N + 1)" "?n \<le> ?N" using ok by (simp_all add: stream_ok_def)
  have eq: "r_pos r = p_pos q \<longleftrightarrow> k = ?N + 1" using pos_eq [OF k(3) N(1)] k(1) N(2) by simp
  consider "k = ?N + 1" | "?N + 1 < k" | "k \<le> ?N" by linarith
  then show ?thesis
  proof cases
    case 1
    then show ?thesis using eq l by (simp add: get_value_lk_def)
  next
    case 2
    then have "q_len q \<le> p_pos q - r_pos r - 1"
      using pos_far [OF 2 k(3) N(3,1)] N(2) k(1) by (simp add: q_len_def)
    with 2 eq l show ?thesis by (simp add: get_value_lk_def)
  next
    case 3
    have u: "unat (p_pos q - r_pos r - 1) = ?N - k" using pos_rel [OF 3 N(1)] N(2) k(1) by simp
    have n: "unat (q_len q) = ?n" using N by (simp add: q_len_def unat_of_nat)
    have c: "q_len q \<le> p_pos q - r_pos r - 1 \<longleftrightarrow> ?n \<le> ?N - k" by (simp add: word_le_nat_alt u n)
    show ?thesis
    proof (cases "?N - k < ?n")
      case True
      then show ?thesis using q_nth_stream [OF ok k(2) 3 True] c 3 eq l k(1) by (simp add: get_value_lk_def)
    next
      case False
      then show ?thesis using c 3 eq l by (simp add: get_value_lk_def)
    qed
  qed
qed



subsection \<open>The free list\<close>

text \<open>Following \<open>_next_free\<close> one meets the unused slots \<open>fs\<close>, and then the end of the vector.\<close>

fun free_chain :: "subreg list \<Rightarrow> 64 word \<Rightarrow> nat list \<Rightarrow> bool" where
  "free_chain rs nf [] \<longleftrightarrow> nf = of_nat (length rs)"
| "free_chain rs nf (f # fs) \<longleftrightarrow>
     nf = of_nat f \<and> f < length rs \<and> \<not> r_used (rs ! f) \<and> free_chain rs (r_pos (rs ! f)) fs"

lemma free_chain_unused: "free_chain rs nf fs \<Longrightarrow> f \<in> set fs \<Longrightarrow> f < length rs \<and> \<not> r_used (rs ! f)"
  by (induction fs arbitrary: nf) auto

lemma free_chain_upd: "h \<notin> set fs \<Longrightarrow> free_chain (rs[h := r]) nf fs \<longleftrightarrow> free_chain rs nf fs"
  by (induction fs arbitrary: nf) (auto simp: nth_list_update)


definition slots_ok :: "'v pqueue \<Rightarrow> bool" where
  "slots_ok q \<longleftrightarrow> length (regs q) < 2 ^ 64 \<and> (\<exists>fs. distinct fs \<and> free_chain (regs q) (next_free q) fs)"


text \<open>A new subscriber never gets the slot of another one.\<close>

lemma subscribe_lk_ok:
  assumes ok: "slots_ok q" and small: "length (regs q) + 1 < 2 ^ 64" and s: "subscribe_lk sub pos q = (h, q')"
  shows "slots_ok q'" and "\<And>l. reg_at h q = Some l \<Longrightarrow> \<not> r_used l"
    and "reg_at h q' = Some \<lparr>r_pos = pos, r_sub = sub, r_awt = 0, r_used = True, r_kicked = False\<rparr>"
    and "\<And>g. g \<noteq> h \<Longrightarrow> reg_at g q' = reg_at g q"
    and "p_q q' = p_q q" "p_pos q' = p_pos q" "p_closed q' = p_closed q" "max_len q' = max_len q"
proof -
  let ?r = "\<lparr>r_pos = pos, r_sub = sub, r_awt = 0, r_used = True, r_kicked = False\<rparr>"
  obtain fs where fs: "distinct fs" "free_chain (regs q) (next_free q) fs" using ok by (auto simp: slots_ok_def)
  have "slots_ok q' \<and> (\<forall>l. reg_at h q = Some l \<longrightarrow> \<not> r_used l) \<and> reg_at h q' = Some ?r \<and>
      (\<forall>g. g \<noteq> h \<longrightarrow> reg_at g q' = reg_at g q) \<and> p_q q' = p_q q \<and> p_pos q' = p_pos q \<and>
      p_closed q' = p_closed q \<and> max_len q' = max_len q"
  proof (cases fs)
    case Nil
    then have "next_free q = of_nat (length (regs q))" using fs by simp
    then have "h = length (regs q)"
      "q' = q\<lparr>regs := regs q @ [?r], next_free := of_nat (length (regs q @ [?r]))\<rparr>"
      using s by (auto simp: subscribe_lk_def Let_def)
    then show ?thesis using small
      by (auto simp: slots_ok_def reg_at_def nth_append simp del: of_nat_Suc intro!: exI [of _ "[]"])
  next
    case (Cons f fs')
    then have f: "next_free q = of_nat f" "f < length (regs q)" "\<not> r_used (regs q ! f)"
      "free_chain (regs q) (r_pos (regs q ! f)) fs'" "f \<notin> set fs'" "distinct fs'"
      using fs by simp_all
    have u: "unat (next_free q) = f" using f(1,2) small by (simp add: unat_of_nat)
    then have "\<not> of_nat (length (regs q)) \<le> next_free q"
      using f(2) small by (simp add: word_le_nat_alt unat_of_nat)
    then have h: "h = f" "q' = set_reg f ?r (q\<lparr>next_free := r_pos (regs q ! f)\<rparr>)"
      using s u by (auto simp: subscribe_lk_def Let_def)
    have "slots_ok q'" using h(2) f ok by (auto simp: slots_ok_def set_reg_def free_chain_upd)
    then show ?thesis using h f by (auto simp: reg_at_def set_reg_def)
  qed
  then show "slots_ok q'" "\<And>l. reg_at h q = Some l \<Longrightarrow> \<not> r_used l"
    "reg_at h q' = Some \<lparr>r_pos = pos, r_sub = sub, r_awt = 0, r_used = True, r_kicked = False\<rparr>"
    "\<And>g. g \<noteq> h \<Longrightarrow> reg_at g q' = reg_at g q"
    "p_q q' = p_q q" "p_pos q' = p_pos q" "p_closed q' = p_closed q" "max_len q' = max_len q" by blast+
qed

lemma leave_lk_ok:
  assumes ok: "slots_ok q" and h: "reg_at h q = Some l" "r_used l" and q': "leave_lk h q = Some q'"
  shows "slots_ok q'" and "\<And>l. reg_at h q' = Some l \<Longrightarrow> \<not> r_used l" and "\<And>g. g \<noteq> h \<Longrightarrow> reg_at g q' = reg_at g q"
    and "p_q q' = p_q q" "p_pos q' = p_pos q" "p_closed q' = p_closed q" "max_len q' = max_len q"
proof -
  obtain fs where fs: "distinct fs" "free_chain (regs q) (next_free q) fs" using ok by (auto simp: slots_ok_def)
  have hn: "h < length (regs q)" "h \<notin> set fs"
    using free_chain_unused [OF fs(2)] h by (auto simp: reg_at_def split: if_splits)
  let ?r = "l\<lparr>r_pos := next_free q, r_used := False\<rparr>"
  have q: "q' = set_reg h ?r (q\<lparr>next_free := of_nat h\<rparr>)" using q' h by (simp add: leave_lk_def)
  have "free_chain ((regs q)[h := ?r]) (of_nat h) (h # fs)" using fs(2) hn by (simp add: free_chain_upd)
  then show "slots_ok q'" using ok fs(1) hn q by (auto simp: slots_ok_def set_reg_def intro!: exI [of _ "h # fs"])
  show "\<And>l. reg_at h q' = Some l \<Longrightarrow> \<not> r_used l" "\<And>g. g \<noteq> h \<Longrightarrow> reg_at g q' = reg_at g q"
    "p_q q' = p_q q" "p_pos q' = p_pos q" "p_closed q' = p_closed q" "max_len q' = max_len q"
    using q hn by (auto simp: reg_at_def set_reg_def)
qed


subsection \<open>Runs of a publisher with many subscribers\<close>













text \<open>
  How far a subscriber of all values has come, by its registration \<open>r\<close>: it has read the values
  from \<open>st\<close> up to \<open>k\<close>, with one of them twice if the closing raced with it.
\<close>

definition progress :: "'v list \<Rightarrow> bool \<Rightarrow> nat \<Rightarrow> 'v list \<Rightarrow> nat \<Rightarrow> bool" where
  "progress xs rc st gt k \<longleftrightarrow>
     gt = take (k - st) (drop st xs) \<or>
     rc \<and> (\<exists>i. st \<le> i \<and> 0 < i \<and> i \<le> length xs \<and> i \<le> k \<and>
       gt = take (i - st) (drop st xs) @ xs ! (i - 1) # take (k - i) (drop i xs))"





lemma progress_False [simp]: "progress xs False st gt k \<longleftrightarrow> gt = take (k - st) (drop st xs)"
  by (simp add: progress_def)












lemma reg_at_set [simp]: "reg_at h q = Some l \<Longrightarrow> reg_at g (set_reg h r q) = (if g = h then Some r else reg_at g q)"
  by (auto simp: reg_at_def set_reg_def split: if_splits)

lemma set_reg_simps [simp]:
  "p_q (set_reg h r q) = p_q q" "p_pos (set_reg h r q) = p_pos q" "p_closed (set_reg h r q) = p_closed q"
  "max_len (set_reg h r q) = max_len q" "q_len (set_reg h r q) = q_len q"
  by (simp_all add: set_reg_def q_len_def)

lemma stream_ok_set [simp]: "stream_ok xs (set_reg h r q) = stream_ok xs q"
  by (simp add: stream_ok_def)














lemma pos_Suc: "x \<noteq> - 1 \<Longrightarrow> unat (x + 1) = Suc (unat (x :: 64 word))"
  using unatSuc [of x] by (metis add.commute eq_neg_iff_add_eq_0)

lemma unat_64: "unat (x :: 64 word) < 2 ^ 64"
  using unsigned_less [of x] by simp

lemma sub_next_all:
  assumes ok: "stream_ok xs q" and l: "reg_at h q = Some l" "\<not> r_kicked l" and pos: "r_pos l \<noteq> - 1"
    and st: "unat (r_pos l) \<le> length xs \<or> p_closed q" and n: "length xs - unat (r_pos l) \<le> length (p_q q)"
  defines "k \<equiv> unat (r_pos l)" and "sub \<equiv> \<lparr>s_h = h, s_t = All_values, s_val = None\<rparr>"
  shows "sub_next awt sub q =
    (if k = length xs \<and> \<not> p_closed q
     then Some (None, sub, set_reg h (l\<lparr>r_pos := r_pos l + 1, r_awt := awt\<rparr>) q)
     else (let v = (if k < length xs then Some (xs ! k) else None) in
       Some (Some (v \<noteq> None), sub\<lparr>s_val := v\<rparr>, set_reg h (l\<lparr>r_pos := r_pos l + 1\<rparr>) q)))"
proof -
  let ?N = "length xs"
  have k1: "unat (r_pos l + 1) = Suc k" using pos_Suc [OF pos] by (simp add: k_def)
  then have kb: "Suc k < 2 ^ 64" using unat_64 [of "r_pos l + 1"] by simp
  have rp: "r_pos l + 1 = of_nat (Suc k)" unfolding k1 [symmetric] by simp
  have N: "?N + 1 < 2 ^ 64" "p_pos q = of_nat (?N + 1)" using ok by (simp_all add: stream_ok_def)
  have eq: "r_pos l + 1 = p_pos q \<longleftrightarrow> k = ?N" using pos_eq [OF kb N(1)] rp N(2) by simp
  show ?thesis
  proof (cases "k = ?N \<and> \<not> p_closed q")
    case True
    then show ?thesis using l eq
      by (simp add: sub_next_def sub_ready_def sub_subscribe_def advance_lk_def advance_suspend_lk_def sub_def)
  next
    case False
    let ?q = "set_reg h (l\<lparr>r_pos := r_pos l + 1\<rparr>) q"
    have "advance_lk h All_values q = Some (True, ?q)" using False l eq by (auto simp: advance_lk_def)
    moreover have "get_value_lk h All_values ?q =
        Some (if Suc k \<le> ?N \<and> ?N - Suc k < length (p_q ?q) then Some (xs ! (Suc k - 1)) else None)"
      by (rule get_value_all [where r = "l\<lparr>r_pos := r_pos l + 1\<rparr>"]) (use ok l rp kb in simp_all)
    moreover have "Suc k \<le> ?N \<Longrightarrow> ?N - Suc k < length (p_q q)" using n by (simp add: k_def)
    ultimately show ?thesis using False
      by (auto simp: sub_next_def sub_ready_def check_next_def sub_def Let_def)
  qed
qed















subsection \<open>Properties\<close>










text \<open>
  A read never fails to see what is there: a subscriber of all values that is behind gets
  the next value at once, one that is up to date is suspended, and after \<open>close()\<close> it is told
  the end. (With a limit on the queue the premise on its length fails for those left behind.)
\<close>

theorem publisher_next_value:
  assumes "stream_ok xs q" and "reg_at h q = Some l" and "\<not> r_kicked l" and "r_pos l \<noteq> - 1"
    and "unat (r_pos l) \<le> length xs" and "length xs - unat (r_pos l) \<le> length (p_q q)"
  shows "map_option (\<lambda>(r, sub, q'). (r, s_val sub, position h q'))
      (sub_next awt \<lparr>s_h = h, s_t = All_values, s_val = None\<rparr> q) =
    Some (let k = unat (r_pos l) in
      if k < length xs then (Some True, Some (xs ! k), Some (r_pos l + 1))
      else if p_closed q then (Some False, None, Some (r_pos l + 1))
      else (None, None, Some (r_pos l + 1)))"
proof -
  have "position h (set_reg h r q) = Some (r_pos r)" for r using assms(2) by (simp add: position_def)
  then show ?thesis using sub_next_all [OF assms(1-4) disjI1 [OF assms(5)] assms(6), of awt] assms(5)
    by (auto simp: Let_def)
qed

theorem publisher_next_value_witness:
  "map_option (\<lambda>(r, sub, q'). (r, s_val sub, position 0 q'))
     (sub_next 9 \<lparr>s_h = 0, s_t = All_values, s_val = None\<rparr>
       (pq_default\<lparr>regs := [\<lparr>r_pos = 1, r_sub = 7, r_awt = 0, r_used = True, r_kicked = False\<rparr>], next_free := 1,
         p_q := [30, 20 :: nat], p_pos := 4\<rparr>)) = Some (Some True, Some 20, Some 2)"
  using publisher_next_value [of "[10, 20, 30]" "pq_default\<lparr>regs := [\<lparr>r_pos = 1, r_sub = 7, r_awt = 0,
      r_used = True, r_kicked = False\<rparr>], next_free := 1, p_q := [30, 20 :: nat], p_pos := 4\<rparr>" 0
      "\<lparr>r_pos = 1, r_sub = 7, r_awt = 0, r_used = True, r_kicked = False\<rparr>" 9]
  by (simp add: stream_ok_def pq_default_def reg_at_def)

text \<open>
  Closing between the two steps of an awaited read delivers the last value twice: the
  subscriber that has read it finds nothing new (\<open>advance\<close>), the publisher closes, and
  \<open>advance_suspend\<close> refuses without moving the position, so \<open>check_next\<close> yields the value
  that was read before instead of the end.
\<close>

theorem publisher_close_repeats:
  assumes "stream_ok (xs @ [v]) q" and "\<not> p_closed q" and "p_q q = v # ys"
    and "reg_at h q = Some l" and "\<not> r_kicked l" and "unat (r_pos l) = length (xs @ [v])"
  shows "advance_lk h All_values q = Some (False, q) \<and>
    advance_suspend_lk h awt (q\<lparr>p_closed := True\<rparr>) = Some (False, q\<lparr>p_closed := True\<rparr>) \<and>
    get_value_lk h All_values (q\<lparr>p_closed := True\<rparr>) = Some (Some v)"
proof -
  let ?q = "q\<lparr>p_closed := True\<rparr>" and ?xs = "xs @ [v]"
  have rp: "r_pos l = of_nat (length ?xs)" using assms(6) by (metis of_nat_unat ucast_id)
  have N: "length ?xs + 1 < 2 ^ 64" "p_pos q = of_nat (length ?xs + 1)" using assms(1) by (simp_all add: stream_ok_def)
  have l': "reg_at h ?q = Some l" using assms(4) by (auto simp: reg_at_def split: if_splits)
  have "stream_ok ?xs ?q" using assms(1) by (simp add: stream_ok_def)
  then have "get_value_lk h All_values ?q = Some (Some v)"
    using get_value_all [of ?xs ?q h l "length ?xs"] l' assms(3,5) rp N(1) by simp
  moreover have "advance_lk h All_values q = Some (False, q)"
    using assms(2,4,5) rp N(2) by (simp add: advance_lk_def)
  moreover have "advance_suspend_lk h awt ?q = Some (False, ?q)"
    using l' by (simp add: advance_suspend_lk_def)
  ultimately show ?thesis by simp
qed

theorem publisher_close_repeats_witness:
  "get_value_lk 0 All_values (pq_default\<lparr>regs := [\<lparr>r_pos = 2, r_sub = 7, r_awt = 0, r_used = True, r_kicked = False\<rparr>],
     next_free := 1, p_q := [20, 10 :: nat], p_pos := 3, p_closed := True\<rparr>) = Some (Some 20)"
  using publisher_close_repeats [of "[10]" 20 "pq_default\<lparr>regs := [\<lparr>r_pos = 2, r_sub = 7, r_awt = 0, r_used = True,
      r_kicked = False\<rparr>], next_free := 1, p_q := [20, 10 :: nat], p_pos := 3\<rparr>" "[10]" 0
      "\<lparr>r_pos = 2, r_sub = 7, r_awt = 0, r_used = True, r_kicked = False\<rparr>" 9]
  by (simp add: stream_ok_def pq_default_def reg_at_def)

text \<open>
  The copy of a subscriber that is suspended in \<open>next()\<close> starts at the position the source
  waits for, one behind the end, and is told the end of a stream that is still open.
\<close>

lemma copy_of_waiting_ends:
  assumes ok: "stream_ok xs q" "slots_ok q" and small: "length (regs q) + 1 < 2 ^ 64" "length xs + 2 < 2 ^ 64"
    and l: "reg_at h q = Some l" "r_pos l = p_pos q" and q1: "sub_copy this \<lparr>s_h = h, s_t = All_values, s_val = v\<rparr> q = Some (x, q1)"
  shows "\<exists>x' q'. sub_next awt x q1 = Some (Some False, x', q')"
proof -
  obtain g where g: "subscribe_lk this (p_pos q) q = (g, q1)" "x = \<lparr>s_h = g, s_t = All_values, s_val = None\<rparr>"
    using q1 l by (auto simp: sub_copy_def subscribe_copy_def split: prod.splits)
  note S = subscribe_lk_ok [OF ok(2) small(1) g(1)]
  let ?r = "\<lparr>r_pos = p_pos q + 1, r_sub = this, r_awt = 0, r_used = True, r_kicked = False\<rparr>"
  have st: "stream_ok xs q1" using ok(1) S(5,6) by (simp add: stream_ok_def)
  have "advance_lk g All_values q1 = Some (True, set_reg g ?r q1)" using S(3,6) by (simp add: advance_lk_def)
  moreover have "get_value_lk g All_values (set_reg g ?r q1) =
      Some (if length xs + 2 \<le> length xs \<and> length xs - (length xs + 2) < length (p_q (set_reg g ?r q1))
        then Some (xs ! (length xs + 2 - 1)) else None)"
    by (rule get_value_all [where r = ?r]) (use st ok(1) S(3) small(2) in \<open>simp_all add: stream_ok_def\<close>)
  ultimately show ?thesis by (simp add: g(2) sub_next_def sub_ready_def check_next_def)
qed

text \<open>
  C23. Subscribing and unsubscribing cancel out: the registration is the one of nobody else,
  the destructor gives it back without touching the others, and the next subscriber gets it
  again, so the registrations never outgrow the subscribers that exist at one time.
\<close>

theorem subscription_roundtrip:
  assumes "slots_ok q" and "length (regs q) + 1 < 2 ^ 64" and "sub_new this t q = (s, q1)"
  shows "\<exists>q2. sub_destroy s q1 = Some q2 \<and> (\<forall>g. g \<noteq> s_h s \<longrightarrow> reg_at g q2 = reg_at g q) \<and> slots_ok q2 \<and>
    s_h (fst (sub_new this' t' q2)) = s_h s"
proof -
  obtain h where h: "subscribe_lk this (p_pos q - 1) q = (h, q1)" "s = \<lparr>s_h = h, s_t = t, s_val = None\<rparr>"
    using assms(3) by (auto simp: sub_new_def subscribe_recent_def split: prod.splits)
  note S = subscribe_lk_ok [OF assms(1,2) h(1)]
  let ?r = "\<lparr>r_pos = p_pos q - 1, r_sub = this, r_awt = 0, r_used = True, r_kicked = False\<rparr>"
  let ?q2 = "set_reg h (?r\<lparr>r_pos := next_free q1, r_used := False\<rparr>) (q1\<lparr>next_free := of_nat h\<rparr>)"
  have q2: "leave_lk h q1 = Some ?q2" using S(3) by (simp add: leave_lk_def)
  note L = leave_lk_ok [OF S(1) S(3) _ q2]
  have "h < length (regs q1)" "length (regs q1) < 2 ^ 64"
    using S(1,3) by (auto simp: reg_at_def slots_ok_def split: if_splits)
  then have "\<not> of_nat (length (regs q1)) \<le> (of_nat h :: 64 word)" "unat (of_nat h :: 64 word) = h"
    by (simp_all add: word_le_nat_alt unat_of_nat)
  then have "s_h (fst (sub_new this' t' ?q2)) = h"
    by (simp add: sub_new_def subscribe_recent_def subscribe_lk_def Let_def set_reg_def)
  moreover have "\<forall>g. g \<noteq> h \<longrightarrow> reg_at g ?q2 = reg_at g q" using L(3) S(4) by simp
  ultimately show ?thesis using q2 L(1) h(2) by (simp add: sub_destroy_def)
qed

theorem subscription_roundtrip_witness:
  "\<exists>q2. sub_destroy (fst (sub_new 7 All_values (pq_default :: nat pqueue))) (snd (sub_new 7 All_values pq_default)) = Some q2 \<and>
     s_h (fst (sub_new 9 Skip_to_recent q2)) = 0"
proof -
  have "slots_ok (pq_default :: nat pqueue)"
    by (auto simp: slots_ok_def pq_default_def intro!: exI [of _ "[]"])
  moreover have "s_h (fst (sub_new 7 All_values (pq_default :: nat pqueue))) = 0"
    by (simp add: sub_new_def subscribe_recent_def subscribe_lk_def pq_default_def)
  ultimately show ?thesis
    using subscription_roundtrip [of "pq_default :: nat pqueue" 7 All_values _ _ 9 Skip_to_recent, OF _ _ surjective_pairing]
    by (auto simp: pq_default_def)
qed

end
