(* ===== verification/Signal.thy ===== *)
theory Signal
  imports Awaiter "HOL-Library.Monad_Syntax"
begin

section \<open>signal: awaiters that are woken again and again\<close>

text \<open>
  \<open>signal.h\<close>. The shared state of a signal has the chain of the awaiters and a pointer to the
  current value, which lives in the state or with the caller. Collectors own the state,
  emitters refer to it weakly: the state of a signal has no entry any more once its last
  collector is gone, and locking the weak pointer fails from then on. An emitter and a
  connected callback are awaiters; \<open>weak\<close> is the \<open>_wk_state\<close> of each. The chain and the
  values are members of the client part of the awaiters' world, since callbacks subscribe
  themselves again while they are resumed.
\<close>

subsection \<open>State\<close>

datatype cur_val =
    No_value
  | In_storage
  | External ptr

record 'v sigstate =
  s_chain :: ptr
  s_cur :: cur_val
  s_store :: "'v option"

text \<open>
  \<open>crashed\<close> stands for \<open>std::terminate\<close> and violated assertions inside a callback, and
  \<open>callbacks\<close> for the objects that \<open>connect\<close> has allocated.
\<close>

record ('v, 'u) sigworld =
  sigs :: "ptr \<rightharpoonup> 'v sigstate"
  weak :: "ptr \<Rightarrow> ptr"
  callbacks :: "ptr set"
  crashed :: bool
  suser :: 'u

type_synonym ('v, 'u) sigstore = "('v, 'u) sigworld aworld"

datatype 'v sigref =
    Stored 'v
  | Outside ptr

definition sig_at :: "ptr \<Rightarrow> ('v, 'u) sigstore \<Rightarrow> 'v sigstate option" where
  "sig_at p s = sigs (client s) p"

definition upd_sig :: "ptr \<Rightarrow> 'v sigstate option \<Rightarrow> ('v, 'u) sigstore \<Rightarrow> ('v, 'u) sigstore" where
  "upd_sig p x s = s\<lparr>client := (client s)\<lparr>sigs := (sigs (client s))(p := x)\<rparr>\<rparr>"

definition crash :: "('v, 'u) sigstore \<Rightarrow> ('v, 'u) sigstore" where
  "crash s = s\<lparr>client := (client s)\<lparr>crashed := True\<rparr>\<rparr>"

definition sig_new :: "ptr \<Rightarrow> ('v, 'u) sigstore \<Rightarrow> ('v, 'u) sigstore" where
  "sig_new p s = upd_sig p (Some \<lparr>s_chain = nullptr, s_cur = No_value, s_store = None\<rparr>) s"

subsection \<open>Emitters\<close>

text \<open>\<open>subscribe(s->_chain)\<close> of the awaiter \<open>a\<close> on the signal \<open>p\<close>.\<close>

definition sig_subscribe :: "bool list \<Rightarrow> ptr \<Rightarrow> ptr \<Rightarrow> 'v sigstate \<Rightarrow> ('v, 'u) sigstore \<Rightarrow> ('v, 'u) sigstore option" where
  "sig_subscribe sf a p st s = do {
     (chain, s1) \<leftarrow> subscribe sf a (s_chain st) s;
     Some (upd_sig p (Some (st\<lparr>s_chain := chain\<rparr>)) s1) }"

definition emitter_init :: "ptr \<Rightarrow> ptr \<Rightarrow> ('v, 'u) sigstore \<Rightarrow> ('v, 'u) sigstore" where
  "emitter_init a p s =
     set_next a nullptr (s\<lparr>client := (client s)\<lparr>weak := (weak (client s))(a := p)\<rparr>\<rparr>)"

definition emitter_ready :: bool where
  "emitter_ready = False"

definition emitter_suspend ::
    "bool list \<Rightarrow> ptr \<Rightarrow> handle \<Rightarrow> ('v, 'u) sigstore \<Rightarrow> (bool \<times> ('v, 'u) sigstore) option" where
  "emitter_suspend sf a h s =
     (let p = weak (client s) a in
      case sig_at p s of
        Some st \<Rightarrow> map_option (Pair True) (sig_subscribe sf a p st (set_handle a h s))
      | None \<Rightarrow> Some (False, s))"

text \<open>\<open>await_resume\<close>: the current value, or an exception when there is none (any more).\<close>

definition emitter_resume :: "ptr \<Rightarrow> ('v, 'u) sigstore \<Rightarrow> unit exc + 'v sigref" where
  "emitter_resume a s =
     (case sig_at (weak (client s) a) s of
        None \<Rightarrow> Inl Await_canceled
      | Some st \<Rightarrow>
          (case s_cur st of
             No_value \<Rightarrow> Inl Await_canceled
           | In_storage \<Rightarrow> (case s_store st of None \<Rightarrow> Inl Await_canceled | Some v \<Rightarrow> Inr (Stored v))
           | External q \<Rightarrow> Inr (Outside q)))"

subsection \<open>Collectors\<close>

definition notify_awaiters ::
    "('v, 'u) sigworld client_fn \<Rightarrow> ptr \<Rightarrow> ('v, 'u) sigstore \<Rightarrow> (handle list \<times> ('v, 'u) sigstore) option" where
  "notify_awaiters cl p s = do {
     st \<leftarrow> sig_at p s;
     resume_chain_lk cl (s_chain st) (upd_sig p (Some (st\<lparr>s_chain := nullptr\<rparr>)) s) }"

definition collect_value ::
    "('v, 'u) sigworld client_fn \<Rightarrow> ptr \<Rightarrow> 'v \<Rightarrow> ('v, 'u) sigstore \<Rightarrow> (handle list \<times> ('v, 'u) sigstore) option" where
  "collect_value cl p v s = do {
     st \<leftarrow> sig_at p s;
     notify_awaiters cl p (upd_sig p (Some (st\<lparr>s_store := Some v, s_cur := In_storage\<rparr>)) s) }"

definition collect_ref ::
    "('v, 'u) sigworld client_fn \<Rightarrow> ptr \<Rightarrow> ptr \<Rightarrow> ('v, 'u) sigstore \<Rightarrow> (handle list \<times> ('v, 'u) sigstore) option" where
  "collect_ref cl p q s = do {
     st \<leftarrow> sig_at p s;
     notify_awaiters cl p (upd_sig p (Some (st\<lparr>s_cur := External q\<rparr>)) s) }"

text \<open>The destructor of the state, when the last collector goes: it is not to be locked any more.\<close>

definition sig_destroy ::
    "('v, 'u) sigworld client_fn \<Rightarrow> ptr \<Rightarrow> ('v, 'u) sigstore \<Rightarrow> (handle list \<times> ('v, 'u) sigstore) option" where
  "sig_destroy cl p s = do {
     st \<leftarrow> sig_at p s;
     resume_chain_lk cl (s_chain st) (upd_sig p None s) }"

subsection \<open>Connected callbacks\<close>

definition delete_cb :: "ptr \<Rightarrow> ('v, 'u) sigstore \<Rightarrow> ('v, 'u) sigstore" where
  "delete_cb a s = s\<lparr>client := (client s)\<lparr>callbacks := callbacks (client s) - {a}\<rparr>\<rparr>"

definition set_suser :: "'u \<Rightarrow> ('v, 'u) sigstore \<Rightarrow> ('v, 'u) sigstore" where
  "set_suser u s = s\<lparr>client := (client s)\<lparr>suser := u\<rparr>\<rparr>"

text \<open>
  \<open>resume\<close> of the awaiter that \<open>connect\<close> makes: call the function with the value, and wait
  for the next one or delete the object. The function gets the user's part of the world.
\<close>

definition cb_resume ::
    "(ptr \<Rightarrow> 'v sigref \<Rightarrow> 'u \<Rightarrow> bool \<times> 'u) \<Rightarrow> ptr \<Rightarrow> ('v, 'u) sigstore \<Rightarrow> ('v, 'u) sigstore" where
  "cb_resume fn a s =
     (let p = weak (client s) a in
      case sig_at p s of
        None \<Rightarrow> delete_cb a s
      | Some _ \<Rightarrow>
          (case emitter_resume a s of
             Inl _ \<Rightarrow> crash s
           | Inr r \<Rightarrow>
               (let (again, u) = fn a r (suser (client s));
                    s1 = set_suser u s in
                if again then
                  (case sig_at p s1 of
                     None \<Rightarrow> crash s1
                   | Some st \<Rightarrow> (case sig_subscribe [] a p st s1 of None \<Rightarrow> crash s1 | Some s2 \<Rightarrow> s2))
                else delete_cb a s1)))"

definition sig_clients :: "(ptr \<Rightarrow> 'v sigref \<Rightarrow> 'u \<Rightarrow> bool \<times> 'u) \<Rightarrow> ('v, 'u) sigworld client_fn" where
  "sig_clients fn k a ctx s = ([], cb_resume fn a s)"

definition connect ::
    "bool list \<Rightarrow> (ptr \<Rightarrow> 'v sigref \<Rightarrow> 'u \<Rightarrow> bool \<times> 'u) \<Rightarrow> ptr \<Rightarrow> ptr \<Rightarrow> ('v, 'u) sigstore \<Rightarrow> ('v, 'u) sigstore option" where
  "connect sf fn a p s =
     (let s1 = set_resume_fn a (Fn_client 0) nullptr (emitter_init a p s);
          s2 = s1\<lparr>client := (client s1)\<lparr>callbacks := insert a (callbacks (client s1))\<rparr>\<rparr> in
      case sig_at p s2 of
        Some st \<Rightarrow> sig_subscribe sf a p st s2
      | None \<Rightarrow> Some (cb_resume fn a s2))"

text \<open>
  \<open>hook_up\<close>: the first \<open>co_await\<close> makes the signal and hands its collector to the function.
  The flag the function returns says whether it has kept a collector; if not, the local
  \<open>signal\<close> holds the last one and the state goes with it, which resumes the emitter.
\<close>

definition hook_up_suspend ::
    "bool list \<Rightarrow> ('v, 'u) sigworld client_fn \<Rightarrow>
      (ptr \<Rightarrow> ('v, 'u) sigstore \<Rightarrow> (bool \<times> ('v, 'u) sigstore) option) \<Rightarrow> bool \<Rightarrow> ptr \<Rightarrow> ptr \<Rightarrow> handle \<Rightarrow>
      ('v, 'u) sigstore \<Rightarrow> (bool \<times> bool \<times> handle list \<times> ('v, 'u) sigstore) option" where
  "hook_up_suspend sf cl fn hooked p a h s =
     (if hooked then map_option (\<lambda>(b, s'). (b, hooked, [], s')) (emitter_suspend sf a h s)
      else do {
        let s1 = sig_new p s;
        let s2 = s1\<lparr>client := (client s1)\<lparr>weak := (weak (client s1))(a := p)\<rparr>\<rparr>;
        (_, s3) \<leftarrow> emitter_suspend sf a h s2;
        (kept, s4) \<leftarrow> fn p s3;
        (if kept then Some (True, True, [], s4)
         else do {
           (hs, s5) \<leftarrow> sig_destroy cl p s4;
           Some (True, True, hs, s5) }) })"

subsection \<open>One signal wakes every awaiter once\<close>

lemma sig_simps [simp]:
  "sig_at p (upd_sig q x s) = (if p = q then x else sig_at p s)" "sig_at p (set_next a r s) = sig_at p s"
  "a_next (upd_sig q x s) = a_next s" "a_fn (upd_sig q x s) = a_fn s" "a_haddr (upd_sig q x s) = a_haddr s"
  "weak (client (upd_sig q x s)) = weak (client s)" "suser (client (upd_sig q x s)) = suser (client s)"
  "callbacks (client (upd_sig q x s)) = callbacks (client s)" "crashed (client (upd_sig q x s)) = crashed (client s)"
  by (simp_all add: sig_at_def upd_sig_def)

lemma delete_cb_simps [simp]:
  "sig_at p (delete_cb a s) = sig_at p s" "a_next (delete_cb a s) = a_next s" "a_fn (delete_cb a s) = a_fn s"
  "a_haddr (delete_cb a s) = a_haddr s" "weak (client (delete_cb a s)) = weak (client s)"
  "suser (client (delete_cb a s)) = suser (client s)" "crashed (client (delete_cb a s)) = crashed (client s)"
  "callbacks (client (delete_cb a s)) = callbacks (client s) - {a}"
  by (simp_all add: sig_at_def delete_cb_def)

lemma set_suser_simps [simp]:
  "sig_at p (set_suser u s) = sig_at p s" "a_next (set_suser u s) = a_next s" "a_fn (set_suser u s) = a_fn s"
  "a_haddr (set_suser u s) = a_haddr s" "weak (client (set_suser u s)) = weak (client s)"
  "suser (client (set_suser u s)) = u" "crashed (client (set_suser u s)) = crashed (client s)"
  "callbacks (client (set_suser u s)) = callbacks (client s)"
  by (simp_all add: sig_at_def set_suser_def)

text \<open>The calls of the callbacks among \<open>xs\<close> with the value \<open>r\<close>, and those that want more.\<close>

fun cb_calls ::
    "(ptr \<Rightarrow> 'v sigref \<Rightarrow> 'u \<Rightarrow> bool \<times> 'u) \<Rightarrow> (ptr \<Rightarrow> resume_fn) \<Rightarrow> 'v sigref \<Rightarrow> ptr list \<Rightarrow> 'u \<Rightarrow> ptr list \<times> 'u" where
  "cb_calls fn kind r [] u = ([], u)"
| "cb_calls fn kind r (a # as) u =
     (if kind a = Fn_coro then cb_calls fn kind r as u
      else
        (let (again, u1) = fn a r u; (ks, u2) = cb_calls fn kind r as u1
         in (if again then a # ks else ks, u2)))"

definition awaiters_ok :: "ptr \<Rightarrow> ptr list \<Rightarrow> ('v, 'u) sigstore \<Rightarrow> bool" where
  "awaiters_ok p xs s \<longleftrightarrow>
     (\<forall>a \<in> set xs. proper a \<and> weak (client s) a = p \<and> (a_fn s a = Fn_coro \<or> a_fn s a = Fn_client 0))"

text \<open>What one resumption changes and leaves alone.\<close>

lemma cb_resume_value:
  assumes st: "sig_at p s = Some st" and w: "weak (client s) a = p" and v: "emitter_resume a s = Inr r"
    and a: "proper a" "a \<noteq> s_chain st"
  shows "cb_resume fn a s =
    (let (again, u) = fn a r (suser (client s)); s1 = set_suser u s in
     if again then upd_sig p (Some (st\<lparr>s_chain := a\<rparr>)) (set_next a (s_chain st) s1) else delete_cb a s1)"
  using assms by (simp add: cb_resume_def sig_subscribe_def subscribe_result split_def Let_def)

lemma emitter_resume_cong:
  assumes "sig_at p s' = Some st'" and "sig_at p s = Some st" and "s_cur st' = s_cur st" and "s_store st' = s_store st"
    and "weak (client s) a = p" and "weak (client s') b = p"
  shows "emitter_resume b s' = emitter_resume a s"
  using assms by (simp add: emitter_resume_def cong: option.case_cong cur_val.case_cong)

lemma emitter_resume_set_next [simp]: "emitter_resume b (set_next a q s) = emitter_resume b s"
  by (simp add: emitter_resume_def)

lemma resume_seq_signal:
  assumes "sig_at p s = Some st" and "awaiters_ok p xs s" and "distinct xs" and "linked (a_next s) (s_chain st) ys 0"
    and "set xs \<inter> set ys = {}" and "\<And>a. a \<in> set xs \<Longrightarrow> emitter_resume a s = Inr r" and "\<not> crashed (client s)"
  shows "\<exists>s' st'. resume_seq (sig_clients fn) xs s = (handles_of s xs, s') \<and> sig_at p s' = Some st' \<and>
    linked (a_next s') (s_chain st') (rev (fst (cb_calls fn (a_fn s) r xs (suser (client s)))) @ ys) 0 \<and>
    suser (client s') = snd (cb_calls fn (a_fn s) r xs (suser (client s))) \<and>
    s_cur st' = s_cur st \<and> s_store st' = s_store st \<and> weak (client s') = weak (client s) \<and> \<not> crashed (client s')"
  using assms
proof (induction xs arbitrary: s st ys)
  case Nil
  then show ?case by (simp add: handles_of_def)
next
  case (Cons a as)
  let ?s0 = "set_next a 0 s"
  have a: "proper a" "weak (client s) a = p" "a \<notin> set as" "a \<notin> set ys" "emitter_resume a s = Inr r"
    using Cons.prems by (auto simp: awaiters_ok_def)
  have neq: "a \<noteq> s_chain st" using Cons.prems(4) a by (cases ys) auto
  show ?case
  proof (cases "a_fn s a = Fn_coro")
    case True
    then have r: "resume_awaiter (sig_clients fn) a ?s0 = ([a_haddr s a], ?s0)" by (simp add: resume_awaiter_def)
    have "\<exists>s' st'. resume_seq (sig_clients fn) as ?s0 = (handles_of ?s0 as, s') \<and> sig_at p s' = Some st' \<and>
      linked (a_next s') (s_chain st') (rev (fst (cb_calls fn (a_fn ?s0) r as (suser (client ?s0)))) @ ys) 0 \<and>
      suser (client s') = snd (cb_calls fn (a_fn ?s0) r as (suser (client ?s0))) \<and>
      s_cur st' = s_cur st \<and> s_store st' = s_store st \<and> weak (client s') = weak (client ?s0) \<and> \<not> crashed (client s')"
    proof (rule Cons.IH)
      show "linked (a_next ?s0) (s_chain st) ys 0" using Cons.prems(4) a(4) by simp
      show "awaiters_ok p as ?s0" using Cons.prems(2) by (simp add: awaiters_ok_def)
    qed (use Cons.prems a in auto)
    then show ?thesis using True r by (auto simp: handles_of_def Let_def)
  next
    case False
    then have f: "a_fn s a = Fn_client 0" using Cons.prems(2) by (auto simp: awaiters_ok_def)
    obtain again u where fn: "fn a r (suser (client s)) = (again, u)" by (metis surj_pair)
    let ?s1 = "cb_resume fn a ?s0"
    have "emitter_resume a ?s0 = Inr r" using a(5) by simp
    then have cb: "?s1 = (let s1 = set_suser u ?s0 in
        if again then upd_sig p (Some (st\<lparr>s_chain := a\<rparr>)) (set_next a (s_chain st) s1) else delete_cb a s1)"
      using cb_resume_value [of p ?s0 st a r fn] Cons.prems(1) a neq fn by simp
    have r: "resume_awaiter (sig_clients fn) a ?s0 = ([], ?s1)"
      using f by (simp add: resume_awaiter_def sig_clients_def)
    define st1 where "st1 = (if again then st\<lparr>s_chain := a\<rparr> else st)"
    define ys1 where "ys1 = (if again then a # ys else ys)"
    have s1: "sig_at p ?s1 = Some st1" "a_fn ?s1 = a_fn s" "weak (client ?s1) = weak (client s)"
      "suser (client ?s1) = u" "\<not> crashed (client ?s1)" "s_cur st1 = s_cur st" "s_store st1 = s_store st"
      "a_haddr ?s1 = a_haddr s"
      using cb Cons.prems(1,7) by (auto simp: Let_def st1_def)
    have l1: "linked (a_next ?s1) (s_chain st1) ys1 0"
      using cb Cons.prems(4) a by (auto simp: Let_def st1_def ys1_def)
    have "\<exists>s' st'. resume_seq (sig_clients fn) as ?s1 = (handles_of ?s1 as, s') \<and> sig_at p s' = Some st' \<and>
      linked (a_next s') (s_chain st') (rev (fst (cb_calls fn (a_fn ?s1) r as (suser (client ?s1)))) @ ys1) 0 \<and>
      suser (client s') = snd (cb_calls fn (a_fn ?s1) r as (suser (client ?s1))) \<and>
      s_cur st' = s_cur st1 \<and> s_store st' = s_store st1 \<and> weak (client s') = weak (client ?s1) \<and> \<not> crashed (client s')"
    proof (rule Cons.IH [OF s1(1) _ _ l1])
      show "awaiters_ok p as ?s1" using Cons.prems(2) s1(2,3) by (simp add: awaiters_ok_def)
      show "distinct as" "set as \<inter> set ys1 = {}" using Cons.prems(3,5) a by (auto simp: ys1_def)
      show "emitter_resume b ?s1 = Inr r" if "b \<in> set as" for b
        using emitter_resume_cong [OF s1(1) Cons.prems(1) s1(6,7) a(2)] a(5) that Cons.prems(2) s1(3)
        by (simp add: awaiters_ok_def)
      show "\<not> crashed (client ?s1)" by (fact s1)
    qed
    moreover have "handles_of ?s1 as = handles_of s as" using s1(2,8) by (simp add: handles_of_def)
    moreover have "rev (fst (cb_calls fn (a_fn s) r as u)) @ ys1 =
        rev (fst (cb_calls fn (a_fn s) r (a # as) (suser (client s)))) @ ys"
      using f fn by (simp add: ys1_def split_def Let_def)
    ultimately show ?thesis using r f fn s1
      by (auto simp: handles_of_def Let_def split_def)
  qed
qed


text \<open>A callback changes no link but its own.\<close>

lemma cb_resume_next: "b \<noteq> a \<Longrightarrow> a_next (cb_resume fn a s) b = a_next s b"
  by (auto simp: cb_resume_def sig_subscribe_def subscribe_def subscribe_loop_result crash_def bind_Some_iff Let_def
      split: option.split sum.split prod.split if_splits)

lemma sig_clients_keep: "client_keeps (sig_clients fn) S"
  by (simp add: client_keeps_def sig_clients_def cb_resume_next)

lemma notify_awaiters_signal:
  assumes st: "sig_at p s = Some st" and ok: "awaiters_ok p xs s" and l: "linked (a_next s) (s_chain st) xs 0"
    and v: "\<And>a. a \<in> set xs \<Longrightarrow> emitter_resume a s = Inr r" and c: "\<not> crashed (client s)"
  shows "\<exists>s' st'. notify_awaiters (sig_clients fn) p s = Some (handles_of s xs, s') \<and> sig_at p s' = Some st' \<and>
    linked (a_next s') (s_chain st') (rev (fst (cb_calls fn (a_fn s) r xs (suser (client s))))) 0 \<and>
    suser (client s') = snd (cb_calls fn (a_fn s) r xs (suser (client s))) \<and>
    s_cur st' = s_cur st \<and> s_store st' = s_store st \<and> weak (client s') = weak (client s) \<and> \<not> crashed (client s')"
proof -
  let ?s = "upd_sig p (Some (st\<lparr>s_chain := nullptr\<rparr>)) s"
  have "\<exists>s' st'. resume_seq (sig_clients fn) xs ?s = (handles_of ?s xs, s') \<and> sig_at p s' = Some st' \<and>
    linked (a_next s') (s_chain st') (rev (fst (cb_calls fn (a_fn ?s) r xs (suser (client ?s)))) @ []) 0 \<and>
    suser (client s') = snd (cb_calls fn (a_fn ?s) r xs (suser (client ?s))) \<and>
    s_cur st' = s_cur (st\<lparr>s_chain := nullptr\<rparr>) \<and> s_store st' = s_store (st\<lparr>s_chain := nullptr\<rparr>) \<and>
    weak (client s') = weak (client ?s) \<and> \<not> crashed (client s')"
  proof (rule resume_seq_signal)
    show "awaiters_ok p xs ?s" using ok by (simp add: awaiters_ok_def)
    show "emitter_resume a ?s = Inr r" if "a \<in> set xs" for a
      using v [OF that] emitter_resume_cong [of p ?s "st\<lparr>s_chain := nullptr\<rparr>" s st a a] st ok that
      by (simp add: awaiters_ok_def)
    show "distinct xs" using l by (rule linked_distinct [rotated]) simp
  qed (use c in simp_all)
  moreover have "resume_chain_lk (sig_clients fn) (s_chain st) ?s = Some (resume_seq (sig_clients fn) xs ?s)"
    using resume_chain_loop_seq [where w = ?s and ret = "[]" and cl = "sig_clients fn", OF _ sig_clients_keep] l
    by (simp add: resume_chain_lk_def)
  ultimately show ?thesis using st by (auto simp: notify_awaiters_def handles_of_def)
qed

lemma resume_seq_gone:
  assumes "sig_at p s = None" and "awaiters_ok p xs s" and "\<not> crashed (client s)"
  shows "\<exists>s'. resume_seq (sig_clients fn) xs s = (handles_of s xs, s') \<and> sig_at p s' = None \<and>
    callbacks (client s') = callbacks (client s) - {a \<in> set xs. a_fn s a \<noteq> Fn_coro} \<and>
    suser (client s') = suser (client s) \<and> weak (client s') = weak (client s) \<and> \<not> crashed (client s')"
  using assms
proof (induction xs arbitrary: s)
  case Nil
  then show ?case by (simp add: handles_of_def)
next
  case (Cons a as)
  let ?r = "resume_awaiter (sig_clients fn) a (set_next a 0 s)"
  have r: "fst ?r = handles_of s [a]" "sig_at p (snd ?r) = None" "a_fn (snd ?r) = a_fn s" "a_haddr (snd ?r) = a_haddr s"
    "callbacks (client (snd ?r)) = callbacks (client s) - {b. b = a \<and> a_fn s b \<noteq> Fn_coro}"
    "suser (client (snd ?r)) = suser (client s)" "weak (client (snd ?r)) = weak (client s)" "\<not> crashed (client (snd ?r))"
    using Cons.prems by (auto simp: awaiters_ok_def resume_awaiter_def handles_of_def sig_clients_def cb_resume_def)
  have "awaiters_ok p as (snd ?r)" using Cons.prems(2) r by (simp add: awaiters_ok_def)
  from Cons.IH [OF r(2) this r(8)] obtain s' where
    s': "resume_seq (sig_clients fn) as (snd ?r) = (handles_of (snd ?r) as, s')" "sig_at p s' = None"
      "callbacks (client s') = callbacks (client (snd ?r)) - {b \<in> set as. a_fn s b \<noteq> Fn_coro}"
      "suser (client s') = suser (client s)" "weak (client s') = weak (client s)" "\<not> crashed (client s')"
    unfolding r by blast
  have "resume_seq (sig_clients fn) (a # as) s = (handles_of s (a # as), s')"
    using s'(1) r(1,3,4) by (simp add: Let_def split_def handles_of_def)
  moreover have "callbacks (client s') = callbacks (client s) - {b \<in> set (a # as). a_fn s b \<noteq> Fn_coro}"
    unfolding s'(3) r(5) by auto
  ultimately show ?case using s' by blast
qed

section \<open>Properties\<close>

text \<open>
  C28. Collecting a value wakes every awaiter of the signal exactly once: it ends, hands out the
  handles of the waiting coroutines and calls the connected callbacks with the value, in the
  order of the chain. Afterwards the signal is awaited by exactly the callbacks that asked for
  more; nobody has crashed, and each emitter of the signal reads the collected value.
\<close>

theorem signal_wakes_all_once:
  assumes "sig_at p s = Some st" and "linked (a_next s) (s_chain st) xs 0" and "awaiters_ok p xs s"
    and "\<not> crashed (client s)"
  shows "\<exists>s' st'. collect_value (sig_clients fn) p v s = Some (handles_of s xs, s') \<and> sig_at p s' = Some st' \<and>
    suser (client s') = snd (cb_calls fn (a_fn s) (Stored v) xs (suser (client s))) \<and>
    linked (a_next s') (s_chain st') (rev (fst (cb_calls fn (a_fn s) (Stored v) xs (suser (client s))))) 0 \<and>
    \<not> crashed (client s') \<and> (\<forall>a. weak (client s') a = p \<longrightarrow> emitter_resume a s' = Inr (Stored v))"
proof -
  define st1 where "st1 = st\<lparr>s_store := Some v, s_cur := In_storage\<rparr>"
  have "awaiters_ok p xs (upd_sig p (Some st1) s)" using assms(3) by (simp add: awaiters_ok_def)
  moreover have "emitter_resume a (upd_sig p (Some st1) s) = Inr (Stored v)" if "a \<in> set xs" for a
    using that assms(3) by (simp add: awaiters_ok_def emitter_resume_def st1_def)
  ultimately obtain s' st' where
    "notify_awaiters (sig_clients fn) p (upd_sig p (Some st1) s) = Some (handles_of (upd_sig p (Some st1) s) xs, s')"
    and "sig_at p s' = Some st'" "s_cur st' = s_cur st1" "s_store st' = s_store st1" "\<not> crashed (client s')"
    "linked (a_next s') (s_chain st') (rev (fst (cb_calls fn (a_fn s) (Stored v) xs (suser (client s))))) 0"
    "suser (client s') = snd (cb_calls fn (a_fn s) (Stored v) xs (suser (client s)))"
    using notify_awaiters_signal [where s = "upd_sig p (Some st1) s" and st = st1 and p = p and xs = xs and r = "Stored v" and fn = fn]
      assms(2,4) by (auto simp: st1_def)
  then show ?thesis using assms(1) by (auto simp: collect_value_def st1_def handles_of_def emitter_resume_def)
qed

theorem signal_wakes_all_once_witness:
  "\<exists>s' st'. collect_value (sig_clients (\<lambda>a r u. (True, u @ [(a, r)]))) 9 (42 :: nat)
      \<lparr>a_next = (\<lambda>_. 0)(7 := 5), a_fn = (\<lambda>_. Fn_coro)(7 := Fn_client 0), a_haddr = \<lambda>a. 10 * a, a_flag = \<lambda>_. False,
       client = \<lparr>sigs = [9 \<mapsto> \<lparr>s_chain = 7, s_cur = No_value, s_store = None\<rparr>], weak = \<lambda>_. 9,
         callbacks = {7}, crashed = False, suser = []\<rparr>\<rparr> = Some ([50], s') \<and> sig_at 9 s' = Some st' \<and>
    suser (client s') = [(7, Stored 42)] \<and> linked (a_next s') (s_chain st') [7] 0"
  using signal_wakes_all_once [of 9 "\<lparr>a_next = (\<lambda>_. 0)(7 := 5), a_fn = (\<lambda>_. Fn_coro)(7 := Fn_client 0),
      a_haddr = \<lambda>a. 10 * a, a_flag = \<lambda>_. False,
      client = \<lparr>sigs = [9 \<mapsto> \<lparr>s_chain = 7, s_cur = No_value, s_store = None\<rparr>], weak = \<lambda>_. 9,
         callbacks = {7}, crashed = False, suser = [] :: (nat \<times> nat sigref) list\<rparr>\<rparr>"
      "\<lparr>s_chain = 7, s_cur = No_value, s_store = None\<rparr>" "[7, 5]" "\<lambda>a r u. (True, u @ [(a, r)])" 42]
  by (auto simp: sig_at_def awaiters_ok_def proper_def handles_of_def)

text \<open>
  C38. When the last collector goes, every awaiter is released: the waiting coroutines are
  resumed and their emitters report the cancelation, as all further ones do; the connected
  callbacks are deleted without being called.
\<close>

theorem signal_end_releases_all:
  assumes "sig_at p s = Some st" and "linked (a_next s) (s_chain st) xs 0" and "awaiters_ok p xs s"
    and "\<not> crashed (client s)"
  shows "\<exists>s'. sig_destroy (sig_clients fn) p s = Some (handles_of s xs, s') \<and> sig_at p s' = None \<and>
    callbacks (client s') = callbacks (client s) - {a \<in> set xs. a_fn s a \<noteq> Fn_coro} \<and>
    suser (client s') = suser (client s) \<and> \<not> crashed (client s') \<and>
    (\<forall>a. weak (client s') a = p \<longrightarrow> emitter_resume a s' = Inl Await_canceled)"
proof -
  let ?s = "upd_sig p None s"
  have "awaiters_ok p xs ?s" using assms(3) by (simp add: awaiters_ok_def)
  moreover have "resume_chain_lk (sig_clients fn) (s_chain st) ?s = Some (resume_seq (sig_clients fn) xs ?s)"
    using resume_chain_loop_seq [where w = ?s and ret = "[]" and cl = "sig_clients fn", OF _ sig_clients_keep] assms(2)
    by (simp add: resume_chain_lk_def)
  ultimately show ?thesis
    using resume_seq_gone [of p ?s xs fn] assms(1,4) by (auto simp: sig_destroy_def handles_of_def emitter_resume_def)
qed

theorem signal_end_releases_all_witness:
  "\<exists>s'. sig_destroy (sig_clients (\<lambda>a r u. (True, Suc u))) 9
      \<lparr>a_next = (\<lambda>_. 0)(7 := 5), a_fn = (\<lambda>_. Fn_coro)(7 := Fn_client 0), a_haddr = \<lambda>a. 10 * a, a_flag = \<lambda>_. False,
       client = \<lparr>sigs = [9 \<mapsto> \<lparr>s_chain = 7, s_cur = In_storage, s_store = Some (3 :: nat)\<rparr>], weak = \<lambda>_. 9,
         callbacks = {7, 8}, crashed = False, suser = 0\<rparr>\<rparr> = Some ([50], s') \<and>
    callbacks (client s') = {8} \<and> suser (client s') = 0"
  using signal_end_releases_all [of 9 "\<lparr>a_next = (\<lambda>_. 0)(7 := 5), a_fn = (\<lambda>_. Fn_coro)(7 := Fn_client 0),
      a_haddr = \<lambda>a. 10 * a, a_flag = \<lambda>_. False,
      client = \<lparr>sigs = [9 \<mapsto> \<lparr>s_chain = 7, s_cur = In_storage, s_store = Some (3 :: nat)\<rparr>], weak = \<lambda>_. 9,
         callbacks = {7, 8}, crashed = False, suser = 0\<rparr>\<rparr>"
      "\<lparr>s_chain = 7, s_cur = In_storage, s_store = Some 3\<rparr>" "[7, 5]" "\<lambda>a r u. (True, Suc u)"]
  by (fastforce simp: sig_at_def awaiters_ok_def proper_def handles_of_def)

end
