(* ===== verification/Coro_Storage.thy ===== *)
theory Coro_Storage
  imports Prelude
begin

section \<open>Storages of coroutine frames\<close>

text \<open>
  \<open>coro_storage.h\<close>, \<open>alloca_storage.h\<close> and \<open>with_allocator.h\<close>. A coroutine frame is an area of
  memory that a storage hands out (\<open>alloc\<close>) and takes back (\<open>dealloc\<close>). Several storages keep
  something of their own behind the frame: a pointer to themselves, a flag, an object.

  The memory has a list of the areas \<open>operator new\<close> has given out and of the areas that exist
  otherwise (static buffers, what \<open>alloca\<close> returned), and a value at each address. Writing
  outside of the areas, and \<open>delete\<close> of something \<open>new\<close> did not return, are \<open>None\<close>. Sizes are
  natural numbers: the sum of a frame's size and a trailer does not wrap around. A frame is
  never empty.
\<close>

subsection \<open>Memory\<close>

type_synonym area = "ptr \<times> nat"

record mem =
  m_heap :: "area list"
  m_static :: "area list"
  m_limit :: ptr
  m_at :: "ptr \<Rightarrow> nat"

definition areas :: "mem \<Rightarrow> area list" where
  "areas m = m_heap m @ m_static m"

text \<open>\<open>operator new\<close> and \<open>operator delete\<close> of the language; deleting null does nothing.\<close>

definition op_new :: "nat \<Rightarrow> mem \<Rightarrow> ptr \<times> mem" where
  "op_new sz m = (m_limit m, m\<lparr>m_heap := (m_limit m, max sz 1) # m_heap m, m_limit := m_limit m + max sz 1\<rparr>)"

definition op_delete :: "ptr \<Rightarrow> mem \<Rightarrow> mem option" where
  "op_delete p m =
     (if p = nullptr then Some m
      else if p \<in> set (map fst (m_heap m)) then Some (m\<lparr>m_heap := filter (\<lambda>a. fst a \<noteq> p) (m_heap m)\<rparr>)
      else None)"

definition within :: "ptr \<Rightarrow> nat \<Rightarrow> area \<Rightarrow> bool" where
  "within p n a \<longleftrightarrow> fst a \<le> p \<and> p + n \<le> fst a + snd a"

definition store_at :: "ptr \<Rightarrow> nat \<Rightarrow> nat \<Rightarrow> mem \<Rightarrow> mem option" where
  "store_at p n v m = (if list_ex (within p n) (areas m) then Some (m\<lparr>m_at := (m_at m)(p := v)\<rparr>) else None)"

definition pointer_size :: nat where
  "pointer_size = 8"

subsection \<open>The storages\<close>

text \<open>\<open>default_storage\<close>\<close>

definition default_alloc :: "nat \<Rightarrow> mem \<Rightarrow> (ptr \<times> mem) option" where
  "default_alloc sz m = Some (op_new sz m)"

definition default_dealloc :: "ptr \<Rightarrow> nat \<Rightarrow> mem \<Rightarrow> mem option" where
  "default_dealloc p sz m = op_delete p m"

text \<open>\<open>reusable_storage\<close>: one frame at a time, in a block that only grows.\<close>

record reusable =
  r_ptr :: ptr
  r_capacity :: nat
  r_mem :: mem

definition reusable_new :: "mem \<Rightarrow> reusable" where
  "reusable_new m = \<lparr>r_ptr = nullptr, r_capacity = 0, r_mem = m\<rparr>"

definition reusable_alloc :: "nat \<Rightarrow> reusable \<Rightarrow> (ptr \<times> reusable) option" where
  "reusable_alloc sz r =
     (if r_capacity r < sz then
        Option.bind (op_delete (r_ptr r) (r_mem r)) (\<lambda>m.
          let (p, m') = op_new sz m in Some (p, \<lparr>r_ptr = p, r_capacity = sz, r_mem = m'\<rparr>))
      else Some (r_ptr r, r))"

definition reusable_dealloc :: "ptr \<Rightarrow> nat \<Rightarrow> reusable \<Rightarrow> reusable option" where
  "reusable_dealloc p sz r = Some r"

definition reusable_destroy :: "reusable \<Rightarrow> mem option" where
  "reusable_destroy r = op_delete (r_ptr r) (r_mem r)"

text \<open>Move construction and move assignment of two storages over the same memory.\<close>

definition reusable_move :: "ptr \<times> nat \<Rightarrow> (ptr \<times> nat) \<times> (ptr \<times> nat)" where
  "reusable_move other = (other, (nullptr, 0))"

definition reusable_assign :: "ptr \<times> nat \<Rightarrow> ptr \<times> nat \<Rightarrow> mem \<Rightarrow> ((ptr \<times> nat) \<times> (ptr \<times> nat) \<times> mem) option" where
  "reusable_assign this other m =
     Option.bind (op_delete (fst this) m) (\<lambda>m'. Some (other, (nullptr, 0), m'))"

text \<open>
  \<open>reusable_storage_mtsafe\<close> at the address \<open>mt_this\<close>: the block serves one frame, further
  ones come from the heap. The storage's address behind the frame tells \<open>dealloc\<close>, a static
  function, whose frame it is.
\<close>

record mtsafe =
  mt_this :: ptr
  mt_block :: reusable
  mt_busy :: bool

definition mtsafe_alloc :: "nat \<Rightarrow> mtsafe \<Rightarrow> (ptr \<times> mtsafe) option" where
  "mtsafe_alloc sz s =
     Option.bind
       (if mt_busy s then
          (let (p, m) = op_new (sz + pointer_size) (r_mem (mt_block s)) in Some (p, (mt_block s)\<lparr>r_mem := m\<rparr>))
        else reusable_alloc (sz + pointer_size) (mt_block s))
       (\<lambda>(p, r). Option.bind (store_at (p + sz) pointer_size (mt_this s) (r_mem r))
         (\<lambda>m. Some (p, s\<lparr>mt_busy := True, mt_block := r\<lparr>r_mem := m\<rparr>\<rparr>)))"

definition mtsafe_dealloc :: "ptr \<Rightarrow> nat \<Rightarrow> mtsafe \<Rightarrow> mtsafe option" where
  "mtsafe_dealloc p sz s =
     (let me = m_at (r_mem (mt_block s)) (p + sz) in
      if me \<noteq> mt_this s then None
      else if p = r_ptr (mt_block s) then Some (s\<lparr>mt_busy := False\<rparr>)
      else map_option (\<lambda>m. s\<lparr>mt_block := (mt_block s)\<lparr>r_mem := m\<rparr>\<rparr>) (op_delete p (r_mem (mt_block s))))"

text \<open>\<open>static_storage\<close>: one frame in a buffer, which the assertion says is large enough.\<close>

record static =
  s_this :: ptr
  s_buffer :: ptr
  s_space :: nat
  s_mem :: mem

definition multiplier :: nat where
  "multiplier = 100"

definition adjspace :: "static \<Rightarrow> nat" where
  "adjspace s = s_space s * multiplier div 100"

definition static_alloc :: "nat \<Rightarrow> static \<Rightarrow> (ptr \<times> static) option" where
  "static_alloc sz s =
     (let exsz = sz + pointer_size in
      if \<not> exsz \<le> adjspace s then None
      else
        (let (p, m) = (if adjspace s < exsz then op_new exsz (s_mem s) else (s_buffer s, s_mem s))
         in map_option (\<lambda>m'. (p, s\<lparr>s_mem := m'\<rparr>)) (store_at (p + sz) pointer_size (s_this s) m)))"

definition static_dealloc :: "ptr \<Rightarrow> nat \<Rightarrow> static \<Rightarrow> static option" where
  "static_dealloc p sz s =
     (if p \<noteq> s_buffer s then map_option (\<lambda>m. s\<lparr>s_mem := m\<rparr>) (op_delete p (s_mem s)) else Some s)"

text \<open>\<open>placement_alloc\<close>: whatever the user points to.\<close>

definition placement_alloc :: "ptr \<Rightarrow> nat \<Rightarrow> mem \<Rightarrow> (ptr \<times> mem) option" where
  "placement_alloc p sz m = Some (p, m)"

definition placement_dealloc :: "ptr \<Rightarrow> nat \<Rightarrow> mem \<Rightarrow> mem option" where
  "placement_dealloc p sz m = Some m"

text \<open>
  \<open>reusable_buffer_storage\<close> over a \<open>std::vector\<close> of items of \<open>itemsz\<close> bytes. A \<open>resize\<close> beyond
  its capacity moves the vector to a new block.
\<close>

record buffer =
  b_data :: ptr
  b_size :: nat
  b_itemsz :: nat
  b_mem :: mem

definition vector_resize :: "nat \<Rightarrow> buffer \<Rightarrow> buffer option" where
  "vector_resize n b =
     (let (p, m) = op_new (n * b_itemsz b) (b_mem b)
      in map_option (\<lambda>m'. b\<lparr>b_data := p, b_size := n, b_mem := m'\<rparr>) (op_delete (b_data b) m))"

definition buffer_alloc :: "nat \<Rightarrow> buffer \<Rightarrow> (ptr \<times> buffer) option" where
  "buffer_alloc sz b =
     (let items = (sz + b_itemsz b - 1) div b_itemsz b in
      if b_size b < items then map_option (\<lambda>b'. (b_data b', b')) (vector_resize items b)
      else Some (b_data b, b))"

definition buffer_dealloc :: "ptr \<Rightarrow> nat \<Rightarrow> buffer \<Rightarrow> buffer option" where
  "buffer_dealloc p sz b = Some b"

text \<open>
  \<open>promise_extra_storage\<close> over the default storage: an object of \<open>objsz\<close> bytes, which the
  factory makes, lives behind the frame. \<open>x_live\<close> holds the objects that exist.
\<close>

record extra =
  x_objsz :: nat
  x_factory :: nat
  x_inventory :: ptr
  x_live :: "ptr list"
  x_mem :: mem

definition extra_alloc :: "nat \<Rightarrow> extra \<Rightarrow> (ptr \<times> extra) option" where
  "extra_alloc sz x =
     Option.bind (default_alloc (sz + x_objsz x) (x_mem x)) (\<lambda>(p, m).
       let inv = p + sz in
       map_option (\<lambda>m'. (p, x\<lparr>x_mem := m', x_inventory := inv, x_live := inv # x_live x\<rparr>))
         (store_at inv (x_objsz x) (x_factory x) m))"

definition extra_dealloc :: "ptr \<Rightarrow> nat \<Rightarrow> extra \<Rightarrow> extra option" where
  "extra_dealloc p sz x =
     (if p + sz \<in> set (x_live x) then
        map_option (\<lambda>m. x\<lparr>x_mem := m, x_live := remove1 (p + sz) (x_live x)\<rparr>)
          (default_dealloc p (sz + x_objsz x) (x_mem x))
      else None)"

text \<open>
  \<open>stack_storage\<close>: the memory that the caller took from its stack, if the frame and one flag
  byte fit; otherwise the heap, and the shared state remembers what was needed.
\<close>

record stackst =
  k_state :: nat
  k_size :: nat
  k_ptr :: ptr
  k_mem :: mem

definition stack_new :: "nat \<Rightarrow> mem \<Rightarrow> stackst" where
  "stack_new state m = \<lparr>k_state = state, k_size = max 0 state, k_ptr = nullptr, k_mem = m\<rparr>"

definition stack_set :: "ptr \<Rightarrow> stackst \<Rightarrow> stackst" where
  "stack_set p k = k\<lparr>k_ptr := p\<rparr>"

definition stack_size :: "stackst \<Rightarrow> nat" where
  "stack_size k = k_size k"

definition stack_alloc :: "nat \<Rightarrow> stackst \<Rightarrow> (ptr \<times> stackst) option" where
  "stack_alloc sz k =
     (if sz + 1 \<le> k_size k then
        map_option (\<lambda>m. (k_ptr k, k\<lparr>k_mem := m\<rparr>)) (store_at (k_ptr k + sz) 1 0 (k_mem k))
      else
        (let (p, m) = op_new (sz + 1) (k_mem k)
         in map_option (\<lambda>m'. (p, k\<lparr>k_mem := m', k_state := sz + 1\<rparr>)) (store_at (p + sz) 1 1 m)))"

definition stack_dealloc :: "ptr \<Rightarrow> nat \<Rightarrow> stackst \<Rightarrow> stackst option" where
  "stack_dealloc p sz k =
     (if m_at (k_mem k) (p + sz) \<noteq> 0 then map_option (\<lambda>m. k\<lparr>k_mem := m\<rparr>) (op_delete p (k_mem k)) else Some k)"


subsection \<open>What a coroutine does with its storage\<close>

text \<open>
  \<open>custom_allocator_base\<close>: a coroutine's frame comes from \<open>storage.alloc(sz)\<close> when it is
  created, and goes back with \<open>Allocator::dealloc(ptr, sz)\<close> when it is destroyed; in between
  the coroutine writes to its frame. A program is a list of such operations over the frames
  that are alive; a frame is named by its position among them.
\<close>

datatype frame_op =
    Create nat
  | Destroy nat
  | Write nat nat nat

definition coro_new :: "(nat \<Rightarrow> 's \<Rightarrow> (ptr \<times> 's) option) \<Rightarrow> nat \<Rightarrow> 's \<Rightarrow> (ptr \<times> 's) option" where
  "coro_new alloc sz s = alloc sz s"

definition coro_delete :: "(ptr \<Rightarrow> nat \<Rightarrow> 's \<Rightarrow> 's option) \<Rightarrow> area \<Rightarrow> 's \<Rightarrow> 's option" where
  "coro_delete dealloc f s = dealloc (fst f) (snd f) s"

fun run_frames ::
    "(nat \<Rightarrow> 's \<Rightarrow> (ptr \<times> 's) option) \<Rightarrow> (ptr \<Rightarrow> nat \<Rightarrow> 's \<Rightarrow> 's option) \<Rightarrow> (ptr \<Rightarrow> nat \<Rightarrow> 's \<Rightarrow> 's) \<Rightarrow>
      frame_op list \<Rightarrow> 's \<Rightarrow> area list \<Rightarrow> ('s \<times> area list) option" where
  "run_frames alloc dealloc poke [] s fs = Some (s, fs)"
| "run_frames alloc dealloc poke (Create sz # ops) s fs =
     Option.bind (coro_new alloc sz s) (\<lambda>(p, s'). run_frames alloc dealloc poke ops s' (fs @ [(p, sz)]))"
| "run_frames alloc dealloc poke (Destroy i # ops) s fs =
     Option.bind (coro_delete dealloc (fs ! i) s) (\<lambda>s'. run_frames alloc dealloc poke ops s' (remove_nth i fs))"
| "run_frames alloc dealloc poke (Write i off v # ops) s fs =
     run_frames alloc dealloc poke ops (poke (fst (fs ! i) + off) v s) fs"

text \<open>The programs that use at most as many frames at once as the storage has room for.\<close>

fun proper_ops :: "(nat \<Rightarrow> nat \<Rightarrow> bool) \<Rightarrow> nat list \<Rightarrow> frame_op list \<Rightarrow> bool" where
  "proper_ops room szs [] \<longleftrightarrow> True"
| "proper_ops room szs (Create sz # ops) \<longleftrightarrow> room (length szs) sz \<and> 0 < sz \<and> proper_ops room (szs @ [sz]) ops"
| "proper_ops room szs (Destroy i # ops) \<longleftrightarrow> i < length szs \<and> proper_ops room (remove_nth i szs) ops"
| "proper_ops room szs (Write i off v # ops) \<longleftrightarrow> i < length szs \<and> off < szs ! i \<and> proper_ops room szs ops"

definition apart :: "area \<Rightarrow> area \<Rightarrow> bool" where
  "apart a b \<longleftrightarrow> fst a + snd a \<le> fst b \<or> fst b + snd b \<le> fst a"

definition all_apart :: "area list \<Rightarrow> bool" where
  "all_apart fs \<longleftrightarrow> (\<forall>i < length fs. \<forall>j < i. apart (fs ! i) (fs ! j))"

text \<open>
  The \<open>Storage\<close> concept as a contract. \<open>inv s fs\<close>: the storage and its memory hold the frames
  \<open>fs\<close>; \<open>room n sz\<close>: a frame of \<open>sz\<close> bytes may be asked for while \<open>n\<close> are alive.
\<close>

locale frame_storage =
  fixes alloc :: "nat \<Rightarrow> 's \<Rightarrow> (ptr \<times> 's) option"
    and dealloc :: "ptr \<Rightarrow> nat \<Rightarrow> 's \<Rightarrow> 's option"
    and poke :: "ptr \<Rightarrow> nat \<Rightarrow> 's \<Rightarrow> 's"
    and inv :: "'s \<Rightarrow> area list \<Rightarrow> bool"
    and room :: "nat \<Rightarrow> nat \<Rightarrow> bool"
  assumes alloc_frame: "inv s fs \<Longrightarrow> room (length fs) sz \<Longrightarrow> 0 < sz \<Longrightarrow>
      \<exists>p s'. alloc sz s = Some (p, s') \<and> inv s' (fs @ [(p, sz)])"
    and dealloc_frame: "inv s fs \<Longrightarrow> i < length fs \<Longrightarrow>
      \<exists>s'. dealloc (fst (fs ! i)) (snd (fs ! i)) s = Some s' \<and> inv s' (remove_nth i fs)"
    and write_frame: "inv s fs \<Longrightarrow> i < length fs \<Longrightarrow> off < snd (fs ! i) \<Longrightarrow> inv (poke (fst (fs ! i) + off) v s) fs"
    and frames_apart: "inv s fs \<Longrightarrow> all_apart fs"
begin

lemma run_frames_succeeds:
  assumes "inv s fs" and "proper_ops room (map snd fs) ops"
  shows "\<exists>s' fs'. run_frames alloc dealloc poke ops s fs = Some (s', fs') \<and> inv s' fs'"
  using assms
proof (induction ops arbitrary: s fs)
  case (Cons op1 ops)
  show ?case
  proof (cases op1)
    case (Create sz)
    with Cons.prems alloc_frame [of s fs sz] obtain p s' where "alloc sz s = Some (p, s')" "inv s' (fs @ [(p, sz)])"
      by auto
    with Cons.IH [of s' "fs @ [(p, sz)]"] Cons.prems Create show ?thesis by (simp add: coro_new_def)
  next
    case (Destroy i)
    with Cons.prems dealloc_frame [of s fs i] obtain s' where
      "dealloc (fst (fs ! i)) (snd (fs ! i)) s = Some s'" "inv s' (remove_nth i fs)" by auto
    with Cons.IH [of s' "remove_nth i fs"] Cons.prems Destroy show ?thesis
      by (simp add: coro_delete_def remove_nth_map)
  next
    case (Write i off v)
    with Cons.prems have "inv (poke (fst (fs ! i) + off) v s) fs" by (intro write_frame) auto
    with Cons.IH Cons.prems Write show ?thesis by simp
  qed
qed simp

end

subsection \<open>Facts on the memory\<close>

definition mem_ok :: "mem \<Rightarrow> bool" where
  "mem_ok m \<longleftrightarrow> 0 < m_limit m \<and> (\<forall>a \<in> set (areas m). 0 < fst a \<and> 0 < snd a \<and> fst a + snd a \<le> m_limit m) \<and>
     (\<forall>a \<in> set (areas m). \<forall>b \<in> set (areas m). a \<noteq> b \<longrightarrow> apart a b) \<and>
     fst ` set (m_heap m) \<inter> fst ` set (m_static m) = {}"

definition heap_ptrs :: "mem \<Rightarrow> ptr set" where
  "heap_ptrs m = fst ` set (m_heap m)"

definition poke_mem :: "ptr \<Rightarrow> nat \<Rightarrow> mem \<Rightarrow> mem" where
  "poke_mem p v m = m\<lparr>m_at := (m_at m)(p := v)\<rparr>"

lemma poke_mem_simps [simp]:
  "areas (poke_mem p v m) = areas m" "mem_ok (poke_mem p v m) = mem_ok m" "heap_ptrs (poke_mem p v m) = heap_ptrs m"
  "m_heap (poke_mem p v m) = m_heap m" "m_at (poke_mem p v m) = (m_at m)(p := v)" "m_limit (poke_mem p v m) = m_limit m"
  by (simp_all add: poke_mem_def areas_def mem_ok_def heap_ptrs_def)

lemma store_at_poke:
  assumes "(p, n) \<in> set (areas m)" and "off + k \<le> n"
  shows "store_at (p + off) k v m = Some (poke_mem (p + off) v m)"
proof -
  have "within (p + off) k (p, n)" using assms(2) by (simp add: within_def)
  then have "list_ex (within (p + off) k) (areas m)" using assms(1) unfolding list_ex_iff by blast
  then show ?thesis by (simp add: store_at_def poke_mem_def)
qed

lemma mem_okD:
  assumes "mem_ok m" and "a \<in> set (areas m)"
  shows "0 < fst a" "0 < snd a" "fst a + snd a \<le> m_limit m"
    "b \<in> set (areas m) \<Longrightarrow> a \<noteq> b \<Longrightarrow> apart a b"
  using assms unfolding mem_ok_def by blast+

lemma area_unique:
  assumes "mem_ok m" and "(p, n) \<in> set (areas m)" and "(p, n') \<in> set (areas m)"
  shows "n = n'"
proof (rule ccontr)
  assume "n \<noteq> n'"
  then have "(p, n) \<noteq> (p, n')" by simp
  from mem_okD(4) [OF assms(1,2,3) this] mem_okD(2) [OF assms(1,2)] mem_okD(2) [OF assms(1,3)]
  show False by (simp add: apart_def)
qed

lemma op_new_result:
  assumes "mem_ok m" and "op_new sz m = (p, m')"
  shows "p = m_limit m" "mem_ok m'" "set (areas m') = insert (p, max sz 1) (set (areas m))" "heap_ptrs m' = insert p (heap_ptrs m)"
    "p \<notin> fst ` set (areas m)" "m_at m' = m_at m" "(p, max sz 1) \<in> set (m_heap m')" "0 < p"
    "set (m_heap m) \<subseteq> set (m_heap m')"
proof -
  have m': "p = m_limit m" "m' = m\<lparr>m_heap := (p, max sz 1) # m_heap m, m_limit := p + max sz 1\<rparr>"
    using assms(2) by (auto simp: op_new_def)
  then show "p = m_limit m" "set (areas m') = insert (p, max sz 1) (set (areas m))" "heap_ptrs m' = insert p (heap_ptrs m)"
    "m_at m' = m_at m" "(p, max sz 1) \<in> set (m_heap m')" "0 < p" "set (m_heap m) \<subseteq> set (m_heap m')"
    using assms(1) by (auto simp: areas_def heap_ptrs_def mem_ok_def)
  have below: "fst a + snd a \<le> p" "0 < snd a" if "a \<in> set (areas m)" for a
    using mem_okD [OF assms(1) that] m'(1) by simp_all
  show new: "p \<notin> fst ` set (areas m)" using below by force
  have ar: "set (areas m') = insert (p, max sz 1) (set (areas m))" using m' by (simp add: areas_def)
  have "\<forall>a \<in> set (areas m'). 0 < fst a \<and> 0 < snd a \<and> fst a + snd a \<le> m_limit m'"
  proof
    fix a assume "a \<in> set (areas m')"
    then consider "a = (p, max sz 1)" | "a \<in> set (areas m)" using ar by blast
    then show "0 < fst a \<and> 0 < snd a \<and> fst a + snd a \<le> m_limit m'"
      by cases (use m' assms(1) mem_okD [OF assms(1), of a] in \<open>auto simp: mem_ok_def\<close>)
  qed
  moreover have "apart a b" if "a \<in> set (areas m')" "b \<in> set (areas m')" "a \<noteq> b" for a b
    using that ar below [of a] below [of b] mem_okD(4) [OF assms(1), of a b] by (auto simp: apart_def)
  moreover have "fst ` set (m_heap m') \<inter> fst ` set (m_static m') = {}"
    using m' new assms(1) unfolding mem_ok_def areas_def by auto
  moreover have "0 < m_limit m'" using m' assms(1) by (simp add: mem_ok_def)
  ultimately show "mem_ok m'" unfolding mem_ok_def by blast
qed

lemma op_delete_result:
  assumes "mem_ok m" and "p \<in> heap_ptrs m"
  shows "\<exists>m'. op_delete p m = Some m' \<and> mem_ok m' \<and> set (areas m') = {a \<in> set (areas m). fst a \<noteq> p} \<and>
    heap_ptrs m' = heap_ptrs m - {p} \<and> m_at m' = m_at m \<and> set (m_heap m') = {a \<in> set (m_heap m). fst a \<noteq> p} \<and>
    m_limit m' = m_limit m"
proof -
  obtain n where n: "(p, n) \<in> set (m_heap m)" using assms(2) by (auto simp: heap_ptrs_def)
  have "0 < p" using mem_okD(1) [OF assms(1), of "(p, n)"] n by (simp add: areas_def)
  let ?m = "m\<lparr>m_heap := filter (\<lambda>a. fst a \<noteq> p) (m_heap m)\<rparr>"
  have "p \<notin> fst ` set (m_static m)" using assms n unfolding mem_ok_def heap_ptrs_def by blast
  then have "set (areas ?m) = {a \<in> set (areas m). fst a \<noteq> p}" by (force simp: areas_def)
  moreover from this assms(1) have "mem_ok ?m" unfolding mem_ok_def by auto
  moreover have "op_delete p m = Some ?m" using assms(2) \<open>0 < p\<close> by (simp add: op_delete_def heap_ptrs_def)
  moreover have "heap_ptrs ?m = heap_ptrs m - {p}" by (auto simp: heap_ptrs_def)
  ultimately show ?thesis by simp
qed

lemma op_delete_null: "op_delete 0 m = Some m"
  by (simp add: op_delete_def)

subsection \<open>Frames in a memory\<close>

text \<open>Each frame starts an area that has \<open>t\<close> more bytes.\<close>

definition frames_in :: "nat \<Rightarrow> mem \<Rightarrow> area list \<Rightarrow> bool" where
  "frames_in t m fs \<longleftrightarrow> distinct (map fst fs) \<and>
     (\<forall>f \<in> set fs. 0 < snd f \<and> (\<exists>n. (fst f, n) \<in> set (areas m) \<and> snd f + t \<le> n))"

lemma frames_in_apart:
  assumes "mem_ok m" and "frames_in t m fs"
  shows "all_apart fs"
  unfolding all_apart_def
proof (intro allI impI)
  fix i j assume ij: "i < length fs" "j < i"
  then have "fst (fs ! i) \<noteq> fst (fs ! j)"
    using assms(2) by (auto simp: frames_in_def distinct_conv_nth)
  moreover have "fs ! i \<in> set fs" "fs ! j \<in> set fs" using ij by simp_all
  moreover from this obtain n n' where "(fst (fs ! i), n) \<in> set (areas m)" "snd (fs ! i) + t \<le> n"
      "(fst (fs ! j), n') \<in> set (areas m)" "snd (fs ! j) + t \<le> n'" using assms(2) unfolding frames_in_def by blast
  moreover from calculation have "apart (fst (fs ! i), n) (fst (fs ! j), n')" using assms(1) unfolding mem_ok_def by blast
  ultimately show "apart (fs ! i) (fs ! j)" by (auto simp: apart_def)
qed

lemma frames_in_add:
  assumes "frames_in t m fs" and "p \<notin> fst ` set fs" and "0 < sz" and "(p, n) \<in> set (areas m')" and "sz + t \<le> n"
    and "set (areas m) \<subseteq> set (areas m')"
  shows "frames_in t m' (fs @ [(p, sz)])"
  using assms by (fastforce simp: frames_in_def)

lemma frames_in_remove:
  assumes "frames_in t m fs" and "i < length fs" and "{a \<in> set (areas m). fst a \<noteq> fst (fs ! i)} \<subseteq> set (areas m')"
  shows "frames_in t m' (remove_nth i fs)"
proof -
  have d: "distinct (map fst fs)" using assms(1) by (simp add: frames_in_def)
  show ?thesis using set_remove_nth [OF d assms(2)] assms(1,3) unfolding frames_in_def by fastforce
qed

lemma frames_in_sub:
  assumes "frames_in t m fs" and "q \<notin> fst ` set fs" and "{a \<in> set (areas m). fst a \<noteq> q} \<subseteq> set (areas m')"
  shows "frames_in t m' fs"
  unfolding frames_in_def
proof (intro conjI ballI)
  fix f assume f: "f \<in> set fs"
  then obtain n where "(fst f, n) \<in> set (areas m)" "snd f + t \<le> n" using assms(1) unfolding frames_in_def by blast
  moreover have "fst f \<noteq> q" using f assms(2) by blast
  ultimately show "\<exists>n. (fst f, n) \<in> set (areas m') \<and> snd f + t \<le> n" using assms(3) by auto
qed (use assms(1) in \<open>auto simp: frames_in_def\<close>)

text \<open>A write into a frame meets no other frame and nothing behind a frame.\<close>

lemma frames_in_write:
  assumes "mem_ok m" and "frames_in t m fs" and "f \<in> set fs" and "g \<in> set fs" and "off < snd f" and "j < t"
  shows "fst f + off \<noteq> fst g + snd g + j"
proof (cases "fst f = fst g")
  case True
  then have "f = g" using assms(2-4) by (auto simp: frames_in_def distinct_map dest: inj_onD)
  with assms(5) show ?thesis by simp
next
  case False
  obtain n n' where "(fst f, n) \<in> set (areas m)" "snd f + t \<le> n" "(fst g, n') \<in> set (areas m)" "snd g + t \<le> n'"
    using assms(2-4) unfolding frames_in_def by blast
  moreover from this False have "apart (fst f, n) (fst g, n')" using assms(1) unfolding mem_ok_def by blast
  ultimately show ?thesis using assms(5,6) by (auto simp: apart_def)
qed

lemma frames_in_poke [simp]: "frames_in t (poke_mem p v m) fs = frames_in t m fs"
  by (simp add: frames_in_def)


text \<open>A frame in a fresh block.\<close>

lemma heap_ptrs_areas: "p \<in> heap_ptrs m \<Longrightarrow> \<exists>n. (p, n) \<in> set (areas m)"
  by (auto simp: heap_ptrs_def areas_def)

lemma frames_in_notin:
  assumes "frames_in t m fs" and "p \<notin> fst ` set (areas m)"
  shows "p \<notin> fst ` set fs"
  using assms unfolding frames_in_def by force

lemma frames_in_null:
  assumes "mem_ok m" and "frames_in t m fs"
  shows "0 \<notin> fst ` set fs"
  using assms mem_okD(1) [OF assms(1)] unfolding frames_in_def by force

lemma new_frame:
  assumes m: "mem_ok m" and fs: "frames_in t m fs" and sz: "0 < sz" and new: "op_new (sz + t) m = (p, m')"
  shows "frames_in t m' (fs @ [(p, sz)])" and "p \<notin> fst ` set fs" and "(p, sz + t) \<in> set (areas m')"
proof -
  note n = op_new_result [OF m new]
  show "p \<notin> fst ` set fs" using frames_in_notin [OF fs n(5)] .
  moreover show "(p, sz + t) \<in> set (areas m')" using n(3) sz by (simp add: max_def)
  ultimately show "frames_in t m' (fs @ [(p, sz)])" using fs sz n(3) by (intro frames_in_add [where n = "sz + t"]) auto
qed

lemma drop_frame:
  assumes m: "mem_ok m" and fs: "frames_in t m fs" and i: "i < length fs" and h: "fst (fs ! i) \<in> heap_ptrs m"
  shows "\<exists>m'. op_delete (fst (fs ! i)) m = Some m' \<and> mem_ok m' \<and> frames_in t m' (remove_nth i fs) \<and>
    heap_ptrs m' = heap_ptrs m - {fst (fs ! i)} \<and> m_at m' = m_at m \<and>
    set (m_heap m') = {a \<in> set (m_heap m). fst a \<noteq> fst (fs ! i)} \<and> fst ` set (remove_nth i fs) = fst ` set fs - {fst (fs ! i)}"
proof -
  have d: "distinct (map fst fs)" using fs by (simp add: frames_in_def)
  have "fst ` set (remove_nth i fs) = fst ` set fs - {fst (fs ! i)}" using set_remove_nth(1) [OF d i] by auto
  then show ?thesis using op_delete_result [OF m h] frames_in_remove [OF fs i] by fastforce
qed

subsection \<open>The default storage keeps the contract\<close>

definition default_inv :: "ptr set \<Rightarrow> mem \<Rightarrow> area list \<Rightarrow> bool" where
  "default_inv base m fs \<longleftrightarrow> mem_ok m \<and> frames_in 0 m fs \<and> heap_ptrs m = base \<union> fst ` set fs \<and> base \<inter> fst ` set fs = {}"

lemma default_alloc_inv:
  assumes "default_inv base m fs" and "0 < sz"
  shows "\<exists>p m'. default_alloc sz m = Some (p, m') \<and> default_inv base m' (fs @ [(p, sz)])"
proof -
  have i: "mem_ok m" "frames_in 0 m fs" "heap_ptrs m = base \<union> fst ` set fs" "base \<inter> fst ` set fs = {}"
    using assms by (auto simp: default_inv_def)
  obtain p m' where new: "op_new (sz + 0) m = (p, m')" by (metis surj_pair)
  note n = op_new_result [OF i(1) new] new_frame [OF i(1,2) assms(2) new]
  have "p \<notin> base" using n(5) i(3) heap_ptrs_areas [of p m] by force
  then show ?thesis using new n i by (auto simp: default_alloc_def default_inv_def)
qed

lemma default_dealloc_inv:
  assumes "default_inv base m fs" and "i < length fs"
  shows "\<exists>m'. default_dealloc (fst (fs ! i)) (snd (fs ! i)) m = Some m' \<and> default_inv base m' (remove_nth i fs)"
proof -
  have m: "mem_ok m" "frames_in 0 m fs" and h: "heap_ptrs m = base \<union> fst ` set fs" "base \<inter> fst ` set fs = {}"
    using assms(1) by (auto simp: default_inv_def)
  have "fst (fs ! i) \<in> fst ` set fs" using assms(2) by simp
  with drop_frame [OF m assms(2)] h(1) obtain m' where "op_delete (fst (fs ! i)) m = Some m'" "mem_ok m'"
    "frames_in 0 m' (remove_nth i fs)" "heap_ptrs m' = heap_ptrs m - {fst (fs ! i)}"
    "fst ` set (remove_nth i fs) = fst ` set fs - {fst (fs ! i)}" by blast
  then show ?thesis using h \<open>fst (fs ! i) \<in> fst ` set fs\<close> by (auto simp: default_inv_def default_dealloc_def)
qed

interpretation dflt: frame_storage default_alloc default_dealloc poke_mem "default_inv base" "\<lambda>_ _. True" for base
proof
  fix m fs
  assume i: "default_inv base m fs"
  then show "all_apart fs" by (auto simp: default_inv_def intro: frames_in_apart)
  show "default_inv base (poke_mem p v m) fs" for p v using i by (simp add: default_inv_def)
qed (auto intro: default_alloc_inv default_dealloc_inv)

subsection \<open>The reusable storages\<close>

text \<open>The block of a reusable storage, which is not one of the other users' blocks \<open>base\<close>.\<close>

definition block_ok :: "reusable \<Rightarrow> bool" where
  "block_ok r \<longleftrightarrow> mem_ok (r_mem r) \<and>
     (r_ptr r = nullptr \<and> r_capacity r = 0 \<or> r_ptr r \<noteq> nullptr \<and> (r_ptr r, r_capacity r) \<in> set (m_heap (r_mem r)))"

lemma reusable_alloc_result:
  assumes ok: "block_ok r" and sz: "0 < sz"
  shows "\<exists>r'. reusable_alloc sz r = Some (r_ptr r', r') \<and> block_ok r' \<and> r_ptr r' \<noteq> nullptr \<and> sz \<le> r_capacity r' \<and>
    {a \<in> set (areas (r_mem r)). fst a \<noteq> r_ptr r} \<subseteq> set (areas (r_mem r')) \<and>
    heap_ptrs (r_mem r') = insert (r_ptr r') (heap_ptrs (r_mem r) - {r_ptr r}) \<and>
    r_ptr r' \<notin> fst ` {a \<in> set (areas (r_mem r)). fst a \<noteq> r_ptr r} \<and> m_at (r_mem r') = m_at (r_mem r)"
proof (cases "r_capacity r < sz")
  case False
  then have "r_ptr r \<noteq> nullptr" "(r_ptr r, r_capacity r) \<in> set (m_heap (r_mem r))" using ok sz by (auto simp: block_ok_def)
  moreover from this have "r_ptr r \<in> heap_ptrs (r_mem r)" by (force simp: heap_ptrs_def)
  ultimately show ?thesis using False ok by (auto simp: reusable_alloc_def insert_absorb)
next
  case True
  have m: "mem_ok (r_mem r)" using ok by (simp add: block_ok_def)
  have no: "0 \<notin> heap_ptrs (r_mem r)" using heap_ptrs_areas mem_okD(1) [OF m] by fastforce
  have "\<exists>m1. op_delete (r_ptr r) (r_mem r) = Some m1 \<and> mem_ok m1 \<and> set (areas m1) = {a \<in> set (areas (r_mem r)). fst a \<noteq> r_ptr r} \<and>
      heap_ptrs m1 = heap_ptrs (r_mem r) - {r_ptr r} \<and> m_at m1 = m_at (r_mem r)"
  proof (cases "r_ptr r = nullptr")
    case True
    then show ?thesis using m no mem_okD(1) [OF m] by (auto simp: op_delete_null)
  next
    case False
    then have "r_ptr r \<in> heap_ptrs (r_mem r)" using ok by (force simp: block_ok_def heap_ptrs_def)
    from op_delete_result [OF m this] show ?thesis by blast
  qed
  then obtain m1 where m1: "op_delete (r_ptr r) (r_mem r) = Some m1" "mem_ok m1"
    "set (areas m1) = {a \<in> set (areas (r_mem r)). fst a \<noteq> r_ptr r}"
    "heap_ptrs m1 = heap_ptrs (r_mem r) - {r_ptr r}" "m_at m1 = m_at (r_mem r)" by blast
  obtain p m2 where new: "op_new sz m1 = (p, m2)" by (metis surj_pair)
  note n = op_new_result [OF m1(2) new]
  have "max sz 1 = sz" using sz by simp
  with n(7) have "(p, sz) \<in> set (m_heap m2)" by simp
  then show ?thesis using True m1 new n by (auto simp: reusable_alloc_def block_ok_def)
qed


text \<open>One frame at a time: \<open>reusable_storage\<close>.\<close>

definition block_ptrs :: "reusable \<Rightarrow> ptr set" where
  "block_ptrs r = {r_ptr r} - {nullptr}"

definition reusable_inv :: "ptr set \<Rightarrow> reusable \<Rightarrow> area list \<Rightarrow> bool" where
  "reusable_inv base r fs \<longleftrightarrow> block_ok r \<and> frames_in 0 (r_mem r) fs \<and> (fs = [] \<or> (\<exists>sz. fs = [(r_ptr r, sz)])) \<and>
     heap_ptrs (r_mem r) = base \<union> block_ptrs r \<and> r_ptr r \<notin> base"

definition poke_block :: "ptr \<Rightarrow> nat \<Rightarrow> reusable \<Rightarrow> reusable" where
  "poke_block p v r = r\<lparr>r_mem := poke_mem p v (r_mem r)\<rparr>"

lemma poke_block_simps [simp]:
  "r_ptr (poke_block p v r) = r_ptr r" "r_capacity (poke_block p v r) = r_capacity r"
  "r_mem (poke_block p v r) = poke_mem p v (r_mem r)" "block_ok (poke_block p v r) = block_ok r"
  "block_ptrs (poke_block p v r) = block_ptrs r"
  by (simp_all add: poke_block_def block_ok_def block_ptrs_def)

lemma block_area:
  assumes "block_ok r" and "r_ptr r \<noteq> nullptr"
  shows "(r_ptr r, r_capacity r) \<in> set (areas (r_mem r))"
  using assms by (auto simp: block_ok_def areas_def)

lemma new_base:
  assumes "p \<notin> fst ` {a \<in> set (areas m). fst a \<noteq> q}" and "base \<subseteq> heap_ptrs m" and "q \<notin> base"
  shows "p \<notin> base"
proof
  assume "p \<in> base"
  then obtain n where "(p, n) \<in> set (areas m)" "p \<noteq> q" using assms(2,3) heap_ptrs_areas by blast
  with assms(1) show False by force
qed

lemma reusable_alloc_inv:
  assumes "reusable_inv base r []" and "0 < sz"
  shows "\<exists>p r'. reusable_alloc sz r = Some (p, r') \<and> reusable_inv base r' [(p, sz)]"
proof -
  have i: "block_ok r" "heap_ptrs (r_mem r) = base \<union> block_ptrs r" "r_ptr r \<notin> base"
    using assms by (auto simp: reusable_inv_def)
  obtain r' where r': "reusable_alloc sz r = Some (r_ptr r', r')" "block_ok r'" "r_ptr r' \<noteq> nullptr" "sz \<le> r_capacity r'"
    "heap_ptrs (r_mem r') = insert (r_ptr r') (heap_ptrs (r_mem r) - {r_ptr r})"
    "r_ptr r' \<notin> fst ` {a \<in> set (areas (r_mem r)). fst a \<noteq> r_ptr r}"
    using reusable_alloc_result [OF i(1) assms(2)] by blast
  have "r_ptr r' \<notin> base" using new_base [OF r'(6) _ i(3)] i(2) by blast
  moreover have "heap_ptrs (r_mem r') = base \<union> block_ptrs r'" using r'(3,5) i(2,3) by (auto simp: block_ptrs_def)
  moreover have "frames_in 0 (r_mem r') [(r_ptr r', sz)]"
    using block_area [OF r'(2,3)] r'(4) assms(2) by (auto simp: frames_in_def)
  ultimately show ?thesis using r' by (simp add: reusable_inv_def)
qed

interpretation reus: frame_storage reusable_alloc reusable_dealloc poke_block "reusable_inv base" "\<lambda>n _. n = 0" for base
proof
  fix r fs
  assume i: "reusable_inv base r fs"
  then show "all_apart fs" by (auto simp: reusable_inv_def block_ok_def intro: frames_in_apart)
  show "reusable_inv base (poke_block p v r) fs" for p v using i by (simp add: reusable_inv_def)
  show "\<exists>p r'. reusable_alloc sz r = Some (p, r') \<and> reusable_inv base r' (fs @ [(p, sz)])" if "length fs = 0" "0 < sz" for sz
    using reusable_alloc_inv [of base r sz] i that by simp
  show "\<exists>r'. reusable_dealloc (fst (fs ! j)) (snd (fs ! j)) r = Some r' \<and> reusable_inv base r' (remove_nth j fs)"
    if "j < length fs" for j
    using i that by (auto simp: reusable_inv_def reusable_dealloc_def remove_nth_def frames_in_def)
qed

lemma reusable_move_inv:
  assumes "reusable_inv base r fs" and "reusable_move (r_ptr r, r_capacity r) = ((p, c), q)"
  shows "reusable_inv base (r\<lparr>r_ptr := p, r_capacity := c\<rparr>) fs \<and> q = (nullptr, 0)"
  using assms by (auto simp: reusable_move_def)

text \<open>Any number of frames: \<open>reusable_storage_mtsafe\<close>.\<close>

definition mtsafe_inv :: "ptr set \<Rightarrow> mtsafe \<Rightarrow> area list \<Rightarrow> bool" where
  "mtsafe_inv base s fs \<longleftrightarrow>
     block_ok (mt_block s) \<and> frames_in pointer_size (r_mem (mt_block s)) fs \<and>
     (\<forall>f \<in> set fs. m_at (r_mem (mt_block s)) (fst f + snd f) = mt_this s) \<and>
     (mt_busy s \<longleftrightarrow> r_ptr (mt_block s) \<in> fst ` set fs) \<and>
     heap_ptrs (r_mem (mt_block s)) = base \<union> block_ptrs (mt_block s) \<union> fst ` set fs \<and>
     base \<inter> (fst ` set fs \<union> {r_ptr (mt_block s)}) = {}"

definition poke_mtsafe :: "ptr \<Rightarrow> nat \<Rightarrow> mtsafe \<Rightarrow> mtsafe" where
  "poke_mtsafe p v s = s\<lparr>mt_block := poke_block p v (mt_block s)\<rparr>"

lemma frame_end_fresh:
  assumes "mem_ok m" and "frames_in t m fs" and "0 < t" and "f \<in> set fs" and "g \<in> set fs" and "f \<noteq> g"
  shows "fst f + snd f \<noteq> fst g + snd g"
proof -
  have ne: "fst f \<noteq> fst g" using assms(2,4-6) by (auto simp: frames_in_def distinct_map dest: inj_onD)
  obtain n n' where "(fst f, n) \<in> set (areas m)" "snd f + t \<le> n" "(fst g, n') \<in> set (areas m)" "snd g + t \<le> n'"
    using assms(2,4,5) unfolding frames_in_def by blast
  moreover from this ne have "apart (fst f, n) (fst g, n')" using mem_okD(4) [OF assms(1)] by blast
  ultimately show ?thesis using assms(3) by (auto simp: apart_def)
qed

lemma mtsafe_write_inv:
  assumes "mtsafe_inv base s fs" and "i < length fs" and "off < snd (fs ! i)"
  shows "mtsafe_inv base (poke_mtsafe (fst (fs ! i) + off) v s) fs"
proof -
  have m: "mem_ok (r_mem (mt_block s))" "frames_in pointer_size (r_mem (mt_block s)) fs"
    using assms(1) by (auto simp: mtsafe_inv_def block_ok_def)
  have "fst f + snd f \<noteq> fst (fs ! i) + off" if "f \<in> set fs" for f
    using frames_in_write [OF m, of "fs ! i" f off 0] assms(2,3) that by (simp add: pointer_size_def)
  then show ?thesis using assms(1) by (auto simp: mtsafe_inv_def poke_mtsafe_def)
qed

text \<open>The trailer of a new frame is written without harm to the others.\<close>

lemma mtsafe_add_frame:
  assumes r: "block_ok r" and fs: "frames_in pointer_size (r_mem r) (fs @ [(p, sz)])"
    and tr: "\<forall>f \<in> set fs. m_at (r_mem r) (fst f + snd f) = mt_this s"
    and h: "heap_ptrs (r_mem r) = base \<union> block_ptrs r \<union> insert p (fst ` set fs)"
    and b: "base \<inter> (insert p (fst ` set fs) \<union> {r_ptr r}) = {}" and busy: "r_ptr r \<in> insert p (fst ` set fs)"
  shows "\<exists>m. store_at (p + sz) pointer_size (mt_this s) (r_mem r) = Some m \<and>
    mtsafe_inv base (s\<lparr>mt_busy := True, mt_block := r\<lparr>r_mem := m\<rparr>\<rparr>) (fs @ [(p, sz)])"
proof -
  obtain n where n: "(p, n) \<in> set (areas (r_mem r))" "sz + pointer_size \<le> n" using fs by (auto simp: frames_in_def)
  let ?m = "poke_mem (p + sz) (mt_this s) (r_mem r)"
  have "p \<notin> fst ` set fs" using fs by (auto simp: frames_in_def)
  have "fst f + snd f \<noteq> p + sz" if "f \<in> set fs" for f
  proof -
    have "f \<noteq> (p, sz)" using that \<open>p \<notin> fst ` set fs\<close> by force
    moreover have "mem_ok (r_mem r)" using r by (simp add: block_ok_def)
    ultimately show ?thesis using frame_end_fresh [OF _ fs, of f "(p, sz)"] that by (simp add: pointer_size_def)
  qed
  with tr have "\<forall>f \<in> set (fs @ [(p, sz)]). m_at ?m (fst f + snd f) = mt_this s" by auto
  moreover have "block_ok (r\<lparr>r_mem := ?m\<rparr>)" using r poke_block_simps(4) [of "p + sz" "mt_this s" r] by (simp add: poke_block_def)
  moreover have "store_at (p + sz) pointer_size (mt_this s) (r_mem r) = Some ?m" using n by (rule store_at_poke)
  ultimately show ?thesis using fs h b busy by (auto simp: mtsafe_inv_def block_ptrs_def)
qed

lemma mtsafe_alloc_inv:
  assumes i: "mtsafe_inv base s fs" and sz: "0 < sz"
  shows "\<exists>p s'. mtsafe_alloc sz s = Some (p, s') \<and> mtsafe_inv base s' (fs @ [(p, sz)])"
proof (cases "mt_busy s")
  case True
  let ?r = "mt_block s"
  have ok: "block_ok ?r" "mem_ok (r_mem ?r)" "frames_in pointer_size (r_mem ?r) fs" "r_ptr ?r \<in> fst ` set fs"
    using i True by (auto simp: mtsafe_inv_def block_ok_def)
  obtain p m where new: "op_new (sz + pointer_size) (r_mem ?r) = (p, m)" by (metis surj_pair)
  note n = op_new_result [OF ok(2) new] new_frame [OF ok(2,3) sz new]
  have "p \<notin> heap_ptrs (r_mem ?r)" using n(5) heap_ptrs_areas by force
  have "\<exists>m1. store_at (p + sz) pointer_size (mt_this s) (r_mem (?r\<lparr>r_mem := m\<rparr>)) = Some m1 \<and>
    mtsafe_inv base (s\<lparr>mt_busy := True, mt_block := (?r\<lparr>r_mem := m\<rparr>)\<lparr>r_mem := m1\<rparr>\<rparr>) (fs @ [(p, sz)])"
  proof (rule mtsafe_add_frame)
    show "block_ok (?r\<lparr>r_mem := m\<rparr>)" using ok(1) n(2,9) by (auto simp: block_ok_def)
  qed (use i n ok \<open>p \<notin> heap_ptrs (r_mem ?r)\<close> in \<open>auto simp: mtsafe_inv_def block_ptrs_def\<close>)
  then show ?thesis using True new by (auto simp: mtsafe_alloc_def)
next
  case False
  let ?r = "mt_block s"
  have ok: "block_ok ?r" "frames_in pointer_size (r_mem ?r) fs" "r_ptr ?r \<notin> fst ` set fs"
    and h: "heap_ptrs (r_mem ?r) = base \<union> block_ptrs ?r \<union> fst ` set fs" "base \<inter> fst ` set fs = {}" "r_ptr ?r \<notin> base"
    and tr: "\<forall>f \<in> set fs. m_at (r_mem ?r) (fst f + snd f) = mt_this s"
    using i False by (auto simp: mtsafe_inv_def)
  have pos: "0 < sz + pointer_size" by (simp add: pointer_size_def)
  obtain r' where r': "reusable_alloc (sz + pointer_size) ?r = Some (r_ptr r', r')" "block_ok r'" "r_ptr r' \<noteq> nullptr"
    "sz + pointer_size \<le> r_capacity r'" "{a \<in> set (areas (r_mem ?r)). fst a \<noteq> r_ptr ?r} \<subseteq> set (areas (r_mem r'))"
    "heap_ptrs (r_mem r') = insert (r_ptr r') (heap_ptrs (r_mem ?r) - {r_ptr ?r})"
    "r_ptr r' \<notin> fst ` {a \<in> set (areas (r_mem ?r)). fst a \<noteq> r_ptr ?r}" "m_at (r_mem r') = m_at (r_mem ?r)"
    using reusable_alloc_result [OF ok(1) pos] by blast
  have nb: "r_ptr r' \<notin> base" using new_base [OF r'(7) _ h(3)] h(1) by blast
  have nf: "r_ptr r' \<notin> fst ` set fs" using new_base [OF r'(7) _ ok(3)] h(1) by blast
  have fs: "frames_in pointer_size (r_mem r') fs" 
    using frames_in_sub [OF ok(2,3) r'(5)] .
  have "frames_in pointer_size (r_mem r') (fs @ [(r_ptr r', sz)])"
    by (rule frames_in_add [OF fs nf sz block_area [OF r'(2,3)] r'(4)]) simp
  then have "\<exists>m1. store_at (r_ptr r' + sz) pointer_size (mt_this s) (r_mem r') = Some m1 \<and>
    mtsafe_inv base (s\<lparr>mt_busy := True, mt_block := r'\<lparr>r_mem := m1\<rparr>\<rparr>) (fs @ [(r_ptr r', sz)])"
    by (rule mtsafe_add_frame [OF r'(2)]) (use h tr r'(3,6,8) nb ok(3) in \<open>auto simp: block_ptrs_def\<close>)
  then show ?thesis using False r'(1) by (auto simp: mtsafe_alloc_def)
qed

lemma mtsafe_dealloc_inv:
  assumes i: "mtsafe_inv base s fs" and j: "j < length fs"
  shows "\<exists>s'. mtsafe_dealloc (fst (fs ! j)) (snd (fs ! j)) s = Some s' \<and> mtsafe_inv base s' (remove_nth j fs)"
proof -
  let ?r = "mt_block s" and ?p = "fst (fs ! j)"
  have ok: "block_ok ?r" "mem_ok (r_mem ?r)" "frames_in pointer_size (r_mem ?r) fs"
    and h: "heap_ptrs (r_mem ?r) = base \<union> block_ptrs ?r \<union> fst ` set fs" "base \<inter> fst ` set fs = {}" "r_ptr ?r \<notin> base"
    and tr: "\<forall>f \<in> set fs. m_at (r_mem ?r) (fst f + snd f) = mt_this s"
    and busy: "mt_busy s \<longleftrightarrow> r_ptr ?r \<in> fst ` set fs"
    using i by (auto simp: mtsafe_inv_def block_ok_def)
  have p: "fs ! j \<in> set fs" "?p \<in> fst ` set fs" using j by simp_all
  have d: "distinct (map fst fs)" using ok(3) by (simp add: frames_in_def)
  have rem: "fst ` set (remove_nth j fs) = fst ` set fs - {?p}" using set_remove_nth(1) [OF d j] by auto
  have tr': "\<forall>f \<in> set (remove_nth j fs). m_at (r_mem ?r) (fst f + snd f) = mt_this s"
    using tr set_remove_nth_subset [of j fs] by blast
  have me: "m_at (r_mem ?r) (?p + snd (fs ! j)) = mt_this s" using tr p(1) by blast
  show ?thesis
  proof (cases "?p = r_ptr ?r")
    case True
    have "frames_in pointer_size (r_mem ?r) (remove_nth j fs)" using frames_in_remove [OF ok(3) j] by blast
    moreover have "r_ptr ?r \<noteq> 0" using frames_in_null [OF ok(2,3)] True p(2) by metis
    ultimately have "mtsafe_inv base (s\<lparr>mt_busy := False\<rparr>) (remove_nth j fs)"
      using True ok(1) tr' rem h p(2) by (auto simp: mtsafe_inv_def block_ptrs_def)
    then show ?thesis using True me by (simp add: mtsafe_dealloc_def)
  next
    case False
    have "?p \<in> heap_ptrs (r_mem ?r)" using h p by blast
    from drop_frame [OF ok(2,3) j this] obtain m' where m': "op_delete ?p (r_mem ?r) = Some m'" "mem_ok m'"
      "frames_in pointer_size m' (remove_nth j fs)" "heap_ptrs m' = heap_ptrs (r_mem ?r) - {?p}" "m_at m' = m_at (r_mem ?r)"
      "set (m_heap m') = {a \<in> set (m_heap (r_mem ?r)). fst a \<noteq> ?p}" by blast
    have "block_ok (?r\<lparr>r_mem := m'\<rparr>)" using ok(1) m'(2,6) False by (auto simp: block_ok_def)
    then have "mtsafe_inv base (s\<lparr>mt_block := ?r\<lparr>r_mem := m'\<rparr>\<rparr>) (remove_nth j fs)"
      using m' tr' rem h busy False p(2) by (auto simp: mtsafe_inv_def block_ptrs_def)
    then show ?thesis using False me m'(1) by (simp add: mtsafe_dealloc_def)
  qed
qed

interpretation mts: frame_storage mtsafe_alloc mtsafe_dealloc poke_mtsafe "mtsafe_inv base" "\<lambda>_ _. True" for base
proof
  fix s fs
  assume i: "mtsafe_inv base s fs"
  then show "all_apart fs" by (auto simp: mtsafe_inv_def block_ok_def intro: frames_in_apart)
qed (auto intro: mtsafe_alloc_inv mtsafe_dealloc_inv mtsafe_write_inv)


subsection \<open>Storages for one frame\<close>

text \<open>\<open>static_storage\<close>, in a buffer of its own.\<close>

definition static_inv :: "nat \<Rightarrow> static \<Rightarrow> area list \<Rightarrow> bool" where
  "static_inv space s fs \<longleftrightarrow> s_space s = space \<and> mem_ok (s_mem s) \<and> (s_buffer s, adjspace s) \<in> set (areas (s_mem s)) \<and>
     frames_in pointer_size (s_mem s) fs \<and> (fs = [] \<or> (\<exists>sz. fs = [(s_buffer s, sz)]))"

definition poke_static :: "ptr \<Rightarrow> nat \<Rightarrow> static \<Rightarrow> static" where
  "poke_static p v s = s\<lparr>s_mem := poke_mem p v (s_mem s)\<rparr>"

definition static_room :: "nat \<Rightarrow> nat \<Rightarrow> nat \<Rightarrow> bool" where
  "static_room space n sz \<longleftrightarrow> n = 0 \<and> sz + pointer_size \<le> space * multiplier div 100"

interpretation stat: frame_storage static_alloc static_dealloc poke_static "static_inv space" "static_room space" for space
proof
  fix s fs
  assume i: "static_inv space s fs"
  then show "all_apart fs" by (auto simp: static_inv_def intro: frames_in_apart)
  show "static_inv space (poke_static p v s) fs" for p v
    using i by (auto simp: static_inv_def poke_static_def adjspace_def)
  show "\<exists>p s'. static_alloc sz s = Some (p, s') \<and> static_inv space s' (fs @ [(p, sz)])"
    if "static_room space (length fs) sz" "0 < sz" for sz
  proof -
    have b: "fs = []" "sz + pointer_size \<le> adjspace s" "(s_buffer s, adjspace s) \<in> set (areas (s_mem s))"
      using that i by (auto simp: static_room_def static_inv_def adjspace_def)
    then show ?thesis using i that(2) store_at_poke [OF b(3,2)]
      by (auto simp: static_alloc_def static_inv_def frames_in_def adjspace_def)
  qed
  show "\<exists>s'. static_dealloc (fst (fs ! j)) (snd (fs ! j)) s = Some s' \<and> static_inv space s' (remove_nth j fs)"
    if "j < length fs" for j
    using i that by (auto simp: static_inv_def static_dealloc_def remove_nth_def frames_in_def)
qed

text \<open>\<open>placement_alloc\<close>, in memory of \<open>n\<close> bytes at \<open>p\<close>.\<close>

definition placement_inv :: "ptr \<Rightarrow> nat \<Rightarrow> mem \<Rightarrow> area list \<Rightarrow> bool" where
  "placement_inv p n m fs \<longleftrightarrow> mem_ok m \<and> (p, n) \<in> set (areas m) \<and> frames_in 0 m fs \<and> (fs = [] \<or> (\<exists>sz. fs = [(p, sz)]))"

interpretation plac: frame_storage "placement_alloc p" placement_dealloc poke_mem "placement_inv p n" "\<lambda>k sz. k = 0 \<and> sz \<le> n"
  for p n
proof
  fix m fs
  assume i: "placement_inv p n m fs"
  then show "all_apart fs" by (auto simp: placement_inv_def intro: frames_in_apart)
  show "\<exists>q m'. placement_alloc p sz m = Some (q, m') \<and> placement_inv p n m' (fs @ [(q, sz)])"
    if "length fs = 0 \<and> sz \<le> n" "0 < sz" for sz
    using i that by (auto simp: placement_inv_def placement_alloc_def frames_in_def)
  show "\<exists>m'. placement_dealloc (fst (fs ! j)) (snd (fs ! j)) m = Some m' \<and> placement_inv p n m' (remove_nth j fs)"
    if "j < length fs" for j
    using i that by (auto simp: placement_inv_def placement_dealloc_def remove_nth_def frames_in_def)
qed (simp add: placement_inv_def)

text \<open>\<open>reusable_buffer_storage\<close>: the vector's items cover the frame.\<close>

definition buffer_inv :: "ptr set \<Rightarrow> buffer \<Rightarrow> area list \<Rightarrow> bool" where
  "buffer_inv base b fs \<longleftrightarrow> mem_ok (b_mem b) \<and> 0 < b_itemsz b \<and>
     (b_data b = nullptr \<and> b_size b = 0 \<or>
      b_data b \<noteq> nullptr \<and> (\<exists>n. (b_data b, n) \<in> set (m_heap (b_mem b)) \<and> b_size b * b_itemsz b \<le> n)) \<and>
     frames_in 0 (b_mem b) fs \<and> (fs = [] \<or> (\<exists>sz. fs = [(b_data b, sz)])) \<and>
     heap_ptrs (b_mem b) = base \<union> ({b_data b} - {nullptr}) \<and> b_data b \<notin> base"

definition poke_buffer :: "ptr \<Rightarrow> nat \<Rightarrow> buffer \<Rightarrow> buffer" where
  "poke_buffer p v b = b\<lparr>b_mem := poke_mem p v (b_mem b)\<rparr>"

lemma vector_resize_result:
  assumes "buffer_inv base b []"
  shows "\<exists>b'. vector_resize n b = Some b' \<and> buffer_inv base b' [] \<and> b_size b' = n \<and> b_itemsz b' = b_itemsz b"
proof -
  have i: "mem_ok (b_mem b)" "heap_ptrs (b_mem b) = base \<union> ({b_data b} - {nullptr})" "b_data b \<notin> base"
    using assms by (auto simp: buffer_inv_def)
  obtain p m where new: "op_new (n * b_itemsz b) (b_mem b) = (p, m)" by (metis surj_pair)
  note nw = op_new_result [OF i(1) new]
  have p: "p \<notin> heap_ptrs (b_mem b)" "p \<noteq> 0" using nw(5,8) heap_ptrs_areas by force+
  have "\<exists>m'. op_delete (b_data b) m = Some m' \<and> mem_ok m' \<and> heap_ptrs m' = base \<union> {p} \<and>
      (p, max (n * b_itemsz b) 1) \<in> set (m_heap m')"
  proof (cases "b_data b = nullptr")
    case True
    then show ?thesis using nw(2,4,7) i(2) by (auto simp: op_delete_null)
  next
    case False
    then have "b_data b \<in> heap_ptrs m" "b_data b \<noteq> p" using nw(4) i(2) p by auto
    from op_delete_result [OF nw(2) this(1)] obtain m' where "op_delete (b_data b) m = Some m'" "mem_ok m'"
      "heap_ptrs m' = heap_ptrs m - {b_data b}" "set (m_heap m') = {a \<in> set (m_heap m). fst a \<noteq> b_data b}" by blast
    then show ?thesis using nw(4,7) i(2,3) \<open>b_data b \<noteq> p\<close> by auto
  qed
  then obtain m' where m': "op_delete (b_data b) m = Some m'" "mem_ok m'" "heap_ptrs m' = base \<union> {p}"
    "(p, max (n * b_itemsz b) 1) \<in> set (m_heap m')" by blast
  moreover have "n * b_itemsz b \<le> max (n * b_itemsz b) 1" by simp
  ultimately have "buffer_inv base (b\<lparr>b_data := p, b_size := n, b_mem := m'\<rparr>) []"
    using assms p i(2) by (auto simp: buffer_inv_def frames_in_def)
  then show ?thesis using new m'(1) by (simp add: vector_resize_def)
qed

lemma items_cover: "0 < k \<Longrightarrow> sz \<le> (sz + k - 1) div k * (k :: nat)"
  using div_mult_mod_eq [of "sz + k - 1" k] mod_less_divisor [of k "sz + k - 1"] by linarith

lemma buffer_frame:
  assumes i: "buffer_inv base b []" and sz: "0 < sz" "sz \<le> b_size b * b_itemsz b"
  shows "buffer_inv base b [(b_data b, sz)]"
proof -
  obtain n where "(b_data b, n) \<in> set (m_heap (b_mem b))" "b_size b * b_itemsz b \<le> n" using i sz by (auto simp: buffer_inv_def)
  then have "frames_in 0 (b_mem b) [(b_data b, sz)]" using sz by (auto simp: frames_in_def areas_def intro!: exI [of _ n])
  then show ?thesis using i by (simp add: buffer_inv_def)
qed

interpretation buff: frame_storage buffer_alloc buffer_dealloc poke_buffer "buffer_inv base" "\<lambda>n _. n = 0" for base
proof
  fix b fs
  assume i: "buffer_inv base b fs"
  then show "all_apart fs" by (auto simp: buffer_inv_def intro: frames_in_apart)
  show "buffer_inv base (poke_buffer p v b) fs" for p v using i by (simp add: buffer_inv_def poke_buffer_def)
  show "\<exists>p b'. buffer_alloc sz b = Some (p, b') \<and> buffer_inv base b' (fs @ [(p, sz)])" if "length fs = 0" "0 < sz" for sz
  proof -
    let ?n = "(sz + b_itemsz b - 1) div b_itemsz b"
    have fs: "fs = []" "buffer_inv base b []" "0 < b_itemsz b" using i that by (auto simp: buffer_inv_def)
    have cover: "sz \<le> ?n * b_itemsz b" using items_cover [OF fs(3)] .
    show ?thesis
    proof (cases "b_size b < ?n")
      case True
      obtain b' where b': "vector_resize ?n b = Some b'" "buffer_inv base b' []" "b_size b' = ?n" "b_itemsz b' = b_itemsz b"
        using vector_resize_result [OF fs(2)] by blast
      with buffer_frame [OF b'(2) that(2)] cover have "buffer_inv base b' [(b_data b', sz)]" by simp
      with True b' fs(1) show ?thesis by (simp add: buffer_alloc_def Let_def)
    next
      case False
      then have "sz \<le> b_size b * b_itemsz b" using cover by (meson le_trans mult_le_mono1 not_less)
      with buffer_frame [OF fs(2) that(2)] False fs(1) show ?thesis by (simp add: buffer_alloc_def Let_def)
    qed
  qed
  show "\<exists>b'. buffer_dealloc (fst (fs ! j)) (snd (fs ! j)) b = Some b' \<and> buffer_inv base b' (remove_nth j fs)"
    if "j < length fs" for j
    using i that by (auto simp: buffer_inv_def buffer_dealloc_def remove_nth_def frames_in_def)
qed


text \<open>
  \<open>stack_storage\<close>: the flag behind the frame says where it came from. \<open>area\<close> is the memory
  that the caller has taken from its stack for the size the storage asked for.
\<close>

definition stack_inv :: "ptr set \<Rightarrow> stackst \<Rightarrow> area list \<Rightarrow> bool" where
  "stack_inv base k fs \<longleftrightarrow> mem_ok (k_mem k) \<and>
     (0 < k_size k \<longrightarrow> (\<exists>n. (k_ptr k, n) \<in> set (areas (k_mem k)) \<and> k_size k \<le> n \<and> k_ptr k \<notin> heap_ptrs (k_mem k))) \<and>
     frames_in 1 (k_mem k) fs \<and>
     (fs = [] \<and> heap_ptrs (k_mem k) = base \<or>
      (\<exists>p sz. fs = [(p, sz)] \<and>
        (m_at (k_mem k) (p + sz) = 0 \<and> p = k_ptr k \<and> heap_ptrs (k_mem k) = base \<or>
         m_at (k_mem k) (p + sz) = 1 \<and> heap_ptrs (k_mem k) = insert p base \<and> p \<notin> base)))"

definition poke_stack :: "ptr \<Rightarrow> nat \<Rightarrow> stackst \<Rightarrow> stackst" where
  "poke_stack p v k = k\<lparr>k_mem := poke_mem p v (k_mem k)\<rparr>"

lemma stack_alloc_on_stack:
  assumes i: "stack_inv base k []" and sz: "0 < sz" "sz + 1 \<le> k_size k"
  shows "\<exists>k'. stack_alloc sz k = Some (k_ptr k, k') \<and> stack_inv base k' [(k_ptr k, sz)] \<and> k_state k' = k_state k \<and>
    heap_ptrs (k_mem k') = base"
proof -
  obtain n where n: "(k_ptr k, n) \<in> set (areas (k_mem k))" "sz + 1 \<le> n" using i sz by (auto simp: stack_inv_def)
  have "frames_in 1 (k_mem k) [(k_ptr k, sz)]" using n sz by (auto simp: frames_in_def)
  then show ?thesis using store_at_poke [OF n] i sz by (auto simp: stack_alloc_def stack_inv_def)
qed

lemma stack_alloc_on_heap:
  assumes i: "stack_inv base k []" and sz: "0 < sz" "\<not> sz + 1 \<le> k_size k"
  shows "\<exists>p k'. stack_alloc sz k = Some (p, k') \<and> stack_inv base k' [(p, sz)] \<and> k_state k' = sz + 1"
proof -
  have m: "mem_ok (k_mem k)" "frames_in 1 (k_mem k) []" "heap_ptrs (k_mem k) = base" using i by (auto simp: stack_inv_def)
  obtain p m where new: "op_new (sz + 1) (k_mem k) = (p, m)" by (metis surj_pair)
  note n = op_new_result [OF m(1) new] new_frame [OF m(1,2) sz(1) new]
  have fresh: "p \<notin> base" using n(5) m(3) heap_ptrs_areas by force
  have st: "\<exists>n. (k_ptr k, n) \<in> set (areas m) \<and> k_size k \<le> n \<and> k_ptr k \<notin> heap_ptrs m" if pos: "0 < k_size k"
  proof -
    obtain n' where "(k_ptr k, n') \<in> set (areas (k_mem k))" "k_size k \<le> n'" "k_ptr k \<notin> heap_ptrs (k_mem k)"
      using i pos by (auto simp: stack_inv_def)
    moreover from this have "k_ptr k \<noteq> p" using n(5) by force
    ultimately show ?thesis using n(3,4) by auto
  qed
  have "store_at (p + sz) 1 1 m = Some (poke_mem (p + sz) 1 m)" using n(12) by (intro store_at_poke) auto
  then show ?thesis using new sz n(2,4,10) fresh st m(3) by (auto simp: stack_alloc_def stack_inv_def)
qed

lemma stack_dealloc_inv:
  assumes i: "stack_inv base k [(p, sz)]"
  shows "\<exists>k'. stack_dealloc p sz k = Some k' \<and> stack_inv base k' []"
proof (cases "m_at (k_mem k) (p + sz) = 0")
  case True
  then show ?thesis using i by (auto simp: stack_dealloc_def stack_inv_def frames_in_def)
next
  case False
  then have h: "mem_ok (k_mem k)" "heap_ptrs (k_mem k) = insert p base" "p \<notin> base" using i by (auto simp: stack_inv_def)
  then have "p \<in> heap_ptrs (k_mem k)" by simp
  from op_delete_result [OF h(1) this] obtain m' where m': "op_delete p (k_mem k) = Some m'" "mem_ok m'"
    "set (areas m') = {a \<in> set (areas (k_mem k)). fst a \<noteq> p}" "heap_ptrs m' = base" using h(2,3) by auto
  have "\<exists>n. (k_ptr k, n) \<in> set (areas m') \<and> k_size k \<le> n \<and> k_ptr k \<notin> heap_ptrs m'" if "0 < k_size k"
    using i that m'(3,4) h(2) by (auto simp: stack_inv_def)
  then show ?thesis using False m' by (auto simp: stack_dealloc_def stack_inv_def frames_in_def)
qed

lemma stack_write_inv:
  assumes i: "stack_inv base k fs" and j: "j < length fs" and off: "off < snd (fs ! j)"
  shows "stack_inv base (poke_stack (fst (fs ! j) + off) v k) fs"
proof -
  obtain p sz where fs: "fs = [(p, sz)]" "fs ! j = (p, sz)" using i j by (auto simp: stack_inv_def)
  have "off < sz" using off fs by simp
  then show ?thesis using i fs by (auto simp: stack_inv_def poke_stack_def)
qed

interpretation stck: frame_storage stack_alloc stack_dealloc poke_stack "stack_inv base" "\<lambda>n _. n = 0" for base
proof
  fix k fs
  assume i: "stack_inv base k fs"
  then show "all_apart fs" by (auto simp: stack_inv_def intro: frames_in_apart)
  show "stack_inv base (poke_stack (fst (fs ! j) + off) v k) fs" if "j < length fs" "off < snd (fs ! j)" for j off v
    using i that by (rule stack_write_inv)
  show "\<exists>p k'. stack_alloc sz k = Some (p, k') \<and> stack_inv base k' (fs @ [(p, sz)])" if "length fs = 0" "0 < sz" for sz
    using stack_alloc_on_stack [of base k sz] stack_alloc_on_heap [of base k sz] i that by (cases "sz + 1 \<le> k_size k") auto
  show "\<exists>k'. stack_dealloc (fst (fs ! j)) (snd (fs ! j)) k = Some k' \<and> stack_inv base k' (remove_nth j fs)"
    if j: "j < length fs" for j
  proof -
    obtain p sz where "fs = [(p, sz)]" using i j by (auto simp: stack_inv_def)
    with stack_dealloc_inv [of base k p sz] i j show ?thesis by (simp add: remove_nth_def)
  qed
qed

subsection \<open>An object behind the frame\<close>

definition extra_inv :: "ptr set \<Rightarrow> nat \<Rightarrow> extra \<Rightarrow> area list \<Rightarrow> bool" where
  "extra_inv base obj x fs \<longleftrightarrow> x_objsz x = obj \<and> 0 < obj \<and> mem_ok (x_mem x) \<and> frames_in obj (x_mem x) fs \<and>
     mset (x_live x) = image_mset (\<lambda>f. fst f + snd f) (mset fs) \<and>
     heap_ptrs (x_mem x) = base \<union> fst ` set fs \<and> base \<inter> fst ` set fs = {}"

definition poke_extra :: "ptr \<Rightarrow> nat \<Rightarrow> extra \<Rightarrow> extra" where
  "poke_extra p v x = x\<lparr>x_mem := poke_mem p v (x_mem x)\<rparr>"

lemma mset_remove_nth: "i < length xs \<Longrightarrow> mset (remove_nth i xs) = mset xs - {#xs ! i#}"
proof -
  assume "i < length xs"
  then have "xs = take i xs @ xs ! i # drop (Suc i) xs" by (rule id_take_nth_drop)
  then have "mset xs = mset (take i xs @ xs ! i # drop (Suc i) xs)" by simp
  then show ?thesis by (simp add: remove_nth_def)
qed

interpretation extr: frame_storage extra_alloc extra_dealloc poke_extra "extra_inv base obj" "\<lambda>_ _. True" for base obj
proof
  fix x fs
  assume i: "extra_inv base obj x fs"
  then have m: "mem_ok (x_mem x)" "frames_in obj (x_mem x) fs" and h: "heap_ptrs (x_mem x) = base \<union> fst ` set fs"
    and o: "x_objsz x = obj" by (auto simp: extra_inv_def)
  from m show "all_apart fs" by (rule frames_in_apart)
  show "extra_inv base obj (poke_extra p v x) fs" for p v using i by (simp add: extra_inv_def poke_extra_def)
  show "\<exists>p x'. extra_alloc sz x = Some (p, x') \<and> extra_inv base obj x' (fs @ [(p, sz)])" if "0 < sz" for sz
  proof -
    obtain p m' where new: "op_new (sz + obj) (x_mem x) = (p, m')" by (metis surj_pair)
    note n = op_new_result [OF m(1) new] new_frame [OF m that new]
    have "p \<notin> base" using n(5) h heap_ptrs_areas by force
    moreover have "store_at (p + sz) obj (x_factory x) m' = Some (poke_mem (p + sz) (x_factory x) m')"
      using n(12) by (intro store_at_poke) auto
    ultimately show ?thesis using new n(2,4,10,11) i o by (auto simp: extra_alloc_def default_alloc_def extra_inv_def Let_def)
  qed
  show "\<exists>x'. extra_dealloc (fst (fs ! j)) (snd (fs ! j)) x = Some x' \<and> extra_inv base obj x' (remove_nth j fs)"
    if j: "j < length fs" for j
  proof -
    let ?q = "fst (fs ! j) + snd (fs ! j)"
    have p: "fst (fs ! j) \<in> heap_ptrs (x_mem x)" "fst (fs ! j) \<in> fst ` set fs" using j h by auto
    obtain m' where m': "op_delete (fst (fs ! j)) (x_mem x) = Some m'" "mem_ok m'" "frames_in obj m' (remove_nth j fs)"
      "heap_ptrs m' = heap_ptrs (x_mem x) - {fst (fs ! j)}" "fst ` set (remove_nth j fs) = fst ` set fs - {fst (fs ! j)}"
      using drop_frame [OF m j p(1)] by blast
    have live: "mset (x_live x) = image_mset (\<lambda>f. fst f + snd f) (mset fs)" using i by (simp add: extra_inv_def)
    have "?q \<in># mset (x_live x)" unfolding live using j by (simp add: image_iff) (metis nth_mem)
    moreover have "mset (remove1 ?q (x_live x)) = image_mset (\<lambda>f. fst f + snd f) (mset (remove_nth j fs))"
      using j by (simp add: live mset_remove_nth image_mset_Diff)
    ultimately show ?thesis using i m' p by (auto simp: extra_dealloc_def default_dealloc_def extra_inv_def)
  qed
qed

section \<open>Properties\<close>

text \<open>
  C14. The multithreaded reusable storage serves any program of coroutines that are created,
  written to and destroyed in any order, however many live at once and whatever their sizes:
  no operation fails, the frames that are alive never overlap, and once they are all gone the
  destruction of the storage leaves exactly the heap blocks that were there before.
\<close>

theorem mtsafe_serves_any_program:
  assumes "mem_ok m" and "proper_ops (\<lambda>_ _. True) [] ops"
  shows "\<exists>s' fs'. run_frames mtsafe_alloc mtsafe_dealloc poke_mtsafe ops
      \<lparr>mt_this = this, mt_block = reusable_new m, mt_busy = False\<rparr> [] = Some (s', fs') \<and> all_apart fs' \<and>
    (fs' = [] \<longrightarrow> (\<exists>m'. reusable_destroy (mt_block s') = Some m' \<and> heap_ptrs m' = heap_ptrs m))"
proof -
  have no: "0 \<notin> heap_ptrs m" using assms(1) heap_ptrs_areas mem_okD(1) [OF assms(1)] by fastforce
  then have "mtsafe_inv (heap_ptrs m) \<lparr>mt_this = this, mt_block = reusable_new m, mt_busy = False\<rparr> []"
    using assms(1) by (simp add: mtsafe_inv_def reusable_new_def block_ok_def frames_in_def block_ptrs_def)
  from mts.run_frames_succeeds [OF this, of ops] assms(2) obtain s' fs' where
    r: "run_frames mtsafe_alloc mtsafe_dealloc poke_mtsafe ops
      \<lparr>mt_this = this, mt_block = reusable_new m, mt_busy = False\<rparr> [] = Some (s', fs')" "mtsafe_inv (heap_ptrs m) s' fs'"
    by (simp del: Product_Type.split_paired_Ex) blast
  have "\<exists>m'. reusable_destroy (mt_block s') = Some m' \<and> heap_ptrs m' = heap_ptrs m" if "fs' = []"
  proof (cases "r_ptr (mt_block s') = nullptr")
    case True
    then show ?thesis using r(2) that by (auto simp: reusable_destroy_def op_delete_null mtsafe_inv_def block_ptrs_def)
  next
    case False
    then have "mem_ok (r_mem (mt_block s'))" "r_ptr (mt_block s') \<in> heap_ptrs (r_mem (mt_block s'))"
      "heap_ptrs (r_mem (mt_block s')) - {r_ptr (mt_block s')} = heap_ptrs m"
      using r(2) that by (auto simp: mtsafe_inv_def block_ok_def block_ptrs_def)
    then show ?thesis using op_delete_result by (fastforce simp: reusable_destroy_def)
  qed
  then show ?thesis using r mts.frames_apart by blast
qed

theorem mtsafe_serves_any_program_witness:
  "\<exists>s' fs'. run_frames mtsafe_alloc mtsafe_dealloc poke_mtsafe [Create 32, Create 100, Write 0 31 7, Destroy 0, Create 80, Destroy 0]
      \<lparr>mt_this = 8, mt_block = reusable_new \<lparr>m_heap = [], m_static = [], m_limit = 64, m_at = \<lambda>_. 0\<rparr>, mt_busy = False\<rparr> []
    = Some (s', fs') \<and> all_apart fs'"
  using mtsafe_serves_any_program [of "\<lparr>m_heap = [], m_static = [], m_limit = 64, m_at = \<lambda>_. 0\<rparr>"
      "[Create 32, Create 100, Write 0 31 7, Destroy 0, Create 80, Destroy 0]" 8]
  by (auto simp: mem_ok_def areas_def remove_nth_def)

text \<open>
  C34. A frame of a stack storage lies in the memory that the caller has taken from its stack
  exactly when the frame and the flag fit, and no heap block is used then; otherwise it is on
  the heap, and the shared state asks for enough memory for the next time. Either way the
  flag is inside the memory, no write to the frame changes it, and the deallocation gives the
  heap back as it was.
\<close>

theorem stack_storage_bounds:
  assumes "mem_ok m" and "0 < sz" and "(q, n) \<in> set (m_static m)" and "k = stack_set q (stack_new n m)"
    and "off < sz"
  shows "\<exists>p k1 k2. stack_alloc sz k = Some (p, k1) \<and>
    (if sz + 1 \<le> n then p = q \<and> heap_ptrs (k_mem k1) = heap_ptrs m else k_state k1 = sz + 1) \<and>
    stack_dealloc p sz (poke_stack (p + off) v k1) = Some k2 \<and> heap_ptrs (k_mem k2) = heap_ptrs m"
proof -
  have k: "k_ptr k = q" "k_mem k = m" "k_size k = n" using assms(4) by (simp_all add: stack_set_def stack_new_def)
  have "q \<notin> heap_ptrs m" using assms(1,3) unfolding mem_ok_def heap_ptrs_def by (metis disjoint_iff fst_conv imageI)
  then have i: "stack_inv (heap_ptrs m) k []"
    using assms(1,3) k by (auto simp: stack_inv_def frames_in_def areas_def)
  have "\<exists>p k1. stack_alloc sz k = Some (p, k1) \<and> stack_inv (heap_ptrs m) k1 [(p, sz)] \<and>
      (if sz + 1 \<le> n then p = q \<and> heap_ptrs (k_mem k1) = heap_ptrs m else k_state k1 = sz + 1)"
    using stack_alloc_on_stack [OF i assms(2)] stack_alloc_on_heap [OF i assms(2)] k by (cases "sz + 1 \<le> n") auto
  then obtain p k1 where a: "stack_alloc sz k = Some (p, k1)" "stack_inv (heap_ptrs m) k1 [(p, sz)]"
    "if sz + 1 \<le> n then p = q \<and> heap_ptrs (k_mem k1) = heap_ptrs m else k_state k1 = sz + 1" by blast
  have "stack_inv (heap_ptrs m) (poke_stack (p + off) v k1) [(p, sz)]"
    using stck.write_frame [OF a(2), of 0 off v] assms(5) by simp
  from stack_dealloc_inv [OF this] obtain k2 where
    "stack_dealloc p sz (poke_stack (p + off) v k1) = Some k2" "stack_inv (heap_ptrs m) k2 []" by blast
  then show ?thesis using a by (auto simp: stack_inv_def)
qed

theorem stack_storage_bounds_witness:
  "\<exists>p k1 k2. stack_alloc 40 (stack_set 8 (stack_new 48 \<lparr>m_heap = [], m_static = [(8, 48)], m_limit = 64, m_at = \<lambda>_. 0\<rparr>)) = Some (p, k1) \<and>
    p = 8 \<and> stack_dealloc p 40 (poke_stack (p + 39) 9 k1) = Some k2 \<and> heap_ptrs (k_mem k2) = {}"
  using stack_storage_bounds [of "\<lparr>m_heap = [], m_static = [(8, 48)], m_limit = 64, m_at = \<lambda>_. 0\<rparr>" 40 8 48 _ 39 9, OF _ _ _ refl]
  by (auto simp: mem_ok_def areas_def heap_ptrs_def stack_set_def stack_new_def)

end
