(* ===== verification/Shared_Future.thy ===== *)
theory Shared_Future
  imports Future
begin

section \<open>shared_future: a counted reference to a future\<close>

text \<open>
  \<open>shared_future.h\<close>. The shared state (\<open>future_internal\<close>) at an address is the future of this
  address in the store, together with the awaiter \<open>resolve_tracer\<close> of the same address. Its
  \<open>std::shared_ptr\<close> counts the \<open>shared_future\<close> objects that refer to it (\<open>sf_refs\<close>) and, while
  the future is pending, the reference that the tracer holds on the state itself
  (\<open>sf_tracer\<close>). The last reference destroys the future; \<open>sf_crashed\<close> records the assertion
  that a pending future is not destroyed, and the use of a reference that does not exist.
\<close>

subsection \<open>State\<close>

record sfuser =
  sf_refs :: "ptr \<Rightarrow> nat"
  sf_tracer :: "ptr \<Rightarrow> bool"
  sf_crashed :: bool

type_synonym ('v, 'e) sfstore = "('v, 'e, sfuser) fstore"

definition sfu :: "('v, 'e) sfstore \<Rightarrow> sfuser" where
  "sfu s = user (client s)"

definition upd_sfu :: "(sfuser \<Rightarrow> sfuser) \<Rightarrow> ('v, 'e) sfstore \<Rightarrow> ('v, 'e) sfstore" where
  "upd_sfu k s = s\<lparr>client := (client s)\<lparr>user := k (user (client s))\<rparr>\<rparr>"

definition set_refs :: "ptr \<Rightarrow> nat \<Rightarrow> ('v, 'e) sfstore \<Rightarrow> ('v, 'e) sfstore" where
  "set_refs f n = upd_sfu (\<lambda>u. u\<lparr>sf_refs := (sf_refs u)(f := n)\<rparr>)"

definition set_tracer :: "ptr \<Rightarrow> bool \<Rightarrow> ('v, 'e) sfstore \<Rightarrow> ('v, 'e) sfstore" where
  "set_tracer f b = upd_sfu (\<lambda>u. u\<lparr>sf_tracer := (sf_tracer u)(f := b)\<rparr>)"

definition sf_crash :: "('v, 'e) sfstore \<Rightarrow> ('v, 'e) sfstore" where
  "sf_crash = upd_sfu (\<lambda>u. u\<lparr>sf_crashed := True\<rparr>)"

subsection \<open>The shared pointer\<close>

definition drop_if_last :: "ptr \<Rightarrow> ('v, 'e) sfstore \<Rightarrow> ('v, 'e) sfstore" where
  "drop_if_last f s =
     (if sf_refs (sfu s) f = 0 \<and> \<not> sf_tracer (sfu s) f
      then (case fut_destroy f s of Some s' \<Rightarrow> s' | None \<Rightarrow> sf_crash s)
      else s)"

definition sf_copy :: "ptr \<Rightarrow> ('v, 'e) sfstore \<Rightarrow> ('v, 'e) sfstore" where
  "sf_copy f s = (if f = nullptr then s else set_refs f (sf_refs (sfu s) f + 1) s)"

definition sf_release :: "ptr \<Rightarrow> ('v, 'e) sfstore \<Rightarrow> ('v, 'e) sfstore" where
  "sf_release f s =
     (if f = nullptr then s
      else if sf_refs (sfu s) f = 0 then sf_crash s
      else drop_if_last f (set_refs f (sf_refs (sfu s) f - 1) s))"

subsection \<open>The tracer\<close>

definition fn_tracer :: nat where
  "fn_tracer = 102"

text \<open>Its function, called when the future is resolved, gives up the reference.\<close>

definition tracer_wakeup :: "ptr \<Rightarrow> ('v, 'e) sfstore \<Rightarrow> handle list \<times> ('v, 'e) sfstore" where
  "tracer_wakeup f s = ([], drop_if_last f (set_tracer f False s))"

definition sf_clients :: "('v, 'e, sfuser) fworld client_fn" where
  "sf_clients k a ctx s = (if k = fn_tracer then tracer_wakeup a s else ([], s))"

definition charge :: "bool list \<Rightarrow> ptr \<Rightarrow> ('v, 'e) sfstore \<Rightarrow> ('v, 'e) sfstore option" where
  "charge sf f s = do {
     let s1 = set_tracer f True (set_resume_fn f (Fn_client fn_tracer) nullptr s);
     fu \<leftarrow> fut_at f s1;
     (ok, fu', s2) \<leftarrow> fut_subscribe sf f fu s1;
     let s3 = upd_fut f (Some fu') s2;
     Some (if ok then s3 else drop_if_last f (set_tracer f False s3)) }"

subsection \<open>Operations of the shared future\<close>

text \<open>\<open>std::make_shared\<close> at a fresh address: one reference, and a tracer that is not subscribed.\<close>

definition make_shared :: "ptr \<Rightarrow> ('v, 'e) sfstore \<Rightarrow> ('v, 'e) sfstore" where
  "make_shared f s = set_tracer f False (set_refs f 1 (set_next f nullptr s))"

text \<open>From a function that takes the promise, and from a function that returns a future.\<close>

definition sf_of_promise ::
    "bool list \<Rightarrow> (ptr \<Rightarrow> ('v, 'e) sfstore \<Rightarrow> ('v, 'e) sfstore option) \<Rightarrow> ptr \<Rightarrow> ptr \<Rightarrow> ('v, 'e) sfstore \<Rightarrow>
      ('v, 'e) sfstore option" where
  "sf_of_promise sf init f p s = do {
     s1 \<leftarrow> fut_construct init f p (make_shared f s);
     charge sf f s1 }"

definition sf_of_future ::
    "bool list \<Rightarrow> (ptr \<Rightarrow> ('v, 'e) sfstore \<Rightarrow> ('e exc option \<times> ('v, 'e) sfstore) option) \<Rightarrow> ptr \<Rightarrow> ptr \<Rightarrow>
      ('v, 'e) sfstore \<Rightarrow> (handle list \<times> ('v, 'e) sfstore) option" where
  "sf_of_future sf fn f p s = do {
     (hs, s1) \<leftarrow> result_of sf_clients fn f p (upd_fut f (Some fut_default) (make_shared f s));
     fu \<leftarrow> fut_at f s1;
     if pending fu then map_option (Pair hs) (charge sf f s1) else Some (hs, s1) }"

definition sf_set_value :: "bool list \<Rightarrow> 'v \<Rightarrow> ptr \<Rightarrow> ptr \<Rightarrow> ('v, 'e) sfstore \<Rightarrow> (handle list \<times> ('v, 'e) sfstore) option" where
  "sf_set_value sf v f p s =
     sf_of_future sf (\<lambda>f s. Some (None, upd_fut f (Some (fut_set_value v)) s)) f p s"

definition sf_set_exception ::
    "bool list \<Rightarrow> 'e exc \<Rightarrow> ptr \<Rightarrow> ptr \<Rightarrow> ('v, 'e) sfstore \<Rightarrow> (handle list \<times> ('v, 'e) sfstore) option" where
  "sf_set_exception sf e f p s =
     sf_of_future sf (\<lambda>f s. Some (None, upd_fut f (Some (fut_set_exception e)) s)) f p s"

text \<open>\<open>init_if_needed\<close>: the condition is that the pointer is not null. \<open>ptr\<close> is \<open>_ptr\<close>.\<close>

definition init_if_needed :: "ptr \<Rightarrow> ptr \<Rightarrow> ('v, 'e) sfstore \<Rightarrow> ptr \<times> ('v, 'e) sfstore" where
  "init_if_needed ptr f s =
     (if ptr \<noteq> nullptr then (f, sf_release ptr (upd_fut f (Some fut_default) (make_shared f s))) else (ptr, s))"

definition sf_get_promise :: "bool list \<Rightarrow> ptr \<Rightarrow> ptr \<Rightarrow> ptr \<Rightarrow> ('v, 'e) sfstore \<Rightarrow> (ptr \<times> ('v, 'e) sfstore) option" where
  "sf_get_promise sf ptr f p s =
     (case init_if_needed ptr f s of (ptr', s1) \<Rightarrow>
        if ptr' = nullptr then None
        else do {
          s2 \<leftarrow> get_promise ptr' p s1;
          s3 \<leftarrow> charge sf ptr' s2;
          Some (ptr', s3) })"

definition sf_ready :: "ptr \<Rightarrow> ('v, 'e) sfstore \<Rightarrow> bool option" where
  "sf_ready ptr s = (if ptr \<noteq> nullptr then map_option fut_ready (fut_at ptr s) else Some False)"

definition sf_value :: "ptr \<Rightarrow> ('v, 'e) sfstore \<Rightarrow> ('e exc + 'v reference) option" where
  "sf_value ptr s =
     (if ptr \<noteq> nullptr then Option.bind (fut_at ptr s) fut_value else Some (Inl Value_not_ready))"

text \<open>\<open>co_await\<close> is the one of the future.\<close>

definition sf_co_await ::
    "bool list \<Rightarrow> ptr \<Rightarrow> ptr \<Rightarrow> handle \<Rightarrow> ('v, 'e) sfstore \<Rightarrow> (bool \<times> ('v, 'e) sfstore) option" where
  "sf_co_await sf f a h s = do {
     fu \<leftarrow> fut_at f s;
     (b, fu', s') \<leftarrow> co_await (fut_ops sf) a h fu s;
     Some (b, upd_fut f (Some fu') s') }"

definition sf_sync :: "bool list \<Rightarrow> bool \<Rightarrow> ptr \<Rightarrow> ptr \<Rightarrow> ('v, 'e) sfstore \<Rightarrow> (bool \<times> ('v, 'e) sfstore) option" where
  "sf_sync sf queue_active f awt s = do {
     fu \<leftarrow> fut_at f s;
     (b, fu', s') \<leftarrow> sync_wait (fut_ops sf) queue_active awt fu s;
     Some (b, upd_fut f (Some fu') s') }"

definition sf_force_sync :: "bool list \<Rightarrow> ptr \<Rightarrow> ptr \<Rightarrow> ('v, 'e) sfstore \<Rightarrow> (bool \<times> ('v, 'e) sfstore) option" where
  "sf_force_sync sf f awt s = do {
     fu \<leftarrow> fut_at f s;
     (b, fu', s') \<leftarrow> force_sync (fut_ops sf) awt fu s;
     Some (b, upd_fut f (Some fu') s') }"

subsection \<open>Basic facts\<close>

lemma sfu_simps [simp]:
  "sfu (upd_fut f x s) = sfu s" "sfu (upd_prom p m s) = sfu s" "sfu (set_next a q s) = sfu s"
  "sfu (set_handle a h s) = sfu s" "sfu (set_resume_fn a fn c s) = sfu s" "sfu (upd_sfu k s) = k (sfu s)"
  "sfu (resumed ws s) = sfu s"
  by (simp_all add: sfu_def upd_fut_def upd_prom_def set_handle_def set_resume_fn_def upd_sfu_def)

lemma upd_sfu_simps [simp]:
  "fut_at f (upd_sfu k s) = fut_at f s" "prom_at p (upd_sfu k s) = prom_at p s" "a_next (upd_sfu k s) = a_next s"
  "a_fn (upd_sfu k s) = a_fn s" "a_haddr (upd_sfu k s) = a_haddr s"
  by (simp_all add: fut_at_def prom_at_def upd_sfu_def)

lemma counts_simps [simp]:
  "sfu (set_refs f n s) = (sfu s)\<lparr>sf_refs := (sf_refs (sfu s))(f := n)\<rparr>"
  "sfu (set_tracer f b s) = (sfu s)\<lparr>sf_tracer := (sf_tracer (sfu s))(f := b)\<rparr>"
  "sfu (sf_crash s) = (sfu s)\<lparr>sf_crashed := True\<rparr>"
  by (simp_all add: set_refs_def set_tracer_def sf_crash_def)

lemma store_counts [simp]:
  "fut_at g (set_refs f n s) = fut_at g s" "fut_at g (set_tracer f b s) = fut_at g s"
  "a_next (set_refs f n s) = a_next s" "a_next (set_tracer f b s) = a_next s"
  "a_fn (set_refs f n s) = a_fn s" "a_fn (set_tracer f b s) = a_fn s"
  "a_haddr (set_refs f n s) = a_haddr s" "a_haddr (set_tracer f b s) = a_haddr s"
  "prom_at p (set_refs f n s) = prom_at p s" "prom_at p (set_tracer f b s) = prom_at p s"
  by (simp_all add: set_refs_def set_tracer_def)


lemma drop_if_last_next [simp]: "a_next (drop_if_last f s) = a_next s"
  by (auto simp: drop_if_last_def fut_destroy_def sf_crash_def bind_Some_iff split: option.split if_splits)

lemma sf_clients_keep: "client_keeps sf_clients S"
  by (simp add: client_keeps_def sf_clients_def tracer_wakeup_def)

subsection \<open>The life of a shared state\<close>

text \<open>
  A shared state at \<open>f\<close> whose promise is at \<open>p\<close>: while it is pending the awaiters \<open>ws\<close> wait,
  and the tracer below them; later it is resolved, and it is gone with the last reference.
\<close>

definition sf_pending :: "ptr \<Rightarrow> ptr \<Rightarrow> ptr list \<Rightarrow> ('v, 'e) sfstore \<Rightarrow> bool" where
  "sf_pending f p ws s \<longleftrightarrow>
     (\<exists>fu. fut_at f s = Some fu \<and> f_state fu = Not_value \<and> linked (a_next s) (f_awaiter fu) (ws @ [f]) 0) \<and>
     plain s ws \<and> prom_at p s = Some f \<and> a_fn s f = Fn_client fn_tracer \<and> sf_tracer (sfu s) f"

definition sf_settled :: "ptr \<Rightarrow> ptr \<Rightarrow> ('v, 'e) sfstore \<Rightarrow> bool" where
  "sf_settled f p s \<longleftrightarrow> prom_at p s = Some nullptr \<and> \<not> sf_tracer (sfu s) f \<and>
     (if sf_refs (sfu s) f = 0 then fut_at f s = None else \<exists>fu. fut_at f s = Some fu \<and> fut_ready fu)"

definition sf_live :: "ptr \<Rightarrow> ptr \<Rightarrow> ('v, 'e) sfstore \<Rightarrow> bool" where
  "sf_live f p s \<longleftrightarrow> proper f \<and> \<not> sf_crashed (sfu s) \<and> ((\<exists>ws. sf_pending f p ws s) \<or> sf_settled f p s)"

lemma fut_destroy_ready: "fut_at f s = Some fu \<Longrightarrow> fut_ready fu \<Longrightarrow> fut_destroy f s = Some (upd_fut f None s)"
  by (simp add: fut_destroy_def pending_def fut_ready_def)

text \<open>Resolution resumes the awaiters, then the tracer, whose reference may be the last.\<close>

lemma sf_resolve:
  assumes pe: "sf_pending f p ws s" and f: "proper f" and c: "\<not> sf_crashed (sfu s)"
    and fu': "\<And>fu. fut_at f s = Some fu \<Longrightarrow> f_state fu = Not_value \<Longrightarrow>
      \<exists>fu'. t = upd_fut f (Some fu') (upd_prom p (Some nullptr) s) \<and> f_awaiter fu' = f_awaiter fu"
  shows "\<exists>s'. fut_resolve sf_clients f t = Some (handles_of s ws, s') \<and> sf_live f p s'"
proof -
  obtain fu where fu: "fut_at f s = Some fu" "f_state fu = Not_value" "linked (a_next s) (f_awaiter fu) (ws @ [f]) 0"
    and pl: "plain s ws" and tr: "a_fn s f = Fn_client fn_tracer" using pe by (auto simp: sf_pending_def)
  obtain fu' where t: "t = upd_fut f (Some fu') (upd_prom p (Some nullptr) s)" "f_awaiter fu' = f_awaiter fu"
    using fu' fu(1,2) by blast
  let ?t = "upd_fut f (Some (fu'\<lparr>f_awaiter := awaiter_disabled\<rparr>)) (upd_prom p (Some nullptr) s)"
  let ?r = "set_next f nullptr (resumed ws ?t)"
  have plt: "plain ?t ws" "handles_of ?t ws = handles_of s ws" using pl by simp_all
  have "resume_seq sf_clients (ws @ [f]) ?t = (handles_of s ws, drop_if_last f (set_tracer f False ?r))"
    using tr by (simp add: resume_seq_append resume_seq_plain [OF plt(1)] plt(2) resume_awaiter_def sf_clients_def tracer_wakeup_def)
  moreover have "resume_chain_loop sf_clients (f_awaiter fu) [] ?t = Some (resume_seq sf_clients (ws @ [f]) ?t)"
    using resume_chain_loop_seq [where w = ?t and ret = "[]", OF _ sf_clients_keep] fu(3) by simp
  ultimately have "fut_resolve sf_clients f t = Some (handles_of s ws, drop_if_last f (set_tracer f False ?r))"
    using t by (simp add: fut_resolve_def resume_chain_lk_def)
  moreover have "sf_live f p (drop_if_last f (set_tracer f False ?r))"
  proof (cases "sf_refs (sfu s) f = 0")
    case True
    have "fut_destroy f (set_tracer f False ?r) = Some (upd_fut f None (set_tracer f False ?r))"
      by (rule fut_destroy_ready [of _ _ "fu'\<lparr>f_awaiter := awaiter_disabled\<rparr>"]) (simp_all add: fut_ready_def)
    with True f c show ?thesis by (simp add: drop_if_last_def sf_live_def sf_settled_def)
  next
    case False
    with f c show ?thesis by (simp add: drop_if_last_def sf_live_def sf_settled_def fut_ready_def)
  qed
  ultimately show ?thesis by blast
qed

lemma sf_set_live:
  assumes "sf_live f p s"
  shows "\<exists>hs b s'. promise_set sf_clients p x s = Some (hs, b, s') \<and> sf_live f p s'"
proof (cases "sf_settled f p s")
  case True
  then show ?thesis using promise_empty_result(1) assms by (fastforce simp: sf_settled_def)
next
  case False
  then obtain ws where pe: "sf_pending f p ws s" and f: "proper f" "\<not> sf_crashed (sfu s)"
    using assms by (auto simp: sf_live_def)
  then obtain fu where fu: "fut_at f s = Some fu" "f_state fu = Not_value" "prom_at p s = Some f"
    by (auto simp: sf_pending_def)
  obtain fu' where fu': "fut_set x fu = Some fu'" "f_awaiter fu' = f_awaiter fu" using fut_set_result [OF fu(2)] by blast
  have "\<exists>s'. fut_resolve sf_clients f (upd_fut f (Some fu') (upd_prom p (Some nullptr) s)) = Some (handles_of s ws, s') \<and>
      sf_live f p s'"
    by (rule sf_resolve [OF pe f]) (use fu fu'(2) in auto)
  then show ?thesis using fu fu'(1) f(1) by (auto simp: promise_set_def promise_call_def claim_def)
qed

lemma sf_drop_live:
  assumes "sf_live f p s"
  shows "\<exists>hs b s'. promise_drop sf_clients p s = Some (hs, b, s') \<and> sf_live f p s'"
proof (cases "sf_settled f p s")
  case True
  then show ?thesis using promise_empty_result(2) assms by (fastforce simp: sf_settled_def)
next
  case False
  then obtain ws where pe: "sf_pending f p ws s" and f: "proper f" "\<not> sf_crashed (sfu s)"
    using assms by (auto simp: sf_live_def)
  then obtain fu where fu: "fut_at f s = Some fu" "prom_at p s = Some f" by (auto simp: sf_pending_def)
  have "upd_prom p (Some nullptr) s = upd_fut f (Some fu) (upd_prom p (Some nullptr) s)"
    using fu(1) by (simp add: upd_fut_def upd_prom_def fut_at_def fun_upd_idem)
  then have "\<exists>s'. fut_resolve sf_clients f (upd_prom p (Some nullptr) s) = Some (handles_of s ws, s') \<and> sf_live f p s'"
    by (intro sf_resolve [OF pe f]) (use fu in auto)
  then show ?thesis using fu f(1) by (auto simp: promise_drop_def claim_def)
qed

lemma sf_copy_live: "sf_live f p s \<Longrightarrow> 0 < sf_refs (sfu s) f \<Longrightarrow> sf_live f p (sf_copy f s)"
  by (auto simp: sf_live_def sf_copy_def sf_pending_def sf_settled_def plain_def)

lemma sf_release_live:
  assumes "sf_live f p s" and "0 < sf_refs (sfu s) f"
  shows "sf_live f p (sf_release f s)"
proof (cases "sf_settled f p s")
  case False
  then show ?thesis using assms
    by (auto simp: sf_live_def sf_release_def drop_if_last_def sf_pending_def plain_def)
next
  case True
  then obtain fu where fu: "fut_at f s = Some fu" "fut_ready fu" using assms(2) by (auto simp: sf_settled_def)
  have "fut_destroy f (set_refs f (sf_refs (sfu s) f - 1) s) = Some (upd_fut f None (set_refs f (sf_refs (sfu s) f - 1) s))"
    by (rule fut_destroy_ready [of _ _ fu]) (use fu in simp_all)
  then show ?thesis using True assms fu
    by (auto simp: sf_live_def sf_release_def drop_if_last_def sf_settled_def)
qed


lemma sf_await_live:
  assumes l: "sf_live f p s" and r: "0 < sf_refs (sfu s) f" and a: "proper a" "unlinked a s" "a_next s a = 0"
  shows "\<exists>b s'. sf_co_await sf f a h s = Some (b, s') \<and> sf_live f p s'"
proof (cases "sf_settled f p s")
  case True
  then obtain fu where fu: "fut_at f s = Some fu" "fut_ready fu" using r by (auto simp: sf_settled_def)
  have "upd_fut f (Some fu) s = s" using fu(1) by (simp add: upd_fut_def fut_at_def fun_upd_idem)
  then have "sf_co_await sf f a h s = Some (False, s)"
    using fu by (simp add: sf_co_await_def co_await_def await_ready_def fut_ops_def)
  then show ?thesis using l by blast
next
  case False
  then obtain ws where pe: "sf_pending f p ws s" using l by (auto simp: sf_live_def)
  then obtain fu where fu: "fut_at f s = Some fu" "f_state fu = Not_value" "linked (a_next s) (f_awaiter fu) (ws @ [f]) 0"
    by (auto simp: sf_pending_def)
  have n: "a \<notin> set (ws @ [f])" using a(2) fu(1,3) unfolding unlinked_def by blast
  have nr: "\<not> fut_ready fu" using linked_null_not_marker [OF fu(3)] by (simp add: fut_ready_def)
  let ?s = "set_next a (f_awaiter fu) (set_handle a h s)"
  have sub: "fut_subscribe sf a fu (set_handle a h s) = Some (True, fu\<lparr>f_awaiter := a\<rparr>, ?s)"
    using a(3) nr by (simp add: fut_subscribe_result)
  have "sf_pending f p (a # ws) (upd_fut f (Some (fu\<lparr>f_awaiter := a\<rparr>)) ?s)"
    using pe fu n a(1) by (auto simp: sf_pending_def plain_def)
  then have "sf_live f p (upd_fut f (Some (fu\<lparr>f_awaiter := a\<rparr>)) ?s)" using l by (auto simp: sf_live_def)
  moreover have "sf_co_await sf f a h s = Some (True, upd_fut f (Some (fu\<lparr>f_awaiter := a\<rparr>)) ?s)"
    using fu(1) nr sub by (simp add: sf_co_await_def co_await_def await_ready_def await_suspend_def fut_ops_def)
  ultimately show ?thesis by blast
qed

text \<open>The operations a program performs on the references and the promise.\<close>

datatype ('v, 'e) sfop =
    Sf_copy
  | Sf_release
  | Sf_await ptr handle
  | Sf_set "('v, 'e) set_arg"
  | Sf_drop

fun sf_exec :: "bool list \<Rightarrow> ptr \<Rightarrow> ptr \<Rightarrow> ('v, 'e) sfop \<Rightarrow> ('v, 'e) sfstore \<Rightarrow> ('v, 'e) sfstore option" where
  "sf_exec sf f p Sf_copy s = Some (sf_copy f s)"
| "sf_exec sf f p Sf_release s = Some (sf_release f s)"
| "sf_exec sf f p (Sf_await a h) s = map_option snd (sf_co_await sf f a h s)"
| "sf_exec sf f p (Sf_set x) s = map_option (\<lambda>(hs, b, s'). s') (promise_set sf_clients p x s)"
| "sf_exec sf f p Sf_drop s = map_option (\<lambda>(hs, b, s'). s') (promise_drop sf_clients p s)"

text \<open>Who uses the shared future holds a reference, and awaits with an awaiter of its own.\<close>

fun sf_may :: "ptr \<Rightarrow> ('v, 'e) sfop \<Rightarrow> ('v, 'e) sfstore \<Rightarrow> bool" where
  "sf_may f Sf_copy s \<longleftrightarrow> 0 < sf_refs (sfu s) f"
| "sf_may f Sf_release s \<longleftrightarrow> 0 < sf_refs (sfu s) f"
| "sf_may f (Sf_await a h) s \<longleftrightarrow> 0 < sf_refs (sfu s) f \<and> proper a \<and> unlinked a s \<and> a_next s a = nullptr"
| "sf_may f _ s \<longleftrightarrow> True"

inductive sf_run :: "bool list \<Rightarrow> ptr \<Rightarrow> ptr \<Rightarrow> ('v, 'e) sfstore \<Rightarrow> ('v, 'e) sfstore \<Rightarrow> bool" for sf f p where
  sf_here: "sf_run sf f p s s"
| sf_step: "sf_run sf f p s s' \<Longrightarrow> sf_may f op1 s' \<Longrightarrow> sf_exec sf f p op1 s' = Some s'' \<Longrightarrow> sf_run sf f p s s''"

lemma sf_exec_live:
  assumes "sf_live f p s" and "sf_may f op1 s"
  shows "\<exists>s'. sf_exec sf f p op1 s = Some s' \<and> sf_live f p s'"
proof (cases op1)
  case (Sf_await a h)
  then show ?thesis using sf_await_live [OF assms(1), of a sf h] assms(2) by auto
next
  case (Sf_set x)
  then show ?thesis using sf_set_live [OF assms(1), of x] by auto
next
  case Sf_drop
  then show ?thesis using sf_drop_live [OF assms(1)] by auto
qed (use assms sf_copy_live sf_release_live in auto)

lemma sf_run_live: "sf_run sf f p s s' \<Longrightarrow> sf_live f p s \<Longrightarrow> sf_live f p s'"
proof (induction rule: sf_run.induct)
  case (sf_step s s' op1 s'')
  with sf_exec_live [of f p s' op1 sf] show ?case by auto
qed

text \<open>A shared future made from a function that keeps its promise.\<close>

lemma sf_of_promise_live:
  fixes s :: "('v, 'e) sfstore"
  assumes "proper f" and "\<not> sf_crashed (sfu s)"
  shows "\<exists>s'. sf_of_promise sf (\<lambda>_. Some) f p s = Some s' \<and> sf_live f p s' \<and> sf_refs (sfu s') f = 1"
proof -
  let ?start = "upd_prom p (Some f) (upd_fut f (Some fut_started) (make_shared f s))"
  let ?s = "set_tracer f True (set_resume_fn f (Fn_client fn_tracer) nullptr ?start)"
  have n: "a_next ?s f = 0" by (simp add: make_shared_def)
  have "\<not> fut_ready (fut_started :: ('v, 'e) future)" by (simp add: fut_ready_def fut_started_def)
  then have sub: "fut_subscribe sf f (fut_started :: ('v, 'e) future) ?s = Some (True, fut_started\<lparr>f_awaiter := f\<rparr>, set_next f nullptr ?s)"
    using n by (simp add: fut_subscribe_result fut_started_def)
  let ?s' = "upd_fut f (Some (fut_started\<lparr>f_awaiter := f\<rparr>)) (set_next f nullptr ?s)"
  have "sf_pending f p [] ?s'" using n assms(1) by (simp add: sf_pending_def fut_started_def plain_def)
  moreover have "\<not> sf_crashed (sfu ?s')" "sf_refs (sfu ?s') f = 1" using assms(2) by (simp_all add: make_shared_def)
  ultimately have "sf_live f p ?s'" using assms(1) by (auto simp: sf_live_def)
  moreover have "fut_construct (\<lambda>_. Some) f p (make_shared f s) = Some ?start" by (simp add: fut_construct_def)
  then have "sf_of_promise sf (\<lambda>_. Some) f p s = Some ?s'"
    using sub by (simp add: sf_of_promise_def charge_def)
  moreover have "sf_refs (sfu ?s') f = 1" by (simp add: make_shared_def)
  ultimately show ?thesis by blast
qed

text \<open>A default-constructed object is not initialized by \<open>get_promise\<close>: the null pointer is used.\<close>

theorem sf_get_promise_uninitialized: "sf_get_promise sf nullptr f p s = None"
  by (simp add: sf_get_promise_def init_if_needed_def)

section \<open>Properties\<close>

text \<open>
  C15. In every program over a shared future (copies and releases of references, awaits,
  resolution or loss of the promise, in any order) no operation fails and no pending future
  is destroyed: the shared state exists exactly as long as there is a reference to it or it
  is still pending, also when all references have gone before it is resolved, and the last
  of these destroys it.
\<close>

theorem shared_future_lifetime:
  assumes "proper f" and "\<not> sf_crashed (sfu s0)" and "sf_of_promise sf (\<lambda>_. Some) f p s0 = Some s1"
    and "sf_run sf f p s1 s"
  shows "\<not> sf_crashed (sfu s) \<and> (fut_at f s \<noteq> None \<longleftrightarrow> 0 < sf_refs (sfu s) f \<or> prom_at p s = Some f) \<and>
    (prom_at p s = Some f \<longleftrightarrow> (\<exists>fu. fut_at f s = Some fu \<and> pending fu)) \<and>
    (\<forall>op1. sf_may f op1 s \<longrightarrow> (\<exists>s'. sf_exec sf f p op1 s = Some s'))"
proof -
  have l: "sf_live f p s" using sf_of_promise_live [OF assms(1,2), of sf p] assms(3) sf_run_live [OF assms(4)] by auto
  have "(fut_at f s \<noteq> None \<longleftrightarrow> 0 < sf_refs (sfu s) f \<or> prom_at p s = Some f) \<and>
    (prom_at p s = Some f \<longleftrightarrow> (\<exists>fu. fut_at f s = Some fu \<and> pending fu))"
  proof (cases "sf_settled f p s")
    case True
    then show ?thesis using assms(1) by (auto simp: sf_settled_def pending_def fut_ready_def split: if_splits)
  next
    case False
    then obtain ws fu where "fut_at f s = Some fu" "linked (a_next s) (f_awaiter fu) (ws @ [f]) 0" "prom_at p s = Some f"
      using l by (auto simp: sf_live_def sf_pending_def)
    with linked_null_not_marker show ?thesis by (auto simp: pending_def)
  qed
  moreover have "\<not> sf_crashed (sfu s)" using l by (simp add: sf_live_def)
  moreover have "\<forall>op1. sf_may f op1 s \<longrightarrow> (\<exists>s'. sf_exec sf f p op1 s = Some s')" using sf_exec_live [OF l] by blast
  ultimately show ?thesis by blast
qed

definition sf_empty_store :: "(nat, unit) sfstore" where
  "sf_empty_store = \<lparr>a_next = \<lambda>_. 0, a_fn = \<lambda>_. Fn_coro, a_haddr = \<lambda>_. 0, a_flag = \<lambda>_. False,
     client = \<lparr>futs = Map.empty, proms = Map.empty, user = \<lparr>sf_refs = \<lambda>_. 0, sf_tracer = \<lambda>_. False, sf_crashed = False\<rparr>\<rparr>\<rparr>"

theorem shared_future_lifetime_witness:
  "\<exists>s1 s. sf_of_promise [] (\<lambda>_. Some) 5 6 sf_empty_store = Some s1 \<and> sf_exec [] 5 6 Sf_release s1 = Some s \<and>
    sf_refs (sfu s1) 5 = 1 \<and> \<not> sf_crashed (sfu s) \<and>
    (fut_at 5 s \<noteq> None \<longleftrightarrow> 0 < sf_refs (sfu s) 5 \<or> prom_at 6 s = Some 5)"
proof -
  have f: "proper 5" "\<not> sf_crashed (sfu sf_empty_store)" by (simp_all add: sfu_def sf_empty_store_def proper_def)
  then obtain s1 where s1: "sf_of_promise [] (\<lambda>_. Some) 5 6 sf_empty_store = Some s1" "sf_refs (sfu s1) 5 = 1"
    using sf_of_promise_live by blast
  have x: "sf_may 5 Sf_release s1" "sf_exec [] 5 6 Sf_release s1 = Some (sf_release 5 s1)" using s1(2) by simp_all
  have r: "sf_run [] 5 6 s1 (sf_release 5 s1)" by (rule sf_run.sf_step [OF sf_run.sf_here x])
  from shared_future_lifetime [OF f s1(1) r] s1 x(2) show ?thesis by blast
qed

end
