(* ===== verification/Future_Access.thy ===== *)
theory Future_Access
  imports Future
begin

section \<open>Blocking access to futures, and the other ways to use a promise\<close>

text \<open>
  The rest of \<open>future.h\<close>: the functions that wait in a thread (\<open>sync\<close>, \<open>wait\<close>, the boolean
  operators, with \<open>co_awaiter::wait\<close> of \<open>awaiter.h\<close>), the members of \<open>promise\<close> that are
  built on \<open>set_value\<close>, and the two forms of \<open>promise_with_default\<close> whose default is a
  template argument. A wait that blocks ends the operation here (\<open>None\<close> in place of the
  result); it goes on with \<open>await_resume\<close> when the flag of its awaiter is set.
\<close>

subsection \<open>Waiting\<close>

definition fut_sync ::
    "bool list \<Rightarrow> bool \<Rightarrow> ptr \<Rightarrow> ptr \<Rightarrow> ('v, 'e, 'u) fstore \<Rightarrow> (bool \<times> ('v, 'e, 'u) fstore) option" where
  "fut_sync sf queue_active awt f s = do {
     fu \<leftarrow> fut_at f s;
     (b, fu', s') \<leftarrow> sync_wait (fut_ops sf) queue_active awt fu s;
     Some (b, upd_fut f (Some fu') s') }"

definition fut_force_sync ::
    "bool list \<Rightarrow> ptr \<Rightarrow> ptr \<Rightarrow> ('v, 'e, 'u) fstore \<Rightarrow> (bool \<times> ('v, 'e, 'u) fstore) option" where
  "fut_force_sync sf awt f s = do {
     fu \<leftarrow> fut_at f s;
     (b, fu', s') \<leftarrow> force_sync (fut_ops sf) awt fu s;
     Some (b, upd_fut f (Some fu') s') }"

text \<open>\<open>await_resume\<close> of the \<open>co_awaiter\<close>, which both forms of \<open>wait\<close> end with.\<close>

definition fut_await_resume :: "ptr \<Rightarrow> ('v, 'e, 'u) fstore \<Rightarrow> ('e exc + 'v reference) option" where
  "fut_await_resume f s = do { fu \<leftarrow> fut_at f s; fut_value fu }"

definition fut_wait ::
    "bool list \<Rightarrow> bool \<Rightarrow> ptr \<Rightarrow> ptr \<Rightarrow> ('v, 'e, 'u) fstore \<Rightarrow>
      (('e exc + 'v reference) option \<times> ('v, 'e, 'u) fstore) option" where
  "fut_wait sf queue_active awt f s = do {
     (b, s1) \<leftarrow> fut_sync sf queue_active awt f s;
     if b then Some (None, s1) else do { r \<leftarrow> fut_await_resume f s1; Some (Some r, s1) } }"

definition fut_force_wait ::
    "bool list \<Rightarrow> ptr \<Rightarrow> ptr \<Rightarrow> ('v, 'e, 'u) fstore \<Rightarrow>
      (('e exc + 'v reference) option \<times> ('v, 'e, 'u) fstore) option" where
  "fut_force_wait sf awt f s = do {
     (b, s1) \<leftarrow> fut_force_sync sf awt f s;
     if b then Some (None, s1) else do { r \<leftarrow> fut_await_resume f s1; Some (Some r, s1) } }"

text \<open>The constant accessor, a second copy of the same cases.\<close>

definition fut_value_const :: "('v, 'e) future \<Rightarrow> ('e exc + 'v reference) option" where
  "fut_value_const fu =
     (case f_state fu of
        Not_value \<Rightarrow> Some (Inl (if pending fu then Value_not_ready else Await_canceled))
      | Has_exception \<Rightarrow> (case f_slot fu of Slot_exc e \<Rightarrow> Some (Inl e) | _ \<Rightarrow> None)
      | Has_value \<Rightarrow> (case f_slot fu of Slot_value v \<Rightarrow> Some (Inr (Own v)) | _ \<Rightarrow> None)
      | Has_value_ref \<Rightarrow> (case f_slot fu of Slot_ptr p \<Rightarrow> Some (Inr (At p)) | _ \<Rightarrow> None))"

text \<open>\<open>operator bool\<close>: \<open>has_value()\<close> converted, which waits unless the future is resolved.\<close>

definition fut_bool ::
    "bool list \<Rightarrow> bool \<Rightarrow> ptr \<Rightarrow> ptr \<Rightarrow> ('v, 'e, 'u) fstore \<Rightarrow> (bool option \<times> ('v, 'e, 'u) fstore) option" where
  "fut_bool sf queue_active awt f s = do {
     fu \<leftarrow> fut_at f s;
     (b, s1) \<leftarrow> (if \<not> fut_ready fu then fut_sync sf queue_active awt f s else Some (False, s));
     fu1 \<leftarrow> fut_at f s1;
     Some (if b then None else Some (fut_has_value fu1), s1) }"

definition fut_not ::
    "bool list \<Rightarrow> bool \<Rightarrow> ptr \<Rightarrow> ptr \<Rightarrow> ('v, 'e, 'u) fstore \<Rightarrow> (bool option \<times> ('v, 'e, 'u) fstore) option" where
  "fut_not sf queue_active awt f s =
     map_option (\<lambda>(r, s1). (map_option Not r, s1)) (fut_bool sf queue_active awt f s)"

text \<open>\<open>co_await\<close> of \<open>has_value()\<close> suspends as that of the future does.\<close>

definition has_value_await ::
    "bool list \<Rightarrow> ptr \<Rightarrow> handle \<Rightarrow> ptr \<Rightarrow> ('v, 'e, 'u) fstore \<Rightarrow> (bool option \<times> ('v, 'e, 'u) fstore) option" where
  "has_value_await sf a h f s = do {
     fu \<leftarrow> fut_at f s;
     (b, fu', s1) \<leftarrow> co_await (fut_ops sf) a h fu s;
     Some (if b then None else Some (fut_has_value fu'), upd_fut f (Some fu') s1) }"

subsection \<open>Members of promise\<close>

definition promise_invoke ::
    "('v, 'e, 'u) fworld client_fn \<Rightarrow> ptr \<Rightarrow> ('v, 'e) set_arg \<Rightarrow> ('v, 'e, 'u) fstore \<Rightarrow>
      (handle list \<times> bool \<times> ('v, 'e, 'u) fstore) option" where
  "promise_invoke cl p x s = promise_set cl p x s"

definition promise_set_exception ::
    "('v, 'e, 'u) fworld client_fn \<Rightarrow> ptr \<Rightarrow> 'e exc \<Rightarrow> ('v, 'e, 'u) fstore \<Rightarrow>
      (handle list \<times> bool \<times> ('v, 'e, 'u) fstore) option" where
  "promise_set_exception cl p e s = promise_set cl p (Arg_exc e) s"

text \<open>\<open>unhandled_exception\<close>, in a handler of \<open>e\<close>, gives the truth value only.\<close>

definition promise_unhandled_exception ::
    "('v, 'e, 'u) fworld client_fn \<Rightarrow> ptr \<Rightarrow> 'e exc \<Rightarrow> ('v, 'e, 'u) fstore \<Rightarrow>
      (handle list \<times> bool \<times> ('v, 'e, 'u) fstore) option" where
  "promise_unhandled_exception cl p e s = promise_set_exception cl p e s"

definition promise_not :: "ptr \<Rightarrow> ('v, 'e, 'u) fstore \<Rightarrow> bool option" where
  "promise_not p s = map_option (\<lambda>m. m = nullptr) (prom_at p s)"

definition promise_id :: "ptr \<Rightarrow> ('v, 'e, 'u) fstore \<Rightarrow> ptr option" where
  "promise_id p s = prom_at p s"

text \<open>
  \<open>bind\<close> moves the promise (to \<open>c\<close>, a member of the closure) and keeps the arguments; the
  closure calls it.
\<close>

definition promise_bind :: "ptr \<Rightarrow> ('v, 'e) set_arg \<Rightarrow> ptr \<Rightarrow> ('v, 'e, 'u) fstore \<Rightarrow>
    ((ptr \<times> ('v, 'e) set_arg) \<times> ('v, 'e, 'u) fstore) option" where
  "promise_bind p x c s = map_option (Pair (c, x)) (promise_move c p s)"

definition bound_call ::
    "('v, 'e, 'u) fworld client_fn \<Rightarrow> ptr \<times> ('v, 'e) set_arg \<Rightarrow> ('v, 'e, 'u) fstore \<Rightarrow>
      (handle list \<times> bool \<times> ('v, 'e, 'u) fstore) option" where
  "bound_call cl b s = (case b of (c, x) \<Rightarrow> promise_invoke cl c x s)"

subsection \<open>Promises with a default\<close>

definition pwd_new :: "ptr \<Rightarrow> ptr \<Rightarrow> 'v \<Rightarrow> ('v, 'e, 'u) fstore \<Rightarrow> ('v \<times> ('v, 'e, 'u) fstore) option" where
  "pwd_new p prom def s = map_option (Pair def) (promise_move p prom s)"

text \<open>\<open>val\<close> is the template argument; the assignment is the one of the base class.\<close>

definition pwd_v_destroy ::
    "('v, 'e, 'u) fworld client_fn \<Rightarrow> ptr \<Rightarrow> 'v \<Rightarrow> ('v, 'e, 'u) fstore \<Rightarrow> (handle list \<times> ('v, 'e, 'u) fstore) option" where
  "pwd_v_destroy cl p val s = do {
     (hs, _, s1) \<leftarrow> promise_set cl p (Arg_value val) s;
     (hs', s2) \<leftarrow> promise_destroy cl p s1;
     Some (hs @ hs', s2) }"

definition pwd_v_assign ::
    "('v, 'e, 'u) fworld client_fn \<Rightarrow> ptr \<Rightarrow> ptr \<Rightarrow> ('v, 'e, 'u) fstore \<Rightarrow> (handle list \<times> ('v, 'e, 'u) fstore) option" where
  "pwd_v_assign cl p other s = promise_assign cl p other s"

text \<open>Here the template argument is the address of the default, read at destruction.\<close>

definition pwd_vp_destroy ::
    "('v, 'e, 'u) fworld client_fn \<Rightarrow> ptr \<Rightarrow> (('v, 'e, 'u) fstore \<Rightarrow> 'v) \<Rightarrow> ('v, 'e, 'u) fstore \<Rightarrow>
      (handle list \<times> ('v, 'e, 'u) fstore) option" where
  "pwd_vp_destroy cl p val s = do {
     (hs, _, s1) \<leftarrow> promise_set cl p (Arg_value (val s)) s;
     (hs', s2) \<leftarrow> promise_destroy cl p s1;
     Some (hs @ hs', s2) }"

text \<open>\<open>future_with_cb::operator<<\<close> (at \<open>f\<close>), by \<open>result_of\<close> of the base class.\<close>

definition cb_result_of ::
    "('v, 'e, 'u) fworld client_fn \<Rightarrow> (ptr \<Rightarrow> ('v, 'e, 'u) fstore \<Rightarrow> ('e exc option \<times> ('v, 'e, 'u) fstore) option)
      \<Rightarrow> ptr \<Rightarrow> ptr \<Rightarrow> ('v, 'e, 'u) fstore \<Rightarrow> (handle list \<times> ('v, 'e, 'u) fstore) option" where
  "cb_result_of cl fn f p s = result_of cl fn f p s"

subsection \<open>Lemmas\<close>

lemma fut_value_const_eq: "fut_value_const fu = fut_value fu"
  by (simp add: fut_value_const_def fut_value_def split: fstate.split)

text \<open>The awaiter of a thread that blocks is like any other in the chain.\<close>

lemma sync_awaiter_init_simps [simp]:
  "a_next (sync_awaiter_init a w) = (a_next w)(a := nullptr)" "a_fn (sync_awaiter_init a w) = (a_fn w)(a := Fn_wakeup)"
  "a_haddr (sync_awaiter_init a w) = (a_haddr w)(a := nullptr)" "a_flag (sync_awaiter_init a w) = (a_flag w)(a := False)"
  "fut_at f (sync_awaiter_init a s) = fut_at f s" "prom_at p (sync_awaiter_init a s) = prom_at p s"
  by (simp_all add: sync_awaiter_init_def set_resume_fn_def fut_at_def prom_at_def)

lemma a_flag_upd [simp]: "a_flag (upd_fut f x s) = a_flag s" "a_flag (upd_prom p m s) = a_flag s"
  by (simp_all add: upd_fut_def upd_prom_def)

definition blocked_store :: "ptr \<Rightarrow> ptr \<Rightarrow> ('v, 'e) future \<Rightarrow> ('v, 'e, 'u) fstore \<Rightarrow> ('v, 'e, 'u) fstore" where
  "blocked_store awt f fu s =
     upd_fut f (Some (fu\<lparr>f_awaiter := awt\<rparr>)) (set_next awt (f_awaiter fu) (sync_awaiter_init awt s))"

lemma fut_sync_pending:
  assumes "fut_at f s = Some fu" and "\<not> fut_ready fu"
  shows "fut_sync sf False awt f s = Some (True, blocked_store awt f fu s)"
    and "fut_force_sync sf awt f s = Some (True, blocked_store awt f fu s)"
  using assms by (simp_all add: fut_sync_def fut_force_sync_def sync_wait_def force_sync_def await_ready_def fut_ops_def
      fut_subscribe_result blocked_store_def)

lemma fut_sync_ready:
  assumes "fut_at f s = Some fu" and "fut_ready fu"
  shows "fut_sync sf qa awt f s = Some (False, s)" and "fut_force_sync sf awt f s = Some (False, s)"
proof -
  have "upd_fut f (Some fu) s = s" using assms(1) by (simp add: upd_fut_def fut_at_def fun_upd_idem)
  then show "fut_sync sf qa awt f s = Some (False, s)" "fut_force_sync sf awt f s = Some (False, s)"
    using assms by (simp_all add: fut_sync_def fut_force_sync_def sync_wait_def force_sync_def await_ready_def fut_ops_def)
qed

lemma blocked_chain:
  assumes "linked (a_next s) (f_awaiter fu) ws 0" and "plain s ws" and "proper awt" and "awt \<notin> set ws"
  shows "linked (a_next (blocked_store awt f fu s)) awt (awt # ws) 0" and "plain (blocked_store awt f fu s) (awt # ws)"
  using assms by (auto simp: blocked_store_def plain_def)

lemma blocked_handles: "awt \<notin> set ws \<Longrightarrow> handles_of (blocked_store awt f fu s) (awt # ws) = handles_of s ws"
  by (auto simp: handles_of_def blocked_store_def intro!: map_cong filter_cong)

text \<open>A callback future is pending from its construction, so \<open>operator<<\<close> destroys a pending future.\<close>

theorem cb_result_of_fails:
  assumes "proper f"
  shows "cb_result_of cl fn f p (future_with_cb f s) = None"
  using assms by (simp add: cb_result_of_def result_of_def fut_destroy_def future_with_cb_def pending_def)

section \<open>Properties\<close>

text \<open>
  C32. A thread that waits for a pending future blocks, with its awaiter in the chain. Setting
  the promise wakes it (and resumes the coroutines that wait, as without it), and what
  \<open>wait()\<close> then yields is what was set. Later calls return this at once; no wake-up is lost.
\<close>

theorem future_wait_wakes:
  assumes "prom_at p s = Some f" and "f \<noteq> 0" and "fut_at f s = Some fu" and "f_state fu = Not_value"
    and "linked (a_next s) (f_awaiter fu) ws 0" and "plain s ws" and "proper awt" and "awt \<notin> set ws"
  shows "\<exists>s1 s2. fut_wait sf False awt f s = Some (None, s1) \<and> \<not> a_flag s1 awt \<and>
    promise_set cl p x s1 = Some (handles_of s ws, True, s2) \<and> a_flag s2 awt \<and>
    fut_await_resume f s2 = Some (case x of Arg_value v \<Rightarrow> Inr (Own v) | Arg_ref r \<Rightarrow> Inr (At r) | Arg_exc e \<Rightarrow> Inl e) \<and>
    fut_wait sf queue_active awt2 f s2 = map_option (\<lambda>r. (Some r, s2)) (fut_await_resume f s2) \<and>
    fut_bool sf queue_active awt2 f s2 = Some (Some True, s2)"
proof -
  let ?b = "blocked_store awt f fu s"
  let ?s2 = "settled p (Some 0) f (stored x) (awt # ws) ?b"
  have "\<not> fut_ready fu" using linked_null_not_marker [OF assms(5)] by (simp add: fut_ready_def)
  then have "fut_wait sf False awt f s = Some (None, ?b)"
    using fut_sync_pending(1) [OF assms(3)] by (simp add: fut_wait_def)
  moreover have "\<not> a_flag ?b awt" by (simp add: blocked_store_def)
  moreover have "promise_set cl p x ?b = Some (handles_of s ws, True, ?s2)"
    using promise_set_result [of p ?b f "fu\<lparr>f_awaiter := awt\<rparr>" "awt # ws" cl x] blocked_chain [OF assms(5-8)]
      blocked_handles [OF assms(8)] assms(1-4) by (simp add: blocked_store_def)
  moreover have "a_flag ?s2 awt" by (simp add: settled_def blocked_store_def)
  moreover have at: "fut_at f ?s2 = Some (stored x)" by (simp add: settled_def)
  moreover have "fut_value (stored x) = Some (case x of Arg_value v \<Rightarrow> Inr (Own v) | Arg_ref r \<Rightarrow> Inr (At r) | Arg_exc e \<Rightarrow> Inl e)"
    "fut_has_value (stored x)"
    by (simp_all add: stored_def fut_value_def fut_has_value_def split: set_arg.split)
  ultimately show ?thesis
    using fut_sync_ready(1) [OF at stored_ready] stored_ready [of x]
    by (intro exI [of _ ?b] exI [of _ ?s2]) (simp add: fut_wait_def fut_await_resume_def fut_bool_def)
qed

theorem future_wait_wakes_witness:
  "\<exists>s1 s2. fut_wait [True] False 30 50 sample_store = Some (None, s1) \<and>
    promise_set (\<lambda>_ _ _ w. ([], w)) 60 (Arg_value 7) s1 = Some ([120, 110], True, s2) \<and> a_flag s2 30 \<and>
    fut_await_resume 50 s2 = Some (Inr (Own 7))"
  using future_wait_wakes [of 60 sample_store 50 "\<lparr>f_awaiter = 20, f_state = Not_value, f_slot = Raw\<rparr>"
      "[20, 10]" 30 "[True]" "\<lambda>_ _ _ w. ([], w)" "Arg_value 7" False 40]
  by (auto simp: sample_store_def cocls_store proper_def plain_def handles_of_def)

text \<open>
  A promise with a default sets it when it is destroyed unresolved. But when another promise
  is assigned to it, its future is dropped: it is resolved without a value.
\<close>

theorem default_promise_assigned_drops:
  assumes "prom_at p s = Some f" and "f \<noteq> 0" and "fut_at f s = Some fu" and "f_state fu = Not_value"
    and "linked (a_next s) (f_awaiter fu) ws 0" and "plain s ws" and "prom_at q s = Some m" and "p \<noteq> q"
  shows "(\<exists>s'. pwd_v_destroy cl p val s = Some (handles_of s ws, s') \<and> fut_at f s' = Some (stored (Arg_value val))) \<and>
    (\<exists>s' fu'. pwd_v_assign cl p q s = Some (handles_of s ws, s') \<and> fut_at f s' = Some fu' \<and>
      fut_ready fu' \<and> \<not> fut_has_value fu')"
proof -
  have "pwd_v_destroy cl p val s = pwd_destroy cl p val s" by (simp add: pwd_v_destroy_def pwd_destroy_def)
  with pwd_destroy_pending [OF assms(1-6), of cl val] show ?thesis
    using promise_drop_result [OF assms(1-3,5,6), of cl] assms(4,7,8)
    by (auto simp: pwd_v_assign_def promise_assign_def claim_def settled_def fut_ready_def fut_has_value_def)
qed

end
