(* ===== verification/Future_Conv.thy ===== *)
theory Future_Conv
  imports Future
begin

section \<open>future_conv: a future converted by a function\<close>

text \<open>
  \<open>future_conv.h\<close>. An object \<open>future_conv<fn>\<close> at \<open>c\<close> is an awaiter with two members: the
  future \<open>_fut\<close> it waits for (at \<open>ff\<close>) and the promise \<open>_prom\<close> of the result (at \<open>pp\<close>). Its
  resumption converts what came and sets the promise. The six specialisations differ in the
  function: a member of a context or free, with or without an argument, giving the value or
  setting the promise itself. \<open>'v\<close> holds the values of both types, and that of \<open>void\<close>.

  The functions are the client's: they get the context pointer and the store, and give their
  result or what they throw. \<open>cv_failed\<close> records that a resumption met undefined behaviour.
\<close>

record 'u cvuser =
  cv_failed :: bool
  cv_ctx :: 'u

type_synonym ('v, 'e, 'u) cvstore = "('v, 'e, 'u cvuser) fstore"
type_synonym ('v, 'e, 'u) cvclient = "('v, 'e, 'u cvuser) fworld client_fn"

definition cvu :: "('v, 'e, 'u) cvstore \<Rightarrow> 'u cvuser" where
  "cvu s = user (client s)"

definition upd_cvu :: "('u cvuser \<Rightarrow> 'u cvuser) \<Rightarrow> ('v, 'e, 'u) cvstore \<Rightarrow> ('v, 'e, 'u) cvstore" where
  "upd_cvu k s = s\<lparr>client := (client s)\<lparr>user := k (user (client s))\<rparr>\<rparr>"

lemma cvu_simps [simp]:
  "cvu (upd_fut f x s) = cvu s" "cvu (upd_prom p m s) = cvu s" "cvu (set_next a q s) = cvu s"
  "cvu (set_handle a h s) = cvu s" "cvu (set_resume_fn a fn c s) = cvu s" "cvu (upd_cvu k s) = k (cvu s)"
  "cvu (resumed ws s) = cvu s"
  by (simp_all add: cvu_def upd_fut_def upd_prom_def set_handle_def set_resume_fn_def upd_cvu_def)

lemma upd_cvu_simps [simp]:
  "fut_at f (upd_cvu k s) = fut_at f s" "prom_at p (upd_cvu k s) = prom_at p s" "a_next (upd_cvu k s) = a_next s"
  "a_fn (upd_cvu k s) = a_fn s" "a_haddr (upd_cvu k s) = a_haddr s" "plain (upd_cvu k s) ws = plain s ws"
  "handles_of (upd_cvu k s) ws = handles_of s ws"
  by (simp_all add: fut_at_def prom_at_def upd_cvu_def plain_def handles_of_def)

subsection \<open>The conversions\<close>

text \<open>\<open>*_fut\<close> of a future that is resolved; a resumption has no other.\<close>

definition conv_source :: "ptr \<Rightarrow> ('v, 'e, 'u) cvstore \<Rightarrow> ('e exc + 'v reference) option" where
  "conv_source ff s = do { fu \<leftarrow> fut_at ff s; if fut_ready fu then fut_value fu else None }"

text \<open>\<open>p(\<dots>)\<close>, the last use of the local promise \<open>p\<close>, and its destruction.\<close>

definition conv_return ::
    "('v, 'e, 'u) cvclient \<Rightarrow> ptr \<Rightarrow> 'e exc + 'v \<Rightarrow> ('v, 'e, 'u) cvstore \<Rightarrow> (handle list \<times> ('v, 'e, 'u) cvstore) option" where
  "conv_return cl p r s = do {
     (hs, _, s1) \<leftarrow> promise_set cl p (case r of Inl e \<Rightarrow> Arg_exc e | Inr v \<Rightarrow> Arg_value v) s;
     (hs', s2) \<leftarrow> promise_destroy cl p s1;
     Some (hs @ hs', s2) }"

text \<open>\<open>To (Context::*fn)(From &)\<close>\<close>

definition conv_member ::
    "('v, 'e, 'u) cvclient \<Rightarrow> (ptr \<Rightarrow> 'v reference \<Rightarrow> ('v, 'e, 'u) cvstore \<Rightarrow> ('e exc + 'v) \<times> ('v, 'e, 'u) cvstore) \<Rightarrow>
      ptr \<Rightarrow> ptr \<Rightarrow> ptr \<Rightarrow> ptr \<Rightarrow> ('v, 'e, 'u) cvstore \<Rightarrow> (handle list \<times> ('v, 'e, 'u) cvstore) option" where
  "conv_member cl fn ff pp p ctx s = do {
     s1 \<leftarrow> promise_move p pp s;
     r \<leftarrow> conv_source ff s1;
     case r of
       Inl e \<Rightarrow> conv_return cl p (Inl e) s1
     | Inr v \<Rightarrow> (let (x, s2) = fn ctx v s1 in conv_return cl p x s2) }"

text \<open>\<open>To (Context::*fn)()\<close>: the source is \<open>void\<close>; it is not looked at.\<close>

definition conv_member_void ::
    "('v, 'e, 'u) cvclient \<Rightarrow> (ptr \<Rightarrow> ('v, 'e, 'u) cvstore \<Rightarrow> ('e exc + 'v) \<times> ('v, 'e, 'u) cvstore) \<Rightarrow>
      ptr \<Rightarrow> ptr \<Rightarrow> ptr \<Rightarrow> ptr \<Rightarrow> ('v, 'e, 'u) cvstore \<Rightarrow> (handle list \<times> ('v, 'e, 'u) cvstore) option" where
  "conv_member_void cl fn ff pp p ctx s = do {
     s1 \<leftarrow> promise_move p pp s;
     let (x, s2) = fn ctx s1;
     conv_return cl p x s2 }"

text \<open>
  \<open>suspend_point<void> (Context::*fn)(From &, promise<To> &)\<close>: the function may set the
  promise, move it away or leave it; what is left is dropped with the local object.
\<close>

definition conv_promise_end ::
    "('v, 'e, 'u) cvclient \<Rightarrow> ptr \<Rightarrow> ('e exc + handle list) \<times> ('v, 'e, 'u) cvstore \<Rightarrow>
      (handle list \<times> ('v, 'e, 'u) cvstore) option" where
  "conv_promise_end cl p r = (case r of
       (Inl e, s) \<Rightarrow> conv_return cl p (Inl e) s
     | (Inr hs, s) \<Rightarrow> map_option (\<lambda>(hs', s'). (hs @ hs', s')) (promise_destroy cl p s))"

definition conv_promise ::
    "('v, 'e, 'u) cvclient \<Rightarrow>
      (ptr \<Rightarrow> 'v reference \<Rightarrow> ptr \<Rightarrow> ('v, 'e, 'u) cvstore \<Rightarrow> ('e exc + handle list) \<times> ('v, 'e, 'u) cvstore) \<Rightarrow>
      ptr \<Rightarrow> ptr \<Rightarrow> ptr \<Rightarrow> ptr \<Rightarrow> ('v, 'e, 'u) cvstore \<Rightarrow> (handle list \<times> ('v, 'e, 'u) cvstore) option" where
  "conv_promise cl fn ff pp p ctx s = do {
     s1 \<leftarrow> promise_move p pp s;
     r \<leftarrow> conv_source ff s1;
     case r of
       Inl e \<Rightarrow> conv_return cl p (Inl e) s1
     | Inr v \<Rightarrow> conv_promise_end cl p (fn ctx v p s1) }"

definition conv_promise_void ::
    "('v, 'e, 'u) cvclient \<Rightarrow> (ptr \<Rightarrow> ptr \<Rightarrow> ('v, 'e, 'u) cvstore \<Rightarrow> ('e exc + handle list) \<times> ('v, 'e, 'u) cvstore) \<Rightarrow>
      ptr \<Rightarrow> ptr \<Rightarrow> ptr \<Rightarrow> ptr \<Rightarrow> ('v, 'e, 'u) cvstore \<Rightarrow> (handle list \<times> ('v, 'e, 'u) cvstore) option" where
  "conv_promise_void cl fn ff pp p ctx s = do {
     s1 \<leftarrow> promise_move p pp s;
     conv_promise_end cl p (fn ctx p s1) }"

text \<open>\<open>To (*fn)(From &)\<close>, whose context is null, and \<open>To (*fn)(From &, Context *)\<close>\<close>

definition conv_free ::
    "('v, 'e, 'u) cvclient \<Rightarrow> ('v reference \<Rightarrow> ('v, 'e, 'u) cvstore \<Rightarrow> ('e exc + 'v) \<times> ('v, 'e, 'u) cvstore) \<Rightarrow>
      ptr \<Rightarrow> ptr \<Rightarrow> ptr \<Rightarrow> ptr \<Rightarrow> ('v, 'e, 'u) cvstore \<Rightarrow> (handle list \<times> ('v, 'e, 'u) cvstore) option" where
  "conv_free cl fn ff pp p ctx s = do {
     s1 \<leftarrow> promise_move p pp s;
     r \<leftarrow> conv_source ff s1;
     case r of
       Inl e \<Rightarrow> conv_return cl p (Inl e) s1
     | Inr v \<Rightarrow> (let (x, s2) = fn v s1 in conv_return cl p x s2) }"

definition conv_free_ctx ::
    "('v, 'e, 'u) cvclient \<Rightarrow> ('v reference \<Rightarrow> ptr \<Rightarrow> ('v, 'e, 'u) cvstore \<Rightarrow> ('e exc + 'v) \<times> ('v, 'e, 'u) cvstore) \<Rightarrow>
      ptr \<Rightarrow> ptr \<Rightarrow> ptr \<Rightarrow> ptr \<Rightarrow> ('v, 'e, 'u) cvstore \<Rightarrow> (handle list \<times> ('v, 'e, 'u) cvstore) option" where
  "conv_free_ctx cl fn ff pp p ctx s = do {
     s1 \<leftarrow> promise_move p pp s;
     r \<leftarrow> conv_source ff s1;
     case r of
       Inl e \<Rightarrow> conv_return cl p (Inl e) s1
     | Inr v \<Rightarrow> (let (x, s2) = fn v ctx s1 in conv_return cl p x s2) }"

subsection \<open>The object\<close>

definition fn_conv :: nat where
  "fn_conv = 103"

text \<open>\<open>w\<close> is one of the conversions above, for the members of the object.\<close>

definition conv_clients ::
    "(ptr \<Rightarrow> ('v, 'e, 'u) cvstore \<Rightarrow> (handle list \<times> ('v, 'e, 'u) cvstore) option) \<Rightarrow> ('v, 'e, 'u) cvclient \<Rightarrow>
      ('v, 'e, 'u) cvclient" where
  "conv_clients w cl k a ctx s =
     (if k = fn_conv then (case w ctx s of Some r \<Rightarrow> r | None \<Rightarrow> ([], upd_cvu (\<lambda>u. u\<lparr>cv_failed := True\<rparr>) s))
      else cl k a ctx s)"

definition conv_init :: "ptr \<Rightarrow> ptr \<Rightarrow> ptr \<Rightarrow> ptr \<Rightarrow> ('v, 'e, 'u) cvstore \<Rightarrow> ('v, 'e, 'u) cvstore" where
  "conv_init c ff pp ctx s =
     upd_prom pp (Some nullptr) (upd_fut ff (Some fut_default)
       (set_resume_fn c (Fn_client fn_conv) ctx (set_next c nullptr s)))"

text \<open>\<open>_fut << fn\<close>, then the subscription of the object, which is resumed at once if it fails.\<close>

definition conv_await ::
    "bool list \<Rightarrow> ('v, 'e, 'u) cvclient \<Rightarrow> (ptr \<Rightarrow> ('v, 'e, 'u) cvstore \<Rightarrow> ('e exc option \<times> ('v, 'e, 'u) cvstore) option)
      \<Rightarrow> ptr \<Rightarrow> ptr \<Rightarrow> ptr \<Rightarrow> ('v, 'e, 'u) cvstore \<Rightarrow> (handle list \<times> ('v, 'e, 'u) cvstore) option" where
  "conv_await sf cl src c ff q s = do {
     (hs, s1) \<leftarrow> result_of cl src ff q s;
     fu \<leftarrow> fut_at ff s1;
     (w, fu', s2) \<leftarrow> fut_subscribe sf c fu s1;
     let s3 = upd_fut ff (Some fu') s2;
     Some (if w then (hs, s3) else (let (hs', s4) = resume_awaiter cl c s3 in (hs @ hs', s4))) }"

text \<open>\<open>operator()\<close> takes the promise; the helper it gives then awaits.\<close>

definition conv_call ::
    "('v, 'e, 'u) cvclient \<Rightarrow> ptr \<Rightarrow> ptr \<Rightarrow> ('v, 'e, 'u) cvstore \<Rightarrow> (handle list \<times> ('v, 'e, 'u) cvstore) option" where
  "conv_call cl pp prom s = promise_assign cl pp prom s"

definition conv_helper ::
    "bool list \<Rightarrow> ('v, 'e, 'u) cvclient \<Rightarrow> (ptr \<Rightarrow> ('v, 'e, 'u) cvstore \<Rightarrow> ('e exc option \<times> ('v, 'e, 'u) cvstore) option)
      \<Rightarrow> ptr \<Rightarrow> ptr \<Rightarrow> ptr \<Rightarrow> ('v, 'e, 'u) cvstore \<Rightarrow> (handle list \<times> ('v, 'e, 'u) cvstore) option" where
  "conv_helper sf cl xfn owner ff q s = conv_await sf cl xfn owner ff q s"

text \<open>\<open>operator<<\<close> constructs the future at \<open>f\<close>, with the promise \<open>prom\<close> of the lambda.\<close>

definition conv_from ::
    "bool list \<Rightarrow> ('v, 'e, 'u) cvclient \<Rightarrow> (ptr \<Rightarrow> ('v, 'e, 'u) cvstore \<Rightarrow> ('e exc option \<times> ('v, 'e, 'u) cvstore) option)
      \<Rightarrow> ptr \<Rightarrow> ptr \<Rightarrow> ptr \<Rightarrow> ptr \<Rightarrow> ptr \<Rightarrow> ptr \<Rightarrow> ('v, 'e, 'u) cvstore \<Rightarrow> (handle list \<times> ('v, 'e, 'u) cvstore) option" where
  "conv_from sf cl src c ff pp q f prom s = do {
     s1 \<leftarrow> fut_construct (\<lambda>_. Some) f prom s;
     (hs1, s2) \<leftarrow> promise_assign cl pp prom s1;
     (hs2, s3) \<leftarrow> conv_await sf cl src c ff q s2;
     (hs3, s4) \<leftarrow> promise_destroy cl prom s3;
     Some (hs1 @ hs2 @ hs3, s4) }"

subsection \<open>Lemmas\<close>

definition arg_of :: "'e exc + 'v \<Rightarrow> ('v, 'e) set_arg" where
  "arg_of r = (case r of Inl e \<Rightarrow> Arg_exc e | Inr v \<Rightarrow> Arg_value v)"

definition arg_result :: "('v, 'e) set_arg \<Rightarrow> 'e exc + 'v reference" where
  "arg_result x = (case x of Arg_value v \<Rightarrow> Inr (Own v) | Arg_ref r \<Rightarrow> Inr (At r) | Arg_exc e \<Rightarrow> Inl e)"

lemma conv_source_stored: "fut_at ff s = Some (stored x) \<Longrightarrow> conv_source ff s = Some (arg_result x)"
  using stored_ready [of x]
  by (simp add: conv_source_def) (simp add: stored_def fut_value_def arg_result_def split: set_arg.split)

lemma conv_return_result:
  assumes "prom_at p s = Some f" and "f \<noteq> 0" and "fut_at f s = Some fu" and "f_state fu = Not_value"
    and "linked (a_next s) (f_awaiter fu) ws 0" and "plain s ws"
  shows "conv_return cl p r s = Some (handles_of s ws, settled p None f (stored (arg_of r)) ws s)"
proof -
  let ?s = "settled p (Some 0) f (stored (arg_of r)) ws s"
  have "promise_destroy cl p ?s = Some ([], upd_prom p None ?s)"
    by (rule promise_empty_result) (simp add: settled_def)
  moreover have "upd_prom p None ?s = settled p None f (stored (arg_of r)) ws s"
    by (simp add: settled_def resumed_upd upd_commute) (simp add: upd_prom_def)
  ultimately show ?thesis
    using promise_set_result [OF assms, of cl "arg_of r"] by (simp add: conv_return_def arg_of_def)
qed

text \<open>Setting a future whose only awaiter is an object with a function of its own.\<close>

lemma promise_set_one:
  assumes "prom_at q s = Some ff" and "ff \<noteq> 0" and "fut_at ff s = Some fu" and "f_state fu = Not_value"
    and "linked (a_next s) (f_awaiter fu) [c] 0" and "a_fn s c = Fn_client k"
  shows "promise_set cl q x s =
    (let (hs, s') = cl k c (a_haddr s c) (upd_fut ff (Some (stored x)) (upd_prom q (Some 0) s)) in Some (hs, True, s'))"
proof -
  let ?t = "upd_fut ff (Some (stored x)) (upd_prom q (Some 0) s)"
  obtain fu' where fu': "fut_set x fu = Some fu'" "fu'\<lparr>f_awaiter := awaiter_disabled\<rparr> = stored x"
    "f_awaiter fu' = f_awaiter fu" using fut_set_result [OF assms(4)] by blast
  have c: "f_awaiter fu = c" "proper c" "a_next ?t c = 0" using assms(5) by auto
  have "resume_awaiter cl c ?t = cl k c (a_haddr s c) ?t" using assms(6) by (simp add: resume_awaiter_def)
  then have "fut_resolve cl ff (upd_fut ff (Some fu') (upd_prom q (Some 0) s)) = Some (cl k c (a_haddr s c) ?t)"
    using resume_chain_loop_one [OF c(2,3), of cl] fu' c(1) by (simp add: fut_resolve_def resume_chain_lk_def)
  then show ?thesis using assms(1-3) fu'(1)
    by (simp add: promise_set_def claim_def promise_call_def split_def Let_def)
qed

text \<open>A conversion that reads and changes the state of its context, and nothing else.\<close>

definition ctx_fn :: "(ptr \<Rightarrow> 'v reference \<Rightarrow> 'u \<Rightarrow> ('e exc + 'v) \<times> 'u) \<Rightarrow> ptr \<Rightarrow> 'v reference \<Rightarrow> ('v, 'e, 'u) cvstore \<Rightarrow>
    ('e exc + 'v) \<times> ('v, 'e, 'u) cvstore" where
  "ctx_fn g ctx v s = (let (x, u) = g ctx v (cv_ctx (cvu s)) in (x, upd_cvu (\<lambda>c. c\<lparr>cv_ctx := u\<rparr>) s))"

text \<open>The object waits for \<open>ff\<close>, to be set by \<open>q\<close>; its promise is that of \<open>f\<close>, for which \<open>ws\<close> wait.\<close>

definition converting ::
    "ptr \<Rightarrow> ptr \<Rightarrow> ptr \<Rightarrow> ptr \<Rightarrow> ptr \<Rightarrow> ptr \<Rightarrow> ptr list \<Rightarrow> ('v, 'e, 'u) cvstore \<Rightarrow> bool" where
  "converting c ff pp p q f ws s \<longleftrightarrow>
     prom_at q s = Some ff \<and> ff \<noteq> nullptr \<and> a_fn s c = Fn_client fn_conv \<and>
     (\<exists>fu. fut_at ff s = Some fu \<and> f_state fu = Not_value \<and> linked (a_next s) (f_awaiter fu) [c] nullptr) \<and>
     prom_at pp s = Some f \<and> f \<noteq> nullptr \<and> f \<noteq> ff \<and>
     (\<exists>gu. fut_at f s = Some gu \<and> f_state gu = Not_value \<and> linked (a_next s) (f_awaiter gu) ws nullptr) \<and>
     plain s ws \<and> distinct [p, q, pp] \<and> \<not> cv_failed (cvu s)"

lemma converting_source:
  fixes x :: "('v, 'e) set_arg"
  assumes "converting c ff pp p q f ws s"
  defines "t \<equiv> upd_fut ff (Some (stored x)) (upd_prom q (Some 0) s)"
  shows "promise_set (conv_clients w cl) q x s =
      (case w (a_haddr s c) t of Some (hs, s') \<Rightarrow> Some (hs, True, s')
        | None \<Rightarrow> Some ([], True, upd_cvu (\<lambda>u. u\<lparr>cv_failed := True\<rparr>) t))"
    and "promise_move p pp t = Some (upd_prom p (Some f) (upd_prom pp (Some 0) t))"
proof -
  obtain fu where "fut_at ff s = Some fu" "f_state fu = Not_value" "linked (a_next s) (f_awaiter fu) [c] 0"
    using assms(1) by (auto simp: converting_def)
  with promise_set_one [of q s ff fu c fn_conv "conv_clients w cl" x] assms
  show "promise_set (conv_clients w cl) q x s =
      (case w (a_haddr s c) t of Some (hs, s') \<Rightarrow> Some (hs, True, s')
        | None \<Rightarrow> Some ([], True, upd_cvu (\<lambda>u. u\<lparr>cv_failed := True\<rparr>) t))"
    by (auto simp: converting_def conv_clients_def split: option.split)
  show "promise_move p pp t = Some (upd_prom p (Some f) (upd_prom pp (Some 0) t))"
    using assms by (simp add: converting_def promise_move_def claim_def t_def)
qed

lemma converting_return:
  fixes x :: "('v, 'e) set_arg"
  assumes co: "converting c ff pp p q f ws s"
  defines "t \<equiv> upd_prom p (Some f) (upd_prom pp (Some 0) (upd_fut ff (Some (stored x)) (upd_prom q (Some 0) s)))"
  shows "\<exists>s'. conv_return cl p r (upd_cvu k t) = Some (handles_of s ws, s') \<and> fut_at f s' = Some (stored (arg_of r)) \<and>
    fut_at ff s' = Some (stored x) \<and> prom_at pp s' = Some 0 \<and> prom_at q s' = Some 0 \<and> prom_at p s' = None \<and> cvu s' = k (cvu s)"
proof -
  obtain gu where gu: "fut_at f s = Some gu" "f_state gu = Not_value" "linked (a_next s) (f_awaiter gu) ws 0"
    using co by (auto simp: converting_def)
  have "conv_return cl p r (upd_cvu k t) =
      Some (handles_of s ws, settled p None f (stored (arg_of r)) ws (upd_cvu k t))"
    using conv_return_result [of p "upd_cvu k t" f gu ws cl r] gu co by (simp add: converting_def t_def)
  then show ?thesis using co by (simp add: settled_def converting_def t_def)
qed

section \<open>Properties\<close>

text \<open>
  C31. When the source of a conversion is resolved, the result is resolved once: with what the
  conversion function gives for the value, or with the exception it throws, or with the one
  the source brings (the function is not called then). Those who wait for the result are
  resumed, the object is ready for another use, and its context is as the function left it.
\<close>

theorem future_conv_converts:
  assumes "converting c ff pp p q f ws s"
  shows "\<exists>s'. promise_set (conv_clients (conv_member cl (ctx_fn g) ff pp p) cl) q x s = Some (handles_of s ws, True, s') \<and>
    fut_at f s' = Some (stored (case arg_result x of Inl e \<Rightarrow> Arg_exc e
      | Inr v \<Rightarrow> arg_of (fst (g (a_haddr s c) v (cv_ctx (cvu s)))))) \<and>
    cv_ctx (cvu s') = (case arg_result x of Inl e \<Rightarrow> cv_ctx (cvu s) | Inr v \<Rightarrow> snd (g (a_haddr s c) v (cv_ctx (cvu s)))) \<and>
    \<not> cv_failed (cvu s') \<and> fut_at ff s' = Some (stored x) \<and> prom_at pp s' = Some nullptr \<and> prom_at q s' = Some nullptr"
proof -
  let ?t = "upd_fut ff (Some (stored x)) (upd_prom q (Some 0) s)"
  let ?u = "upd_prom p (Some f) (upd_prom pp (Some 0) ?t)"
  have src: "conv_source ff ?u = Some (arg_result x)" by (rule conv_source_stored) simp
  have ok: "\<not> cv_failed (cvu s)" using assms by (simp add: converting_def)
  note set1 = converting_source(1) [OF assms, of "conv_member cl (ctx_fn g) ff pp p" cl x]
  note move1 = converting_source(2) [OF assms, of x]
  show ?thesis
  proof (cases "arg_result x")
    case (Inl e)
    have "upd_cvu (\<lambda>u. u) ?u = ?u" by (simp add: upd_cvu_def)
    with converting_return [OF assms, of cl "Inl e" "\<lambda>u. u" x] Inl set1 move1 src ok show ?thesis
      by (auto simp: conv_member_def arg_of_def)
  next
    case (Inr v)
    obtain y u where g: "g (a_haddr s c) v (cv_ctx (cvu s)) = (y, u)" by (cases "g (a_haddr s c) v (cv_ctx (cvu s))") auto
    with converting_return [OF assms, of cl y "\<lambda>c. c\<lparr>cv_ctx := u\<rparr>" x] Inr set1 move1 src ok show ?thesis
      by (auto simp: conv_member_def ctx_fn_def)
  qed
qed

text \<open>The object at 10 with its members at 11 and 12, whose context adds up what it converts.\<close>

definition conv_sample :: "(nat, unit, nat) cvstore" where
  "conv_sample = upd_prom 12 (Some 50) (upd_fut 50 (Some (fut_started\<lparr>f_awaiter := 20\<rparr>))
     (upd_prom 60 (Some 11) (upd_fut 11 (Some (fut_started\<lparr>f_awaiter := 10\<rparr>)) (set_handle 20 120
       (conv_init 10 11 12 0 \<lparr>a_next = \<lambda>_. 0, a_fn = \<lambda>_. Fn_coro, a_haddr = \<lambda>_. 0, a_flag = \<lambda>_. False,
         client = \<lparr>futs = Map.empty, proms = Map.empty, user = \<lparr>cv_failed = False, cv_ctx = 5\<rparr>\<rparr>\<rparr>)))))"

theorem future_conv_converts_witness:
  "\<exists>s'. promise_set (conv_clients (conv_member (\<lambda>_ _ _ s. ([], s))
        (ctx_fn (\<lambda>ctx v n. case v of Own k \<Rightarrow> (Inr (n + k), n + k) | At a \<Rightarrow> (Inl (User ()), n))) 11 12 13)
      (\<lambda>_ _ _ s. ([], s))) 60 (Arg_value 7) conv_sample = Some ([120], True, s') \<and>
    fut_at 50 s' = Some (stored (Arg_value 12)) \<and> cv_ctx (cvu s') = 12"
proof -
  have c: "converting 10 11 12 13 60 50 [20] conv_sample"
    by (simp add: converting_def conv_sample_def conv_init_def fut_started_def plain_def proper_def cvu_def cocls_store)
  have h: "handles_of conv_sample [20] = [120]" "cv_ctx (cvu conv_sample) = 5"
    by (simp_all add: handles_of_def conv_sample_def conv_init_def cvu_def cocls_store)
  from future_conv_converts [OF c, of "\<lambda>_ _ _ s. ([], s)"
      "\<lambda>ctx v n. case v of Own k \<Rightarrow> (Inr (n + k), n + k) | At a \<Rightarrow> (Inl (User ()), n)" "Arg_value 7"] h
  show ?thesis by (auto simp: arg_result_def arg_of_def)
qed

text \<open>
  A conversion without argument does not look at its source: a source that fails is converted
  like one that succeeds.
\<close>

theorem conv_void_ignores_failure:
  assumes "converting c ff pp p q f ws s"
  shows "\<exists>s'. promise_set (conv_clients (conv_member_void cl (\<lambda>ctx s. (Inr v, s)) ff pp p) cl) q (Arg_exc e) s =
      Some (handles_of s ws, True, s') \<and> fut_at f s' = Some (stored (Arg_value v))"
proof -
  note set1 = converting_source(1) [OF assms, of "conv_member_void cl (\<lambda>ctx s. (Inr v, s)) ff pp p" cl "Arg_exc e"]
  note move1 = converting_source(2) [OF assms, of "Arg_exc e"]
  have "upd_cvu (\<lambda>u. u) t = t" for t :: "('a, 'b, 'c) cvstore" by (simp add: upd_cvu_def)
  with converting_return [OF assms, of cl "Inr v" "\<lambda>u. u" "Arg_exc e"] set1 move1 show ?thesis
    by (auto simp: conv_member_void_def arg_of_def)
qed

end
