(* ===== verification/Generator_Aggregator.thy ===== *)
theory Generator_Aggregator
  imports Prelude
begin

section \<open>generator\_aggregator: one generator out of many\<close>

text \<open>
  \<open>generator_aggregator.h\<close>. The aggregator is a coroutine that asks all its generators for a
  value and yields the values in the order they come; whoever's value was taken is asked for
  the next one. A \<open>GenCallback\<close> is an awaiter that pushes itself into a queue when its
  generator comes to a \<open>co_yield\<close> or to its end. The queue (\<open>queue.h\<close>, first in, first out, as
  shown there) is the list \<open>ag_items\<close> of callbacks with the state of the one \<open>pop\<close>.

  A generator is what a callback sees of it: busy, or with a value, an exception, or done.
  Asked for a value, it answers at once (a synchronous generator) or later, in a step of its
  own; a parameter of each operation that asks says which. \<open>'a\<close> is the type of the arguments,
  \<open>unit\<close> for generators without one. The \<open>std::size_t\<close> counter only counts down, while it is
  positive, and is a natural number. \<open>ag_log\<close> records what happens.
\<close>

subsection \<open>State\<close>

datatype ('v, 'e) gstat =
    G_busy
  | G_value 'v
  | G_failed "'e exc"
  | G_done

datatype pop_state =
    No_pop
  | Pop_waiting
  | Pop_got nat

datatype ('a, 'v, 'e) agg_event =
    Asked nat 'a
  | Answered nat "('v, 'e) gstat"
  | Yielded nat 'v

record ('a, 'v, 'e) aggr =
  ag_gens :: "('v, 'e) gstat list"
  ag_items :: "nat list"
  ag_pop :: pop_state
  ag_count :: nat
  ag_exp :: "'e exc option"
  ag_cur :: "nat option"
  ag_end :: "'e exc option option"
  ag_log :: "('a, 'v, 'e) agg_event list"

text \<open>The local variables, before any generator is asked.\<close>

definition agg_new :: "nat \<Rightarrow> ('a, 'v, 'e) aggr" where
  "agg_new n = \<lparr>ag_gens = replicate n G_busy, ag_items = [], ag_pop = No_pop, ag_count = n, ag_exp = None,
     ag_cur = None, ag_end = None, ag_log = []\<rparr>"

subsection \<open>Callbacks\<close>

text \<open>The function of a callback: \<open>push\<close> gives the callback to the waiting \<open>pop\<close>, or keeps it.\<close>

definition gcb_push :: "nat \<Rightarrow> ('a, 'v, 'e) aggr \<Rightarrow> ('a, 'v, 'e) aggr" where
  "gcb_push i s =
     (if ag_pop s = Pop_waiting then s\<lparr>ag_pop := Pop_got i\<rparr> else s\<lparr>ag_items := ag_items s @ [i]\<rparr>)"

definition gen_answers :: "nat \<Rightarrow> ('v, 'e) gstat \<Rightarrow> ('a, 'v, 'e) aggr \<Rightarrow> ('a, 'v, 'e) aggr" where
  "gen_answers i r s =
     gcb_push i (s\<lparr>ag_gens := (ag_gens s)[i := r], ag_log := ag_log s @ [Answered i r]\<rparr>)"

definition gcb_charge ::
    "nat \<Rightarrow> 'a \<Rightarrow> ('v, 'e) gstat option \<Rightarrow> ('a, 'v, 'e) aggr \<Rightarrow> ('a, 'v, 'e) aggr" where
  "gcb_charge i a now s =
     (let s1 = s\<lparr>ag_gens := (ag_gens s)[i := G_busy], ag_log := ag_log s @ [Asked i a]\<rparr>
      in case now of None \<Rightarrow> s1 | Some r \<Rightarrow> gen_answers i r s1)"

subsection \<open>The loop\<close>

definition cnt_fin :: "('a, 'v, 'e) aggr \<Rightarrow> ('a, 'v, 'e) aggr" where
  "cnt_fin s = s\<lparr>ag_count := ag_count s - 1\<rparr>"

text \<open>
  The body of the loop for the callback that was popped, up to the next iteration (\<open>True\<close>) or
  the \<open>co_yield\<close>. Looking at a generator that runs is undefined.
\<close>

definition agg_visit :: "nat \<Rightarrow> ('a, 'v, 'e) aggr \<Rightarrow> (bool \<times> ('a, 'v, 'e) aggr) option" where
  "agg_visit i s =
     (if i < length (ag_gens s) then
        (case ag_gens s ! i of
           G_busy \<Rightarrow> None
         | G_done \<Rightarrow> Some (True, cnt_fin s)
         | G_value v \<Rightarrow> Some (False, s\<lparr>ag_cur := Some i, ag_log := ag_log s @ [Yielded i v]\<rparr>)
         | G_failed e \<Rightarrow> Some (True, cnt_fin (s\<lparr>ag_exp := Some e\<rparr>)))
      else None)"

lemma agg_visit_items: "agg_visit i s = Some (b, s') \<Longrightarrow> ag_items s' = ag_items s"
  by (auto simp: agg_visit_def cnt_fin_def split: gstat.splits if_splits)

text \<open>The loop runs until it has to wait in \<open>co_await queue.pop()\<close>, yields, or ends.\<close>

function agg_loop :: "('a, 'v, 'e) aggr \<Rightarrow> ('a, 'v, 'e) aggr option" where
  "agg_loop s =
     (if ag_count s = 0 then Some (s\<lparr>ag_end := Some (ag_exp s)\<rparr>)
      else
        (case ag_items s of
           [] \<Rightarrow> Some (s\<lparr>ag_pop := Pop_waiting\<rparr>)
         | i # q \<Rightarrow>
             (case agg_visit i (s\<lparr>ag_items := q\<rparr>) of
                None \<Rightarrow> None
              | Some (True, s') \<Rightarrow> agg_loop s'
              | Some (False, s') \<Rightarrow> Some s')))"
  by pat_completeness auto
termination
  by (relation "measure (\<lambda>s. length (ag_items s))") (auto dest!: agg_visit_items)

declare agg_loop.simps [simp del]

text \<open>The first request charges all generators, with the same argument, in their order.\<close>

fun charge_all :: "nat \<Rightarrow> 'a \<Rightarrow> ('v, 'e) gstat option list \<Rightarrow> ('a, 'v, 'e) aggr \<Rightarrow> ('a, 'v, 'e) aggr" where
  "charge_all i a [] s = s"
| "charge_all i a (now # nows) s = charge_all (i + 1) a nows (gcb_charge i a now s)"

definition agg_start :: "'a \<Rightarrow> ('v, 'e) gstat option list \<Rightarrow> ('a, 'v, 'e) aggr option" where
  "agg_start a nows = agg_loop (charge_all 0 a nows (agg_new (length nows)))"

text \<open>The aggregator is resumed by the \<open>pop\<close> it waited for.\<close>

definition agg_wake :: "('a, 'v, 'e) aggr \<Rightarrow> ('a, 'v, 'e) aggr option" where
  "agg_wake s =
     (case ag_pop s of
        Pop_got i \<Rightarrow>
          (case agg_visit i (s\<lparr>ag_pop := No_pop\<rparr>) of
             None \<Rightarrow> None
           | Some (True, s') \<Rightarrow> agg_loop s'
           | Some (False, s') \<Rightarrow> Some s')
      | _ \<Rightarrow> None)"

text \<open>The next request resumes it at the \<open>co_yield\<close>.\<close>

definition agg_next :: "'a \<Rightarrow> ('v, 'e) gstat option \<Rightarrow> ('a, 'v, 'e) aggr \<Rightarrow> ('a, 'v, 'e) aggr option" where
  "agg_next a now s =
     (case ag_cur s of
        None \<Rightarrow> None
      | Some i \<Rightarrow> agg_loop (gcb_charge i a now (s\<lparr>ag_cur := None\<rparr>)))"

text \<open>
  The destructor of the controller, when the aggregator is destroyed at a \<open>co_yield\<close>. It waits
  for the generators that still run, so here it can end only after they have answered.
\<close>

function agg_drain :: "('a, 'v, 'e) aggr \<Rightarrow> ('a, 'v, 'e) aggr option" where
  "agg_drain s =
     (if 1 < ag_count s then
        (case ag_items s of [] \<Rightarrow> None | i # q \<Rightarrow> agg_drain (s\<lparr>ag_items := q, ag_count := ag_count s - 1\<rparr>))
      else Some s)"
  by pat_completeness auto
termination by (relation "measure ag_count") auto

declare agg_drain.simps [simp del]

subsection \<open>Runs\<close>

text \<open>The steps: a generator answers, the aggregator goes on, its caller asks again.\<close>

definition answered :: "('v, 'e) gstat option \<Rightarrow> bool" where
  "answered now \<longleftrightarrow> now \<noteq> Some G_busy"

inductive agg_run :: "('a, 'v, 'e) aggr \<Rightarrow> bool" where
  run_start: "list_all answered nows \<Longrightarrow> agg_start a nows = Some s \<Longrightarrow> agg_run s"
| run_answer: "agg_run s \<Longrightarrow> i < length (ag_gens s) \<Longrightarrow> ag_gens s ! i = G_busy \<Longrightarrow> r \<noteq> G_busy \<Longrightarrow>
    agg_run (gen_answers i r s)"
| run_wake: "agg_run s \<Longrightarrow> agg_wake s = Some s' \<Longrightarrow> agg_run s'"
| run_next: "agg_run s \<Longrightarrow> answered now \<Longrightarrow> agg_next a now s = Some s' \<Longrightarrow> agg_run s'"

subsection \<open>The invariant\<close>

text \<open>
  \<open>ready_now\<close> are the callbacks that have answered and were not looked at: in the queue or
  given to the \<open>pop\<close>. Together with the one whose value is being yielded they are the
  generators that are not asked and not finished.
\<close>

definition ready_now :: "('a, 'v, 'e) aggr \<Rightarrow> nat list" where
  "ready_now s = (case ag_pop s of Pop_got i \<Rightarrow> [i] | _ \<Rightarrow> []) @ ag_items s"

definition busy_gens :: "('a, 'v, 'e) aggr \<Rightarrow> nat set" where
  "busy_gens s = {i. i < length (ag_gens s) \<and> ag_gens s ! i = G_busy}"

definition cur_list :: "('a, 'v, 'e) aggr \<Rightarrow> nat list" where
  "cur_list s = (case ag_cur s of None \<Rightarrow> [] | Some i \<Rightarrow> [i])"

fun yields_of :: "nat \<Rightarrow> ('a, 'v, 'e) agg_event list \<Rightarrow> 'v list" where
  "yields_of i [] = []"
| "yields_of i (Yielded j v # es) = (if i = j then v # yields_of i es else yields_of i es)"
| "yields_of i (_ # es) = yields_of i es"

fun answers_of :: "nat \<Rightarrow> ('a, 'v, 'e) agg_event list \<Rightarrow> 'v list" where
  "answers_of i [] = []"
| "answers_of i (Answered j (G_value v) # es) = (if i = j then v # answers_of i es else answers_of i es)"
| "answers_of i (_ # es) = answers_of i es"

text \<open>The exceptions the generators ended with, in the order of their answers.\<close>

fun failures :: "('a, 'v, 'e) agg_event list \<Rightarrow> 'e exc list" where
  "failures [] = []"
| "failures (Answered j (G_failed e) # es) = e # failures es"
| "failures (_ # es) = failures es"

lemma failures_append [simp]: "failures (xs @ ys) = failures xs @ failures ys"
  by (induction xs rule: failures.induct) auto

lemma yields_of_append [simp]: "yields_of i (xs @ ys) = yields_of i xs @ yields_of i ys"
  by (induction i xs rule: yields_of.induct) auto

lemma answers_of_append [simp]: "answers_of i (xs @ ys) = answers_of i xs @ answers_of i ys"
  by (induction i xs rule: answers_of.induct) auto

text \<open>A value that waits to be yielded is the difference between the two lists.\<close>

definition in_hand :: "nat \<Rightarrow> ('a, 'v, 'e) aggr \<Rightarrow> 'v list" where
  "in_hand i s = (if i \<in> set (ready_now s) then (case ag_gens s ! i of G_value v \<Rightarrow> [v] | _ \<Rightarrow> []) else [])"

definition agg_ok :: "('a, 'v, 'e) aggr \<Rightarrow> bool" where
  "agg_ok s \<longleftrightarrow>
     distinct (cur_list s @ ready_now s) \<and>
     (\<forall>i \<in> set (cur_list s @ ready_now s). i < length (ag_gens s) \<and> ag_gens s ! i \<noteq> G_busy) \<and>
     ag_count s = card (busy_gens s) + length (cur_list s @ ready_now s) \<and>
     (\<forall>i < length (ag_gens s). ag_gens s ! i \<noteq> G_busy \<longrightarrow> i \<notin> set (cur_list s @ ready_now s) \<longrightarrow>
        ag_gens s ! i = G_done \<or> (\<exists>e. ag_gens s ! i = G_failed e \<and> ag_exp s \<noteq> None)) \<and>
     (\<forall>i. answers_of i (ag_log s) = yields_of i (ag_log s) @ in_hand i s)"

text \<open>Where the aggregator stands: waiting, woken, at a \<open>co_yield\<close>, or at its end.\<close>

definition agg_rest :: "('a, 'v, 'e) aggr \<Rightarrow> bool" where
  "agg_rest s \<longleftrightarrow>
     (case ag_pop s of
        Pop_waiting \<Rightarrow> ag_items s = [] \<and> ag_cur s = None \<and> ag_end s = None \<and> ag_count s \<noteq> 0
      | Pop_got i \<Rightarrow> ag_cur s = None \<and> ag_end s = None
      | No_pop \<Rightarrow> (case ag_end s of
            None \<Rightarrow> ag_cur s \<noteq> None
          | Some x \<Rightarrow> x = ag_exp s \<and> ag_cur s = None \<and> ag_count s = 0))"

lemma busy_update:
  assumes "i < length gs"
  shows "{j. j < length (gs[i := r]) \<and> gs[i := r] ! j = G_busy} =
    (if r = G_busy then insert i {j. j < length gs \<and> gs ! j = G_busy} else {j. j < length gs \<and> gs ! j = G_busy} - {i})"
  using assms by (auto simp: nth_list_update)

lemma finite_busy [simp]: "finite (busy_gens s)"
  by (simp add: busy_gens_def)

lemma agg_new_ok: "agg_ok (agg_new n :: ('a, 'v, 'e) aggr)"
proof -
  have "{i. i < n \<and> replicate n (G_busy :: ('v, 'e) gstat) ! i = G_busy} = {..<n}" by auto
  then show ?thesis by (simp add: agg_ok_def agg_new_def cur_list_def ready_now_def busy_gens_def in_hand_def)
qed

text \<open>An answer moves a generator from the busy ones to those that are ready.\<close>

lemma gcb_push_simps [simp]:
  "ag_gens (gcb_push i s) = ag_gens s" "ag_count (gcb_push i s) = ag_count s" "ag_exp (gcb_push i s) = ag_exp s"
  "ag_cur (gcb_push i s) = ag_cur s" "ag_end (gcb_push i s) = ag_end s" "ag_log (gcb_push i s) = ag_log s"
  by (simp_all add: gcb_push_def)

lemma ready_push: "mset (ready_now (gcb_push i s)) = add_mset i (mset (ready_now s))"
  by (auto simp: ready_now_def gcb_push_def split: pop_state.splits)

lemma gen_answers_ok:
  assumes ok: "agg_ok s" and i: "i < length (ag_gens s)" "ag_gens s ! i = G_busy" and r: "r \<noteq> G_busy"
  shows "agg_ok (gen_answers i r s)"
proof -
  let ?s = "s\<lparr>ag_gens := (ag_gens s)[i := r], ag_log := ag_log s @ [Answered i r]\<rparr>"
  have m: "mset (ready_now (gcb_push i ?s)) = add_mset i (mset (ready_now s))"
    using ready_push [of i ?s] by (simp add: ready_now_def)
  have set: "set (ready_now (gcb_push i ?s)) = insert i (set (ready_now s))"
    using m by (metis set_mset_add_mset_insert set_mset_mset)
  have len: "length (ready_now (gcb_push i ?s)) = length (ready_now s) + 1"
    using m by (metis One_nat_def add.right_neutral add_Suc_right size_add_mset size_mset)
  have cur: "cur_list (gcb_push i ?s) = cur_list s" by (simp add: cur_list_def)
  have nin: "i \<notin> set (cur_list s @ ready_now s)" using ok i unfolding agg_ok_def by blast
  have d: "distinct (cur_list s @ ready_now (gcb_push i ?s))"
  proof -
    have "mset (cur_list s @ ready_now (gcb_push i ?s)) = mset (i # cur_list s @ ready_now s)" using m by simp
    moreover have "distinct (i # cur_list s @ ready_now s)" using nin ok by (simp add: agg_ok_def)
    ultimately show ?thesis by (metis mset_eq_imp_distinct_iff)
  qed
  have b: "busy_gens (gcb_push i ?s) = busy_gens s - {i}"
    using busy_update [OF i(1), of r] r by (simp add: busy_gens_def)
  have c: "card (busy_gens s) = card (busy_gens s - {i}) + 1"
    using i by (metis (mono_tags, lifting) add.commute busy_gens_def card.remove finite_busy mem_Collect_eq plus_1_eq_Suc)
  have "answers_of j (ag_log ?s) = yields_of j (ag_log ?s) @ in_hand j (gcb_push i ?s)" for j
  proof -
    have old: "answers_of j (ag_log s) = yields_of j (ag_log s) @ in_hand j s" using ok by (simp add: agg_ok_def)
    show ?thesis
    proof (cases "j = i")
      case True
      then have "in_hand j s = []" using nin by (simp add: in_hand_def)
      with old True set i(1) show ?thesis by (cases r) (simp_all add: in_hand_def)
    next
      case False
      then have "in_hand j (gcb_push i ?s) = in_hand j s" using set by (simp add: in_hand_def)
      with old False show ?thesis by (cases r) simp_all
    qed
  qed
  then show ?thesis
    using ok i r d b c set len cur nin unfolding agg_ok_def gen_answers_def
    by (simp add: nth_list_update)
qed

text \<open>A generator whose value was taken is asked again.\<close>

definition asked :: "nat \<Rightarrow> 'a \<Rightarrow> ('a, 'v, 'e) aggr \<Rightarrow> ('a, 'v, 'e) aggr" where
  "asked i a s = s\<lparr>ag_gens := (ag_gens s)[i := G_busy], ag_log := ag_log s @ [Asked i a]\<rparr>"

lemma gcb_charge_asked:
  "gcb_charge i a now s = (case now of None \<Rightarrow> asked i a s | Some r \<Rightarrow> gen_answers i r (asked i a s))"
  by (simp add: gcb_charge_def asked_def Let_def split: option.split)

lemma asked_current_ok:
  assumes ok: "agg_ok s" and cur: "ag_cur s = Some i"
  shows "agg_ok (asked i a (s\<lparr>ag_cur := None\<rparr>))" and "i < length (ag_gens s)"
proof -
  have i: "i < length (ag_gens s)" "ag_gens s ! i \<noteq> G_busy" "i \<notin> set (ready_now s)"
    using ok cur by (auto simp: agg_ok_def cur_list_def)
  let ?s = "asked i a (s\<lparr>ag_cur := None\<rparr>)"
  have r: "ready_now ?s = ready_now s" "cur_list ?s = []" by (simp_all add: ready_now_def cur_list_def asked_def)
  have b: "busy_gens ?s = insert i (busy_gens s)" using busy_update [OF i(1), of G_busy] by (simp add: busy_gens_def asked_def)
  have "i \<notin> busy_gens s" using i(2) by (simp add: busy_gens_def)
  then have c: "card (busy_gens ?s) = card (busy_gens s) + 1" using b by simp
  have "in_hand j ?s = in_hand j s" for j using r(1) i by (cases "j = i") (simp_all add: in_hand_def asked_def)
  then have l: "answers_of j (ag_log ?s) = yields_of j (ag_log ?s) @ in_hand j ?s" for j
    using ok by (simp add: agg_ok_def asked_def)
  have "cur_list s = [i]" using cur by (simp add: cur_list_def)
  then show "agg_ok ?s"
    using ok i r c l unfolding agg_ok_def by (auto simp: asked_def nth_list_update)
  show "i < length (ag_gens s)" by (fact i)
qed

lemma asked_busy_ok:
  assumes ok: "agg_ok s" and i: "i < length (ag_gens s)" "ag_gens s ! i = G_busy"
  shows "agg_ok (asked i a s)"
proof -
  have "(ag_gens s)[i := G_busy] = ag_gens s" using i by (metis list_update_id)
  then show ?thesis
    using ok by (simp add: agg_ok_def asked_def ready_now_def cur_list_def busy_gens_def in_hand_def)
qed

lemma answer_if_ok:
  assumes "agg_ok (asked i a s)" and "i < length (ag_gens s)" and "answered now"
  shows "agg_ok (gcb_charge i a now s)"
proof (cases now)
  case (Some r)
  have "agg_ok (gen_answers i r (asked i a s))"
    by (rule gen_answers_ok [OF assms(1)]) (use assms Some in \<open>auto simp: asked_def answered_def\<close>)
  then show ?thesis using Some by (simp add: gcb_charge_asked)
qed (use assms in \<open>simp add: gcb_charge_asked\<close>)

lemma gcb_charge_simps [simp]:
  "ag_cur (gcb_charge i a now s) = ag_cur s" "ag_end (gcb_charge i a now s) = ag_end s"
  "length (ag_gens (gcb_charge i a now s)) = length (ag_gens s)"
  "j \<noteq> i \<Longrightarrow> ag_gens (gcb_charge i a now s) ! j = ag_gens s ! j"
  by (auto simp: gcb_charge_def gen_answers_def Let_def split: option.split)

lemma gcb_charge_pop: "ag_pop s = No_pop \<Longrightarrow> ag_pop (gcb_charge i a now s) = No_pop"
  by (auto simp: gcb_charge_def gen_answers_def gcb_push_def Let_def split: option.split)

definition looping :: "('a, 'v, 'e) aggr \<Rightarrow> bool" where
  "looping s \<longleftrightarrow> agg_ok s \<and> ag_pop s = No_pop \<and> ag_cur s = None \<and> ag_end s = None"

lemma charge_all_looping:
  assumes "looping s" and "i + length nows = length (ag_gens s)" and "\<And>j. i \<le> j \<Longrightarrow> j < length (ag_gens s) \<Longrightarrow> ag_gens s ! j = G_busy"
    and "list_all answered nows"
  shows "looping (charge_all i a nows s)"
  using assms
proof (induction nows arbitrary: i s)
  case (Cons now nows)
  have i: "i < length (ag_gens s)" "ag_gens s ! i = G_busy" using Cons.prems(2,3) by simp_all
  have "agg_ok (gcb_charge i a now s)"
    using Cons.prems(1,4) by (intro answer_if_ok asked_busy_ok i) (simp_all add: looping_def)
  then have "looping (gcb_charge i a now s)" using Cons.prems(1) by (simp add: looping_def gcb_charge_pop)
  moreover have "ag_gens (gcb_charge i a now s) ! j = G_busy" if "i + 1 \<le> j" "j < length (ag_gens s)" for j
    using Cons.prems(3) [of j] that by simp
  ultimately have "looping (charge_all (i + 1) a nows (gcb_charge i a now s))"
    using Cons.prems(2,4) by (intro Cons.IH) simp_all
  then show ?case by simp
qed simp

text \<open>A callback that was ready is looked at.\<close>

lemma agg_visit_ok:
  assumes ok: "agg_ok s" and r: "ready_now s = i # ready_now s1" and c: "ag_cur s = None"
    and same: "ag_gens s1 = ag_gens s" "ag_count s1 = ag_count s" "ag_exp s1 = ag_exp s" "ag_cur s1 = None"
      "ag_log s1 = ag_log s"
  shows "\<exists>b s2. agg_visit i s1 = Some (b, s2) \<and> agg_ok s2 \<and> ag_items s2 = ag_items s1 \<and> ag_pop s2 = ag_pop s1 \<and>
    ag_end s2 = ag_end s1 \<and> (if b then ag_cur s2 = None else ag_cur s2 = Some i)"
proof -
  have i: "i < length (ag_gens s)" "ag_gens s ! i \<noteq> G_busy" "i \<notin> set (ready_now s1)" "distinct (ready_now s1)"
    using ok r c by (auto simp: agg_ok_def cur_list_def)
  have rest: "\<And>j. j \<in> set (ready_now s1) \<Longrightarrow> j < length (ag_gens s) \<and> ag_gens s ! j \<noteq> G_busy"
    using ok r by (auto simp: agg_ok_def)
  have cnt: "ag_count s = card (busy_gens s) + length (ready_now s1) + 1" using ok r c by (simp add: agg_ok_def cur_list_def)
  have old: "\<And>j. j < length (ag_gens s) \<Longrightarrow> ag_gens s ! j \<noteq> G_busy \<Longrightarrow> j \<noteq> i \<Longrightarrow> j \<notin> set (ready_now s1) \<Longrightarrow>
      ag_gens s ! j = G_done \<or> (\<exists>e. ag_gens s ! j = G_failed e \<and> ag_exp s \<noteq> None)"
    using ok r c by (simp add: agg_ok_def cur_list_def)
  have log: "answers_of j (ag_log s) = yields_of j (ag_log s) @ in_hand j s" for j using ok by (simp add: agg_ok_def)
  have hand: "in_hand j s = in_hand j s1" if "j \<noteq> i" for j using r same that by (simp add: in_hand_def)
  have none: "in_hand i s1 = []" using i by (simp add: in_hand_def)
  have mine: "in_hand i s = (case ag_gens s ! i of G_value v \<Rightarrow> [v] | _ \<Rightarrow> [])" using r by (simp add: in_hand_def)
  show ?thesis
  proof (cases "ag_gens s ! i")
    case (G_value v)
    let ?s = "s1\<lparr>ag_cur := Some i, ag_log := ag_log s1 @ [Yielded i v]\<rparr>"
    have e: "ready_now ?s = ready_now s1" "busy_gens ?s = busy_gens s" "cur_list ?s = [i]" "\<And>j. in_hand j ?s = in_hand j s1"
      using same by (simp_all add: ready_now_def busy_gens_def cur_list_def in_hand_def)
    have "answers_of j (ag_log ?s) = yields_of j (ag_log ?s) @ in_hand j ?s" for j
      using log [of j] hand [of j] none mine G_value same e(4) by (cases "j = i") simp_all
    then have "agg_ok ?s" using i rest cnt old e same by (auto simp: agg_ok_def)
    then show ?thesis using G_value i same by (intro exI [of _ False] exI [of _ ?s]) (simp add: agg_visit_def)
  next
    case (G_failed x)
    let ?s = "cnt_fin (s1\<lparr>ag_exp := Some x\<rparr>)"
    have e: "ready_now ?s = ready_now s1" "busy_gens ?s = busy_gens s" "cur_list ?s = []" "\<And>j. in_hand j ?s = in_hand j s1"
      using same by (simp_all add: ready_now_def busy_gens_def cur_list_def in_hand_def cnt_fin_def)
    have "answers_of j (ag_log ?s) = yields_of j (ag_log ?s) @ in_hand j ?s" for j
      using log [of j] hand [of j] none mine G_failed same e(4) by (cases "j = i") (simp_all add: cnt_fin_def)
    then have "agg_ok ?s" using i rest cnt old e same G_failed by (auto simp: agg_ok_def cnt_fin_def)
    then show ?thesis using G_failed i same by (intro exI [of _ True] exI [of _ ?s]) (simp add: agg_visit_def cnt_fin_def)
  next
    case G_done
    let ?s = "cnt_fin s1"
    have e: "ready_now ?s = ready_now s1" "busy_gens ?s = busy_gens s" "cur_list ?s = []" "\<And>j. in_hand j ?s = in_hand j s1"
      using same by (simp_all add: ready_now_def busy_gens_def cur_list_def in_hand_def cnt_fin_def)
    have "answers_of j (ag_log ?s) = yields_of j (ag_log ?s) @ in_hand j ?s" for j
      using log [of j] hand [of j] none mine G_done same e(4) by (cases "j = i") (simp_all add: cnt_fin_def)
    then have "agg_ok ?s" using i rest cnt old e same G_done by (auto simp: agg_ok_def cnt_fin_def)
    then show ?thesis using G_done i same by (intro exI [of _ True] exI [of _ ?s]) (simp add: agg_visit_def cnt_fin_def)
  qed (use i in simp)
qed

lemma agg_loop_ok: "looping s \<Longrightarrow> \<exists>s'. agg_loop s = Some s' \<and> agg_ok s' \<and> agg_rest s'"
proof (induction s rule: agg_loop.induct)
  case (1 s)
  note l = 1(2)
  show ?case
  proof (cases "ag_count s = 0")
    case True
    then have "agg_ok (s\<lparr>ag_end := Some (ag_exp s)\<rparr>)"
      using l by (simp add: looping_def agg_ok_def ready_now_def cur_list_def busy_gens_def in_hand_def)
    then show ?thesis using True l by (subst agg_loop.simps) (simp add: agg_rest_def looping_def)
  next
    case False
    show ?thesis
    proof (cases "ag_items s")
      case Nil
      have "agg_ok (s\<lparr>ag_pop := Pop_waiting\<rparr>)"
        using l by (simp add: looping_def agg_ok_def ready_now_def cur_list_def busy_gens_def in_hand_def)
      then show ?thesis using False Nil l by (subst agg_loop.simps) (simp add: agg_rest_def looping_def)
    next
      case (Cons i q)
      have r: "ready_now s = i # ready_now (s\<lparr>ag_items := q\<rparr>)" using l Cons by (simp add: ready_now_def looping_def)
      obtain b s2 where v: "agg_visit i (s\<lparr>ag_items := q\<rparr>) = Some (b, s2)" "agg_ok s2" "ag_pop s2 = No_pop" "ag_end s2 = None"
        "if b then ag_cur s2 = None else ag_cur s2 = Some i"
        using agg_visit_ok [OF _ r] l by (auto simp: looping_def)
      show ?thesis
      proof (cases b)
        case True
        with v have "looping s2" by (simp add: looping_def)
        then obtain s' where "agg_loop s2 = Some s'" "agg_ok s'" "agg_rest s'"
          using 1(1) [OF False Cons v(1)] True by auto
        then show ?thesis using False Cons v(1) True by (subst agg_loop.simps) simp
      next
        case b: False
        then have "agg_rest s2" using v by (simp add: agg_rest_def)
        then show ?thesis using False Cons v b by (subst agg_loop.simps) simp
      qed
    qed
  qed
qed

text \<open>Every step succeeds and keeps the invariant.\<close>

lemma agg_start_ok:
  assumes "list_all answered nows"
  shows "\<exists>s. agg_start a nows = Some s \<and> agg_ok s \<and> agg_rest s"
proof -
  have "looping (charge_all 0 a nows (agg_new (length nows)))"
    using assms agg_new_ok [of "length nows"] by (intro charge_all_looping) (simp_all add: looping_def agg_new_def)
  from agg_loop_ok [OF this] show ?thesis by (simp add: agg_start_def)
qed

lemma agg_wake_ok:
  assumes ok: "agg_ok s" and rest: "agg_rest s" and p: "ag_pop s = Pop_got i"
  shows "\<exists>s'. agg_wake s = Some s' \<and> agg_ok s' \<and> agg_rest s'"
proof -
  have r: "ready_now s = i # ready_now (s\<lparr>ag_pop := No_pop\<rparr>)" using p by (simp add: ready_now_def)
  have c: "ag_cur s = None" "ag_end s = None" using rest p by (simp_all add: agg_rest_def)
  obtain b s2 where v: "agg_visit i (s\<lparr>ag_pop := No_pop\<rparr>) = Some (b, s2)" "agg_ok s2" "ag_pop s2 = No_pop" "ag_end s2 = None"
    "if b then ag_cur s2 = None else ag_cur s2 = Some i"
    using agg_visit_ok [OF ok r c(1)] c by auto
  show ?thesis
  proof (cases b)
    case True
    with v have "looping s2" by (simp add: looping_def)
    from agg_loop_ok [OF this] show ?thesis using v(1) p True by (simp add: agg_wake_def)
  next
    case False
    with v p show ?thesis by (simp add: agg_wake_def agg_rest_def)
  qed
qed

lemma agg_next_ok:
  assumes ok: "agg_ok s" and rest: "agg_rest s" and c: "ag_cur s = Some i" and now: "answered now"
  shows "\<exists>s'. agg_next a now s = Some s' \<and> agg_ok s' \<and> agg_rest s'"
proof -
  have p: "ag_pop s = No_pop" "ag_end s = None" using rest c by (auto simp: agg_rest_def split: pop_state.splits option.splits)
  have "agg_ok (gcb_charge i a now (s\<lparr>ag_cur := None\<rparr>))"
    using asked_current_ok [OF ok c] now by (intro answer_if_ok) simp_all
  then have "looping (gcb_charge i a now (s\<lparr>ag_cur := None\<rparr>))" using p by (simp add: looping_def gcb_charge_pop)
  from agg_loop_ok [OF this] show ?thesis using c by (simp add: agg_next_def)
qed

lemma gen_answers_rest: "agg_rest s \<Longrightarrow> ag_end s = None \<or> ag_pop s \<noteq> No_pop \<Longrightarrow> agg_rest (gen_answers i r s)"
  by (auto simp: agg_rest_def gen_answers_def gcb_push_def split: pop_state.splits option.splits)

lemma agg_run_ok: "agg_run s \<Longrightarrow> agg_ok s \<and> agg_rest s"
proof (induction rule: agg_run.induct)
  case (run_start nows a s)
  then show ?case using agg_start_ok [of nows a] by auto
next
  case (run_answer s i r)
  have "i \<in> busy_gens s" using run_answer by (simp add: busy_gens_def)
  then have "0 < card (busy_gens s)" by (auto simp: card_gt_0_iff)
  then have "0 < ag_count s" using run_answer by (simp add: agg_ok_def)
  then have "ag_end s = None \<or> ag_pop s \<noteq> No_pop"
    using run_answer by (auto simp: agg_rest_def split: pop_state.splits option.splits)
  with run_answer show ?case using gen_answers_ok gen_answers_rest by blast
next
  case (run_wake s s')
  then obtain i where "ag_pop s = Pop_got i" by (auto simp: agg_wake_def split: pop_state.splits)
  with run_wake show ?case using agg_wake_ok [of s i] by auto
next
  case (run_next s now a s')
  then obtain i where "ag_cur s = Some i" by (auto simp: agg_next_def split: option.splits)
  with run_next show ?case using agg_next_ok [of s i now a] by auto
qed

lemma agg_drain_ok: "ag_count s \<le> length (ag_items s) + 1 \<Longrightarrow>
    \<exists>s'. agg_drain s = Some s' \<and> ag_items s' = drop (ag_count s - 1) (ag_items s)"
proof (induction s rule: agg_drain.induct)
  case (1 s)
  show ?case
  proof (cases "1 < ag_count s")
    case True
    then obtain i q where q: "ag_items s = i # q" using 1(2) by (cases "ag_items s") auto
    let ?s = "s\<lparr>ag_items := q, ag_count := ag_count s - 1\<rparr>"
    have "ag_count ?s \<le> length (ag_items ?s) + 1" using 1(2) q by simp
    from 1(1) [OF True q this] obtain s' where s': "agg_drain ?s = Some s'" "ag_items s' = drop (ag_count s - 1 - 1) q"
      by auto
    have "agg_drain s = agg_drain ?s" using True q by (subst agg_drain.simps) simp
    with s' True q show ?thesis by (simp add: drop_Cons')
  qed (subst agg_drain.simps, simp)
qed

subsection \<open>Exceptions\<close>

text \<open>
  The callbacks are looked at in the order of the answers, so the exception that is kept is
  the last one of those that were looked at; the others are those of the callbacks that wait.
\<close>

fun failed_with :: "('v, 'e) gstat \<Rightarrow> 'e exc list" where
  "failed_with (G_failed e) = [e]"
| "failed_with _ = []"

definition unseen :: "('a, 'v, 'e) aggr \<Rightarrow> 'e exc list" where
  "unseen s = concat (map (\<lambda>i. failed_with (ag_gens s ! i)) (ready_now s))"

definition last_of :: "'x list \<Rightarrow> 'x option" where
  "last_of xs = (if xs = [] then None else Some (last xs))"

lemma last_of_snoc [simp]: "last_of (xs @ [x]) = Some x"
  by (simp add: last_of_def)

definition keeps_last :: "('a, 'v, 'e) aggr \<Rightarrow> bool" where
  "keeps_last s \<longleftrightarrow> (ag_pop s = Pop_waiting \<longrightarrow> ag_items s = []) \<and>
     (\<exists>seen. failures (ag_log s) = seen @ unseen s \<and> ag_exp s = last_of seen)"

lemma failures_answer [simp]: "failures [Answered i r] = failed_with r"
  by (cases r) simp_all

lemma keeps_last_asked:
  assumes "keeps_last s" and "i \<notin> set (ready_now s)"
  shows "keeps_last (asked i a s)"
proof -
  have "ready_now (asked i a s) = ready_now s" by (simp add: ready_now_def asked_def)
  then have "unseen (asked i a s) = unseen s"
    using assms(2) by (auto simp: unseen_def asked_def intro!: arg_cong [of _ _ concat] map_cong nth_list_update_neq arg_cong [of _ _ failed_with])
  with assms(1) show ?thesis by (simp add: keeps_last_def asked_def)
qed

lemma keeps_last_answers:
  assumes k: "keeps_last s" and i: "i \<notin> set (ready_now s)" "i < length (ag_gens s)"
  shows "keeps_last (gen_answers i r s)"
proof -
  let ?s = "s\<lparr>ag_gens := (ag_gens s)[i := r], ag_log := ag_log s @ [Answered i r]\<rparr>"
  have order: "ready_now (gcb_push i ?s) = ready_now s @ [i]"
    using k by (auto simp: keeps_last_def ready_now_def gcb_push_def split: pop_state.split)
  have same: "concat (map (\<lambda>j. failed_with ((ag_gens s)[i := r] ! j)) (ready_now s)) =
      concat (map (\<lambda>j. failed_with (ag_gens s ! j)) (ready_now s))"
    using i(1) by (intro arg_cong [of _ _ concat] map_cong refl) (metis nth_list_update_neq)
  have "ag_gens (gcb_push i ?s) = (ag_gens s)[i := r]" by (simp add: gcb_push_def)
  then have "unseen (gcb_push i ?s) = concat (map (\<lambda>j. failed_with ((ag_gens s)[i := r] ! j)) (ready_now s @ [i]))"
    by (simp only: unseen_def order)
  also have "\<dots> = unseen s @ failed_with r" using i(2) unfolding map_append concat_append same by (simp add: unseen_def)
  finally have "unseen (gcb_push i ?s) = unseen s @ failed_with r" .
  moreover have "ag_pop (gcb_push i ?s) = Pop_waiting \<longrightarrow> ag_items (gcb_push i ?s) = []"
    using k by (simp add: gcb_push_def keeps_last_def)
  ultimately show ?thesis using k by (auto simp: keeps_last_def gen_answers_def)
qed

lemma keeps_last_charge:
  assumes "keeps_last s" and "i \<notin> set (ready_now s)" and "i < length (ag_gens s)"
  shows "keeps_last (gcb_charge i a now s)"
proof -
  have "keeps_last (asked i a s)" by (rule keeps_last_asked) (use assms in auto)
  moreover have "i \<notin> set (ready_now (asked i a s))" "i < length (ag_gens (asked i a s))"
    using assms by (simp_all add: ready_now_def asked_def)
  ultimately show ?thesis by (simp add: gcb_charge_asked keeps_last_answers split: option.split)
qed

lemma keeps_last_visit:
  assumes k: "keeps_last s" and r: "ready_now s = i # ready_now s1" and v: "agg_visit i s1 = Some (b, s2)"
    and same: "ag_gens s1 = ag_gens s" "ag_exp s1 = ag_exp s" "ag_log s1 = ag_log s" "ag_pop s1 = No_pop"
  shows "keeps_last s2"
proof -
  obtain seen where seen: "failures (ag_log s) = seen @ unseen s" "ag_exp s = last_of seen" using k by (auto simp: keeps_last_def)
  have u: "unseen s = failed_with (ag_gens s ! i) @ unseen s1" using r same(1) by (simp add: unseen_def)
  have frame: "ag_pop s2 = No_pop" "unseen s2 = unseen s1"
    using v same(4) by (auto simp: agg_visit_def cnt_fin_def unseen_def ready_now_def split: if_splits gstat.splits)
  have "failures (ag_log s2) = (seen @ failed_with (ag_gens s ! i)) @ unseen s2"
    using v seen(1) u same frame(2) by (auto simp: agg_visit_def cnt_fin_def split: if_splits gstat.splits)
  moreover have "ag_exp s2 = last_of (seen @ failed_with (ag_gens s ! i))"
    using v seen(2) same by (auto simp: agg_visit_def cnt_fin_def split: if_splits gstat.splits)
  ultimately show ?thesis using frame(1) unfolding keeps_last_def by (metis pop_state.distinct(1))
qed

lemma keeps_last_loop:
  "ag_pop s = No_pop \<Longrightarrow> keeps_last s \<Longrightarrow> agg_loop s = Some s' \<Longrightarrow> keeps_last s'"
proof (induction s arbitrary: s' rule: agg_loop.induct)
  case (1 s)
  note loop = 1(4) [unfolded agg_loop.simps [of s]]
  show ?case
  proof (cases "ag_count s = 0 \<or> ag_items s = []")
    case True
    with loop 1(3) show ?thesis
      by (auto simp: keeps_last_def unseen_def ready_now_def 1(2) split: if_splits)
  next
    case False
    then obtain i q where q: "ag_items s = i # q" by (cases "ag_items s") auto
    obtain b s2 where v: "agg_visit i (s\<lparr>ag_items := q\<rparr>) = Some (b, s2)"
      using loop False q by (auto split: option.splits)
    have r: "ready_now s = i # ready_now (s\<lparr>ag_items := q\<rparr>)" using q 1(2) by (simp add: ready_now_def)
    have k: "keeps_last s2" by (rule keeps_last_visit [OF 1(3) r v]) (simp_all add: 1(2))
    have "ag_pop s2 = No_pop" using v 1(2) by (auto simp: agg_visit_def cnt_fin_def split: if_splits gstat.splits)
    with 1(1) [OF _ q v] k loop False q v show ?thesis by (cases b) auto
  qed
qed

lemma keeps_last_charge_all:
  assumes "keeps_last s" and "ag_pop s = No_pop" and "i + length nows = length (ag_gens s)" and "set (ag_items s) \<subseteq> {..<i}"
  shows "keeps_last (charge_all i a nows s) \<and> ag_pop (charge_all i a nows s) = No_pop"
  using assms
proof (induction nows arbitrary: i s)
  case (Cons now nows)
  have "keeps_last (gcb_charge i a now s)"
    using Cons.prems by (intro keeps_last_charge) (auto simp: ready_now_def)
  moreover have "set (ag_items (gcb_charge i a now s)) \<subseteq> {..<i + 1}"
    using Cons.prems(2,4) by (auto simp: gcb_charge_def gen_answers_def gcb_push_def Let_def split: option.splits)
  ultimately show ?case using Cons.IH [of "gcb_charge i a now s" "i + 1"] Cons.prems by (simp add: gcb_charge_pop)
qed simp

lemma agg_run_last: "agg_run s \<Longrightarrow> keeps_last s"
proof (induction rule: agg_run.induct)
  case (run_start nows a s)
  have "keeps_last (agg_new (length nows) :: ('a, 'v, 'e) aggr)"
    by (simp add: keeps_last_def agg_new_def unseen_def ready_now_def last_of_def)
  then have "keeps_last (charge_all 0 a nows (agg_new (length nows))) \<and>
      ag_pop (charge_all 0 a nows (agg_new (length nows))) = No_pop"
    by (rule keeps_last_charge_all) (simp_all add: agg_new_def)
  with run_start(2) show ?case unfolding agg_start_def by (blast intro: keeps_last_loop)
next
  case (run_answer s i r)
  then have "i \<notin> set (ready_now s)" using agg_run_ok [of s] by (auto simp: agg_ok_def)
  with run_answer show ?case by (intro keeps_last_answers)
next
  case (run_wake s s')
  then obtain i where p: "ag_pop s = Pop_got i" by (auto simp: agg_wake_def split: pop_state.splits)
  then obtain b s2 where v: "agg_visit i (s\<lparr>ag_pop := No_pop\<rparr>) = Some (b, s2)"
    using run_wake(2) by (auto simp: agg_wake_def split: option.splits)
  have r: "ready_now s = i # ready_now (s\<lparr>ag_pop := No_pop\<rparr>)" using p by (simp add: ready_now_def)
  have k: "keeps_last s2" by (rule keeps_last_visit [OF run_wake(3) r v]) simp_all
  have "ag_pop s2 = No_pop" using v by (auto simp: agg_visit_def cnt_fin_def split: if_splits gstat.splits)
  then show ?case using run_wake(2) p v k keeps_last_loop [of s2 s'] by (cases b) (auto simp: agg_wake_def)
next
  case (run_next s now a s')
  then obtain i where c: "ag_cur s = Some i" "agg_loop (gcb_charge i a now (s\<lparr>ag_cur := None\<rparr>)) = Some s'"
    by (auto simp: agg_next_def split: option.splits)
  have ok: "agg_ok s" "agg_rest s" using agg_run_ok [OF run_next(1)] by simp_all
  then have i: "i \<notin> set (ready_now s)" "i < length (ag_gens s)" "ag_pop s = No_pop"
    using c(1) by (auto simp: agg_ok_def cur_list_def agg_rest_def split: pop_state.splits)
  have "keeps_last (s\<lparr>ag_cur := None\<rparr>)" "ready_now (s\<lparr>ag_cur := None\<rparr>) = ready_now s"
    using run_next(4) by (simp_all add: keeps_last_def unseen_def ready_now_def)
  then have "keeps_last (gcb_charge i a now (s\<lparr>ag_cur := None\<rparr>))" using i by (intro keeps_last_charge) simp_all
  then show ?case using c(2) i(3) by (intro keeps_last_loop [of _ s']) (simp_all add: gcb_charge_pop)
qed

lemma agg_drain_waits: "length (ag_items s) + 1 < ag_count s \<Longrightarrow> agg_drain s = None"
proof (induction s rule: agg_drain.induct)
  case (1 s)
  show ?case
  proof (cases "ag_items s")
    case Nil
    with 1(2) show ?thesis by (subst agg_drain.simps) simp
  next
    case (Cons i q)
    with 1 show ?thesis by (subst agg_drain.simps) simp
  qed
qed

section \<open>Properties\<close>

text \<open>
  C13. In every run, however the answers of the generators arrive, every value a generator gives
  is yielded once and in its order: at most the last one is still to come. The aggregator waits
  only while a generator runs, every resumption and every request succeeds, and when it ends
  all values were yielded, all generators are done or have failed, and the exception that is
  thrown is that of the generator that failed last (none, if none failed). If it is destroyed at
  a \<open>co_yield\<close>, the destructor ends at once, with no callback left in the queue, exactly when no
  generator runs; otherwise it waits for the next answer.
\<close>

theorem aggregator_delivers:
  assumes "agg_run s"
  shows "(\<forall>i. \<exists>late. answers_of i (ag_log s) = yields_of i (ag_log s) @ late \<and> length late \<le> 1) \<and>
    (ag_pop s = Pop_waiting \<longrightarrow> busy_gens s \<noteq> {}) \<and>
    (\<forall>j. ag_pop s = Pop_got j \<longrightarrow> (\<exists>s'. agg_wake s = Some s')) \<and>
    (\<forall>j a now. ag_cur s = Some j \<longrightarrow> answered now \<longrightarrow> (\<exists>s'. agg_next a now s = Some s')) \<and>
    (\<forall>x. ag_end s = Some x \<longrightarrow> (\<forall>i. answers_of i (ag_log s) = yields_of i (ag_log s)) \<and>
      (\<forall>g \<in> set (ag_gens s). g = G_done \<or> (\<exists>e. g = G_failed e \<and> x \<noteq> None)) \<and> x = last_of (failures (ag_log s))) \<and>
    (\<forall>j. ag_cur s = Some j \<longrightarrow>
      (if busy_gens s = {} then \<exists>s'. agg_drain s = Some s' \<and> ag_items s' = [] else agg_drain s = None))"
proof -
  have ok: "agg_ok s" and rest: "agg_rest s" using agg_run_ok [OF assms] by simp_all
  have 1: "\<exists>late. answers_of i (ag_log s) = yields_of i (ag_log s) @ late \<and> length late \<le> 1" for i
    using ok by (intro exI [of _ "in_hand i s"]) (simp add: agg_ok_def in_hand_def split: gstat.split)
  have cnt: "ag_count s = card (busy_gens s) + length (cur_list s @ ready_now s)" using ok by (simp add: agg_ok_def)
  have 2: "busy_gens s \<noteq> {}" if "ag_pop s = Pop_waiting"
    using rest cnt that by (auto simp: agg_rest_def ready_now_def cur_list_def)
  have 3: "(\<forall>i. answers_of i (ag_log s) = yields_of i (ag_log s)) \<and>
      (\<forall>g \<in> set (ag_gens s). g = G_done \<or> (\<exists>e. g = G_failed e \<and> x \<noteq> None)) \<and> x = last_of (failures (ag_log s))" if e: "ag_end s = Some x" for x
  proof -
    have x: "x = ag_exp s" "ag_count s = 0" using rest e by (auto simp: agg_rest_def split: pop_state.splits)
    then have none: "busy_gens s = {}" "cur_list s = []" "ready_now s = []" using cnt by simp_all
    then have "\<And>i. in_hand i s = []" by (simp add: in_hand_def)
    moreover have "x = last_of (failures (ag_log s))"
      using agg_run_last [OF assms] none(3) x(1) by (auto simp: keeps_last_def unseen_def)
    moreover have "g = G_done \<or> (\<exists>e. g = G_failed e \<and> x \<noteq> None)" if g: "g \<in> set (ag_gens s)" for g
    proof -
      obtain i where i: "i < length (ag_gens s)" "g = ag_gens s ! i" using g by (auto simp: in_set_conv_nth)
      then have "ag_gens s ! i \<noteq> G_busy" using none(1) by (auto simp: busy_gens_def)
      then show ?thesis using ok i none x(1) by (auto simp: agg_ok_def)
    qed
    ultimately show ?thesis using ok by (simp add: agg_ok_def)
  qed
  have 4: "if busy_gens s = {} then \<exists>s'. agg_drain s = Some s' \<and> ag_items s' = [] else agg_drain s = None"
    if c: "ag_cur s = Some j" for j
  proof -
    have "ready_now s = ag_items s" using rest c by (auto simp: agg_rest_def ready_now_def split: pop_state.splits)
    then have "ag_count s = card (busy_gens s) + length (ag_items s) + 1" using cnt c by (simp add: cur_list_def)
    then show ?thesis using agg_drain_ok [of s] agg_drain_waits [of s] card_gt_0_iff [of "busy_gens s"] by auto
  qed
  show ?thesis
    using 1 2 3 4 agg_wake_ok [OF ok rest] agg_next_ok [OF ok rest] by blast
qed

text \<open>Two generators: the first gives 7 at once and is done, the second answers later.\<close>

theorem aggregator_delivers_witness:
  "\<exists>s1 :: (unit, nat, unit) aggr. agg_start () [Some (G_value 7), None] = Some s1 \<and> ag_cur s1 = Some 0 \<and>
    yields_of 0 (ag_log s1) = [7] \<and> busy_gens s1 = {1} \<and> (\<exists>s2. agg_next () (Some G_done) s1 = Some s2)"
proof -
  let ?s = "\<lparr>ag_gens = [G_value 7, G_busy], ag_items = [], ag_pop = No_pop, ag_count = 2, ag_exp = None, ag_cur = Some 0,
    ag_end = None, ag_log = [Asked 0 (), Answered 0 (G_value 7), Asked 1 (), Yielded 0 7]\<rparr> :: (unit, nat, unit) aggr"
  have s: "agg_start () [Some (G_value 7), None] = Some ?s"
    by (simp add: agg_start_def agg_new_def gcb_charge_def gen_answers_def gcb_push_def Let_def agg_loop.simps agg_visit_def)
  have "list_all answered [Some (G_value 7 :: (nat, unit) gstat), None]" by (simp add: answered_def)
  from aggregator_delivers [OF run_start [OF this s]]
  have "\<exists>s2. agg_next () (Some G_done) ?s = Some s2" by (simp add: answered_def)
  moreover have "busy_gens ?s = {1}" by (auto simp: busy_gens_def less_Suc_eq nth_Cons')
  ultimately show ?thesis using s by (intro exI [of _ ?s]) simp
qed

end
