(* ===== verification/Function.thy ===== *)
theory Function
  imports Prelude "HOL-Library.Monad_Syntax"
begin

section \<open>function: a movable callable with a small buffer\<close>

text \<open>
  \<open>function.h\<close>. A \<open>function\<close> has a pointer to an object of the hierarchy \<open>Abstract\<close> and a
  buffer. An object that fits is constructed in the buffer (\<open>FnInstSmall\<close>), and moving the
  function moves the object; a larger one is on the heap (\<open>FnInst\<close>), and moving the function
  hands over the pointer. A closure is its type and its state; the size of an \<open>FnInstSmall\<close> for
  a type (\<open>sz\<close>) and what calling the closure does (\<open>call\<close>) are parameters.

  The functions are those of one type, so \<open>small_space\<close> is one number, the parameter \<open>room\<close>:
  a function of another size cannot be the source of a move, as the constructor for it reads
  the protected \<open>_ptr\<close> of another class and assigns an unrelated \<open>Abstract\<close>, and does not compile.

  \<open>objs\<close> are the objects that live, in the buffer of a function or on the heap. Constructing
  over a live object, and calling or deleting a dead one, are \<open>None\<close>.
\<close>

subsection \<open>State\<close>

type_synonym ('t, 's) closure = "'t \<times> 's"

datatype place =
    Space ptr
  | On_heap nat

record ('t, 's) fn_inst =
  fi_small :: bool
  fi_fn :: "('t, 's) closure"

record fn_obj =
  f_ptr :: "place option"

record ('t, 's) fn_world =
  objs :: "place \<Rightarrow> ('t, 's) fn_inst option"
  fns :: "ptr \<Rightarrow> fn_obj option"
  fresh :: nat

definition no_functions :: "('t, 's) fn_world" where
  "no_functions = \<lparr>objs = \<lambda>_. None, fns = \<lambda>_. None, fresh = 0\<rparr>"

definition set_fptr :: "ptr \<Rightarrow> place option \<Rightarrow> ('t, 's) fn_world \<Rightarrow> ('t, 's) fn_world" where
  "set_fptr f l w = w\<lparr>fns := (fns w)(f := map_option (\<lambda>fo. fo\<lparr>f_ptr := l\<rparr>) (fns w f))\<rparr>"

text \<open>Placement new, \<open>new\<close> and \<open>delete\<close> of the objects.\<close>

definition construct_at :: "place \<Rightarrow> ('t, 's) fn_inst \<Rightarrow> ('t, 's) fn_world \<Rightarrow> ('t, 's) fn_world option" where
  "construct_at l x w = (if objs w l \<noteq> None then None else Some (w\<lparr>objs := (objs w)(l \<mapsto> x)\<rparr>))"

definition construct_new :: "('t, 's) fn_inst \<Rightarrow> ('t, 's) fn_world \<Rightarrow> place \<times> ('t, 's) fn_world" where
  "construct_new x w = (On_heap (fresh w), w\<lparr>objs := (objs w)(On_heap (fresh w) \<mapsto> x), fresh := Suc (fresh w)\<rparr>)"

definition delete_at :: "place \<Rightarrow> ('t, 's) fn_world \<Rightarrow> ('t, 's) fn_world option" where
  "delete_at l w = (if objs w l = None then None else Some (w\<lparr>objs := (objs w)(l := None)\<rparr>))"

definition delete_ptr :: "place option \<Rightarrow> ('t, 's) fn_world \<Rightarrow> ('t, 's) fn_world option" where
  "delete_ptr p w = (case p of None \<Rightarrow> Some w | Some l \<Rightarrow> delete_at l w)"

subsection \<open>Operations\<close>

definition fn_init ::
    "('t \<Rightarrow> nat) \<Rightarrow> nat \<Rightarrow> ptr \<Rightarrow> ('t, 's) closure \<Rightarrow> ('t, 's) fn_world \<Rightarrow> ('t, 's) fn_world option" where
  "fn_init sz room f c w = do {
     fo \<leftarrow> fns w f;
     if sz (fst c) \<le> room then
       map_option (set_fptr f (Some (Space f))) (construct_at (Space f) \<lparr>fi_small = True, fi_fn = c\<rparr> w)
     else (let (l, w1) = construct_new \<lparr>fi_small = False, fi_fn = c\<rparr> w in Some (set_fptr f (Some l) w1)) }"

text \<open>The two overrides of \<open>Abstract::move\<close>; the small one ends with \<open>delete this\<close>.\<close>

definition fn_move ::
    "('t \<Rightarrow> nat) \<Rightarrow> place \<Rightarrow> place \<Rightarrow> nat \<Rightarrow> ('t, 's) fn_world \<Rightarrow> (place \<times> ('t, 's) fn_world) option" where
  "fn_move sz this newplace room w = do {
     x \<leftarrow> objs w this;
     if \<not> fi_small x then Some (this, w)
     else do {
       (out, w1) \<leftarrow>
         (if sz (fst (fi_fn x)) \<le> room then map_option (Pair newplace) (construct_at newplace x w)
          else Some (construct_new (x\<lparr>fi_small := False\<rparr>) w));
       w2 \<leftarrow> delete_at this w1;
       Some (out, w2) } }"

definition fn_default :: "ptr \<Rightarrow> ('t, 's) fn_world \<Rightarrow> ('t, 's) fn_world option" where
  "fn_default f w =
     (if fns w f \<noteq> None then None else Some (w\<lparr>fns := (fns w)(f \<mapsto> \<lparr>f_ptr = None\<rparr>)\<rparr>))"

definition fn_of ::
    "('t \<Rightarrow> nat) \<Rightarrow> nat \<Rightarrow> ptr \<Rightarrow> ('t, 's) closure \<Rightarrow> ('t, 's) fn_world \<Rightarrow> ('t, 's) fn_world option" where
  "fn_of sz room f c w = Option.bind (fn_default f w) (fn_init sz room f c)"

definition take_target ::
    "('t \<Rightarrow> nat) \<Rightarrow> nat \<Rightarrow> ptr \<Rightarrow> ptr \<Rightarrow> ('t, 's) fn_world \<Rightarrow> ('t, 's) fn_world option" where
  "take_target sz room f other w = do {
     fo \<leftarrow> fns w f;
     oo \<leftarrow> fns w other;
     case f_ptr oo of
       None \<Rightarrow> Some (set_fptr f None w)
     | Some l \<Rightarrow> do {
         (l', w1) \<leftarrow> fn_move sz l (Space f) room w;
         Some (set_fptr other None (set_fptr f (Some l') w1)) } }"

text \<open>Construction from another function of the same type: the target moves.\<close>

definition fn_from ::
    "('t \<Rightarrow> nat) \<Rightarrow> nat \<Rightarrow> ptr \<Rightarrow> ptr \<Rightarrow> ('t, 's) fn_world \<Rightarrow> ('t, 's) fn_world option" where
  "fn_from sz room f other w = Option.bind (fn_default f w) (take_target sz room f other)"

definition fn_assign ::
    "('t \<Rightarrow> nat) \<Rightarrow> nat \<Rightarrow> ptr \<Rightarrow> ptr \<Rightarrow> ('t, 's) fn_world \<Rightarrow> ('t, 's) fn_world option" where
  "fn_assign sz room f other w =
     (if other = f then Some w
      else do {
        fo \<leftarrow> fns w f;
        w1 \<leftarrow> delete_ptr (f_ptr fo) w;
        take_target sz room f other w1 })"

definition fn_destroy :: "ptr \<Rightarrow> ('t, 's) fn_world \<Rightarrow> ('t, 's) fn_world option" where
  "fn_destroy f w = do {
     fo \<leftarrow> fns w f;
     w1 \<leftarrow> delete_ptr (f_ptr fo) w;
     Some (w1\<lparr>fns := (fns w1)(f := None)\<rparr>) }"

definition fn_bool :: "ptr \<Rightarrow> ('t, 's) fn_world \<Rightarrow> bool option" where
  "fn_bool f w = map_option (\<lambda>fo. f_ptr fo \<noteq> None) (fns w f)"

text \<open>\<open>operator ()\<close>: the left result is \<open>std::bad_function_call\<close>.\<close>

definition fn_call ::
    "('t \<Rightarrow> 's \<Rightarrow> 'a \<Rightarrow> 'r \<times> 's) \<Rightarrow> ptr \<Rightarrow> 'a \<Rightarrow> ('t, 's) fn_world \<Rightarrow> ((unit + 'r) \<times> ('t, 's) fn_world) option" where
  "fn_call call f a w = do {
     fo \<leftarrow> fns w f;
     case f_ptr fo of
       None \<Rightarrow> Some (Inl (), w)
     | Some l \<Rightarrow> do {
         x \<leftarrow> objs w l;
         let (r, s) = call (fst (fi_fn x)) (snd (fi_fn x)) a;
         Some (Inr r, w\<lparr>objs := (objs w)(l \<mapsto> x\<lparr>fi_fn := (fst (fi_fn x), s)\<rparr>)\<rparr>) } }"

subsection \<open>What a function promises\<close>

text \<open>
  Without places: a function is a name for a closure or for nothing. The commands of a client,
  on the model and on such a map.
\<close>

datatype ('t, 's, 'a) fn_cmd =
    New ptr
  | New_of ptr "('t, 's) closure"
  | Move_to ptr ptr
  | Assign_to ptr ptr
  | Destroy_fn ptr
  | Call ptr 'a

type_synonym ('t, 's) fn_spec = "ptr \<Rightarrow> ('t, 's) closure option option"

fun fn_exec ::
    "('t \<Rightarrow> nat) \<Rightarrow> nat \<Rightarrow> ('t \<Rightarrow> 's \<Rightarrow> 'a \<Rightarrow> 'r \<times> 's) \<Rightarrow> ('t, 's, 'a) fn_cmd \<Rightarrow> ('t, 's) fn_world \<Rightarrow>
      ((unit + 'r) list \<times> ('t, 's) fn_world) option" where
  "fn_exec sz room call (New f) w = map_option (Pair []) (fn_default f w)"
| "fn_exec sz room call (New_of f c) w = map_option (Pair []) (fn_of sz room f c w)"
| "fn_exec sz room call (Move_to f other) w = map_option (Pair []) (fn_from sz room f other w)"
| "fn_exec sz room call (Assign_to f other) w = map_option (Pair []) (fn_assign sz room f other w)"
| "fn_exec sz room call (Destroy_fn f) w = map_option (Pair []) (fn_destroy f w)"
| "fn_exec sz room call (Call f a) w = map_option (\<lambda>(r, w'). ([r], w')) (fn_call call f a w)"

fun spec_exec ::
    "('t \<Rightarrow> 's \<Rightarrow> 'a \<Rightarrow> 'r \<times> 's) \<Rightarrow> ('t, 's, 'a) fn_cmd \<Rightarrow> ('t, 's) fn_spec \<Rightarrow>
      ((unit + 'r) list \<times> ('t, 's) fn_spec) option" where
  "spec_exec call (New f) m = (if m f = None then Some ([], m(f \<mapsto> None)) else None)"
| "spec_exec call (New_of f c) m = (if m f = None then Some ([], m(f \<mapsto> Some c)) else None)"
| "spec_exec call (Move_to f other) m =
     (if m f = None \<and> m other \<noteq> None then Some ([], m(f := m other, other \<mapsto> None)) else None)"
| "spec_exec call (Assign_to f other) m =
     (if m f = None \<or> m other = None then None
      else Some ([], if other = f then m else m(f := m other, other \<mapsto> None)))"
| "spec_exec call (Destroy_fn f) m = (if m f = None then None else Some ([], m(f := None)))"
| "spec_exec call (Call f a) m =
     (case m f of
        None \<Rightarrow> None
      | Some None \<Rightarrow> Some ([Inl ()], m)
      | Some (Some (t, s)) \<Rightarrow> (let (r, s') = call t s a in Some ([Inr r], m(f \<mapsto> Some (t, s')))))"

fun run_all :: "('c \<Rightarrow> 'w \<Rightarrow> ('r list \<times> 'w) option) \<Rightarrow> 'c list \<Rightarrow> 'w \<Rightarrow> ('r list \<times> 'w) option" where
  "run_all ex [] w = Some ([], w)"
| "run_all ex (c # cs) w = do { (r, w1) \<leftarrow> ex c w; (rs, w2) \<leftarrow> run_all ex cs w1; Some (r @ rs, w2) }"

definition fn_abs :: "('t, 's) fn_world \<Rightarrow> ('t, 's) fn_spec" where
  "fn_abs w = (\<lambda>f. map_option (\<lambda>fo. Option.bind (f_ptr fo) (\<lambda>l. map_option fi_fn (objs w l))) (fns w f))"

definition points :: "('t, 's) fn_world \<Rightarrow> ptr \<Rightarrow> place \<Rightarrow> bool" where
  "points w f l \<longleftrightarrow> (\<exists>fo. fns w f = Some fo \<and> f_ptr fo = Some l)"

text \<open>
  Every pointer leads to an object, in the buffer of its own function if it is small, and
  every object belongs to exactly one function.
\<close>

definition fn_inv :: "('t, 's) fn_world \<Rightarrow> bool" where
  "fn_inv w \<longleftrightarrow>
     (\<forall>f l. points w f l \<longrightarrow> (\<exists>x. objs w l = Some x \<and> (fi_small x \<longleftrightarrow> l = Space f))) \<and>
     (\<forall>f l. points w f l \<longrightarrow> (\<forall>g. l = Space g \<longrightarrow> g = f)) \<and>
     (\<forall>l. objs w l \<noteq> None \<longrightarrow> (\<exists>f. points w f l)) \<and>
     (\<forall>f g l. points w f l \<longrightarrow> points w g l \<longrightarrow> f = g) \<and>
     (\<forall>n. objs w (On_heap n) \<noteq> None \<longrightarrow> n < fresh w)"

text \<open>A target is small exactly when it fits into a buffer.\<close>

definition fn_fits :: "('t \<Rightarrow> nat) \<Rightarrow> nat \<Rightarrow> ('t, 's) fn_world \<Rightarrow> bool" where
  "fn_fits sz room w \<longleftrightarrow>
     (\<forall>f fo l x. fns w f = Some fo \<longrightarrow> f_ptr fo = Some l \<longrightarrow> objs w l = Some x \<longrightarrow>
        (fi_small x \<longleftrightarrow> sz (fst (fi_fn x)) \<le> room))"

subsection \<open>Giving an object to a function and taking it away\<close>

lemma set_fptr_simps [simp]:
  "objs (set_fptr f l w) = objs w" "fresh (set_fptr f l w) = fresh w"
  "fns (set_fptr f l w) = (fns w)(f := map_option (\<lambda>fo. fo\<lparr>f_ptr := l\<rparr>) (fns w f))"
  by (simp_all add: set_fptr_def)

lemma points_simps:
  "points (set_fptr f l w) g k \<longleftrightarrow> (if g = f then fns w f \<noteq> None \<and> l = Some k else points w g k)"
  "points (w\<lparr>objs := ob\<rparr>) g k \<longleftrightarrow> points w g k" "points (w\<lparr>fresh := n\<rparr>) g k \<longleftrightarrow> points w g k"
  by (auto simp: points_def)

lemma fn_invD:
  assumes "fn_inv w"
  shows "points w f l \<Longrightarrow> \<exists>x. objs w l = Some x \<and> (fi_small x \<longleftrightarrow> l = Space f)"
    and "points w f (Space g) \<Longrightarrow> g = f"
    and "objs w l = Some x \<Longrightarrow> \<exists>f. points w f l" and "points w f l \<Longrightarrow> points w g l \<Longrightarrow> f = g"
    and "objs w (On_heap n) = Some x \<Longrightarrow> n < fresh w"
  using assms unfolding fn_inv_def by blast+

definition give :: "ptr \<Rightarrow> place \<Rightarrow> ('t, 's) fn_inst \<Rightarrow> nat \<Rightarrow> ('t, 's) fn_world \<Rightarrow> ('t, 's) fn_world" where
  "give f l x n w = set_fptr f (Some l) (w\<lparr>objs := (objs w)(l \<mapsto> x), fresh := n\<rparr>)"

definition take_away :: "ptr \<Rightarrow> place \<Rightarrow> ('t, 's) fn_world \<Rightarrow> ('t, 's) fn_world" where
  "take_away f l w = set_fptr f None (w\<lparr>objs := (objs w)(l := None)\<rparr>)"

lemma take_away_inv:
  assumes "fn_inv w" and "points w f l"
  shows "fn_inv (take_away f l w)" and "fn_abs (take_away f l w) = (fn_abs w)(f \<mapsto> None)"
proof -
  have other: "points w g k \<Longrightarrow> g \<noteq> f \<Longrightarrow> k \<noteq> l" for g k using fn_invD(4) [OF assms(1)] assms(2) by blast
  have p: "points (take_away f l w) g k \<longleftrightarrow> g \<noteq> f \<and> points w g k" for g k by (simp add: take_away_def points_simps)
  have o: "objs (take_away f l w) = (objs w)(l := None)" "fresh (take_away f l w) = fresh w" by (simp_all add: take_away_def)
  show "fn_inv (take_away f l w)"
    unfolding fn_inv_def p o
  proof (intro conjI allI impI)
    fix k assume "((objs w)(l := None)) k \<noteq> None"
    then have k: "k \<noteq> l" "objs w k \<noteq> None" by (auto split: if_splits)
    then obtain g where "points w g k" using fn_invD(3) [OF assms(1)] by fastforce
    moreover from this have "g \<noteq> f" using assms(2) k(1) by (auto simp: points_def)
    ultimately show "\<exists>g. g \<noteq> f \<and> points w g k" by blast
  qed (use fn_invD [OF assms(1)] other in \<open>fastforce split: if_splits\<close>)+
  show "fn_abs (take_away f l w) = (fn_abs w)(f \<mapsto> None)"
  proof
    fix g show "fn_abs (take_away f l w) g = ((fn_abs w)(f \<mapsto> None)) g"
    proof (cases "g = f")
      case True
      then show ?thesis using assms(2) by (auto simp: take_away_def fn_abs_def points_def)
    next
      case False
      then have "fns w g = Some fo \<Longrightarrow> f_ptr fo = Some k \<Longrightarrow> k \<noteq> l" for fo k
        using other [of g k] by (auto simp: points_def)
      with False show ?thesis
        by (cases "fns w g") (auto simp: take_away_def fn_abs_def split: bind_split)
    qed
  qed
qed

lemma give_inv:
  assumes inv: "fn_inv w" and f: "fns w f = Some fo" "f_ptr fo = None" and l: "objs w l = None"
    and x: "fi_small x \<longleftrightarrow> l = Space f" "\<And>g. l = Space g \<Longrightarrow> g = f" and n: "\<And>k. l = On_heap k \<Longrightarrow> k < n" "fresh w \<le> n"
  shows "fn_inv (give f l x n w)" and "fn_abs (give f l x n w) = (fn_abs w)(f \<mapsto> Some (fi_fn x))"
proof -
  have none: "\<not> points w f k" for k using f by (auto simp: points_def)
  have other: "points w g k \<Longrightarrow> k \<noteq> l" for g k using fn_invD(1) [OF inv] l by fastforce
  have p: "points (give f l x n w) g k \<longleftrightarrow> (if g = f then k = l else points w g k)" for g k
    using f by (auto simp: give_def points_simps)
  have o: "objs (give f l x n w) = (objs w)(l \<mapsto> x)" "fresh (give f l x n w) = n" by (simp_all add: give_def)
  show "fn_inv (give f l x n w)"
    unfolding fn_inv_def p o
  proof (intro conjI allI impI)
    fix k assume k: "((objs w)(l \<mapsto> x)) k \<noteq> None"
    show "\<exists>g. if g = f then k = l else points w g k"
    proof (cases "k = l")
      case False
      then obtain g where "points w g k" using k fn_invD(3) [OF inv] by fastforce
      then show ?thesis using none by (intro exI [of _ g]) auto
    qed auto
  next
    fix k assume "((objs w)(l \<mapsto> x)) (On_heap k) \<noteq> None"
    then show "k < n" using n fn_invD(5) [OF inv, of k] by (fastforce split: if_splits)
  next
    fix g k assume gk: "if g = f then k = l else points w g k"
    show "\<exists>y. ((objs w)(l \<mapsto> x)) k = Some y \<and> (fi_small y \<longleftrightarrow> k = Space g)"
    proof (cases "g = f")
      case False
      with gk have gk': "points w g k" by simp
      show ?thesis using fn_invD(1) [OF inv gk'] other [OF gk'] by auto
    qed (use gk x in simp)
    show "h = g" if "k = Space h" for h
    proof (cases "g = f")
      case False
      with gk that have "points w g (Space h)" by simp
      then show ?thesis by (rule fn_invD(2) [OF inv])
    qed (use gk x that in auto)
    show "g = h" if hk: "if h = f then k = l else points w h k" for h
    proof (cases "g = f \<or> h = f")
      case True
      then show ?thesis using gk hk other [of g k] other [of h k] by (auto split: if_splits)
    next
      case False
      then have "points w g k" "points w h k" using gk hk by simp_all
      then show ?thesis by (rule fn_invD(4) [OF inv])
    qed
  qed
  show "fn_abs (give f l x n w) = (fn_abs w)(f \<mapsto> Some (fi_fn x))"
  proof
    fix g show "fn_abs (give f l x n w) g = ((fn_abs w)(f \<mapsto> Some (fi_fn x))) g"
    proof (cases "g = f")
      case True
      then show ?thesis using f by (simp add: give_def fn_abs_def)
    next
      case False
      have "fns w g = Some go \<Longrightarrow> f_ptr go = Some k \<Longrightarrow> k \<noteq> l" for go k
        using other [of g k] by (auto simp: points_def)
      with False show ?thesis
        by (cases "fns w g") (auto simp: give_def fn_abs_def split: bind_split)
    qed
  qed
qed

lemma take_away_fits: "fn_fits sz room w \<Longrightarrow> fn_fits sz room (take_away f l w)"
  by (auto simp: fn_fits_def take_away_def split: if_splits)

lemma give_fits:
  assumes "fn_fits sz room w" and "fn_inv w" and "objs w l = None" and "fns w f = Some fo"
    and "fi_small x \<longleftrightarrow> sz (fst (fi_fn x)) \<le> room"
  shows "fn_fits sz room (give f l x n w)"
proof -
  have "fns w g = Some go \<Longrightarrow> f_ptr go = Some k \<Longrightarrow> k \<noteq> l" for g go k
    using fn_invD(1) [OF assms(2), of g k] assms(3) by (auto simp: points_def)
  with assms show ?thesis unfolding fn_fits_def give_def by (auto split: if_splits)
qed

text \<open>The buffer of a function without a target is free, and so is the next place on the heap.\<close>

lemma free_places:
  assumes "fn_inv w"
  shows "fns w f = Some fo \<Longrightarrow> f_ptr fo = None \<Longrightarrow> objs w (Space f) = None" and "objs w (On_heap (fresh w)) = None"
proof -
  show "objs w (Space f) = None" if "fns w f = Some fo" "f_ptr fo = None"
  proof (rule ccontr)
    assume "objs w (Space f) \<noteq> None"
    then obtain g where "points w g (Space f)" using fn_invD(3) [OF assms] by fastforce
    with fn_invD(2) [OF assms this] that show False by (auto simp: points_def)
  qed
  show "objs w (On_heap (fresh w)) = None" using fn_invD(5) [OF assms, of "fresh w"] by fastforce
qed

lemma fn_default_inv:
  assumes "fn_inv w" and "fns w f = None"
  defines "w' \<equiv> w\<lparr>fns := (fns w)(f \<mapsto> \<lparr>f_ptr = None\<rparr>)\<rparr>"
  shows "fn_default f w = Some w'" and "fn_inv w'" and "fn_abs w' = (fn_abs w)(f \<mapsto> None)"
proof -
  have p: "points w' g k \<longleftrightarrow> points w g k" for g k using assms(2) by (auto simp: w'_def points_def)
  show "fn_inv w'" using assms(1) unfolding fn_inv_def p by (simp add: w'_def)
  show "fn_default f w = Some w'" using assms(2) by (simp add: fn_default_def w'_def)
  show "fn_abs w' = (fn_abs w)(f \<mapsto> None)" by (auto simp: fn_abs_def w'_def)
qed

lemma fn_init_inv:
  assumes inv: "fn_inv w" and f: "fns w f = Some fo" "f_ptr fo = None"
  shows "\<exists>w'. fn_init sz room f c w = Some w' \<and> fn_inv w' \<and> (fn_fits sz room w \<longrightarrow> fn_fits sz room w') \<and> fn_abs w' = (fn_abs w)(f \<mapsto> Some c)"
proof (cases "sz (fst c) \<le> room")
  case True
  let ?x = "\<lparr>fi_small = True, fi_fn = c\<rparr>"
  have "fn_init sz room f c w = Some (give f (Space f) ?x (fresh w) w)"
    using True f free_places(1) [OF inv f] by (simp add: fn_init_def construct_at_def give_def)
  with give_inv [OF inv f free_places(1) [OF inv f], of ?x "fresh w"] True
    give_fits [OF _ inv free_places(1) [OF inv f] f(1), of sz room ?x "fresh w"] show ?thesis by auto
next
  case False
  let ?x = "\<lparr>fi_small = False, fi_fn = c\<rparr>"
  have "fn_init sz room f c w = Some (give f (On_heap (fresh w)) ?x (Suc (fresh w)) w)"
    using False f by (simp add: fn_init_def construct_new_def give_def)
  with give_inv [OF inv f free_places(2) [OF inv], of ?x "Suc (fresh w)"]
    give_fits [OF _ inv free_places(2) [OF inv] f(1), of sz room ?x "Suc (fresh w)"] False show ?thesis by auto
qed

text \<open>The target moves: taken away from one function and given to the other.\<close>

lemma take_target_inv:
  assumes inv: "fn_inv w" and f: "fns w f = Some fo" "f_ptr fo = None" and o: "fns w other = Some oo" and ne: "other \<noteq> f"
  shows "\<exists>w'. take_target sz room f other w = Some w' \<and> fn_inv w' \<and> (fn_fits sz room w \<longrightarrow> fn_fits sz room w') \<and> fn_abs w' = (fn_abs w)(f := fn_abs w other, other \<mapsto> None)"
proof (cases "f_ptr oo")
  case None
  have "set_fptr f None w = w" using f by (cases w; cases fo) (auto simp: set_fptr_def fun_upd_idem_iff)
  then have "take_target sz room f other w = Some w" using f o None by (simp add: take_target_def)
  moreover have "fn_abs w other = Some None" "fn_abs w f = Some None" using f o None by (simp_all add: fn_abs_def)
  then have "(fn_abs w)(f := fn_abs w other, other \<mapsto> None) = fn_abs w" by (simp add: fun_upd_idem)
  ultimately show ?thesis using inv by simp
next
  case (Some l)
  have pl: "points w other l" using o Some by (simp add: points_def)
  obtain x where x: "objs w l = Some x" "fi_small x \<longleftrightarrow> l = Space other" using fn_invD(1) [OF inv pl] by blast
  note T = take_away_inv [OF inv pl]
  let ?w = "take_away other l w"
  have f': "fns ?w f = Some fo" using f ne by (simp add: take_away_def)
  have abs: "fn_abs w other = Some (Some (fi_fn x))" using o Some x by (simp add: fn_abs_def)
  have size: "fi_small x \<longleftrightarrow> sz (fst (fi_fn x)) \<le> room" if "fn_fits sz room w" using that o Some x(1) by (auto simp: fn_fits_def)
  have goal: ?thesis
    if "take_target sz room f other w = Some (give f k y n ?w)" "objs ?w k = None" "fi_fn y = fi_fn x" "fi_small y \<longleftrightarrow> k = Space f"
      "\<And>g. k = Space g \<Longrightarrow> g = f" "\<And>i. k = On_heap i \<Longrightarrow> i < n" "fresh w \<le> n" "fn_fits sz room w \<Longrightarrow> fi_small y \<longleftrightarrow> sz (fst (fi_fn y)) \<le> room" for k y n
  proof -
    have "fn_fits sz room w \<Longrightarrow> fn_fits sz room (give f k y n ?w)"
      using give_fits [where sz = sz and room = room and x = y and n = n, OF _ T(1) that(2) f'] that(8) take_away_fits [of sz room w other l] by blast
    then show ?thesis using that give_inv [OF T(1) f' f(2) that(2,4,5,6)] T(2) abs ne by (auto simp: take_away_def)
  qed
  have sub: "objs w k = None \<Longrightarrow> objs ?w k = None" for k by (simp add: take_away_def)
  show ?thesis
  proof (cases "fi_small x")
    case False
    then obtain i where i: "l = On_heap i" "i < fresh w"
      using fn_invD(2) [OF inv] pl x fn_invD(5) [OF inv] by (cases l) auto
    have "take_target sz room f other w = Some (give f l x (fresh w) ?w)"
      using False f o Some x(1) ne
      by (simp add: take_target_def fn_move_def give_def take_away_def set_fptr_def fun_upd_twist fun_upd_idem)
    then show ?thesis using False i size by (intro goal) (auto simp: take_away_def)
  next
    case True
    then have l: "l = Space other" using x(2) by simp
    show ?thesis
    proof (cases "sz (fst (fi_fn x)) \<le> room")
      case fits: True
      have e: "objs w (Space f) = None" using free_places(1) [OF inv f] .
      have "take_target sz room f other w = Some (give f (Space f) x (fresh w) ?w)"
        using True fits f o Some x(1) ne e l
        by (simp add: take_target_def fn_move_def construct_at_def delete_at_def give_def take_away_def set_fptr_def fun_upd_twist)
      then show ?thesis using True fits sub [OF e] by (intro goal) auto
    next
      case big: False
      have e: "objs w (On_heap (fresh w)) = None" using free_places(2) [OF inv] .
      have "take_target sz room f other w = Some (give f (On_heap (fresh w)) (x\<lparr>fi_small := False\<rparr>) (Suc (fresh w)) ?w)"
        using True big f o Some x(1) ne e l
        by (simp add: take_target_def fn_move_def construct_new_def delete_at_def give_def take_away_def set_fptr_def fun_upd_twist)
      then show ?thesis using sub [OF e] big
        by (intro goal [of "On_heap (fresh w)" "x\<lparr>fi_small := False\<rparr>" "Suc (fresh w)"]) auto
    qed
  qed
qed

lemma delete_ptr_inv:
  assumes inv: "fn_inv w" and f: "fns w f = Some fo"
  shows "\<exists>w1. delete_ptr (f_ptr fo) w = Some w1 \<and> fn_inv (set_fptr f None w1) \<and>
    (fn_fits sz room w \<longrightarrow> fn_fits sz room (set_fptr f None w1)) \<and> fn_abs (set_fptr f None w1) = (fn_abs w)(f \<mapsto> None) \<and> fns w1 = fns w"
proof (cases "f_ptr fo")
  case None
  then have "set_fptr f None w = w" using f by (cases w; cases fo) (auto simp: set_fptr_def fun_upd_idem_iff)
  moreover have "fn_abs w f = Some None" using f None by (simp add: fn_abs_def)
  ultimately show ?thesis using inv None by (simp add: delete_ptr_def fun_upd_idem)
next
  case (Some l)
  then have pl: "points w f l" using f by (simp add: points_def)
  obtain x where "objs w l = Some x" using fn_invD(1) [OF inv pl] by blast
  then have "delete_ptr (f_ptr fo) w = Some (w\<lparr>objs := (objs w)(l := None)\<rparr>)"
    using Some by (simp add: delete_ptr_def delete_at_def)
  with take_away_inv [OF inv pl] take_away_fits [of sz room w f l] show ?thesis by (simp add: take_away_def)
qed

lemma fn_move_frame:
  "fn_move sz l k room (w\<lparr>fns := F\<rparr>) = map_option (\<lambda>(l', w'). (l', w'\<lparr>fns := F\<rparr>)) (fn_move sz l k room w)"
  "fn_move sz l k room w = Some (l', w') \<Longrightarrow> fns w' = fns w"
  by (auto simp: fn_move_def construct_at_def construct_new_def delete_at_def bind_Some_iff split: bind_split if_splits)

lemma set_fptr_again: "fns w' = fns w \<Longrightarrow> set_fptr f l (w'\<lparr>fns := fns (set_fptr f l0 w)\<rparr>) = set_fptr f l w'"
  by (cases "fns w f") (simp_all add: set_fptr_def)

text \<open>What the pointer of the receiving function was does not matter.\<close>

lemma take_target_forgets:
  assumes "other \<noteq> f"
  shows "take_target sz room f other (set_fptr f None w) = take_target sz room f other w"
proof -
  have s: "set_fptr f None w = w\<lparr>fns := fns (set_fptr f None w)\<rparr>" by (simp add: set_fptr_def)
  show ?thesis
  proof (cases "fns w f")
    case None
    then show ?thesis by (simp add: take_target_def)
  next
    case (Some fo)
    have "fn_move sz l k r (set_fptr f None w) =
        map_option (\<lambda>(l', w'). (l', w'\<lparr>fns := fns (set_fptr f None w)\<rparr>)) (fn_move sz l k r w)" for l k r
      by (subst s) (rule fn_move_frame(1))
    moreover have "set_fptr f None (set_fptr f None w) = set_fptr f None w" by (cases "fns w f") (simp_all add: set_fptr_def)
    moreover have "fns (set_fptr f None w) f = Some (fo\<lparr>f_ptr := None\<rparr>)" "fns (set_fptr f None w) other = fns w other"
      using Some assms by simp_all
    ultimately show ?thesis using Some fn_move_frame(2) [of sz _ _ _ w]
      by (auto simp: take_target_def set_fptr_again  simp del: set_fptr_simps(3)
          split: option.splits bind_split)
  qed
qed

lemma fn_assign_inv:
  assumes inv: "fn_inv w" and f: "fns w f = Some fo" and o: "fns w other = Some oo" and ne: "other \<noteq> f"
  shows "\<exists>w'. fn_assign sz room f other w = Some w' \<and> fn_inv w' \<and> (fn_fits sz room w \<longrightarrow> fn_fits sz room w') \<and> fn_abs w' = (fn_abs w)(f := fn_abs w other, other \<mapsto> None)"
proof -
  obtain w1 where w1: "delete_ptr (f_ptr fo) w = Some w1" "fn_inv (set_fptr f None w1)"
    "fn_abs (set_fptr f None w1) = (fn_abs w)(f \<mapsto> None)" "fns w1 = fns w"
    "fn_fits sz room w \<longrightarrow> fn_fits sz room (set_fptr f None w1)"
    using delete_ptr_inv [OF inv f, of sz room] by blast
  have "fns (set_fptr f None w1) f = Some (fo\<lparr>f_ptr := None\<rparr>)" "fns (set_fptr f None w1) other = Some oo"
    using f o ne w1(4) by simp_all
  from take_target_inv [OF w1(2) this(1) _ this(2) ne, of sz room] show ?thesis
    using f ne w1 take_target_forgets [OF ne, of sz room w1] by (auto simp: fn_assign_def)
qed

lemma fn_destroy_inv:
  assumes inv: "fn_inv w" and f: "fns w f = Some fo"
  shows "\<exists>w'. fn_destroy f w = Some w' \<and> fn_inv w' \<and> (fn_fits sz room w \<longrightarrow> fn_fits sz room w') \<and> fn_abs w' = (fn_abs w)(f := None)"
proof -
  obtain w1 where w1: "delete_ptr (f_ptr fo) w = Some w1" "fn_inv (set_fptr f None w1)"
    "fn_abs (set_fptr f None w1) = (fn_abs w)(f \<mapsto> None)" "fns w1 = fns w"
    "fn_fits sz room w \<longrightarrow> fn_fits sz room (set_fptr f None w1)"
    using delete_ptr_inv [OF inv f, of sz room] by blast
  let ?w = "w1\<lparr>fns := (fns w1)(f := None)\<rparr>"
  have "points ?w g k \<longleftrightarrow> points (set_fptr f None w1) g k" for g k by (auto simp: points_def)
  then have "fn_inv ?w" using w1(2) unfolding fn_inv_def by simp
  moreover have "fn_abs ?w = (fn_abs w)(f := None)"
  proof
    fix g show "fn_abs ?w g = ((fn_abs w)(f := None)) g"
      using fun_cong [OF w1(3), of g] by (cases "g = f") (simp_all add: fn_abs_def)
  qed
  moreover have "fn_fits sz room w \<longrightarrow> fn_fits sz room ?w" using w1(5) by (auto simp: fn_fits_def split: if_splits)
  ultimately show ?thesis using f w1(1) by (simp add: fn_destroy_def)
qed

lemma fn_call_inv:
  assumes inv: "fn_inv w" and f: "fns w f = Some fo"
  shows "\<exists>r w'. fn_call call f a w = Some (r, w') \<and> fn_inv w' \<and> (fn_fits sz room w \<longrightarrow> fn_fits sz room w') \<and> spec_exec call (Call f a) (fn_abs w) = Some ([r], fn_abs w')"
proof (cases "f_ptr fo")
  case None
  then have "fn_abs w f = Some None" using f by (simp add: fn_abs_def)
  then show ?thesis using inv f None by (simp add: fn_call_def)
next
  case (Some l)
  then have pl: "points w f l" using f by (simp add: points_def)
  obtain x where x: "objs w l = Some x" "fi_small x \<longleftrightarrow> l = Space f" using fn_invD(1) [OF inv pl] by blast
  obtain t s where c: "fi_fn x = (t, s)" by (metis surj_pair)
  obtain r s' where r: "call t s a = (r, s')" by (metis surj_pair)
  let ?w = "w\<lparr>objs := (objs w)(l \<mapsto> x\<lparr>fi_fn := (t, s')\<rparr>)\<rparr>"
  have "fn_call call f a w = Some (Inr r, ?w)" using f Some x(1) c r by (simp add: fn_call_def)
  moreover have "fn_inv ?w"
    using inv x fn_invD(4) [OF inv pl] unfolding fn_inv_def points_simps by (auto split: if_splits)
  moreover have "fn_abs ?w = (fn_abs w)(f \<mapsto> Some (t, s'))"
  proof
    fix g show "fn_abs ?w g = ((fn_abs w)(f \<mapsto> Some (t, s'))) g"
    proof (cases "g = f")
      case False
      then have "fns w g = Some go \<Longrightarrow> f_ptr go = Some k \<Longrightarrow> k \<noteq> l" for go k
        using fn_invD(4) [OF inv pl, of g] by (auto simp: points_def)
      with False show ?thesis by (cases "fns w g") (auto simp: fn_abs_def split: bind_split)
    qed (use f Some in \<open>simp add: fn_abs_def\<close>)
  qed
  moreover have "fn_abs w f = Some (Some (t, s))" using f Some x(1) c by (simp add: fn_abs_def)
  moreover have "fn_fits sz room w \<longrightarrow> fn_fits sz room ?w" using x(1) c by (fastforce simp: fn_fits_def split: if_splits)
  ultimately show ?thesis using r by simp
qed

text \<open>Whatever the client may do by the map, the functions do as well.\<close>

lemma fn_abs_None: "fn_abs w f = None \<longleftrightarrow> fns w f = None"
  by (simp add: fn_abs_def)

lemma fn_exec_ok:
  assumes inv: "fn_inv w" and s: "spec_exec call c (fn_abs w) = Some (rs, m)"
  shows "\<exists>w'. fn_exec sz room call c w = Some (rs, w') \<and> fn_inv w' \<and> (fn_fits sz room w \<longrightarrow> fn_fits sz room w') \<and> fn_abs w' = m"
proof (cases c)
  case (New f)
  then have n: "fns w f = None" using s by (simp add: fn_abs_None split: if_splits)
  have "fn_fits sz room w \<Longrightarrow> fn_fits sz room (w\<lparr>fns := (fns w)(f \<mapsto> \<lparr>f_ptr = None\<rparr>)\<rparr>)"
    by (auto simp: fn_fits_def)
  with fn_default_inv [OF inv n] New s n show ?thesis by (auto simp: fn_abs_None)
next
  case (New_of f x)
  then have n: "fns w f = None" using s by (simp add: fn_abs_None split: if_splits)
  note D = fn_default_inv [OF inv n]
  let ?w = "w\<lparr>fns := (fns w)(f \<mapsto> \<lparr>f_ptr = None\<rparr>)\<rparr>"
  have "fn_fits sz room w \<Longrightarrow> fn_fits sz room ?w" by (auto simp: fn_fits_def)
  with fn_init_inv [OF D(2), of f "\<lparr>f_ptr = None\<rparr>" sz room x] D New_of s n show ?thesis by (auto simp: fn_of_def fn_abs_None)
next
  case (Move_to f other)
  then have n: "fns w f = None" and o: "fns w other \<noteq> None" using s by (simp_all add: fn_abs_None split: if_splits)
  then obtain oo where oo: "fns w other = Some oo" by auto
  then have ne: "other \<noteq> f" using n by auto
  note D = fn_default_inv [OF inv n]
  let ?w = "w\<lparr>fns := (fns w)(f \<mapsto> \<lparr>f_ptr = None\<rparr>)\<rparr>"
  have "fn_fits sz room w \<Longrightarrow> fn_fits sz room ?w" by (auto simp: fn_fits_def)
  with take_target_inv [OF D(2), of f "\<lparr>f_ptr = None\<rparr>" other oo sz room] D Move_to s n oo ne show ?thesis
    by (auto simp: fn_from_def fn_abs_None)
next
  case (Assign_to f other)
  then obtain fo oo where f: "fns w f = Some fo" "fns w other = Some oo"
    using s by (auto simp: fn_abs_def split: if_splits)
  then show ?thesis using fn_assign_inv [OF inv f, of sz room] Assign_to s inv
    by (cases "other = f") (auto simp: fn_abs_None fn_assign_def)
next
  case (Destroy_fn f)
  then obtain fo where "fns w f = Some fo" using s by (auto simp: fn_abs_def split: if_splits)
  then show ?thesis using fn_destroy_inv [OF inv, of f fo sz room] Destroy_fn s by (auto simp: fn_abs_None)
next
  case (Call f a)
  then obtain fo where f: "fns w f = Some fo" using s by (auto simp: fn_abs_def split: option.splits)
  obtain r w' where "fn_call call f a w = Some (r, w')" "fn_inv w'" "fn_fits sz room w \<longrightarrow> fn_fits sz room w'"
    "spec_exec call (Call f a) (fn_abs w) = Some ([r], fn_abs w')"
    using fn_call_inv [OF inv f, of call a sz room] by blast
  then show ?thesis using Call s by simp
qed

lemma fn_run_ok:
  "fn_inv w \<Longrightarrow> run_all (spec_exec call) cs (fn_abs w) = Some (rs, m) \<Longrightarrow>
    \<exists>w'. run_all (fn_exec sz room call) cs w = Some (rs, w') \<and> fn_inv w' \<and> (fn_fits sz room w \<longrightarrow> fn_fits sz room w') \<and> fn_abs w' = m"
proof (induction cs arbitrary: w rs)
  case (Cons c cs)
  then obtain r m1 rs' where c: "spec_exec call c (fn_abs w) = Some (r, m1)"
    "run_all (spec_exec call) cs m1 = Some (rs', m)" "rs = r @ rs'" by (auto simp: bind_Some_iff)
  from fn_exec_ok [OF Cons.prems(1) c(1), of sz room] obtain w1 where
    "fn_exec sz room call c w = Some (r, w1)" "fn_inv w1" "fn_fits sz room w \<longrightarrow> fn_fits sz room w1" "fn_abs w1 = m1" by blast
  with Cons.IH [of w1 rs'] c show ?case by auto
qed simp

lemma no_functions_ok [simp]: "fn_inv no_functions" "fn_fits sz room no_functions" "fn_abs no_functions = (\<lambda>_. None)"
  by (auto simp: no_functions_def fn_inv_def fn_fits_def fn_abs_def points_def)

subsection \<open>Properties\<close>

text \<open>
  C22. Functions behave like names for closures: whatever a program does with those of one type
  (construct, move, assign, call, destroy; \<open>room\<close> is their \<open>small_space\<close>), no dead object is
  used, the calls give what the closures give, state included, and when the last function
  is gone, every closure has been destroyed.
\<close>

theorem function_refines_closures:
  assumes "run_all (spec_exec call) cs (\<lambda>_. None) = Some (rs, m)"
  shows "\<exists>w. run_all (fn_exec sz room call) cs no_functions = Some (rs, w) \<and> fn_abs w = m \<and>
    ((\<forall>f. m f = None) \<longrightarrow> (\<forall>l. objs w l = None))"
proof -
  obtain w where w: "run_all (fn_exec sz room call) cs no_functions = Some (rs, w)" "fn_inv w" "fn_abs w = m"
    using fn_run_ok [OF no_functions_ok(1), of call cs rs m sz room] assms by auto
  have "objs w l = None" if "\<forall>f. m f = None" for l
    using fn_invD(3) [OF w(2), of l] that w(3) fn_abs_None [of w] by (cases "objs w l") (auto simp: points_def)
  with w show ?thesis by blast
qed

text \<open>
  In functions of 64 bytes, a counter of 8 bytes that counts its calls is stored in place and
  moved from buffer to buffer; one of 100 bytes is on the heap, and its pointer is handed over.
\<close>

definition count_call :: "nat \<Rightarrow> nat \<Rightarrow> nat \<Rightarrow> nat \<times> nat" where
  "count_call t s a = (s + a, s + 1)"

definition count_cmds :: "(nat, nat, nat) fn_cmd list" where
  "count_cmds = [New_of 10 (8, 0), Call 10 5, New_of 40 (100, 1), Move_to 20 10, Call 20 5, Call 10 5, New 30, Assign_to 30 20,
     Call 30 5, Assign_to 20 40, Call 20 5, Destroy_fn 40, Destroy_fn 10, Destroy_fn 20, Destroy_fn 30]"

theorem function_refines_closures_witness:
  "\<exists>w. run_all (fn_exec (\<lambda>t. t) 64 count_call) count_cmds no_functions = Some ([Inr 5, Inr 6, Inl (), Inr 7, Inr 6], w) \<and>
    (\<forall>l. objs w l = None)"
proof -
  have "run_all (spec_exec count_call) count_cmds (\<lambda>_. None) = Some ([Inr 5, Inr 6, Inl (), Inr 7, Inr 6], \<lambda>_. None)"
    by (simp add: count_cmds_def count_call_def fun_upd_def cong: if_cong)
  from function_refines_closures [OF this, of "\<lambda>t. t" 64] show ?thesis by auto
qed

text \<open>
  C24. The dynamic types are right in every run: the target of a function is an
  \<open>FnInstSmall\<close> exactly when it lies in that function's own buffer, it fits in there, and
  otherwise it is an \<open>FnInst\<close> on the heap that is too large for a buffer and that no other
  function points to.
\<close>

theorem function_targets_typed:
  assumes "run_all (spec_exec call) cs (\<lambda>_. None) = Some (rs, m)"
    and "run_all (fn_exec sz room call) cs no_functions = Some (rs, w)"
    and "fns w f = Some fo" and "f_ptr fo = Some l"
  shows "\<exists>x. objs w l = Some x \<and>
    (case l of
       Space g \<Rightarrow> g = f \<and> fi_small x \<and> sz (fst (fi_fn x)) \<le> room
     | On_heap n \<Rightarrow> \<not> fi_small x \<and> room < sz (fst (fi_fn x)) \<and> (\<forall>g go. fns w g = Some go \<longrightarrow> f_ptr go = Some l \<longrightarrow> g = f))"
proof -
  have w: "fn_inv w" "fn_fits sz room w"
    using fn_run_ok [OF no_functions_ok(1), of call cs rs m sz room] assms(1,2) by auto
  have p: "points w f l" using assms(3,4) by (simp add: points_def)
  then obtain x where x: "objs w l = Some x" "fi_small x \<longleftrightarrow> l = Space f" using fn_invD(1) [OF w(1)] by blast
  show ?thesis
  proof (cases l)
    case (Space g)
    moreover from this have "g = f" using fn_invD(2) [OF w(1)] p by simp
    moreover have "fi_small x \<longleftrightarrow> sz (fst (fi_fn x)) \<le> room" using w(2) assms(3,4) x(1) by (auto simp: fn_fits_def)
    ultimately show ?thesis using x by simp
  next
    case (On_heap n)
    moreover have "g = f" if "fns w g = Some go" "f_ptr go = Some l" for g go
      using fn_invD(4) [OF w(1) _ p, of g] that by (simp add: points_def)
    moreover have "fi_small x \<longleftrightarrow> sz (fst (fi_fn x)) \<le> room" using w(2) assms(3,4) x(1) by (auto simp: fn_fits_def)
    ultimately show ?thesis using x by auto
  qed
qed

theorem function_targets_typed_witness:
  "\<exists>w fo x. run_all (fn_exec (\<lambda>t. t) 64 count_call) [New_of 10 (8, 0)] no_functions = Some ([], w) \<and>
    fns w 10 = Some fo \<and> objs w (Space 10) = Some x \<and> fi_small x"
proof -
  let ?w = "\<lparr>objs = (\<lambda>_. None)(Space 10 \<mapsto> \<lparr>fi_small = True, fi_fn = (8 :: nat, 0 :: nat)\<rparr>),
    fns = (\<lambda>_. None)(10 \<mapsto> \<lparr>f_ptr = Some (Space 10)\<rparr>), fresh = 0\<rparr>"
  have r: "run_all (fn_exec (\<lambda>t. t) 64 count_call) [New_of 10 (8, 0)] no_functions = Some ([], ?w)"
    by (simp add: no_functions_def fn_of_def fn_default_def fn_init_def construct_at_def set_fptr_def)
  have s: "run_all (spec_exec count_call) [New_of 10 (8, 0)] (\<lambda>_. None) = Some ([], (\<lambda>_. None)(10 \<mapsto> Some (8, 0)))"
    by simp
  show ?thesis using function_targets_typed [OF s r, of 10 "\<lparr>f_ptr = Some (Space 10)\<rparr>" "Space 10"] r by auto
qed

end
