(* ===== verification/Resume.thy ===== *)
theory Resume
  imports Suspend_Point Future Thread_Pool
begin

section \<open>Adapters: a coroutine is resumed elsewhere\<close>

text \<open>
  \<open>resume.h\<close> (\<open>parallel\<close>, \<open>parallel_resume\<close>), \<open>thread_pool::operator()\<close> (the class
  \<open>enqueue_awaiter\<close>) and \<open>self.h\<close>. An adapter is an awaiter that keeps the handle of the
  coroutine and lets the adapted awaiter call its function \<open>perform_resume\<close> instead; the
  adapted object is a future here. What the functions do outside of the store of futures is
  \<open>elsewhere\<close>: the threads that were started, each with the handles it resumes, and a pool.
\<close>

subsection \<open>Awaiting through an adapter\<close>

record 'f elsewhere =
  el_threads :: "handle list list"
  el_pool :: "'f pool"

type_synonym ('v, 'e, 'f) estore = "('v, 'e, 'f elsewhere) fstore"

definition upd_elsewhere :: "('f elsewhere \<Rightarrow> 'f elsewhere) \<Rightarrow> ('v, 'e, 'f) estore \<Rightarrow> ('v, 'e, 'f) estore" where
  "upd_elsewhere g s = s\<lparr>client := (client s)\<lparr>user := g (user (client s))\<rparr>\<rparr>"

definition fn_parallel :: resume_fn where
  "fn_parallel = Fn_client 300"

definition fn_enqueue :: resume_fn where
  "fn_enqueue = Fn_client 301"

text \<open>\<open>parallel::perform_resume\<close> starts a thread that resumes the handle the adapter has.\<close>

definition parallel_fn :: "ptr \<Rightarrow> ptr \<Rightarrow> ('v, 'e, 'f) estore \<Rightarrow> handle list \<times> ('v, 'e, 'f) estore" where
  "parallel_fn me user_ptr s =
     ([], upd_elsewhere (\<lambda>u. u\<lparr>el_threads := el_threads u @ [[a_haddr s user_ptr]]\<rparr>) s)"

text \<open>\<open>enqueue_awaiter::perform_resume\<close> gives what the adapter's resumption yields to the pool.\<close>

definition enqueue_fn ::
    "('v, 'e, 'f elsewhere) fworld client_fn \<Rightarrow> ptr \<Rightarrow> ptr \<Rightarrow> ('v, 'e, 'f) estore \<Rightarrow> handle list \<times> ('v, 'e, 'f) estore" where
  "enqueue_fn cl me user_ptr s =
     (let (s', p) = perform_resume cl user_ptr s (el_pool (user (client s)))
      in ([], upd_elsewhere (\<lambda>u. u\<lparr>el_pool := p\<rparr>) s'))"

definition adapter_clients :: "('v, 'e, 'f elsewhere) fworld client_fn \<Rightarrow> ('v, 'e, 'f elsewhere) fworld client_fn" where
  "adapter_clients cl k me user_ptr s =
     (if k = 300 then parallel_fn me user_ptr s
      else if k = 301 then enqueue_fn cl me user_ptr s
      else cl k me user_ptr s)"

text \<open>
  \<open>co_await\<close> of an adapter: the adapter is at \<open>this\<close>, the adapted \<open>co_awaiter\<close>, a fresh
  object, at \<open>awt\<close>. The result says whether the coroutine with the handle \<open>h\<close> is suspended.
\<close>

definition adapter_await ::
    "bool list \<Rightarrow> resume_fn \<Rightarrow> ptr \<Rightarrow> ptr \<Rightarrow> handle \<Rightarrow> ptr \<Rightarrow> ('v, 'e, 'u) fstore \<Rightarrow> (bool \<times> ('v, 'e, 'u) fstore) option" where
  "adapter_await sf fn this awt h f s = do {
     fu \<leftarrow> fut_at f s;
     if fst (await_ready (fut_ops sf :: (('v, 'e) future, ('v, 'e, 'u) fworld) owner_ops) fu) then Some (False, s)
     else do {
       (w, fu', s') \<leftarrow> await_suspend_fn (fut_ops sf) awt fn this fu (set_handle this h (set_next awt nullptr s));
       Some (w, upd_fut f (Some fu') s') } }"

subsection \<open>Where the coroutine goes on\<close>

text \<open>The new thread has no active queue of coroutines.\<close>

definition fresh_thread :: "'w \<Rightarrow> 'w tls" where
  "fresh_thread w = \<lparr>active = False, cq = [], world = w\<rparr>"

definition parallel_thread :: "'w body \<Rightarrow> handle \<Rightarrow> 'w \<Rightarrow> 'w tls option" where
  "parallel_thread body h w = coro_resume body h (fresh_thread w)"

text \<open>
  \<open>parallel_resume\<close> moves the handles of the suspend point into a new thread, which resumes
  them with \<open>clear\<close>, under a queue of its own; the value stays with the caller.
\<close>

definition parallel_resume :: "sp \<Rightarrow> 'r \<Rightarrow> sp option \<times> sp \<times> 'r" where
  "parallel_resume spt val =
     (if \<not> sp_await_ready spt then (case sp_move spt of (moved, left) \<Rightarrow> (Some moved, left, val))
      else (None, spt, val))"

definition parallel_resume_thread ::
    "'w runner \<Rightarrow> sp \<Rightarrow> bufmem \<Rightarrow> 'w \<Rightarrow> (bufmem \<times> 'w tls) option" where
  "parallel_resume_thread run moved m w = do {
     (s', m', t) \<leftarrow> sp_suspend_now run moved m (fresh_thread w);
     sp_destroy run s' m' t }"

text \<open>\<open>co_await self()\<close> does not suspend; it gives a suspend point with the own handle.\<close>

definition self_await :: "handle \<Rightarrow> bool \<times> sp" where
  "self_await h = (False, sp_of_handle h)"

lemma self_await_rep: "\<not> fst (self_await h) \<and> (h \<noteq> 0 \<longrightarrow> sp_rep (snd (self_await h)) m [h])"
  by (simp add: self_await_def sp_of_handle_def inline_count_def)

subsection \<open>Properties\<close>

lemma upd_elsewhere_simps [simp]:
  "a_next (upd_elsewhere g s) = a_next s" "a_fn (upd_elsewhere g s) = a_fn s" "a_haddr (upd_elsewhere g s) = a_haddr s"
  "a_flag (upd_elsewhere g s) = a_flag s" "fut_at f (upd_elsewhere g s) = fut_at f s"
  "user (client (upd_elsewhere g s)) = g (user (client s))"
  by (simp_all add: upd_elsewhere_def fut_at_def)

text \<open>What an adapter's function does when a chain is resumed.\<close>

definition moved :: "resume_fn \<Rightarrow> handle \<Rightarrow> 'f elsewhere \<Rightarrow> 'f elsewhere" where
  "moved fn h u = (if fn = fn_parallel then u\<lparr>el_threads := el_threads u @ [[h]]\<rparr>
     else u\<lparr>el_pool := resume_spt [h] (el_pool u)\<rparr>)"

lemma adapter_resumes:
  assumes "fn = fn_parallel \<or> fn = fn_enqueue" and "a_fn s awt = fn" and "a_haddr s awt = this"
    and "a_fn s this = Fn_coro" and "a_haddr s this = h"
  shows "resume_awaiter (adapter_clients cl) awt s = ([], upd_elsewhere (moved fn h) s)"
  using assms
  by (auto simp: resume_awaiter_def adapter_clients_def fn_parallel_def fn_enqueue_def parallel_fn_def enqueue_fn_def
      perform_resume_def moved_def upd_elsewhere_def Let_def)

lemma chain_first:
  assumes "proper a" and "resume_awaiter cl a (set_next a nullptr w) = (hs, w')"
  shows "resume_chain_loop cl a ret w = resume_chain_loop cl (a_next w a) (ret @ hs) w'"
  using assms by (subst resume_chain_loop.simps) (simp add: Let_def)

text \<open>
  C29. A coroutine that awaits a pending future through \<open>parallel\<close> or through a thread pool is
  suspended, and the call that resolves the future does not resume it: it starts one thread for
  it, or hands it to the pool. The coroutines that waited before come back to the caller.
\<close>

theorem adapter_resumes_elsewhere:
  assumes aw: "awaited W {f} s" and fn: "fn = fn_parallel \<or> fn = fn_enqueue"
    and a: "proper awt" "awt \<notin> set (W f)" "this \<notin> set (W f)" "this \<noteq> awt"
  shows "\<exists>s1 s2. adapter_await sf fn this awt h f s = Some (True, s1) \<and>
    promise_call (adapter_clients cl) f x s1 = Some (handles_of s (W f), True, s2) \<and>
    fut_at f s2 = Some (stored x) \<and> user (client s2) = moved fn h (user (client s))"
proof -
  from aw obtain fu where fu: "f \<noteq> 0" "fut_at f s = Some fu" "Future.pending fu" "f_state fu = Not_value"
    "linked (a_next s) (f_awaiter fu) (W f) 0" "plain s (W f)" by (rule awaitedE) simp
  let ?s0 = "set_resume_fn awt fn this (set_handle this h (set_next awt nullptr s))"
  let ?fu = "fu\<lparr>f_awaiter := awt\<rparr>" and ?s1 = "upd_fut f (Some (fu\<lparr>f_awaiter := awt\<rparr>)) (set_next awt (f_awaiter fu) ?s0)"
  have nr: "\<not> fut_ready fu" using fu(3) by (simp add: fut_ready_def Future.pending_def)
  have await: "adapter_await sf fn this awt h f s = Some (True, ?s1)"
    using fu(2) nr by (simp add: adapter_await_def await_ready_def await_suspend_fn_def fut_ops_def fut_subscribe_result)
  obtain fu' where fu': "fut_set x ?fu = Some fu'" "fu'\<lparr>f_awaiter := awaiter_disabled\<rparr> = stored x" "f_awaiter fu' = awt"
    using fut_set_result [of ?fu x] fu(4) by auto
  let ?s2 = "upd_fut f (Some (stored x)) ?s1"
  let ?s3 = "upd_elsewhere (moved fn h) (set_next awt nullptr ?s2)"
  have "resume_awaiter (adapter_clients cl) awt (set_next awt nullptr ?s2) = ([], ?s3)"
    by (rule adapter_resumes [OF fn, where this = this]) (use a(4) in \<open>simp_all add: set_handle_def set_resume_fn_def\<close>)
  from chain_first [OF a(1) this, of "[]"] have
    "resume_chain_loop (adapter_clients cl) awt [] ?s2 = resume_chain_loop (adapter_clients cl) (f_awaiter fu) [] ?s3" by simp
  moreover have "linked (a_next ?s3) (f_awaiter fu) (W f) 0" using fu(5) a(2) by simp
  moreover have "plain ?s3 (W f)"
    using fu(6) a(2,3) by (auto simp: plain_def set_handle_def set_resume_fn_def)
  moreover have "handles_of ?s3 (W f) = handles_of s (W f)"
    using a(2,3) by (auto simp: handles_of_def set_handle_def set_resume_fn_def intro!: map_cong filter_cong)
  ultimately have "resume_chain_lk (adapter_clients cl) awt ?s2 = Some (handles_of s (W f), resumed (W f) ?s3)"
    using resume_chain_loop_plain [of ?s3 "f_awaiter fu" "W f" "adapter_clients cl" "[]"]
    by (simp add: resume_chain_lk_def)
  then have "fut_resolve (adapter_clients cl) f (upd_fut f (Some fu') ?s1) = Some (handles_of s (W f), resumed (W f) ?s3)"
    using fu' by (simp add: fut_resolve_def)
  then have "promise_call (adapter_clients cl) f x ?s1 = Some (handles_of s (W f), True, resumed (W f) ?s3)"
    using fu(1) fu'(1) by (simp add: promise_call_def)
  moreover have "fut_at f (resumed (W f) ?s3) = Some (stored x)" by simp
  moreover have "user (client (resumed (W f) ?s3)) = moved fn h (user (client s))"
    by (simp add: set_handle_def set_resume_fn_def upd_fut_def)
  ultimately show ?thesis using await by blast
qed

definition waiting_store :: "(nat, unit, nat) estore" where
  "waiting_store = \<lparr>a_next = \<lambda>_. 0, a_fn = \<lambda>_. Fn_coro, a_haddr = (\<lambda>_. 0)(20 := 120), a_flag = \<lambda>_. False,
     client = \<lparr>futs = [50 \<mapsto> fut_started\<lparr>f_awaiter := 20\<rparr>], proms = Map.empty,
       user = \<lparr>el_threads = [], el_pool = sample_pool 0\<rparr>\<rparr>\<rparr>"

theorem adapter_resumes_elsewhere_witness:
  "\<exists>s1 s2. adapter_await [True] fn_parallel 30 31 130 50 waiting_store = Some (True, s1) \<and>
    promise_call (adapter_clients (\<lambda>_ _ _ w. ([], w))) 50 (Arg_value 7) s1 = Some ([120], True, s2) \<and>
    el_threads (user (client s2)) = [[130]]"
proof -
  have "awaited (\<lambda>_. [20]) {50} waiting_store"
    by (simp add: awaited_def waiting_store_def fut_at_def fut_started_def Future.pending_def awaiter_instance_def
      awaiter_disabled_def plain_def proper_def)
  from adapter_resumes_elsewhere [OF this, of fn_parallel 31 30 "[True]" 130 "\<lambda>_ _ _ w. ([], w)" "Arg_value 7"] show ?thesis
    by (auto simp: proper_def handles_of_def waiting_store_def moved_def)
qed

text \<open>A stopped pool does not take the coroutine, which is lost; the queue takes it otherwise.\<close>

lemma pool_adapter:
  "el_pool (moved fn_enqueue h u) =
    (if p_exit (el_pool u) then el_pool u else (el_pool u)\<lparr>p_queue := p_queue (el_pool u) @ [Resuming h]\<rparr>)"
  by (simp add: moved_def fn_parallel_def fn_enqueue_def resume_spt.simps enqueue_def)

text \<open>
  The thread of \<open>parallel\<close> resumes the coroutine itself, without a queue: a coroutine that
  pauses there follows a null pointer.
\<close>

lemma parallel_pause_fails:
  assumes "body h (fresh_thread w) = map_option (\<lambda>(h', t). (t, Some h')) (pause_suspend h (fresh_thread w))"
  shows "parallel_thread body h w = None"
  using assms by (simp add: parallel_thread_def pause_suspend_def fresh_thread_def coro_resume_unfold)

text \<open>
  \<open>parallel_resume\<close>: nothing of the suspend point is resumed by the caller, which
  keeps an empty one; the thread resumes all its handles in their order under a queue and
  frees the array.
\<close>

lemma sp_suspend_now_clears: "sp_suspend_now run s m t = Some (s', m', t') \<Longrightarrow> count_flag s' = 0"
  by (auto simp: sp_suspend_now_def sp_clear_internal_def bind_eq_Some_conv split: if_splits sp_storage.splits)

lemma parallel_resume_moves:
  assumes rep: "sp_rep spt m hs" and ok: "mem_ok m" and ne: "hs \<noteq> []"
  shows "\<exists>mv left m'. parallel_resume spt v = (Some mv, left, v) \<and> sp_rep left m [] \<and> sp_owned left = {} \<and>
    parallel_resume_thread run mv m w =
      map_option (\<lambda>(_, t). (m', t)) (install_queue_and_call run (resume_all run hs) (fresh_thread w)) \<and>
    dom (bufs m') = dom (bufs m) - sp_owned spt"
proof -
  let ?run = "install_queue_and_call run (resume_all run hs) (fresh_thread w)"
  obtain s' m' where N: "sp_suspend_now run spt m (fresh_thread w) = map_option (\<lambda>t'. (s', m', t')) (map_option snd ?run)"
    "dom (bufs m') = dom (bufs m) - sp_owned spt"
    using sp_suspend_now_rep [OF rep ok, of run "fresh_thread w"] ne by (auto simp: fresh_thread_def)
  have "parallel_resume_thread run spt m w = map_option (\<lambda>(_, t). (m', t)) ?run"
  proof (cases ?run)
    case None
    then show ?thesis by (simp add: parallel_resume_thread_def N(1))
  next
    case (Some r)
    then have now: "sp_suspend_now run spt m (fresh_thread w) = Some (s', m', snd r)" using N(1) by simp
    from sp_suspend_now_clears [OF this] now Some show ?thesis
      by (simp add: parallel_resume_thread_def sp_destroy_def split_def)
  qed
  moreover have "parallel_resume spt v = (Some spt, snd (sp_move spt), v)"
    using sp_empty_rep [OF rep] ne by (simp add: parallel_resume_def sp_await_ready_def sp_move_def)
  ultimately show ?thesis using sp_move_rep [OF rep] N(2) by blast
qed

end
