(* ===== verification/Tests.thy ===== *)
theory Tests
  imports Suspend_Point Queue Async Callback_Awaiter Generator Generator_Aggregator Future_Access Future_Conv
begin

section \<open>Test programs of the repository\<close>

text \<open>
  Programs under \<open>tests/\<close>, written with the operations of the model and executed. A test
  gives the values its \<open>CHECK\<close> macros compare, or \<open>None\<close> if an operation fails. (The test
  \<open>cooperative_multitasking.cpp\<close> is in \<open>Coro_Queue\<close>, for any number of tasks.)
\<close>

declare coro_resume.simps [code] flush_queue.simps [code] resume_chain_loop.simps [code]
  agg_loop.simps [code]

definition no_client :: "'w client_fn" where
  "no_client = (\<lambda>_ _ _ s. ([], s))"

definition no_store :: "'u \<Rightarrow> ('v, unit, 'u) fstore" where
  "no_store u = \<lparr>a_next = \<lambda>_. 0, a_fn = \<lambda>_. Fn_coro, a_haddr = \<lambda>_. 0, a_flag = \<lambda>_. False,
     client = \<lparr>futs = Map.empty, proms = Map.empty, user = u\<rparr>\<rparr>"

subsection \<open>suspend\_point.cpp\<close>

text \<open>\<open>coro_test\<close> increments the counter, which is the world of the thread.\<close>

definition coro_test :: "nat body" where
  "coro_test h t = Some (t\<lparr>world := world t + 1\<rparr>, None)"

primrec detach_many :: "nat \<Rightarrow> sp \<Rightarrow> bufmem \<Rightarrow> (sp \<times> bufmem) option" where
  "detach_many 0 s m = Some (s, m)"
| "detach_many (Suc n) s m = do {
     (s1, _, m1) \<leftarrow> sp_merge s (sp_of_handle (100 + n)) m;
     detach_many n s1 m1 }"

text \<open>\<open>run_sp(std::move(sp1))\<close>: the parameter is cleared and destroyed.\<close>

definition run_sp :: "sp \<Rightarrow> bufmem \<Rightarrow> nat tls \<Rightarrow> (sp \<times> bufmem \<times> nat tls) option" where
  "run_sp sp1 m t = do {
     let (param, left) = sp_move sp1;
     (s, m1, t1) \<leftarrow> sp_suspend_now (coro_resume coro_test) param m t;
     (m2, t2) \<leftarrow> sp_destroy (coro_resume coro_test) s m1 t1;
     Some (left, m2, t2) }"

definition test_suspend_point :: "nat \<Rightarrow> nat \<Rightarrow> (nat \<times> nat) option" where
  "test_suspend_point n k = do {
     (s1, m1) \<leftarrow> detach_many n sp_default \<lparr>bufs = Map.empty, nextbuf = 1\<rparr>;
     (s2, m2, t2) \<leftarrow> run_sp s1 m1 \<lparr>active = False, cq = [], world = 0\<rparr>;
     (s3, m3) \<leftarrow> detach_many k s2 m2;
     (s4, m4, t4) \<leftarrow> run_sp s3 m3 t2;
     Some (world t2, world t4) }"

lemma detach_many_rep:
  assumes "sp_rep s m hs" and "mem_ok m" and "length hs + n \<le> max_handles"
  shows "\<exists>s' m' hs'. detach_many n s m = Some (s', m') \<and> sp_rep s' m' (hs @ hs') \<and> mem_ok m' \<and> length hs' = n"
  using assms
proof (induction n arbitrary: s m hs)
  case 0
  then show ?case by simp
next
  case (Suc n)
  have "sp_rep (sp_of_handle (100 + n)) m [100 + n]" "sp_owned (sp_of_handle (100 + n)) = {}"
    by (simp_all add: sp_of_handle_def inline_count_def sp_owned_def)
  then obtain s1 o1 m1 where 1: "sp_merge s (sp_of_handle (100 + n)) m = Some (s1, o1, m1)"
    "sp_rep s1 m1 (hs @ [100 + n])" "mem_ok m1"
    using sp_merge_rep [OF Suc.prems(1) _ Suc.prems(2), of "sp_of_handle (100 + n)" "[100 + n]"] Suc.prems(3) by auto
  then show ?case using Suc.IH [OF 1(2,3)] Suc.prems(3) by fastforce
qed

lemma coro_test_runs: "coro_resume coro_test h t = Some (t\<lparr>world := world t + 1\<rparr>)"
  by (subst coro_resume_unfold) (simp add: coro_test_def)

lemma coro_test_all: "resume_all (coro_resume coro_test) hs t = Some ((), t\<lparr>world := world t + length hs\<rparr>)"
  by (induction hs arbitrary: t) (simp_all add: coro_test_runs)

lemma run_sp_counts:
  assumes rep: "sp_rep s m hs" and ok: "mem_ok m"
  shows "\<exists>left m'. run_sp s m \<lparr>active = False, cq = [], world = c\<rparr> = Some (left, m', \<lparr>active = False, cq = [], world = c + length hs\<rparr>) \<and>
    sp_rep left m' [] \<and> mem_ok m'"
proof -
  let ?t = "\<lambda>c. \<lparr>active = False, cq = [], world = c\<rparr> :: nat tls" and ?run = "coro_resume coro_test"
  have "install_queue_and_call ?run (resume_all ?run hs) (?t c) = Some ((), ?t (c + length hs))"
    by (simp add: install_queue_and_call_def coro_test_all)
  then obtain s' m' where now: "sp_suspend_now ?run s m (?t c) = Some (s', m', ?t (c + length hs))" "sp_rep s' m' []"
    using sp_suspend_now_rep [OF rep ok, of ?run "?t c"] by (auto split: if_splits)
  then have cl: "sp_clear_internal s m = Some (s', m')"
    by (auto simp: sp_suspend_now_def bind_eq_Some_conv)
  then have "count_flag s' = 0" "mem_ok m'"
    using sp_clear_internal_empty [OF rep ok]
    by (auto simp: sp_clear_internal_def bind_eq_Some_conv split: if_splits sp_storage.splits)
  moreover have "sp_rep (s\<lparr>count_flag := 0\<rparr>) m' []"
    by (cases s; cases "storage s") (use rep in auto)
  ultimately show ?thesis
    using now(1) by (simp add: run_sp_def sp_move_def sp_destroy_def)
qed

subsection \<open>generator\_infinite.cpp, generator\_iterator.cpp\<close>

text \<open>The \<open>int\<close> of the tests, whose numbers are small, is not bounded here.\<close>

definition co_fib :: "(unit, int \<times> int, int, unit) gbody" where
  "co_fib inp = (\<lambda>(a, b). Co_yield (a + b) (b, a + b))"

definition co_fib2 :: "nat \<Rightarrow> (unit, nat \<times> int \<times> int, int, unit) gbody" where
  "co_fib2 cnt inp = (\<lambda>(i, a, b). if i < cnt then Co_yield (a + b) (i + 1, b, a + b) else Co_return)"

text \<open>
  \<open>auto val = gen()\<close> at 50, \<open>*val\<close>, and the end of \<open>val\<close>, \<open>n\<close> times; the generator is at 90. The
  reading of \<open>*val\<close> waits for the generator.
\<close>

primrec calls ::
    "nat \<Rightarrow> (unit, int \<times> int, int, unit) gen \<Rightarrow> (int, unit, 'u) fstore \<Rightarrow> (unit exc + int reference) list option" where
  "calls 0 g s = Some []"
| "calls (Suc n) g s = do {
     (thrown, hs, g1, s1) \<leftarrow> gen_call no_client co_fib 90 None 50 60 g s;
     (hs', g2, s2) \<leftarrow> settle no_client co_fib False 90 hs g1 s1;
     v \<leftarrow> fut_await_resume 50 s2;
     s3 \<leftarrow> fut_destroy 50 s2;
     vs \<leftarrow> calls n g2 s3;
     Some (v # vs) }"

primrec fibs :: "nat \<Rightarrow> int \<Rightarrow> int \<Rightarrow> int list" where
  "fibs 0 a b = []"
| "fibs (Suc n) a b = (a + b) # fibs n b (a + b)"

definition test_generator_infinite :: "nat \<Rightarrow> (int, unit, 'u) fstore \<Rightarrow> (unit exc + int reference) list option" where
  "test_generator_infinite n s = calls n (gen_new (0, 1)) (upd_prom 90 (Some nullptr) s)"

definition test_generator_iterator :: "nat \<Rightarrow> (int, unit, 'u) fstore \<Rightarrow> (int list \<times> unit exc option) option" where
  "test_generator_iterator n s = for_each no_client (co_fib2 n) 90 (gen_new (0, 0, 1)) (upd_prom 90 (Some nullptr) s)"

text \<open>The generators yield the Fibonacci numbers, as many as one asks for.\<close>

lemma stored_not_pending: "\<not> pending (stored x)"
  using stored_ready [of x] by (auto simp: pending_def fut_ready_def)

lemma result_value: "fut_value (stored (Arg_value v)) = Some (Inr (Own v))"
  using outcome_future_value [of "Got v b"] by simp

lemma calls_fibs:
  assumes "gen_idle g" and "g_coro g = At_start (a, b) \<or> g_coro g = At_yield (a, b)" and "prom_at 90 s = Some nullptr"
  shows "calls n g s = Some (map (Inr \<circ> Own) (fibs n a b))"
  using assms
proof (induction n arbitrary: g s a b)
  case (Suc n)
  have r: "gen_reaches co_fib False g (Got (a + b) (b, a + b))"
    using Suc.prems(2) by (auto simp: gen_reaches_def read_arg_def co_fib_def intro!: reaches.yields)
  obtain hs1 g1 s1 s2 where n: "next_future no_client co_fib False 90 50 60 g s = Some (None, hs1, g1, s1)"
    "settle no_client co_fib False 90 hs1 g1 s1 = Some ([], stepped (Got (a + b) (b, a + b)) (g_block g) g, s2)"
    "fut_at 50 s2 = Some (outcome_future (Got (a + b) (b, a + b)))" "prom_at 90 s2 = Some nullptr"
    using future_access [OF Suc.prems(1) r, of 90 s 50 60 no_client] Suc.prems(3) by (auto simp: proper_def)
  have "calls n (stepped (Got (a + b) (b, a + b)) (g_block g) g) (upd_fut 50 None s2) = Some (map (Inr \<circ> Own) (fibs n b (a + b)))"
    by (rule Suc.IH) (use Suc.prems(1) n(4) in \<open>simp_all add: stepped_got_idle, simp add: stepped_def yield_value_def\<close>)
  then show ?case
    using n by (simp add: gen_call_def with_arg_def fut_await_resume_def fut_destroy_def result_value stored_not_pending)
qed simp

lemma fib2_produces: "i \<le> n \<Longrightarrow> produces (co_fib2 n) (i, a, b) (fibs (n - i) a b) None"
proof (induction "n - i" arbitrary: i a b)
  case 0
  then show ?case by (auto simp: co_fib2_def intro!: produces.ends reaches.returns)
next
  case (Suc k)
  then have k: "n - i = Suc (n - Suc i)" by simp
  have "produces (co_fib2 n) (Suc i, b, a + b) (fibs (n - Suc i) b (a + b)) None" by (rule Suc.hyps(1)) (use Suc in auto)
  moreover have "reaches (co_fib2 n) False None None (i, a, b) (Got (a + b) (Suc i, b, a + b))"
    using k by (auto simp: co_fib2_def intro!: reaches.yields)
  ultimately show ?case by (simp add: k produces.gives)
qed

subsection \<open>future\_drop.cpp\<close>

text \<open>The function takes the promise and does nothing; its parameter is destroyed.\<close>

definition test_future_drop :: "(unit exc + int reference) option" where
  "test_future_drop = do {
     s \<leftarrow> fut_construct (\<lambda>p s. map_option snd (promise_destroy no_client p s)) 50 60 (no_store ());
     fu \<leftarrow> fut_at 50 s;
     fut_value fu }"

subsection \<open>async\_int.cpp\<close>

text \<open>The results; the variable \<open>test_var\<close>, which no operation of the header sees, is left out.\<close>

definition int_coro :: "int \<Rightarrow> (int, unit) acoro" where
  "int_coro x = acoro.Co_return x"

definition await_coro :: "int \<Rightarrow> (int, unit) acoro" where
  "await_coro x = Co_call (int_coro x) (\<lambda>r. case r of
     Inl e \<Rightarrow> acoro.Co_throw e
   | Inr (Own v) \<Rightarrow> acoro.Co_return v
   | Inr (At p) \<Rightarrow> acoro.Co_throw Value_not_ready)"

definition async_runner :: "(int, unit) astore runner" where
  "async_runner = coro_resume (async_body no_client (\<lambda>_. Some))"

text \<open>\<open>c.join()\<close> starts the coroutine and waits; the frame is at 4, its object at 3.\<close>

definition join :: "(int, unit) acoro \<Rightarrow> (unit exc + int reference) option" where
  "join c = do {
     let s = async_new 3 4 c (no_store \<lparr>frames = Map.empty, objs = Map.empty, free_from = 7\<rparr>);
     t \<leftarrow> async_start no_client async_runner 3 5 6 \<lparr>active = False, cq = [], world = s\<rparr>;
     (r, _) \<leftarrow> fut_wait [] False 7 5 (world t);
     r }"

text \<open>\<open>start\<close> with the promise of a future at 5, whose suspend point is thrown away; an object that is not started.\<close>

definition start_with_promise :: "int \<Rightarrow> (unit exc + int reference) option" where
  "start_with_promise x = do {
     let s = async_new 3 4 (int_coro x) (upd_fut 5 (Some fut_default) (no_store \<lparr>frames = Map.empty, objs = Map.empty, free_from = 7\<rparr>));
     s1 \<leftarrow> get_promise 5 6 s;
     (hs, _, s2) \<leftarrow> async_start_on 3 6 s1;
     t \<leftarrow> discard_handles async_runner hs \<lparr>active = False, cq = [], world = s2\<rparr>;
     fut_await_resume 5 (world t) }"

definition not_started :: "int \<Rightarrow> bool option" where
  "not_started x =
     map_option (\<lambda>s. frame_at 4 s = None)
       (async_destroy 3 (async_new 3 4 (int_coro x) (no_store \<lparr>frames = Map.empty, objs = Map.empty, free_from = 7\<rparr>)))"

subsection \<open>queue\_block\_read.cpp\<close>

text \<open>
  The coroutine with the handle 4 awaits each \<open>pop\<close> with its awaiter at 20; the destruction
  of the queue destroys the promises that wait in it.
\<close>

type_synonym test_queue = "(int list, ptr list) queue"
type_synonym test_store = "(int, unit, unit) fstore"

definition pop_await :: "ptr \<Rightarrow> test_queue \<Rightarrow> test_store \<Rightarrow> (bool \<times> test_queue \<times> test_store) option" where
  "pop_await f q s = do {
     (_, q1, s1) \<leftarrow> q_pop std_queue std_queue no_client f q s;
     fu \<leftarrow> fut_at f s1;
     (w, fu1, s2) \<leftarrow> co_await (fut_ops []) 20 4 fu s1;
     Some (w, q1, upd_fut f (Some fu1) s2) }"

definition push_resumes :: "int \<Rightarrow> test_queue \<Rightarrow> test_store \<Rightarrow> (handle list \<times> test_queue \<times> test_store) option" where
  "push_resumes x q s = do {
     (r, q1, s1) \<leftarrow> q_push std_queue std_queue no_client x q s;
     case r of Inl e \<Rightarrow> None | Inr (hs, _) \<Rightarrow> Some (hs, q1, s1) }"

primrec drop_all :: "ptr list \<Rightarrow> test_store \<Rightarrow> (handle list \<times> test_store) option" where
  "drop_all [] s = Some ([], s)"
| "drop_all (f # fs) s = do {
     (hs, s1) \<leftarrow> fut_resolve no_client f s;
     (hs', s2) \<leftarrow> drop_all fs s1;
     Some (hs @ hs', s2) }"

definition test_queue_block_read ::
    "(bool list \<times> handle list list \<times> (unit exc + int reference) list) option" where
  "test_queue_block_read = do {
     (w1, q1, s1) \<leftarrow> pop_await 50 \<lparr>q_items = [], q_awaiters = []\<rparr> (no_store ());
     (h1, q2, s2) \<leftarrow> push_resumes 10 q1 s1;
     v1 \<leftarrow> fut_await_resume 50 s2;
     (w2, q3, s3) \<leftarrow> pop_await 51 q2 s2;
     (h2, q4, s4) \<leftarrow> push_resumes 20 q3 s3;
     v2 \<leftarrow> fut_await_resume 51 s4;
     (w3, q5, s5) \<leftarrow> pop_await 52 q4 s4;
     (h3, s6) \<leftarrow> drop_all (q_awaiters q5) s5;
     v3 \<leftarrow> fut_await_resume 52 s6;
     Some ([w1, w2, w3], [h1, h2, h3], [v1, v2, v3]) }"

subsection \<open>generator\_aggregator.cpp\<close>

text \<open>Synchronous generators answer when they are asked; \<open>(n, a, b)\<close> is a \<open>co_fib\<close> with \<open>n\<close> items left.\<close>

definition fib_answer :: "nat \<times> int \<times> int \<Rightarrow> (int, unit) gstat" where
  "fib_answer = (\<lambda>(n, a, b). if n = 0 then G_done else G_value (a + b))"

definition fib_next :: "nat \<times> int \<times> int \<Rightarrow> nat \<times> int \<times> int" where
  "fib_next = (\<lambda>(n, a, b). (n - 1, b, a + b))"

text \<open>The loop of \<open>main\<close>: the values that were yielded until the aggregator ends.\<close>

primrec drain_calls :: "nat \<Rightarrow> (nat \<times> int \<times> int) list \<Rightarrow> (unit, int, unit) aggr \<Rightarrow> int list option" where
  "drain_calls 0 gs s = None"
| "drain_calls (Suc n) gs s =
     (case ag_cur s of
        None \<Rightarrow> if ag_end s = Some None then Some [] else None
      | Some i \<Rightarrow> (case ag_gens s ! i of
            G_value v \<Rightarrow> do {
              let gs' = gs[i := fib_next (gs ! i)];
              s' \<leftarrow> agg_next () (Some (fib_answer (gs' ! i))) s;
              vs \<leftarrow> drain_calls n gs' s';
              Some (v # vs) }
          | _ \<Rightarrow> None))"

definition test_generator_aggregator :: "int list option" where
  "test_generator_aggregator = do {
     let gs = [(5, 0, 1), (10, 0, 1), (15, 0, 1)];
     s \<leftarrow> agg_start () (map (Some \<circ> fib_answer) gs);
     drain_calls 31 gs s }"

subsection \<open>future\_conv.cpp\<close>

text \<open>
  The object is at 10, its future at 11, its promise at 12; \<open>work()\<close> moves the promise of the
  future at 11 to a thread, where it is at 60 and is set to 42 later.
\<close>

definition work :: "ptr \<Rightarrow> (int, unit, int) cvstore \<Rightarrow> (unit exc option \<times> (int, unit, int) cvstore) option" where
  "work f s = map_option (Pair None) (fut_construct (\<lambda>_. Some) f 60 s)"

definition conv_fn :: "int \<Rightarrow> int reference \<Rightarrow> (int, unit, int) cvstore \<Rightarrow> (unit exc + int) \<times> (int, unit, int) cvstore" where
  "conv_fn x v s = (case v of Own src \<Rightarrow> (Inr (src + x), s) | At p \<Rightarrow> (Inl Value_not_ready, s))"

definition conv_fn2 :: "int reference \<Rightarrow> (int, unit, int) cvstore \<Rightarrow> (unit exc + int) \<times> (int, unit, int) cvstore" where
  "conv_fn2 v s = (case v of Own x \<Rightarrow> (Inr (x * 2), s) | At p \<Rightarrow> (Inl Value_not_ready, s))"

definition converted ::
    "(ptr \<Rightarrow> (int, unit, int) cvstore \<Rightarrow> (handle list \<times> (int, unit, int) cvstore) option) \<Rightarrow> int \<Rightarrow>
      (bool \<times> (unit exc + int reference)) option" where
  "converted w x = do {
     let cl = conv_clients w no_client;
     (_, s1) \<leftarrow> conv_from [] cl work 10 11 12 13 50 61 (conv_init 10 11 12 0 (no_store \<lparr>cv_failed = False, cv_ctx = x\<rparr>));
     (hs, ok, s2) \<leftarrow> promise_set cl 60 (Arg_value 42) s1;
     v \<leftarrow> fut_await_resume 50 s2;
     Some (ok, v) }"

definition cofn1 :: "(bool \<times> (unit exc + int reference)) option" where
  "cofn1 = converted (conv_member no_client (\<lambda>ctx v s. conv_fn (cv_ctx (cvu s)) v s) 11 12 14) 22"

definition cofn2 :: "(bool \<times> (unit exc + int reference)) option" where
  "cofn2 = converted (conv_free no_client conv_fn2 11 12 14) 0"

subsection \<open>callback\_awaiter.cpp\<close>

text \<open>
  \<open>work()\<close> is the future at 50, with its promise at 60 in a thread; \<open>fut\<close> is at 51 and its
  promise, which the callback has, at 61.
\<close>

definition set_promise :: "(int reference, unit, (int, unit, unit) fstore) callback" where
  "set_promise cur value s =
     map_option (\<lambda>(_, _, s'). (None, s'))
       (case ar_get cur value of
          Some (Inr (Own v)) \<Rightarrow> promise_set no_client 61 (Arg_value v) s
        | Some (Inl e) \<Rightarrow> promise_set no_client 61 (Arg_exc e) s
        | _ \<Rightarrow> None)"

definition test_callback_awaiter :: "(bool \<times> handle list \<times> (unit exc + int reference)) option" where
  "test_callback_awaiter = do {
     s0 \<leftarrow> fut_construct (\<lambda>_. Some) 51 61 (no_store ());
     s1 \<leftarrow> fut_construct (\<lambda>_. Some) 50 60 s0;
     (susp, s2) \<leftarrow> callback_begin [] set_promise 50 20 4 s1;
     (hs, _, s3) \<leftarrow> promise_set no_client 60 (Arg_value 42) s2;
     s4 \<leftarrow> callback_end set_promise 50 s3;
     v \<leftarrow> fut_await_resume 51 s4;
     Some (susp, hs, v) }"

subsection \<open>Results\<close>

lemma suspend_point_passes:
  assumes "n \<le> max_handles" and "k \<le> max_handles"
  shows "test_suspend_point n k = Some (n, n + k)"
proof -
  obtain s1 m1 hs where 1: "detach_many n sp_default \<lparr>bufs = Map.empty, nextbuf = 1\<rparr> = Some (s1, m1)"
    "sp_rep s1 m1 hs" "mem_ok m1" "length hs = n"
    using detach_many_rep [of sp_default "\<lparr>bufs = Map.empty, nextbuf = 1\<rparr>" "[]" n] assms(1)
    by (auto simp: sp_default_def inline_count_def mem_ok_def)
  obtain s2 m2 where 2: "run_sp s1 m1 \<lparr>active = False, cq = [], world = 0\<rparr> =
      Some (s2, m2, \<lparr>active = False, cq = [], world = n\<rparr>)" "sp_rep s2 m2 []" "mem_ok m2"
    using run_sp_counts [OF 1(2,3), of 0] 1(4) by auto
  obtain s3 m3 ks where 3: "detach_many k s2 m2 = Some (s3, m3)" "sp_rep s3 m3 ks" "mem_ok m3" "length ks = k"
    using detach_many_rep [OF 2(2,3), of k] assms(2) by auto
  then show ?thesis
    using 1(1) 2(1) run_sp_counts [OF 3(2,3), of n] by (auto simp: test_suspend_point_def)
qed

lemma ten_fibs: "fibs 10 0 1 = [1, 2, 3, 5, 8, 13, 21, 34, 55, 89]"
  by code_simp

lemma generator_infinite_passes: "test_generator_infinite n s = Some (map (Inr \<circ> Own) (fibs n 0 1))"
  by (simp add: test_generator_infinite_def calls_fibs gen_idle_def gen_new_def)

lemma generator_iterator_passes: "test_generator_iterator n s = Some (fibs n 0 1, None)"
  unfolding test_generator_iterator_def by (rule generator_for_each) (use fib2_produces [of 0 n] in \<open>simp_all add: proper_def\<close>)

lemma future_drop_passes: "test_future_drop = Some (Inl Await_canceled)"
  by code_simp

lemma async_int_passes: "map join [int_coro 2, int_coro 3, await_coro 4] = [Some (Inr (Own 2)), Some (Inr (Own 3)), Some (Inr (Own 4))]"
  by code_simp

lemma async_start_passes: "start_with_promise 5 = Some (Inr (Own 5))" "not_started 6 = Some True"
  by code_simp+

lemma callback_awaiter_passes: "test_callback_awaiter = Some (True, [4], Inr (Own 42))"
  by code_simp

lemma queue_block_read_passes:
  "test_queue_block_read = Some ([True, True, True], [[4], [4], [4]], [Inr (Own 10), Inr (Own 20), Inl Await_canceled])"
  by code_simp

lemma generator_aggregator_passes:
  "test_generator_aggregator = Some [1, 1, 1, 2, 2, 2, 3, 3, 3, 5, 5, 5, 8, 8, 8, 13, 13, 21, 21, 34, 34, 55, 55,
     89, 89, 144, 233, 377, 610, 987]"
  by code_simp

lemma future_conv_passes: "cofn1 = Some (True, Inr (Own 64))" "cofn2 = Some (True, Inr (Own 84))"
  by code_simp+

end
