(* ===== verification/Spec2Isabelle.thy ===== *)
theory Spec2Isabelle
  imports Suspend_Point Mutex_Threads Future_Threads Queue Scheduler_Threads Scheduler_Start Scheduler_Interval Scheduler_Pool Publisher Signal Thread_Pool Coro_Storage Generator Shared_Future Async
    Future_Access Future_Conv Generator_Aggregator Function Resume Tests
begin

text \<open>
  This is a verification of cocls, a library of C++20 headers for coroutines
  (\<open>src/cocls/*.h\<close>): futures and promises, coroutines that resolve them, generators, a mutex,
  queues, timers, a publisher, signals and a thread pool, all built on intrusive chains of
  awaiters and on a queue of ready coroutines per thread.

  \<^bold>\<open>How the code becomes definitions.\<close> A header has a theory. A class is a record of its
  members, an enumeration or a union a datatype, a member function a definition with the state
  as a last argument and in its result. A pointer is a natural number (null is 0) and a handle
  of a coroutine the address of its frame; \<open>std::size_t\<close> and the 32-bit counter of a suspend
  point are words. What a coroutine or a callback of the client does is a parameter. Atomic
  exchanges are single steps, and a weak compare-exchange may fail at any of its tries, which
  a list of booleans says. An operation that follows a null or dangling pointer, violates an
  assertion, leaves the bounds of an array or does not come back is \<open>None\<close>; the theorems
  that give \<open>Some\<close> exclude that. An exception that is thrown is a value (the type \<open>exc\<close>).

  \<^bold>\<open>The theories, from the bottom up.\<close>

  \<^item> \<open>Prelude\<close>: pointers, exceptions (\<open>exceptions.h\<close>), lists linked by a \<open>_next\<close> field.
  \<^item> \<open>Coro_Queue\<close> (\<open>coro_queue.h\<close>): the queue of a thread, \<open>pause\<close>, \<open>create_suspend_point\<close>.
    The loop that flushes the queue, in a number of rounds; a test of the repository is executed.
  \<^item> \<open>Suspend_Point\<close> (\<open>suspend_point.h\<close>): a list of handles, three in place or an array on the
    heap. The representation implements the list, within all bounds and without leaks.
  \<^item> \<open>Awaiter\<close> (\<open>awaiter.h\<close>): subscription to a chain and its resumption; the contract of what
    can be awaited is the locale \<open>awaitable\<close>, which \<open>Mutex\<close> and \<open>Future\<close> interpret.
  \<^item> \<open>Mutex\<close> (\<open>mutex.h\<close>): the two lists of requests refine an abstract lock with a first-come
    queue; exclusion, order, and no failure in all runs of whole operations.
  \<^item> \<open>Threads\<close>, \<open>Mutex_Threads\<close>: the same mutex with the threads interleaved between any two
    of their atomic accesses, as a step relation. One client owns it at a time and no step
    fails, as long as \<open>subscribe\<close> reads its successor before another thread writes it;
    without that two clients own it, which is a theorem as well.
  \<^item> \<open>Future\<close> and \<open>Future_Access\<close> (\<open>future.h\<close>): the states of a future, promises, callbacks;
    blocking access and promises with a default. A future is set at most once, by the one
    promise that points to it, and each awaiter is resumed once; a run of a client fails exactly
    when it violates one of the two assertions on the lifetime of a future.
  \<^item> \<open>Future_Threads\<close>: threads that await a future and race for its promise, interleaved in
    the same way. All of them see the value of the one winner, and none sleeps on.
  \<^item> \<open>Future_Conv\<close> (\<open>future_conv.h\<close>), \<open>Shared_Future\<close> (\<open>shared_future.h\<close>): conversions, and
    the lifetime of a shared state.
  \<^item> \<open>Async\<close> (\<open>async.h\<close>): coroutine frames in the world of \<open>Coro_Queue\<close>. A tree of coroutines
    that await each other computes what the calls would, whatever is detached on the way, and
    the queue with the detached ones is empty after as many rounds as there are of them.
  \<^item> \<open>Queue\<close> (\<open>queue.h\<close>): items and waiting consumers over the locale \<open>container\<close>; first in,
    first out for items and consumers in all runs.
  \<^item> \<open>Std_Heap\<close>, \<open>Scheduler\<close> (\<open>scheduler.h\<close>): the locale of \<open>std::push_heap\<close> and
    \<open>std::pop_heap\<close> with an executable instance; sleeps end in time order and never early.
  \<^item> \<open>Scheduler_Threads\<close>: the worker \<open>worker_coro\<close> in a thread of its own, with its condition
    variable, the stop flag and the destructor, interleaved with threads that schedule and cancel.
    The worker is never asleep past a timer it should serve, and a stop is answered, except
    for a notification that the destructor may lose, which is a theorem as well.
  \<^item> \<open>Scheduler_Interval\<close>: the generator of \<open>scheduler::interval\<close> beside any other users of
    the scheduler and of its stop token; its ticks are numbered and come at least the duration
    apart, and a stop deadlocks while the generator is in use.
  \<^item> \<open>Scheduler_Pool\<close>: the worker as a guest of a thread pool, interleaved with the steps of
    \<open>Thread_Pool\<close>. It is in one place at a time; it may starve what is queued behind it, which
    is a theorem as well.
  \<^item> \<open>Callback_Awaiter\<close> (\<open>callback_awaiter.h\<close>), \<open>Scheduler_Start\<close>: a callback that awaits, and
    with it \<open>scheduler::start\<close>, which runs the timers and the queue of the current thread until
    a given future is resolved; it comes back with what the future holds.
  \<^item> \<open>Publisher\<close> (\<open>publisher.h\<close>), \<open>Signal\<close> (\<open>signal.h\<close>): one to many, with and without a
    history. A subscriber of all values sees all of them, in order, in all interleavings of the
    three steps of a read; one that is interrupted by the closing may see a value twice.
  \<^item> \<open>Thread_Pool\<close> (\<open>thread_pool.h\<close>): workers and calls of \<open>stop\<close> as a step relation.
  \<^item> \<open>Coro_Storage\<close> (\<open>coro_storage.h\<close>, \<open>alloca_storage.h\<close>, \<open>with_allocator.h\<close>): the storages
    of coroutine frames implement the locale \<open>frame_storage\<close>.
  \<^item> \<open>Generator\<close> (\<open>generator.h\<close>, \<open>iterator.h\<close>): the three ways to ask a generator agree.
  \<^item> \<open>Generator_Aggregator\<close> (\<open>generator_aggregator.h\<close>): many generators as one, over what
    \<open>Queue\<close> and \<open>Generator\<close> show of their interfaces; no value is lost, and it never waits in vain.
  \<^item> \<open>Function\<close> (\<open>function.h\<close>): a closure in a buffer or on the heap. Moves, calls and
    destructions of functions of one type refine variables that hold closures; none is leaked or
    destroyed twice.
  \<^item> \<open>Resume\<close> (\<open>resume.h\<close>, \<open>self.h\<close>, the adapter of \<open>thread_pool.h\<close>): a coroutine that awaits
    through an adapter goes on in a thread of its own or in a pool.
  \<^item> \<open>Tests\<close> (\<open>tests/*.cpp\<close>): test programs of the repository, executed on the model.

  \<^bold>\<open>Interaction.\<close> The store of futures (\<open>fstore\<close>) is the client part of the awaiters' world
  (\<open>aworld\<close>); the components that hold promises (\<open>Queue\<close>, \<open>Scheduler\<close>, \<open>Generator\<close>,
  \<open>Shared_Future\<close>, \<open>Future_Conv\<close>, \<open>Async\<close>) extend this store or work on it, and use it
  through \<open>promise_call\<close>, \<open>fut_resolve\<close> and the invariant \<open>awaited\<close>. The functions that a
  resumption calls are numbered (\<open>Fn_client\<close>), and a component gives the meaning of its
  numbers. Handles that a resumption yields are part of a result until a suspend point
  schedules them.

  \<^bold>\<open>Termination and bounds.\<close> There is no fuel where the code has none: loops are recursive
  functions with a measure, or partial functions whose totality under the invariant is part
  of a theorem. Suspend points hold fewer handles than their counter can count, and the
  positions of the publisher do not wrap around; both are hypotheses that say so.

  \<^bold>\<open>Atomicity.\<close> Operations that hold a lock, and the lock-free operations as a whole, are
  single steps, which threads may take in any order; an operation that takes its lock several
  times, like an awaited read of a subscriber, is several of them. A thread that waits for a
  condition variable of the pool goes on when its predicate holds, so a notification that is
  missing in \<open>thread_pool.h\<close> would not be seen; those of the scheduler are modelled. The instants between two atomic accesses
  of the lock-free operations of the mutex and of the future are those of \<open>Mutex_Threads\<close> and
  \<open>Future_Threads\<close>, and those between the locks and waits of a scheduler's worker are those of
  \<open>Scheduler_Threads\<close> and \<open>Scheduler_Pool\<close>. Memory is sequentially consistent in all of them.

  \<^bold>\<open>Not modelled.\<close> \<open>generics.h\<close>, which chooses overloads at compile time; \<open>immediately\<close> of
  \<open>resume.h\<close>, whose function does not have the type of a resumption, and other members that
  call functions the library does not have; the branches for other compilers; the orders of
  memory accesses; the examples, and the tests that need real threads or time.
\<close>

end
